(* ===== verification/Zeebo_Prelude.thy ===== *)
theory Zeebo_Prelude
  imports Main "HOL-Library.Word"
begin

text \<open>
  The vocabulary the components share: the fixed-width integer types of the sources, little-endian
  packing of 32-bit words into bytes, in-place update of a byte array, bit tests written the way
  the sources write them (\<open>x & (1u << n)\<close>), and the \<open>named_theorems\<close> collections the component
  proofs extend. The last section states word-addressed memory as a locale, so that a client of a
  byte array (the ProcComm block, the NAND page buffer) reasons with the read-after-write laws.
\<close>

unbundle bit_operations_syntax

type_synonym u8 = "8 word"
type_synonym u16 = "16 word"
type_synonym u32 = "32 word"
type_synonym u64 = "64 word"

named_theorems bit_simps \<open>bits of masks, shifts and updates\<close>
named_theorems byte_simps \<open>reading and writing byte arrays\<close>

section \<open>Bits\<close>

text \<open>The mask \<open>1u << n\<close> of the sources.\<close>

abbreviation bit_mask :: "nat \<Rightarrow> 'a::len word" where
  "bit_mask n \<equiv> push_bit n 1"

lemma bit_exp_word [bit_simps]: "bit (2 ^ n :: 'a::len word) m \<longleftrightarrow> m = n \<and> n < LENGTH('a)"
  by (auto simp: bit_exp_iff)

lemma and_exp_eq_0 [bit_simps]: "(x :: 'a::len word) AND 2 ^ n = 0 \<longleftrightarrow> \<not> bit x n"
  by (rule and_exp_eq_0_iff_not_bit)

lemma bit_clear [bit_simps]:
  "bit ((x :: 'a::len word) AND NOT y) m \<longleftrightarrow> bit x m \<and> \<not> bit y m"
  by (auto simp: bit_and_iff bit_not_iff dest: bit_imp_le_length)

lemma word_eq_0_iff_bits: "(x :: 'a::len word) = 0 \<longleftrightarrow> (\<forall>n < LENGTH('a). \<not> bit x n)"
  by (auto simp: bit_word_eqI)

lemmas [bit_simps] = bit_and_iff bit_or_iff bit_not_iff

section \<open>Ranges\<close>

lemma unat_less_u32: "unat (x :: u32) < 2 ^ 32"
  using unsigned_less [of x] by simp

lemma unat_less_u64: "unat (x :: u64) < 2 ^ 64"
  using unsigned_less [of x] by simp

lemma unat_ucast_u32 [simp]: "unat (ucast (a::u32) :: u64) = unat a"
  using unat_less_u32 [of a] by (simp add: unsigned_ucast_eq take_bit_nat_eq_self)

lemma drop_bit_eq_0_iff_less: "drop_bit n (x :: 'a::len word) = 0 \<longleftrightarrow> unat x < 2 ^ n"
proof -
  have "drop_bit n x = 0 \<longleftrightarrow> drop_bit n (unat x) = 0"
    by (metis unat_drop_bit_eq unat_eq_zero)
  then show ?thesis
    by (simp add: take_bit_eq_self_iff_drop_bit_eq_0 [symmetric] take_bit_nat_eq_self_iff)
qed

lemma word_less_exp_iff: "unat (x :: 'a::len word) < 2 ^ n \<longleftrightarrow> (\<forall>k. n \<le> k \<longrightarrow> \<not> bit x k)"
proof -
  have "drop_bit n x = 0 \<longleftrightarrow> (\<forall>k. \<not> bit x (n + k))"
    by (auto simp: word_eq_0_iff_bits bit_drop_bit_eq)
       (metis add_lessD1 add.commute bit_imp_le_length)
  then show ?thesis by (simp add: drop_bit_eq_0_iff_less) (metis le_iff_add)
qed

text \<open>Rounding down to a multiple of a power of two.\<close>

lemma unat_clear_low: "unat ((x::'a::len word) AND NOT (mask k)) = unat x div 2 ^ k * 2 ^ k"
proof -
  have e: "x AND NOT (mask k) = push_bit k (drop_bit k x)"
    by (auto simp: bit_eq_iff bit_and_iff bit_not_iff bit_mask_iff bit_push_bit_iff bit_drop_bit_eq)
  have "unat x div 2 ^ k * 2 ^ k < 2 ^ LENGTH('a)"
    by (rule le_less_trans [OF div_times_less_eq_dividend unsigned_less])
  moreover have "unat (push_bit k (drop_bit k x)) = take_bit LENGTH('a) (unat x div 2 ^ k * 2 ^ k)"
    unfolding unsigned_push_bit_eq unat_drop_bit_eq unfolding push_bit_eq_mult drop_bit_eq_div ..
  ultimately show ?thesis unfolding e by (simp only: take_bit_nat_eq_self)
qed

section \<open>Little-endian words\<close>

definition le32_bytes :: "u32 \<Rightarrow> u8 list" where
  "le32_bytes w = [ucast w, ucast (drop_bit 8 w), ucast (drop_bit 16 w), ucast (drop_bit 24 w)]"

definition le32 :: "u8 \<Rightarrow> u8 \<Rightarrow> u8 \<Rightarrow> u8 \<Rightarrow> u32" where
  "le32 a b c d =
     ucast a OR push_bit 8 (ucast b) OR push_bit 16 (ucast c) OR push_bit 24 (ucast d)"

text \<open>Four bytes of an array from position \<open>i\<close>, as a word.\<close>

definition rd32 :: "u8 list \<Rightarrow> nat \<Rightarrow> u32" where
  "rd32 xs i = le32 (xs ! i) (xs ! (i + 1)) (xs ! (i + 2)) (xs ! (i + 3))"

lemma length_le32_bytes [simp]: "length (le32_bytes w) = 4"
  by (simp add: le32_bytes_def)

lemma bit_le32:
  "bit (le32 a b c d) n \<longleftrightarrow>
     (if n < 8 then bit a n else if n < 16 then bit b (n - 8)
      else if n < 24 then bit c (n - 16) else bit d (n - 24))"
  unfolding le32_def
  by (auto simp: bit_simps bit_push_bit_iff bit_ucast_iff dest: bit_imp_le_length)

lemma le32_le32_bytes [byte_simps]:
  "le32 (ucast w) (ucast (drop_bit 8 w)) (ucast (drop_bit 16 w)) (ucast (drop_bit 24 w)) = w"
  by (rule bit_word_eqI) (auto simp: bit_le32 bit_ucast_iff bit_drop_bit_eq)

lemma le32_bytes_le32 [byte_simps]: "le32_bytes (le32 a b c d) = [a, b, c, d]"
  unfolding le32_bytes_def
  by (auto intro!: bit_word_eqI simp: bit_le32 bit_ucast_iff bit_drop_bit_eq)

section \<open>Byte arrays\<close>

text \<open>\<open>memcpy (xs + i, bs, length bs)\<close> into an array that holds \<open>i + length bs\<close> bytes.\<close>

definition put_bytes :: "u8 list \<Rightarrow> nat \<Rightarrow> u8 list \<Rightarrow> u8 list" where
  "put_bytes xs i bs = take i xs @ bs @ drop (i + length bs) xs"

definition wr32 :: "u8 list \<Rightarrow> nat \<Rightarrow> u32 \<Rightarrow> u8 list" where
  "wr32 xs i w = put_bytes xs i (le32_bytes w)"

lemma length_put_bytes [simp]:
  "i + length bs \<le> length xs \<Longrightarrow> length (put_bytes xs i bs) = length xs"
  by (simp add: put_bytes_def)

lemma length_wr32 [simp]: "i + 4 \<le> length xs \<Longrightarrow> length (wr32 xs i w) = length xs"
  by (simp add: wr32_def)

lemma put_bytes_nth:
  "i + length bs \<le> length xs \<Longrightarrow>
   put_bytes xs i bs ! j = (if i \<le> j \<and> j < i + length bs then bs ! (j - i) else xs ! j)"
  by (auto simp: put_bytes_def nth_append)

lemma rd32_wr32_same [byte_simps]: "i + 4 \<le> length xs \<Longrightarrow> rd32 (wr32 xs i w) i = w"
  by (simp add: rd32_def wr32_def put_bytes_nth)
     (simp add: le32_bytes_def byte_simps)

lemma rd32_wr32_other [byte_simps]:
  "i + 4 \<le> length xs \<Longrightarrow> i + 4 \<le> j \<or> j + 4 \<le> i \<Longrightarrow> rd32 (wr32 xs i w) j = rd32 xs j"
  by (auto simp: rd32_def wr32_def put_bytes_nth)

lemma wr32_frame: "i + 4 \<le> length xs \<Longrightarrow> j < i \<or> i + 4 \<le> j \<Longrightarrow> wr32 xs i w ! j = xs ! j"
  by (auto simp: wr32_def put_bytes_nth)

section \<open>Word-addressed storage\<close>

text \<open>
  What a client of a store of independent words relies on. \<open>slot m a\<close> says that \<open>a\<close> names a word of
  the store \<open>m\<close> and that distinct names do not overlap. A list of writes is then read back as an
  association list.
\<close>

locale word_mem =
  fixes rd :: "'a \<Rightarrow> 'm \<Rightarrow> 'v"
    and wr :: "'a \<Rightarrow> 'v \<Rightarrow> 'm \<Rightarrow> 'm"
    and slot :: "'m \<Rightarrow> 'a \<Rightarrow> bool"
  assumes slot_wr: "slot m a \<Longrightarrow> slot (wr a v m) b = slot m b"
    and rd_wr_same: "slot m a \<Longrightarrow> rd a (wr a v m) = v"
    and rd_wr_other: "slot m a \<Longrightarrow> slot m b \<Longrightarrow> a \<noteq> b \<Longrightarrow> rd b (wr a v m) = rd b m"
begin

lemma slot_writes:
  "\<forall>(a, v) \<in> set ws. slot m a \<Longrightarrow> slot (fold (\<lambda>(a, v). wr a v) ws m) b = slot m b"
  by (induction ws arbitrary: m) (auto simp: slot_wr)

lemma rd_writes:
  assumes "\<forall>(a, v) \<in> set ws. slot m a" "slot m b"
  shows "rd b (fold (\<lambda>(a, v). wr a v) ws m) =
    (case map_of (rev ws) b of None \<Rightarrow> rd b m | Some v \<Rightarrow> v)"
  using assms
proof (induction ws rule: rev_induct)
  case (snoc x ws)
  obtain a v where x: "x = (a, v)" by fastforce
  let ?m = "fold (\<lambda>(a, v). wr a v) ws m"
  have "slot ?m a" "slot ?m b" using snoc.prems x slot_writes [of ws m] by auto
  with snoc x show ?case by (cases "a = b") (auto simp: rd_wr_same rd_wr_other)
qed simp

end

end
