(* ===== verification/Machine_Runs.thy ===== *)
theory Machine_Runs
  imports Main
begin

text \<open>
  Contracts that several components share. A component is a step function \<open>step e s\<close> on its
  state; a run is a \<open>fold\<close> over a list of events. \<open>machine_inv\<close> lifts an invariant from one step
  to a run; \<open>latch\<close> states that a condition, once true, stays true until an event that releases
  it (a line in service until it is retired, a command pending until the modem serves it, a timer
  disarmed until it is re-armed). The components interpret both on their own operations.
\<close>

locale machine_inv =
  fixes step :: "'e \<Rightarrow> 's \<Rightarrow> 's"
    and inv :: "'s \<Rightarrow> bool"
  assumes inv_step: "inv s \<Longrightarrow> inv (step e s)"
begin

lemma inv_run: "inv s \<Longrightarrow> inv (fold step es s)"
  by (induction es arbitrary: s) (auto intro: inv_step)

end

locale latch = machine_inv +
  fixes held :: "'s \<Rightarrow> bool"
    and releases :: "'e \<Rightarrow> bool"
  assumes held_step: "inv s \<Longrightarrow> held s \<Longrightarrow> \<not> releases e \<Longrightarrow> held (step e s)"
begin

lemma held_run:
  "inv s \<Longrightarrow> held s \<Longrightarrow> \<forall>e \<in> set es. \<not> releases e \<Longrightarrow> held (fold step es s)"
proof (induction es arbitrary: s)
  case (Cons e es)
  then show ?case by (auto intro: held_step inv_step)
qed simp

lemma released_by_event:
  assumes "inv s" "held s" "\<not> held (fold step es s)"
  shows "\<exists>e \<in> set es. releases e"
  using assms held_run by blast

end

end
