(* ===== verification/Gpt_Timer.thy ===== *)
theory Gpt_Timer
  imports Zeebo_Prelude Machine_Runs
begin

text \<open>
  \<open>tools/cpp/zeebo_gpt_timer.h\<close>: the general-purpose timer, a 32-bit free-running counter with one
  MATCH compare that fires once per arming. The lemmas turn the code's two-branch wrap-around test
  into the distance from the counter to the compare value, show that advancing in two pieces is the
  same as advancing at once, and give the number of the slice in which the timer fires.
\<close>

record gpt_timer =
  gpt_count :: u32
  gpt_match :: u32
  gpt_enabled :: bool
  gpt_match_armed :: bool
  gpt_clr_on_match :: bool

definition gpt_init :: gpt_timer where
  "gpt_init = \<lparr>gpt_count = 0, gpt_match = 0, gpt_enabled = False, gpt_match_armed = True,
     gpt_clr_on_match = False\<rparr>"

definition gpt_enable :: "gpt_timer \<Rightarrow> gpt_timer" where
  "gpt_enable g = g\<lparr>gpt_enabled := True\<rparr>"

definition gpt_disable :: "gpt_timer \<Rightarrow> gpt_timer" where
  "gpt_disable g = g\<lparr>gpt_enabled := False\<rparr>"

definition gpt_set_match :: "u32 \<Rightarrow> gpt_timer \<Rightarrow> gpt_timer" where
  "gpt_set_match m g = g\<lparr>gpt_match := m, gpt_match_armed := True\<rparr>"

definition gpt_clear :: "gpt_timer \<Rightarrow> gpt_timer" where
  "gpt_clear g = g\<lparr>gpt_count := 0, gpt_match_armed := True\<rparr>"

definition gpt_advance :: "u32 \<Rightarrow> gpt_timer \<Rightarrow> bool \<times> gpt_timer" where
  "gpt_advance ticks g =
     (if \<not> gpt_enabled g \<or> ticks = 0 then (False, g)
      else
        let before = gpt_count g;
            now = before + ticks;
            g1 = g\<lparr>gpt_count := now\<rparr>
        in if \<not> gpt_match_armed g then (False, g1)
           else
             let crossed =
               (if now \<ge> before then gpt_match g > before \<and> gpt_match g \<le> now
                else gpt_match g > before \<or> gpt_match g \<le> now)
             in if crossed
                then (True, let g2 = g1\<lparr>gpt_match_armed := False\<rparr>
                            in if gpt_clr_on_match g then g2\<lparr>gpt_count := 0\<rparr> else g2)
                else (False, g1))"

lemmas gpt_ops_def = gpt_enable_def gpt_disable_def gpt_set_match_def gpt_clear_def

section \<open>Distance to the compare value\<close>

text \<open>
  How many ticks the counter must advance before it stands on the compare value again: a whole
  turn of the counter when it stands there already.
\<close>

definition gpt_dist :: "gpt_timer \<Rightarrow> nat" where
  "gpt_dist g =
     (if gpt_match g = gpt_count g then 2 ^ 32 else unat (gpt_match g - gpt_count g))"

lemma gpt_dist_pos: "0 < gpt_dist g"
  by (auto simp: gpt_dist_def unat_gt_0)

lemma crossed_iff:
  "(if before + t \<ge> before then m > before \<and> m \<le> before + t else m > before \<or> m \<le> before + t)
   \<longleftrightarrow> 0 < unat (m - before) \<and> unat (m - before) \<le> unat t" for m before t :: u32
proof (cases "before \<le> before + t")
  case True
  then show ?thesis by (simp only: if_True) unat_arith
next
  case False
  then show ?thesis by (simp only: if_False) unat_arith
qed

lemma crossed_iff_dist:
  "0 < unat (gpt_match g - gpt_count g) \<and> unat (gpt_match g - gpt_count g) \<le> unat (t::u32)
   \<longleftrightarrow> gpt_dist g \<le> unat t"
  using unat_less_u32 [of t] by (auto simp: gpt_dist_def unat_gt_0)

lemma gpt_advance_eq:
  "gpt_advance t g =
     (if \<not> gpt_enabled g \<or> t = 0 then (False, g)
      else if gpt_match_armed g \<and> gpt_dist g \<le> unat t
      then (True, g\<lparr>gpt_count := (if gpt_clr_on_match g then 0 else gpt_count g + t),
                   gpt_match_armed := False\<rparr>)
      else (False, g\<lparr>gpt_count := gpt_count g + t\<rparr>))"
  unfolding gpt_advance_def Let_def crossed_iff crossed_iff_dist by auto

lemma gpt_advance_fires:
  "fst (gpt_advance t g) \<longleftrightarrow> gpt_enabled g \<and> gpt_match_armed g \<and> gpt_dist g \<le> unat t"
proof (cases "t = 0")
  case True
  then show ?thesis using gpt_dist_pos [of g] by (simp add: gpt_advance_eq)
qed (auto simp: gpt_advance_eq)

lemma gpt_dist_reached:
  "gpt_dist g \<le> unat (t::u32) \<longleftrightarrow>
     (\<exists>k. 0 < k \<and> k \<le> unat t \<and> gpt_match g = gpt_count g + of_nat k)" (is "?L \<longleftrightarrow> ?R")
proof
  assume ?L
  then have "gpt_match g \<noteq> gpt_count g" using unat_less_u32 [of t] by (auto simp: gpt_dist_def)
  with \<open>?L\<close> have "gpt_dist g \<le> unat t \<and> gpt_match g = gpt_count g + of_nat (gpt_dist g)"
    by (simp add: gpt_dist_def)
  then show ?R using gpt_dist_pos by blast
next
  assume ?R
  then obtain k where k: "0 < k" "k \<le> unat t" and m: "gpt_match g = gpt_count g + of_nat k" by blast
  from k(2) have "k < 2 ^ 32" using unat_less_u32 [of t] by simp
  then have "unat (of_nat k :: u32) = k" by (simp add: unat_of_nat)
  with m k show ?L by (auto simp: gpt_dist_def)
qed

section \<open>Properties\<close>

text \<open>
  An enabled, armed timer fires on an advance of \<open>t\<close> ticks exactly when the compare value is
  one of the \<open>t\<close> counter values the advance passes through, counter wrap-around included.
\<close>

theorem gpt_fires_iff_match_passed:
  "fst (gpt_advance t g) \<longleftrightarrow>
     gpt_enabled g \<and> gpt_match_armed g \<and>
     (\<exists>k. 0 < k \<and> k \<le> unat t \<and> gpt_match g = gpt_count g + of_nat k)"
  by (simp add: gpt_advance_fires gpt_dist_reached)

text \<open>Advancing the distance down.\<close>

lemma gpt_dist_advance:
  assumes "unat t < gpt_dist g"
  shows "gpt_dist (g\<lparr>gpt_count := gpt_count g + t\<rparr>) = gpt_dist g - unat t"
proof (cases "gpt_match g = gpt_count g")
  case True
  have "t \<noteq> 0 \<Longrightarrow> unat (0 - t) = 2 ^ 32 - unat t"
    by (subst unat_sub_if') (simp add: unat_eq_zero)
  with True show ?thesis by (cases "t = 0") (auto simp: gpt_dist_def)
next
  case False
  with assms have lt: "unat t < unat (gpt_match g - gpt_count g)" by (simp add: gpt_dist_def)
  then have "gpt_match g \<noteq> gpt_count g + t" by auto
  moreover have "unat (gpt_match g - (gpt_count g + t)) = unat (gpt_match g - gpt_count g) - unat t"
    using lt by (simp add: diff_diff_eq [symmetric] unat_sub word_le_nat_alt)
  ultimately show ?thesis using False by (simp add: gpt_dist_def)
qed

text \<open>
  Virtual time does not depend on how it is sliced. For a timer that does not clear on match,
  advancing by \<open>a\<close> and then by \<open>b\<close> leaves the same timer as advancing by \<open>a + b\<close> at once, and
  the timer fires in one of the two steps exactly when the single step fires.
\<close>

theorem gpt_advance_split:
  assumes "unat a + unat b < 2 ^ 32" and "\<not> gpt_clr_on_match g"
  shows "gpt_advance (a + b) g =
    (fst (gpt_advance a g) \<or> fst (gpt_advance b (snd (gpt_advance a g))),
     snd (gpt_advance b (snd (gpt_advance a g))))"
proof -
  have ab: "unat (a + b) = unat a + unat b"
    using assms(1) by (simp add: unat_word_ariths)
  then have zero: "a + b = 0 \<longleftrightarrow> a = 0 \<and> b = 0" by (metis add_is_0 unat_eq_zero)
  show ?thesis
  proof (cases "gpt_enabled g \<and> gpt_match_armed g \<and> \<not> gpt_dist g \<le> unat a")
    case True
    then have "gpt_dist (g\<lparr>gpt_count := gpt_count g + a\<rparr>) = gpt_dist g - unat a"
      by (simp add: gpt_dist_advance)
    with True assms(2) show ?thesis
      by (cases "a = 0"; cases "b = 0") (auto simp: gpt_advance_eq ab zero add.assoc)
  next
    case False
    with assms(2) show ?thesis
      using gpt_dist_pos [of g]
      by (cases "a = 0"; cases "b = 0") (auto simp: gpt_advance_eq ab zero add.assoc)
  qed
qed

theorem gpt_advance_split_witness:
  "gpt_advance (5 + 7) (gpt_init\<lparr>gpt_enabled := True, gpt_match := 9\<rparr>) =
     (True, gpt_init\<lparr>gpt_enabled := True, gpt_match := 9, gpt_count := 12, gpt_match_armed := False\<rparr>)"
proof -
  let ?g = "gpt_init\<lparr>gpt_enabled := True, gpt_match := 9\<rparr>"
  have "unat (5::u32) + unat (7::u32) < 2 ^ 32" "\<not> gpt_clr_on_match ?g"
    by (simp_all add: gpt_init_def)
  from gpt_advance_split [OF this] show ?thesis
    by (simp add: gpt_advance_def gpt_init_def Let_def)
qed

section \<open>Repeated slices\<close>

text \<open>The timer after \<open>n\<close> advances of \<open>q\<close> ticks each, and the slice in which it fires.\<close>

definition gpt_after :: "u32 \<Rightarrow> nat \<Rightarrow> gpt_timer \<Rightarrow> gpt_timer" where
  "gpt_after q n = (\<lambda>g. snd (gpt_advance q g)) ^^ n"

lemma gpt_after_Suc: "gpt_after q (Suc n) g = snd (gpt_advance q (gpt_after q n g))"
  by (simp add: gpt_after_def)

lemma gpt_after_before_match:
  assumes "gpt_enabled g" "gpt_match_armed g" "n * unat q < gpt_dist g"
  shows "gpt_after q n g = g\<lparr>gpt_count := gpt_count g + of_nat n * q\<rparr>
    \<and> gpt_dist (gpt_after q n g) = gpt_dist g - n * unat q"
  using assms(3)
proof (induction n)
  case 0
  then show ?case by (simp add: gpt_after_def)
next
  case (Suc n)
  let ?h = "gpt_after q n g"
  from Suc have h: "?h = g\<lparr>gpt_count := gpt_count g + of_nat n * q\<rparr>"
    and d: "gpt_dist ?h = gpt_dist g - n * unat q" by auto
  from d Suc.prems have lt: "unat q < gpt_dist ?h" by auto
  with h assms have "gpt_advance q ?h = (False, ?h\<lparr>gpt_count := gpt_count ?h + q\<rparr>)"
    by (auto simp: gpt_advance_eq)
  with h d gpt_dist_advance [OF lt] show ?case
    by (simp add: gpt_after_Suc algebra_simps)
qed

lemma gpt_first_fire:
  assumes "gpt_enabled g" "gpt_match_armed g" "q \<noteq> 0"
  shows "fst (gpt_advance q (gpt_after q ((gpt_dist g - 1) div unat q) g))"
    and "n < (gpt_dist g - 1) div unat q \<Longrightarrow> \<not> fst (gpt_advance q (gpt_after q n g))"
proof -
  let ?d = "gpt_dist g" and ?q = "unat q"
  let ?n = "(?d - 1) div ?q"
  have q: "0 < ?q" using assms(3) by (simp add: unat_gt_0)
  have lt: "?n * ?q < ?d"
    using gpt_dist_pos [of g] div_times_less_eq_dividend [of "?d - 1" ?q] by linarith
  have "?d - 1 < Suc ?n * ?q"
    using dividend_less_times_div [OF q, of "?d - 1"] by (simp add: algebra_simps)
  then have "?d - ?n * ?q \<le> ?q" by simp
  with gpt_after_before_match [OF assms(1,2) lt] assms(1,2)
  show "fst (gpt_advance q (gpt_after q ?n g))" by (auto simp: gpt_advance_fires)
  assume "n < ?n"
  then have "Suc n * ?q \<le> ?n * ?q" by (intro mult_le_mono1) simp
  with lt have nq: "Suc n * ?q < ?d" by linarith
  then have "n * ?q < ?d" by simp
  with gpt_after_before_match [OF assms(1,2) this] nq
  show "\<not> fst (gpt_advance q (gpt_after q n g))" by (auto simp: gpt_advance_fires)
qed

end
