(* ===== verification/Uc_Engine.thy ===== *)
theory Uc_Engine
  imports Zeebo_Prelude
begin

text \<open>
  The Unicorn CPU engine is a library outside the repository. The components that call it take its
  entry points as an argument of type \<open>'u uc_ops\<close>, where \<open>'u\<close> is the engine's state; nothing is
  assumed about them in the definitions. \<open>uc_regs_ok\<close> states the documented behaviour of the ARM
  register file that the theorems about interrupt entry and context switching rely on: a register
  reads back what was written, SP, LR and SPSR are banked by the mode bits of CPSR, and a write to
  PC takes the Thumb bit from bit 0. \<open>arm_ops\<close> is a banked register file that satisfies it.
\<close>

datatype uc_reg = UC_R nat | UC_SP | UC_LR | UC_PC | UC_CPSR | UC_SPSR

datatype uc_err = UC_ERR_OK | UC_ERR_NOMEM | UC_ERR_ARG | UC_ERR_MAP | UC_ERR_OTHER

text \<open>
  A call that fills a caller's buffer takes the buffer's old contents (its length is the requested
  size) and returns the new ones; a failing call may leave anything there. A host pointer is a
  value of type \<open>u64\<close>, 0 standing for \<open>nullptr\<close>.
\<close>

record 'u uc_ops =
  uc_reg_read :: "'u \<Rightarrow> uc_reg \<Rightarrow> u32"
  uc_reg_write :: "'u \<Rightarrow> uc_reg \<Rightarrow> u32 \<Rightarrow> 'u"
  uc_mem_read :: "'u \<Rightarrow> u64 \<Rightarrow> u8 list \<Rightarrow> uc_err \<times> u8 list"
  uc_mem_write :: "'u \<Rightarrow> u64 \<Rightarrow> u8 list \<Rightarrow> uc_err \<times> 'u"
  uc_mem_map :: "'u \<Rightarrow> u64 \<Rightarrow> u64 \<Rightarrow> nat \<Rightarrow> uc_err \<times> 'u"
  uc_mem_map_ptr :: "'u \<Rightarrow> u64 \<Rightarrow> u64 \<Rightarrow> nat \<Rightarrow> u64 \<Rightarrow> uc_err \<times> 'u"
  uc_mem_protect :: "'u \<Rightarrow> u64 \<Rightarrow> u64 \<Rightarrow> nat \<Rightarrow> uc_err \<times> 'u"
  uc_mem_unmap :: "'u \<Rightarrow> u64 \<Rightarrow> u64 \<Rightarrow> uc_err \<times> 'u"
  uc_mem_regions :: "'u \<Rightarrow> uc_err \<times> (u64 \<times> u64 \<times> nat) list"

definition uc_regs_ok :: "'u uc_ops \<Rightarrow> bool" where
  "uc_regs_ok ops \<longleftrightarrow>
     (\<forall>u v. uc_reg_read ops (uc_reg_write ops u UC_CPSR v) UC_CPSR = v) \<and>
     (\<forall>u v i. i < 8 \<longrightarrow>
        uc_reg_read ops (uc_reg_write ops u UC_CPSR v) (UC_R i) = uc_reg_read ops u (UC_R i)) \<and>
     (\<forall>u r v. r \<noteq> UC_PC \<and> r \<noteq> UC_CPSR \<longrightarrow> uc_reg_read ops (uc_reg_write ops u r v) r = v) \<and>
     (\<forall>u r r' v. r \<noteq> UC_PC \<and> r \<noteq> UC_CPSR \<and> r' \<noteq> r \<longrightarrow>
        uc_reg_read ops (uc_reg_write ops u r v) r' = uc_reg_read ops u r') \<and>
     (\<forall>u v. uc_reg_read ops (uc_reg_write ops u UC_PC v) UC_PC = v AND NOT 1) \<and>
     (\<forall>u v. uc_reg_read ops (uc_reg_write ops u UC_PC v) UC_CPSR =
        (if bit v 0 then uc_reg_read ops u UC_CPSR OR bit_mask 5
         else uc_reg_read ops u UC_CPSR AND NOT (bit_mask 5))) \<and>
     (\<forall>u r v. r \<noteq> UC_PC \<and> r \<noteq> UC_CPSR \<longrightarrow>
        uc_reg_read ops (uc_reg_write ops u UC_PC v) r = uc_reg_read ops u r)"

named_theorems uc_reg_simps \<open>reading a register after writing one\<close>

lemma uc_cpsr_write [uc_reg_simps]:
  assumes "uc_regs_ok ops"
  shows "uc_reg_read ops (uc_reg_write ops u UC_CPSR v) UC_CPSR = v"
    and "i < 8 \<Longrightarrow>
      uc_reg_read ops (uc_reg_write ops u UC_CPSR v) (UC_R i) = uc_reg_read ops u (UC_R i)"
  using assms by (simp_all add: uc_regs_ok_def)

lemma uc_plain_write [uc_reg_simps]:
  assumes "uc_regs_ok ops" "r \<noteq> UC_PC" "r \<noteq> UC_CPSR"
  shows "uc_reg_read ops (uc_reg_write ops u r v) r = v"
    and "r' \<noteq> r \<Longrightarrow> uc_reg_read ops (uc_reg_write ops u r v) r' = uc_reg_read ops u r'"
  using assms unfolding uc_regs_ok_def by metis+

lemma uc_pc_write [uc_reg_simps]:
  assumes "uc_regs_ok ops"
  shows "uc_reg_read ops (uc_reg_write ops u UC_PC v) UC_PC = v AND NOT 1"
    and "uc_reg_read ops (uc_reg_write ops u UC_PC v) UC_CPSR =
      (if bit v 0 then uc_reg_read ops u UC_CPSR OR bit_mask 5
       else uc_reg_read ops u UC_CPSR AND NOT (bit_mask 5))"
    and "r \<noteq> UC_PC \<Longrightarrow> r \<noteq> UC_CPSR \<Longrightarrow>
      uc_reg_read ops (uc_reg_write ops u UC_PC v) r = uc_reg_read ops u r"
  using assms unfolding uc_regs_ok_def by metis+

section \<open>A banked register file\<close>

text \<open>
  The ARM register file reduced to what the laws speak about: r0 to r12 shared by all modes, SP,
  LR and SPSR one per value of the mode field. It carries no memory: its memory entry points fail.
\<close>

record arm =
  arm_gpr :: "nat \<Rightarrow> u32"
  arm_sp :: "u32 \<Rightarrow> u32"
  arm_lr :: "u32 \<Rightarrow> u32"
  arm_spsr :: "u32 \<Rightarrow> u32"
  arm_pc :: u32
  arm_cpsr :: u32

definition arm_mode :: "arm \<Rightarrow> u32" where
  "arm_mode a = arm_cpsr a AND 0x1f"

fun arm_read :: "arm \<Rightarrow> uc_reg \<Rightarrow> u32" where
  "arm_read a (UC_R i) = arm_gpr a i"
| "arm_read a UC_SP = arm_sp a (arm_mode a)"
| "arm_read a UC_LR = arm_lr a (arm_mode a)"
| "arm_read a UC_SPSR = arm_spsr a (arm_mode a)"
| "arm_read a UC_PC = arm_pc a"
| "arm_read a UC_CPSR = arm_cpsr a"

fun arm_write :: "arm \<Rightarrow> uc_reg \<Rightarrow> u32 \<Rightarrow> arm" where
  "arm_write a (UC_R i) v = a\<lparr>arm_gpr := (arm_gpr a)(i := v)\<rparr>"
| "arm_write a UC_SP v = a\<lparr>arm_sp := (arm_sp a)(arm_mode a := v)\<rparr>"
| "arm_write a UC_LR v = a\<lparr>arm_lr := (arm_lr a)(arm_mode a := v)\<rparr>"
| "arm_write a UC_SPSR v = a\<lparr>arm_spsr := (arm_spsr a)(arm_mode a := v)\<rparr>"
| "arm_write a UC_PC v = a\<lparr>arm_pc := v AND NOT 1,
     arm_cpsr := (if bit v 0 then arm_cpsr a OR bit_mask 5 else arm_cpsr a AND NOT (bit_mask 5))\<rparr>"
| "arm_write a UC_CPSR v = a\<lparr>arm_cpsr := v\<rparr>"

definition arm_ops :: "arm uc_ops" where
  "arm_ops = \<lparr>uc_reg_read = arm_read, uc_reg_write = arm_write,
     uc_mem_read = (\<lambda>u a b. (UC_ERR_OTHER, b)), uc_mem_write = (\<lambda>u a b. (UC_ERR_OTHER, u)),
     uc_mem_map = (\<lambda>u a s p. (UC_ERR_OTHER, u)), uc_mem_map_ptr = (\<lambda>u a s p h. (UC_ERR_OTHER, u)),
     uc_mem_protect = (\<lambda>u a s p. (UC_ERR_OTHER, u)), uc_mem_unmap = (\<lambda>u a s. (UC_ERR_OTHER, u)),
     uc_mem_regions = (\<lambda>u. (UC_ERR_OK, []))\<rparr>"

definition arm_init :: arm where
  "arm_init = \<lparr>arm_gpr = (\<lambda>_. 0), arm_sp = (\<lambda>_. 0), arm_lr = (\<lambda>_. 0), arm_spsr = (\<lambda>_. 0),
     arm_pc = 0, arm_cpsr = 0x13\<rparr>"

lemma mode_keeps_thumb [simp]:
  "((c::u32) OR 32) AND 31 = c AND 31" "(c AND - 33) AND 31 = c AND 31"
  by (simp_all add: bit.conj_disj_distrib2 and.assoc)

lemma arm_write_mode [simp]:
  "r \<noteq> UC_CPSR \<Longrightarrow> arm_mode (arm_write a r v) = arm_mode a"
  by (cases r) (auto simp: arm_mode_def)

lemma arm_regs_ok: "uc_regs_ok arm_ops"
  unfolding uc_regs_ok_def arm_ops_def
proof (simp only: uc_ops.simps, intro conjI allI impI, goal_cases)
  case (3 u r v)
  then show ?case by (cases r) (auto simp: arm_mode_def)
next
  case (4 u r r' v)
  then show ?case by (cases r; cases r') (auto simp: arm_mode_def)
next
  case (7 u r v)
  then show ?case by (cases r) (auto simp: arm_mode_def)
qed simp_all

end
