(* ===== verification/Vic_Irq.thy ===== *)
theory Vic_Irq
  imports Zeebo_Prelude Uc_Engine Machine_Runs
begin

text \<open>
  \<open>tools/cpp/zeebo_vic_irq.h\<close>: the vectored interrupt controller (pending, enable and in-service
  masks of 32 lines, and the line last taken into service) and the ARM IRQ entry that
  \<open>vic_deliver_irq\<close> and \<open>vic_deliver_next\<close> perform on the engine's registers. The controller is
  shown to refine a specification over sets of lines, and the entry to leave the register state
  that the ARM architecture prescribes.
\<close>

definition CPSR_MODE_MASK :: u32 where "CPSR_MODE_MASK = 0x1f"
definition CPSR_MODE_IRQ :: u32 where "CPSR_MODE_IRQ = 0x12"
definition CPSR_I_BIT :: u32 where "CPSR_I_BIT = bit_mask 7"
definition CPSR_T_BIT :: u32 where "CPSR_T_BIT = bit_mask 5"

lemmas cpsr_consts = CPSR_MODE_MASK_def CPSR_MODE_IRQ_def CPSR_I_BIT_def CPSR_T_BIT_def

record vic_state =
  vic_pending :: u32
  vic_enable :: u32
  vic_in_service :: u32
  vic_in_service_line :: int

definition vic_init :: vic_state where
  "vic_init = \<lparr>vic_pending = 0, vic_enable = 0, vic_in_service = 0, vic_in_service_line = -1\<rparr>"

definition raise_line :: "nat \<Rightarrow> vic_state \<Rightarrow> vic_state" where
  "raise_line n v = (if n < 32 then v\<lparr>vic_pending := vic_pending v OR bit_mask n\<rparr> else v)"

definition enable_line :: "nat \<Rightarrow> vic_state \<Rightarrow> vic_state" where
  "enable_line n v = (if n < 32 then v\<lparr>vic_enable := vic_enable v OR bit_mask n\<rparr> else v)"

definition disable_line :: "nat \<Rightarrow> vic_state \<Rightarrow> vic_state" where
  "disable_line n v = (if n < 32 then v\<lparr>vic_enable := vic_enable v AND NOT (bit_mask n)\<rparr> else v)"

definition enable_mask :: "u32 \<Rightarrow> vic_state \<Rightarrow> vic_state" where
  "enable_mask m v = v\<lparr>vic_enable := vic_enable v OR m\<rparr>"

definition disable_mask :: "u32 \<Rightarrow> vic_state \<Rightarrow> vic_state" where
  "disable_mask m v = v\<lparr>vic_enable := vic_enable v AND NOT m\<rparr>"

definition ack_line :: "nat \<Rightarrow> vic_state \<Rightarrow> vic_state" where
  "ack_line n v =
     (if n < 32 then v\<lparr>vic_pending := vic_pending v AND NOT (bit_mask n),
                     vic_in_service := vic_in_service v AND NOT (bit_mask n)\<rparr> else v)"

definition ack_mask :: "u32 \<Rightarrow> vic_state \<Rightarrow> vic_state" where
  "ack_mask m v = v\<lparr>vic_pending := vic_pending v AND NOT m,
     vic_in_service := vic_in_service v AND NOT m\<rparr>"

definition irq_asserted :: "vic_state \<Rightarrow> bool" where
  "irq_asserted v \<longleftrightarrow> vic_pending v AND vic_enable v \<noteq> 0"

definition masked_pending :: "vic_state \<Rightarrow> u32" where
  "masked_pending v = vic_pending v AND vic_enable v"

text \<open>The search loop of \<open>active_line\<close> and \<open>deliverable_line\<close>, from line \<open>i\<close> on.\<close>

function lowest_line :: "u32 \<Rightarrow> nat \<Rightarrow> int" where
  "lowest_line a i =
     (if i < 32 then (if a AND bit_mask i \<noteq> 0 then int i else lowest_line a (Suc i)) else -1)"
  by pat_completeness auto
termination
  by (relation "measure (\<lambda>(a, i). 32 - i)") auto

declare lowest_line.simps [simp del]

definition active_line :: "vic_state \<Rightarrow> int" where
  "active_line v =
     (let a = vic_pending v AND vic_enable v in if a = 0 then -1 else lowest_line a 0)"

definition deliverable_line :: "vic_state \<Rightarrow> int" where
  "deliverable_line v =
     (let a = (vic_pending v AND vic_enable v) AND NOT (vic_in_service v)
      in if a = 0 then -1 else lowest_line a 0)"

definition vector_and_ack :: "vic_state \<Rightarrow> u32 \<times> vic_state" where
  "vector_and_ack v =
     (let l = deliverable_line v
      in if l < 0 then (NOT 0, v)
         else (word_of_int l, v\<lparr>vic_in_service := vic_in_service v OR bit_mask (nat l),
                               vic_in_service_line := l\<rparr>))"

definition eoi_current :: "vic_state \<Rightarrow> vic_state" where
  "eoi_current v =
     (if vic_in_service_line v \<ge> 0
      then let b = bit_mask (nat (vic_in_service_line v))
           in v\<lparr>vic_in_service := vic_in_service v AND NOT b,
                vic_pending := vic_pending v AND NOT b,
                vic_in_service_line := -1\<rparr>
      else v)"

text \<open>IRQ entry on the engine; \<open>uc = None\<close> is the null engine pointer.\<close>

definition irq_entry :: "'u uc_ops \<Rightarrow> 'u \<Rightarrow> u32 \<Rightarrow> u32 \<Rightarrow> 'u" where
  "irq_entry ops u cpsr vector_base =
     (let pc = uc_reg_read ops u UC_PC;
          lr_irq = pc + 4;
          spsr_irq = cpsr;
          new_cpsr = (cpsr AND NOT (CPSR_MODE_MASK OR CPSR_T_BIT)) OR CPSR_MODE_IRQ OR CPSR_I_BIT;
          u = uc_reg_write ops u UC_CPSR new_cpsr;
          u = uc_reg_write ops u UC_LR lr_irq;
          u = uc_reg_write ops u UC_SPSR spsr_irq;
          vec = vector_base + 0x18
      in uc_reg_write ops u UC_PC vec)"

definition vic_deliver_irq :: "'u uc_ops \<Rightarrow> 'u option \<Rightarrow> vic_state \<Rightarrow> u32 \<Rightarrow> bool \<times> 'u option" where
  "vic_deliver_irq ops uc v vector_base =
     (case uc of
        None \<Rightarrow> (False, None)
      | Some u \<Rightarrow>
          if \<not> irq_asserted v then (False, uc)
          else let cpsr = uc_reg_read ops u UC_CPSR
               in if cpsr AND CPSR_I_BIT \<noteq> 0 then (False, uc)
                  else (True, Some (irq_entry ops u cpsr vector_base)))"

definition vic_deliver_next ::
    "'u uc_ops \<Rightarrow> 'u option \<Rightarrow> vic_state \<Rightarrow> u32 \<Rightarrow> bool \<times> 'u option \<times> vic_state" where
  "vic_deliver_next ops uc v vector_base =
     (case uc of
        None \<Rightarrow> (False, None, v)
      | Some u \<Rightarrow>
          let line = deliverable_line v
          in if line < 0 then (False, uc, v)
             else let cpsr = uc_reg_read ops u UC_CPSR
                  in if cpsr AND CPSR_I_BIT \<noteq> 0 then (False, uc, v)
                     else (True, Some (irq_entry ops u cpsr vector_base),
                           v\<lparr>vic_in_service := vic_in_service v OR bit_mask (nat line),
                             vic_in_service_line := line\<rparr>))"

lemmas vic_ops_def = raise_line_def enable_line_def disable_line_def enable_mask_def
  disable_mask_def ack_line_def ack_mask_def

section \<open>The line search\<close>

lemma lowest_line_hit: "i < 32 \<Longrightarrow> bit a i \<Longrightarrow> lowest_line a i = int i"
  by (simp add: lowest_line.simps [of a i] and_exp_eq_0)

lemma lowest_line_miss: "i < 32 \<Longrightarrow> \<not> bit a i \<Longrightarrow> lowest_line a i = lowest_line a (Suc i)"
  by (simp add: lowest_line.simps [of a i] and_exp_eq_0)

lemma lowest_line_end: "\<not> i < 32 \<Longrightarrow> lowest_line a i = -1"
  by (simp add: lowest_line.simps [of a i])

lemma lowest_line_spec:
  "(lowest_line a i = -1 \<and> (\<forall>n. i \<le> n \<longrightarrow> \<not> bit a n)) \<or>
   (\<exists>l. lowest_line a i = int l \<and> i \<le> l \<and> bit a l \<and> (\<forall>n. i \<le> n \<and> n < l \<longrightarrow> \<not> bit a n))"
proof (induction a i rule: lowest_line.induct)
  case (1 a i)
  consider "\<not> i < 32" | "i < 32" "bit a i" | "i < 32" "\<not> bit a i" by blast
  then show ?case
  proof cases
    case 1
    then show ?thesis by (auto simp: lowest_line_end dest: bit_imp_le_length)
  next
    case 2
    then show ?thesis by (auto simp: lowest_line_hit)
  next
    case 3
    then have IH: "(lowest_line a (Suc i) = -1 \<and> (\<forall>n. Suc i \<le> n \<longrightarrow> \<not> bit a n)) \<or>
      (\<exists>l. lowest_line a (Suc i) = int l \<and> Suc i \<le> l \<and> bit a l \<and>
           (\<forall>n. Suc i \<le> n \<and> n < l \<longrightarrow> \<not> bit a n))"
      using "1.IH" by (simp add: and_exp_eq_0)
    have up: "i \<le> n \<longleftrightarrow> n = i \<or> Suc i \<le> n" for n by auto
    from IH 3 show ?thesis by (auto simp: lowest_line_miss up)
  qed
qed

lemma lowest_line_some:
  "lowest_line a 0 = int l \<longleftrightarrow> bit a l \<and> (\<forall>n < l. \<not> bit a n)"
  using lowest_line_spec [of a 0] by (auto simp: nat_neq_iff) (metis nat_neq_iff)

lemma lowest_line_neg: "lowest_line a 0 < 0 \<longleftrightarrow> a = 0"
  using lowest_line_spec [of a 0] by (auto intro: bit_word_eqI)

text \<open>Line \<open>n\<close> can be delivered: pending, enabled, not in service.\<close>

definition ready :: "vic_state \<Rightarrow> nat \<Rightarrow> bool" where
  "ready v n \<longleftrightarrow> bit (vic_pending v) n \<and> bit (vic_enable v) n \<and> \<not> bit (vic_in_service v) n"

lemma ready_less: "ready v n \<Longrightarrow> n < 32"
  by (auto simp: ready_def dest: bit_imp_le_length)

lemma ready_mask: "bit ((vic_pending v AND vic_enable v) AND NOT (vic_in_service v)) n \<longleftrightarrow> ready v n"
  by (auto simp: ready_def bit_simps dest: bit_imp_le_length)

lemma deliverable_line_eq:
  "deliverable_line v = lowest_line ((vic_pending v AND vic_enable v) AND NOT (vic_in_service v)) 0"
  using lowest_line_spec [of 0 0] by (auto simp: deliverable_line_def Let_def)

lemma deliverable_line_some:
  "deliverable_line v = int l \<longleftrightarrow> ready v l \<and> (\<forall>n < l. \<not> ready v n)"
  by (simp add: deliverable_line_eq lowest_line_some ready_mask)

lemma deliverable_line_none: "deliverable_line v < 0 \<longleftrightarrow> (\<forall>n. \<not> ready v n)"
  unfolding deliverable_line_eq lowest_line_neg
  by (metis bit_word_eqI bit_0_eq bot_apply bot_bool_def ready_mask)

lemma deliverable_line_nonneg: "\<not> deliverable_line v < 0 \<Longrightarrow> \<exists>l. deliverable_line v = int l"
  by (metis linorder_not_less nonneg_int_cases)

section \<open>The controller over sets of lines\<close>

text \<open>
  The specification: which lines are pending, enabled and in service, as sets, and the line whose
  vector was read last. Its delivery choice is the least line that is pending and enabled and not
  in service.
\<close>

record vic_spec =
  sp_pending :: "nat set"
  sp_enabled :: "nat set"
  sp_serviced :: "nat set"
  sp_current :: "nat option"

datatype vic_event = Raise nat | EnableLine nat | DisableLine nat | EnableMask u32 | DisableMask u32 |
  AckLine nat | AckMask u32 | ReadStatus | ReadWire | ReadVector | Eoi

text \<open>
  What an operation answers: nothing, the enabled pending lines, the state of the wire into the core, or a
  vector. The controller answers in words (a vector of all ones when there is no line), the specification in
  sets and optional lines.
\<close>

datatype ('l, 's) vic_reply = Silent | Status 's | Wire bool | Vector 'l

definition lines :: "u32 \<Rightarrow> nat set" where
  "lines m = {n. bit m n}"

definition sp_choice :: "vic_spec \<Rightarrow> nat option" where
  "sp_choice s =
     (let c = sp_pending s \<inter> sp_enabled s - sp_serviced s
      in if c = {} then None else Some (Least (\<lambda>n. n \<in> c)))"

fun sp_step :: "vic_event \<Rightarrow> vic_spec \<Rightarrow> (nat option, nat set) vic_reply \<times> vic_spec" where
  "sp_step (Raise n) s = (Silent, if n < 32 then s\<lparr>sp_pending := insert n (sp_pending s)\<rparr> else s)"
| "sp_step (EnableLine n) s = (Silent, if n < 32 then s\<lparr>sp_enabled := insert n (sp_enabled s)\<rparr> else s)"
| "sp_step (DisableLine n) s = (Silent, s\<lparr>sp_enabled := sp_enabled s - {n}\<rparr>)"
| "sp_step (EnableMask m) s = (Silent, s\<lparr>sp_enabled := sp_enabled s \<union> lines m\<rparr>)"
| "sp_step (DisableMask m) s = (Silent, s\<lparr>sp_enabled := sp_enabled s - lines m\<rparr>)"
| "sp_step (AckLine n) s = (Silent, s\<lparr>sp_pending := sp_pending s - {n}, sp_serviced := sp_serviced s - {n}\<rparr>)"
| "sp_step (AckMask m) s =
     (Silent, s\<lparr>sp_pending := sp_pending s - lines m, sp_serviced := sp_serviced s - lines m\<rparr>)"
| "sp_step ReadStatus s = (Status (sp_pending s \<inter> sp_enabled s), s)"
| "sp_step ReadWire s = (Wire (sp_pending s \<inter> sp_enabled s \<noteq> {}), s)"
| "sp_step ReadVector s =
     (Vector (sp_choice s),
      case sp_choice s of
        None \<Rightarrow> s
      | Some l \<Rightarrow> s\<lparr>sp_serviced := insert l (sp_serviced s), sp_current := Some l\<rparr>)"
| "sp_step Eoi s =
     (Silent,
      case sp_current s of
        None \<Rightarrow> s
      | Some l \<Rightarrow> s\<lparr>sp_serviced := sp_serviced s - {l}, sp_pending := sp_pending s - {l},
                    sp_current := None\<rparr>)"

fun vic_step :: "vic_event \<Rightarrow> vic_state \<Rightarrow> (u32, u32) vic_reply \<times> vic_state" where
  "vic_step (Raise n) v = (Silent, raise_line n v)"
| "vic_step (EnableLine n) v = (Silent, enable_line n v)"
| "vic_step (DisableLine n) v = (Silent, disable_line n v)"
| "vic_step (EnableMask m) v = (Silent, enable_mask m v)"
| "vic_step (DisableMask m) v = (Silent, disable_mask m v)"
| "vic_step (AckLine n) v = (Silent, ack_line n v)"
| "vic_step (AckMask m) v = (Silent, ack_mask m v)"
| "vic_step ReadStatus v = (Status (masked_pending v), v)"
| "vic_step ReadWire v = (Wire (irq_asserted v), v)"
| "vic_step ReadVector v = apfst Vector (vector_and_ack v)"
| "vic_step Eoi v = (Silent, eoi_current v)"

definition line_of :: "u32 \<Rightarrow> nat option" where
  "line_of w = (if w = NOT 0 then None else Some (unat w))"

definition vic_abs :: "vic_state \<Rightarrow> vic_spec" where
  "vic_abs v = \<lparr>sp_pending = lines (vic_pending v), sp_enabled = lines (vic_enable v),
     sp_serviced = lines (vic_in_service v),
     sp_current = (if vic_in_service_line v < 0 then None
                   else Some (nat (vic_in_service_line v)))\<rparr>"

lemma lines_simps:
  "lines (x OR y) = lines x \<union> lines y"
  "lines (x AND NOT y) = lines x - lines y"
  "lines (2 ^ n) = (if n < 32 then {n} else {})"
  by (auto simp: lines_def bit_simps dest: bit_imp_le_length)

lemma lines_and: "lines (x AND y) = lines x \<inter> lines y"
  by (auto simp: lines_def bit_simps)

lemma lines_empty: "lines x = {} \<longleftrightarrow> x = 0"
  by (auto simp: lines_def intro: bit_word_eqI)

lemma lines_less: "n \<in> lines x \<Longrightarrow> n < 32"
  by (auto simp: lines_def dest: bit_imp_le_length)

lemma lines_outside: "\<not> n < 32 \<Longrightarrow> n \<notin> lines x"
  using lines_less by blast

lemma sp_choice_abs:
  "sp_choice (vic_abs v) =
     (if deliverable_line v < 0 then None else Some (nat (deliverable_line v)))"
proof -
  let ?c = "sp_pending (vic_abs v) \<inter> sp_enabled (vic_abs v) - sp_serviced (vic_abs v)"
  have c: "?c = {n. ready v n}"
    by (auto simp: vic_abs_def lines_def ready_def)
  show ?thesis
  proof (cases "deliverable_line v < 0")
    case True
    with c show ?thesis by (simp add: sp_choice_def Let_def deliverable_line_none)
  next
    case False
    then obtain l where l: "deliverable_line v = int l"
      by (metis linorder_not_less nonneg_int_cases)
    then have "ready v l" "\<forall>n < l. \<not> ready v n" by (simp_all add: deliverable_line_some)
    then have "Least (ready v) = l" by (metis LeastI linorder_neqE_nat not_less_Least)
    with \<open>ready v l\<close> l c show ?thesis by (auto simp: sp_choice_def Let_def)
  qed
qed

text \<open>The vector that is handed out is the number of the line, and never the mark for no line.\<close>

lemma vector_line: "line_of (fst (vector_and_ack v)) = sp_choice (vic_abs v)"
proof (cases "deliverable_line v < 0")
  case True
  then show ?thesis by (simp add: sp_choice_abs vector_and_ack_def line_of_def Let_def)
next
  case False
  then obtain l where l: "deliverable_line v = int l" using deliverable_line_nonneg by blast
  then have "l < 32" by (auto simp: deliverable_line_some dest: ready_less)
  then have "unat (of_nat l :: u32) = l" by (simp add: unat_of_nat)
  moreover have "unat (of_nat (Suc l) :: u32) = Suc l" using \<open>l < 32\<close> unfolding unat_of_nat by (intro mod_less) simp
  then have "(of_nat l :: u32) \<noteq> NOT 0" by auto
  ultimately show ?thesis using l by (simp add: sp_choice_abs vector_and_ack_def line_of_def Let_def)
qed

lemma vector_state: "vic_abs (snd (vector_and_ack v)) = snd (sp_step ReadVector (vic_abs v))"
  using deliverable_line_nonneg [of v]
  by (auto simp: sp_choice_abs vector_and_ack_def Let_def)
     (auto simp: vic_abs_def lines_simps deliverable_line_some dest: ready_less)

text \<open>
  C6: the bit-mask controller implements the specification over sets of lines. For every operation (raising,
  enabling, disabling and acknowledging by line or by mask, reading the status, the wire or the vector, and
  end-of-interrupt) the state afterwards and the answer are those of the specification: the status read
  returns the enabled pending lines, the vector read hands out the number of the least line that is pending,
  enabled and not in service (all ones when there is none) and takes it into service, and end-of-interrupt
  retires exactly the line whose vector was read last.
\<close>

theorem vic_refines_spec:
  "map_prod (map_vic_reply line_of lines) vic_abs (vic_step e v) = sp_step e (vic_abs v)"
proof (cases e)
  case ReadStatus
  then show ?thesis by (simp add: vic_abs_def masked_pending_def lines_and)
next
  case ReadWire
  then show ?thesis by (simp add: vic_abs_def irq_asserted_def lines_and [symmetric] lines_empty)
next
  case ReadVector
  then show ?thesis using vector_line [of v] vector_state [of v] by (cases "vector_and_ack v") simp
next
  case Eoi
  then show ?thesis
    by (auto simp: vic_abs_def eoi_current_def Let_def lines_simps lines_outside)
qed (simp_all add: vic_abs_def vic_ops_def lines_simps lines_outside)

section \<open>IRQ entry\<close>

lemma even_pc [simp]:
  assumes "\<not> bit (w::u32) 0"
  shows "w AND - 2 = w"
proof -
  have "w AND NOT (2 ^ 0) = w"
    using assms by (intro bit_word_eqI) (auto simp only: bit_clear bit_exp_word)
  then show ?thesis by simp
qed

definition irq_cpsr :: "u32 \<Rightarrow> u32" where
  "irq_cpsr cpsr = (cpsr AND NOT (CPSR_MODE_MASK OR CPSR_T_BIT)) OR CPSR_MODE_IRQ OR CPSR_I_BIT"

lemma irq_cpsr_arm_state [simp]: "irq_cpsr c AND - 33 = irq_cpsr c"
  by (simp add: irq_cpsr_def cpsr_consts bit.conj_disj_distrib2 and.assoc)

lemma irq_cpsr_fields:
  "irq_cpsr c AND CPSR_MODE_MASK = CPSR_MODE_IRQ"
  "irq_cpsr c AND CPSR_I_BIT \<noteq> 0"
  "irq_cpsr c AND CPSR_T_BIT = 0"
  "irq_cpsr c AND NOT 0xff = c AND NOT 0xff"
  by (simp_all add: irq_cpsr_def cpsr_consts bit.conj_disj_distrib2 and.assoc)

lemma irq_entry_regs:
  assumes ok: "uc_regs_ok ops" and even: "\<not> bit vb 0"
  shows "uc_reg_read ops (irq_entry ops u c vb) UC_PC = vb + 0x18"
    and "uc_reg_read ops (irq_entry ops u c vb) UC_LR = uc_reg_read ops u UC_PC + 4"
    and "uc_reg_read ops (irq_entry ops u c vb) UC_SPSR = c"
    and "uc_reg_read ops (irq_entry ops u c vb) UC_CPSR = irq_cpsr c"
    and "i < 8 \<Longrightarrow> uc_reg_read ops (irq_entry ops u c vb) (UC_R i) = uc_reg_read ops u (UC_R i)"
proof -
  have "\<not> bit (vb + 0x18) 0" using even by (simp add: bit_0)
  then show "uc_reg_read ops (irq_entry ops u c vb) UC_PC = vb + 0x18"
    and "uc_reg_read ops (irq_entry ops u c vb) UC_LR = uc_reg_read ops u UC_PC + 4"
    and "uc_reg_read ops (irq_entry ops u c vb) UC_SPSR = c"
    and "uc_reg_read ops (irq_entry ops u c vb) UC_CPSR = irq_cpsr c"
    and "i < 8 \<Longrightarrow> uc_reg_read ops (irq_entry ops u c vb) (UC_R i) = uc_reg_read ops u (UC_R i)"
    unfolding irq_entry_def Let_def irq_cpsr_def [symmetric]
    by (simp_all add: uc_reg_simps ok)
qed

lemma vic_deliver_next_taken:
  "vic_deliver_next ops (Some u) v vb = (True, r) \<longleftrightarrow>
     (\<exists>l. deliverable_line v = int l \<and> uc_reg_read ops u UC_CPSR AND CPSR_I_BIT = 0 \<and>
        r = (Some (irq_entry ops u (uc_reg_read ops u UC_CPSR) vb),
             v\<lparr>vic_in_service := vic_in_service v OR bit_mask l, vic_in_service_line := int l\<rparr>))"
  using deliverable_line_nonneg [of v] by (auto simp: vic_deliver_next_def Let_def)

text \<open>
  C2: IRQ delivery takes the ARM exception exactly as the architecture prescribes. When a line is
  deliverable and the core does not mask IRQs, the core resumes at the vector with LR one word past
  the interrupted instruction (so that \<open>SUBS PC, LR, #4\<close> returns to it), SPSR holding the old CPSR,
  CPSR in IRQ mode, ARM state, IRQs masked and every bit above the control byte kept, r0 to r7
  kept; and the delivered line is in service, so the next delivery attempt cannot take it again.
\<close>

theorem vic_deliver_next_entry:
  assumes "uc_regs_ok ops" "\<not> bit vb 0"
    and "deliverable_line v = int l" "uc_reg_read ops u UC_CPSR AND CPSR_I_BIT = 0"
  shows "\<exists>u' v'. vic_deliver_next ops (Some u) v vb = (True, Some u', v') \<and>
    uc_reg_read ops u' UC_PC = vb + 0x18 \<and>
    uc_reg_read ops u' UC_LR - 4 = uc_reg_read ops u UC_PC \<and>
    uc_reg_read ops u' UC_SPSR = uc_reg_read ops u UC_CPSR \<and>
    uc_reg_read ops u' UC_CPSR AND CPSR_MODE_MASK = CPSR_MODE_IRQ \<and>
    uc_reg_read ops u' UC_CPSR AND CPSR_I_BIT \<noteq> 0 \<and>
    uc_reg_read ops u' UC_CPSR AND CPSR_T_BIT = 0 \<and>
    uc_reg_read ops u' UC_CPSR AND NOT 0xff = uc_reg_read ops u UC_CPSR AND NOT 0xff \<and>
    (\<forall>i. i < 8 \<longrightarrow> uc_reg_read ops u' (UC_R i) = uc_reg_read ops u (UC_R i)) \<and>
    bit (vic_in_service v') l \<and> vic_in_service_line v' = int l \<and>
    vic_pending v' = vic_pending v \<and> deliverable_line v' \<noteq> int l"
proof -
  let ?u' = "irq_entry ops u (uc_reg_read ops u UC_CPSR) vb"
  let ?v' = "v\<lparr>vic_in_service := vic_in_service v OR bit_mask l, vic_in_service_line := int l\<rparr>"
  from assms(3) have "l < 32" by (auto simp: deliverable_line_some dest: ready_less)
  then have served: "bit (vic_in_service ?v') l" by (simp add: bit_simps)
  then have "deliverable_line ?v' \<noteq> int l" by (simp add: deliverable_line_some ready_def)
  moreover have "vic_deliver_next ops (Some u) v vb = (True, Some ?u', ?v')"
    using assms(3,4) by (simp add: vic_deliver_next_taken)
  ultimately show ?thesis
    using served assms(1,2) irq_cpsr_fields [of "uc_reg_read ops u UC_CPSR"]
    by (intro exI [of _ ?u'] exI [of _ ?v']) (simp add: irq_entry_regs)
qed

theorem vic_deliver_next_entry_witness:
  "let v = raise_line 8 (enable_line 8 vic_init); u = arm_init\<lparr>arm_pc := 0x1000\<rparr>
   in \<exists>u' v'. vic_deliver_next arm_ops (Some u) v 0xffff0000 = (True, Some u', v') \<and>
        arm_pc u' = 0xffff0018 \<and> vic_in_service_line v' = 8"
proof -
  let ?v = "raise_line 8 (enable_line 8 vic_init)" and ?u = "arm_init\<lparr>arm_pc := 0x1000\<rparr>"
  have "deliverable_line ?v = int 8" by code_simp
  moreover have "uc_reg_read arm_ops ?u UC_CPSR AND CPSR_I_BIT = 0"
    by (simp add: arm_ops_def arm_init_def cpsr_consts)
  moreover have "\<not> bit (0xffff0000 :: u32) 0" by simp
  ultimately show ?thesis
    using vic_deliver_next_entry [OF arm_regs_ok, of "0xffff0000" ?v 8 ?u]
    by (auto simp: Let_def arm_ops_def)
qed

text \<open>
  Delivery is refused without side effects. With a null engine, no deliverable line, or IRQs
  masked in CPSR, \<open>vic_deliver_next\<close> returns false and changes neither the core nor the
  controller, so the line stays pending.
\<close>

theorem vic_deliver_next_refused:
  "fst (vic_deliver_next ops uc v vb) \<or> vic_deliver_next ops uc v vb = (False, uc, v)"
  by (auto simp: vic_deliver_next_def Let_def split: option.splits)

section \<open>What end-of-interrupt does not keep\<close>

text \<open>
  The controller remembers one line only. A second line taken into service before the first is
  retired overwrites it, and the two end-of-interrupt writes of the two handlers retire the second
  line alone: the first stays in service and can not be delivered until an explicit INT_CLEAR.
\<close>

lemma eoi_without_current: "vic_in_service_line v < 0 \<Longrightarrow> eoi_current v = v"
  by (simp add: eoi_current_def)

lemma eoi_drops_current: "vic_in_service_line (eoi_current v) < 0"
  by (simp add: eoi_current_def Let_def)

lemma vector_and_ack_state:
  "deliverable_line v = int l \<Longrightarrow>
   snd (vector_and_ack v) =
     v\<lparr>vic_in_service := vic_in_service v OR bit_mask l, vic_in_service_line := int l\<rparr>"
  by (simp add: vector_and_ack_def Let_def)

text \<open>
  Nested service loses track of the outer line. When line \<open>a\<close> is taken into service and then a
  different line \<open>b\<close>, any number of end-of-interrupt writes leaves \<open>a\<close> in service, so no later
  delivery or vector read ever hands it out, however often its device raises it.
\<close>

theorem nested_service_leaks_outer_line:
  assumes "bit (vic_in_service v) a" and "deliverable_line v = int b"
  shows "bit (vic_in_service ((eoi_current ^^ n) (snd (vector_and_ack v)))) a
    \<and> deliverable_line (raise_line a ((eoi_current ^^ n) (snd (vector_and_ack v)))) \<noteq> int a"
proof -
  let ?w = "snd (vector_and_ack v)"
  have ab: "a \<noteq> b" "b < 32"
    using assms by (auto simp: deliverable_line_some ready_def dest: bit_imp_le_length)
  have eoi_n: "(eoi_current ^^ n) ?w = (if n = 0 then ?w else eoi_current ?w)"
    by (induction n) (auto simp: eoi_without_current eoi_drops_current)
  have "bit (vic_in_service ?w) a" "bit (vic_in_service (eoi_current ?w)) a"
    using assms(1) ab
    by (auto simp: vector_and_ack_state [OF assms(2)] eoi_current_def Let_def bit_simps
        dest: bit_imp_le_length)
  then have "bit (vic_in_service ((eoi_current ^^ n) ?w)) a" by (simp add: eoi_n)
  then show ?thesis by (simp add: deliverable_line_some ready_def raise_line_def)
qed

text \<open>A concrete instance: line 3 in service, line 5 pending and enabled.\<close>

theorem nested_service_leaks_outer_line_witness:
  "let v = raise_line 5 (enable_mask 0x28 (snd (vector_and_ack (raise_line 3 (enable_mask 0x28 vic_init)))))
   in bit (vic_in_service ((eoi_current ^^ 2) (snd (vector_and_ack v)))) 3"
proof -
  let ?v = "raise_line 5 (enable_mask 0x28 (snd (vector_and_ack (raise_line 3 (enable_mask 0x28 vic_init)))))"
  have "bit (vic_in_service ?v) 3" by code_simp
  moreover have "deliverable_line ?v = int 5" by code_simp
  ultimately show ?thesis
    using nested_service_leaks_outer_line [of ?v 3 5 2] by (simp add: Let_def)
qed

text \<open>
  An acknowledge written through INT_CLEAR leaves the line recorded as the current one, so the
  end-of-interrupt write that follows discards an interrupt its device raised in between: after
  taking line \<open>l\<close>, acknowledging it, the device raising it again, and end-of-interrupt, the line
  is not pending.
\<close>

theorem ack_then_eoi_loses_interrupt:
  assumes "deliverable_line v = int l"
  shows "bit (vic_pending (raise_line l (ack_mask (bit_mask l) (snd (vector_and_ack v))))) l \<and>
    \<not> bit (vic_pending
      (eoi_current (raise_line l (ack_mask (bit_mask l) (snd (vector_and_ack v)))))) l"
  using assms
  by (auto simp: vector_and_ack_state [OF assms] raise_line_def ack_mask_def eoi_current_def Let_def
      bit_simps deliverable_line_some dest: ready_less)

theorem ack_then_eoi_loses_interrupt_witness:
  "\<not> bit (vic_pending (eoi_current (raise_line 8 (ack_mask (bit_mask 8)
      (snd (vector_and_ack (raise_line 8 (enable_mask 0x100 vic_init)))))))) 8"
proof -
  have "deliverable_line (raise_line 8 (enable_mask 0x100 vic_init)) = int 8" by code_simp
  from ack_then_eoi_loses_interrupt [OF this] show ?thesis by (rule conjunct2)
qed

end
