(* ===== verification/Peripheral_Bus.thy ===== *)
theory Peripheral_Bus
  imports Gpt_Timer Vic_Irq
begin

text \<open>
  \<open>tools/cpp/zeebo_peripheral_bus.h\<close>: the MMIO decoder that owns the interrupt controller and the
  timer, its deterministic virtual clock, and IRQ delivery between slices. A run of the machine
  interleaves guest loads and stores, scheduler slices, delivery attempts and arbitrary execution
  of the core.
\<close>

definition PB_VIC_BASE :: u32 where "PB_VIC_BASE = 0xC0000000"
definition PB_VIC_SIZE :: u32 where "PB_VIC_SIZE = 0x1000"
definition PB_GPT_BASE :: u32 where "PB_GPT_BASE = 0xC0100000"
definition PB_GPT_SIZE :: u32 where "PB_GPT_SIZE = 0x100"
definition PB_GPT_BASE_FW :: u32 where "PB_GPT_BASE_FW = 0xC5000000"
definition PB_GPT_FW_WINDOW :: u32 where "PB_GPT_FW_WINDOW = 0x200"
definition PB_GPT_FW_COUNT_OFF :: u32 where "PB_GPT_FW_COUNT_OFF = 0x108"
definition PB_GPT_FW_WDOG_ACK :: u32 where "PB_GPT_FW_WDOG_ACK = 0x10C"
definition PB_GPT_FW_MATCH_OFF :: u32 where "PB_GPT_FW_MATCH_OFF = 0x100"
definition PB_GPT_FW_ENABLE_OFF :: u32 where "PB_GPT_FW_ENABLE_OFF = 0x104"
definition PB_VIC_IRQ_STATUS0 :: u32 where "PB_VIC_IRQ_STATUS0 = 0x0000"
definition PB_VIC_RAW_STATUS0 :: u32 where "PB_VIC_RAW_STATUS0 = 0x0010"
definition PB_VIC_INT_CLEAR0 :: u32 where "PB_VIC_INT_CLEAR0 = 0x0018"
definition PB_VIC_INT_EN0 :: u32 where "PB_VIC_INT_EN0 = 0x0028"
definition PB_VIC_INT_ENCLEAR0 :: u32 where "PB_VIC_INT_ENCLEAR0 = 0x0040"
definition PB_VIC_IRQ_VEC_RD :: u32 where "PB_VIC_IRQ_VEC_RD = 0x0F00"
definition PB_GPT_MATCH_VAL :: u32 where "PB_GPT_MATCH_VAL = 0x0000"
definition PB_GPT_COUNT_VAL :: u32 where "PB_GPT_COUNT_VAL = 0x0004"
definition PB_GPT_ENABLE :: u32 where "PB_GPT_ENABLE = 0x0008"
definition PB_GPT_CLEAR :: u32 where "PB_GPT_CLEAR = 0x000C"
definition PB_GPT_ENABLE_EN :: u32 where "PB_GPT_ENABLE_EN = 1"
definition PB_GPT_ENABLE_CLR_ON_MATCH :: u32 where "PB_GPT_ENABLE_CLR_ON_MATCH = 2"
definition PB_INT_GP_TIMER :: nat where "PB_INT_GP_TIMER = 8"

lemmas pb_consts = PB_VIC_BASE_def PB_VIC_SIZE_def PB_GPT_BASE_def PB_GPT_SIZE_def
  PB_GPT_BASE_FW_def PB_GPT_FW_WINDOW_def PB_GPT_FW_COUNT_OFF_def PB_GPT_FW_WDOG_ACK_def
  PB_GPT_FW_MATCH_OFF_def PB_GPT_FW_ENABLE_OFF_def PB_VIC_IRQ_STATUS0_def PB_VIC_RAW_STATUS0_def
  PB_VIC_INT_CLEAR0_def PB_VIC_INT_EN0_def PB_VIC_INT_ENCLEAR0_def PB_VIC_IRQ_VEC_RD_def
  PB_GPT_MATCH_VAL_def PB_GPT_COUNT_VAL_def PB_GPT_ENABLE_def PB_GPT_CLEAR_def
  PB_GPT_ENABLE_EN_def PB_GPT_ENABLE_CLR_ON_MATCH_def PB_INT_GP_TIMER_def

record peripheral_bus =
  pb_vic :: vic_state
  pb_gpt :: gpt_timer
  vic_base :: u32
  gpt_base :: u32
  gpt_window :: u32
  gpt_match_off :: u32
  gpt_count_off :: u32
  gpt_enable_off :: u32
  gpt_clear_off :: u32
  virtual_ticks :: u64
  ticks_per_slice :: u32
  gpt_line :: nat

definition pb_init :: peripheral_bus where
  "pb_init = \<lparr>pb_vic = vic_init, pb_gpt = gpt_init, vic_base = PB_VIC_BASE, gpt_base = PB_GPT_BASE,
     gpt_window = PB_GPT_SIZE, gpt_match_off = PB_GPT_MATCH_VAL, gpt_count_off = PB_GPT_COUNT_VAL,
     gpt_enable_off = PB_GPT_ENABLE, gpt_clear_off = PB_GPT_CLEAR, virtual_ticks = 0,
     ticks_per_slice = 4096, gpt_line = PB_INT_GP_TIMER\<rparr>"

definition use_firmware_gpt_layout :: "peripheral_bus \<Rightarrow> peripheral_bus" where
  "use_firmware_gpt_layout b = b\<lparr>gpt_window := PB_GPT_FW_WINDOW,
     gpt_match_off := PB_GPT_FW_MATCH_OFF, gpt_count_off := PB_GPT_FW_COUNT_OFF,
     gpt_enable_off := PB_GPT_FW_ENABLE_OFF, gpt_clear_off := PB_GPT_FW_WDOG_ACK\<rparr>"

definition tick :: "u32 \<Rightarrow> peripheral_bus \<Rightarrow> bool \<times> peripheral_bus" where
  "tick vticks b =
     (let b = b\<lparr>virtual_ticks := virtual_ticks b + ucast vticks\<rparr>;
          (fired, g) = gpt_advance vticks (pb_gpt b);
          b = b\<lparr>pb_gpt := g\<rparr>
      in if fired then (True, b\<lparr>pb_vic := raise_line (gpt_line b) (pb_vic b)\<rparr>) else (False, b))"

definition tick_slice :: "peripheral_bus \<Rightarrow> bool \<times> peripheral_bus" where
  "tick_slice b = tick (ticks_per_slice b) b"

definition in_vic :: "peripheral_bus \<Rightarrow> u32 \<Rightarrow> bool" where
  "in_vic b addr \<longleftrightarrow> addr \<ge> vic_base b \<and> addr < vic_base b + PB_VIC_SIZE"

definition in_gpt :: "peripheral_bus \<Rightarrow> u32 \<Rightarrow> bool" where
  "in_gpt b addr \<longleftrightarrow> addr \<ge> gpt_base b \<and> addr < gpt_base b + gpt_window b"

definition mmio_write :: "u32 \<Rightarrow> u32 \<Rightarrow> peripheral_bus \<Rightarrow> bool \<times> peripheral_bus" where
  "mmio_write addr val b =
     (if in_vic b addr then
        let off = addr - vic_base b
        in if off = PB_VIC_INT_CLEAR0 then (True, b\<lparr>pb_vic := ack_mask val (pb_vic b)\<rparr>)
           else if off = PB_VIC_INT_EN0 then (True, b\<lparr>pb_vic := enable_mask val (pb_vic b)\<rparr>)
           else if off = PB_VIC_INT_ENCLEAR0 then (True, b\<lparr>pb_vic := disable_mask val (pb_vic b)\<rparr>)
           else if off = PB_VIC_IRQ_VEC_RD then (True, b\<lparr>pb_vic := eoi_current (pb_vic b)\<rparr>)
           else (True, b)
      else if in_gpt b addr then
        let off = addr - gpt_base b
        in if off = gpt_match_off b then (True, b\<lparr>pb_gpt := gpt_set_match val (pb_gpt b)\<rparr>)
           else if off = gpt_enable_off b then
             let g = (pb_gpt b)\<lparr>gpt_clr_on_match := (val AND PB_GPT_ENABLE_CLR_ON_MATCH \<noteq> 0)\<rparr>
             in (True, b\<lparr>pb_gpt := (if val AND PB_GPT_ENABLE_EN \<noteq> 0 then gpt_enable g
                                    else gpt_disable g)\<rparr>)
           else if off = gpt_clear_off b then (True, b\<lparr>pb_gpt := gpt_clear (pb_gpt b)\<rparr>)
           else (True, b)
      else (False, b))"

text \<open>A load the decoder does not consume (returns false) is \<open>None\<close>.\<close>

definition mmio_read :: "u32 \<Rightarrow> peripheral_bus \<Rightarrow> u32 option \<times> peripheral_bus" where
  "mmio_read addr b =
     (if in_vic b addr then
        let off = addr - vic_base b
        in if off = PB_VIC_IRQ_STATUS0 then (Some (masked_pending (pb_vic b)), b)
           else if off = PB_VIC_RAW_STATUS0 then (Some (vic_pending (pb_vic b)), b)
           else if off = PB_VIC_IRQ_VEC_RD then
             let (x, v) = vector_and_ack (pb_vic b) in (Some x, b\<lparr>pb_vic := v\<rparr>)
           else (Some 0, b)
      else if in_gpt b addr then
        let off = addr - gpt_base b
        in if off = gpt_count_off b then (Some (gpt_count (pb_gpt b)), b)
           else if off = gpt_match_off b then (Some (gpt_match (pb_gpt b)), b)
           else if off = gpt_enable_off b then
             (Some (if gpt_enabled (pb_gpt b) then PB_GPT_ENABLE_EN else 0), b)
           else (Some 0, b)
      else (None, b))"

definition deliver_irq ::
    "'u uc_ops \<Rightarrow> 'u option \<Rightarrow> u32 \<Rightarrow> peripheral_bus \<Rightarrow> bool \<times> 'u option \<times> peripheral_bus" where
  "deliver_irq ops uc vb b =
     (let (taken, uc', v) = vic_deliver_next ops uc (pb_vic b) vb
      in (taken, uc', b\<lparr>pb_vic := v\<rparr>))"

section \<open>The decoder\<close>

text \<open>
  Only the vector read has a side effect. A guest load from any other address the decoder
  serves (the free-running counter included) leaves the bus exactly as it was, so polling the
  counter does not advance it; a load outside both windows is not consumed.
\<close>

theorem mmio_read_pure:
  "snd (mmio_read addr b) = b \<or> (in_vic b addr \<and> addr - vic_base b = PB_VIC_IRQ_VEC_RD)"
  by (auto simp: mmio_read_def Let_def)

lemma mmio_read_consumed: "fst (mmio_read addr b) = None \<longleftrightarrow> \<not> in_vic b addr \<and> \<not> in_gpt b addr"
  by (auto simp: mmio_read_def Let_def split: prod.splits)

lemma mmio_write_consumed: "fst (mmio_write addr val b) \<longleftrightarrow> in_vic b addr \<or> in_gpt b addr"
  by (auto simp: mmio_write_def Let_def)

text \<open>
  The firmware layout decodes the registers the firmware uses. With the timer page at the
  firmware base, after \<open>use_firmware_gpt_layout\<close> a load of 0xC5000108 returns the counter, a store
  to 0xC5000100 sets the compare value and re-arms it, and a store to the watchdog acknowledge
  0xC500010C resets the counter; with the reference layout the same load is not decoded at all.
\<close>

theorem firmware_layout_decodes:
  "let b0 = b\<lparr>vic_base := PB_VIC_BASE, gpt_base := PB_GPT_BASE_FW, gpt_window := PB_GPT_SIZE\<rparr> in
    mmio_read 0xC5000108 (use_firmware_gpt_layout b0) =
      (Some (gpt_count (pb_gpt b)), use_firmware_gpt_layout b0) \<and>
    pb_gpt (snd (mmio_write 0xC5000100 m (use_firmware_gpt_layout b0))) = gpt_set_match m (pb_gpt b) \<and>
    gpt_count (pb_gpt (snd (mmio_write 0xC500010C m (use_firmware_gpt_layout b0)))) = 0 \<and>
    fst (mmio_read 0xC5000108 b0) = None"
  by (simp add: mmio_read_def mmio_write_def in_vic_def in_gpt_def use_firmware_gpt_layout_def
      pb_consts gpt_ops_def Let_def)

section \<open>Runs of the machine\<close>

datatype 'u bus_event =
    GuestWrite u32 u32 | GuestRead u32 | TickSlice | DeliverIrq u32 | Execute "'u \<Rightarrow> 'u"

fun bus_step :: "'u uc_ops \<Rightarrow> 'u bus_event \<Rightarrow> peripheral_bus \<times> 'u option \<Rightarrow> peripheral_bus \<times> 'u option"
where
  "bus_step ops (GuestWrite addr val) (b, uc) = (snd (mmio_write addr val b), uc)"
| "bus_step ops (GuestRead addr) (b, uc) = (snd (mmio_read addr b), uc)"
| "bus_step ops TickSlice (b, uc) = (snd (tick_slice b), uc)"
| "bus_step ops (DeliverIrq vb) (b, uc) = (let (_, uc', b') = deliver_irq ops uc vb b in (b', uc'))"
| "bus_step ops (Execute f) (b, uc) = (b, map_option f uc)"

text \<open>The decode configuration, which no event changes.\<close>

definition pb_config ::
    "peripheral_bus \<Rightarrow> u32 \<times> u32 \<times> u32 \<times> u32 \<times> u32 \<times> u32 \<times> u32 \<times> u32 \<times> nat" where
  "pb_config b = (vic_base b, gpt_base b, gpt_window b, gpt_match_off b, gpt_count_off b,
     gpt_enable_off b, gpt_clear_off b, ticks_per_slice b, gpt_line b)"

lemma pb_config_step [simp]: "pb_config (fst (bus_step ops e s)) = pb_config (fst s)"
  by (cases s; cases e)
     (auto simp: pb_config_def mmio_write_def mmio_read_def tick_slice_def tick_def deliver_irq_def
       Let_def split: prod.splits)

interpretation bus_config: machine_inv "bus_step ops" "\<lambda>s. pb_config (fst s) = c"
  by unfold_locales simp

text \<open>Which stores take a line out of service.\<close>

fun retires :: "u32 \<Rightarrow> nat \<Rightarrow> 'u bus_event \<Rightarrow> bool" where
  "retires vbase l (GuestWrite addr val) \<longleftrightarrow>
     addr - vbase = PB_VIC_INT_CLEAR0 \<and> bit val l \<or> addr - vbase = PB_VIC_IRQ_VEC_RD"
| "retires vbase l _ \<longleftrightarrow> False"

lemma in_service_step:
  assumes "bit (vic_in_service (pb_vic (fst s))) l" "\<not> retires (vic_base (fst s)) l e"
  shows "bit (vic_in_service (pb_vic (fst (bus_step ops e s)))) l"
proof (cases e)
  case (GuestWrite addr val)
  with assms show ?thesis
    by (cases s) (auto simp: mmio_write_def Let_def vic_ops_def bit_simps dest: bit_imp_le_length)
next
  case (DeliverIrq vb)
  with assms show ?thesis
    by (cases s)
       (auto simp: deliver_irq_def vic_deliver_next_def Let_def bit_simps
         split: prod.splits option.splits if_splits)
qed (use assms in \<open>cases s; auto simp: mmio_read_def tick_slice_def tick_def raise_line_def
       vector_and_ack_def Let_def bit_simps split: prod.splits\<close>)+

interpretation bus_service: latch "bus_step ops" "\<lambda>s. vic_base (fst s) = vb"
  "\<lambda>s. bit (vic_in_service (pb_vic (fst s))) l" "retires vb l"
proof
  show "vic_base (fst (bus_step ops e s)) = vb" if "vic_base (fst s) = vb" for s e
    using that pb_config_step [of ops e s] by (simp add: pb_config_def)
qed (auto intro: in_service_step)

lemma in_service_not_deliverable:
  "bit (vic_in_service v) l \<Longrightarrow> deliverable_line v \<noteq> int l"
  by (simp add: deliverable_line_some ready_def)

text \<open>
  C10: IRQ delivery is not re-entrant. Once a line is in service, whatever loads, stores, slices,
  deliveries and guest execution follow, as long as no store is an end-of-interrupt or an INT_CLEAR
  of that line, no delivery attempt takes that line again, so the banked return state of its running
  handler is never overwritten by a second entry for it.
\<close>

theorem no_redelivery_before_eoi:
  assumes "bit (vic_in_service (pb_vic (fst s))) l"
    and "\<forall>e \<in> set es. \<not> retires (vic_base (fst s)) l e"
  shows "case fold (bus_step ops) es s of (b, uc) \<Rightarrow>
    (case deliver_irq ops uc vb b of (taken, uc', b') \<Rightarrow>
       taken \<longrightarrow> vic_in_service_line (pb_vic b') \<noteq> int l)"
proof -
  obtain b uc where run: "fold (bus_step ops) es s = (b, uc)" by fastforce
  have "bit (vic_in_service (pb_vic b)) l"
    using bus_service.held_run [OF refl assms, of ops] run by simp
  then have "deliverable_line (pb_vic b) \<noteq> int l" by (rule in_service_not_deliverable)
  then show ?thesis
    unfolding run deliver_irq_def by (auto simp: vic_deliver_next_def Let_def split: option.splits)
qed

theorem no_redelivery_before_eoi_witness:
  "let b = pb_init\<lparr>pb_vic := vic_init\<lparr>vic_pending := 0x100, vic_enable := 0x100,
                    vic_in_service := 0x100, vic_in_service_line := 8\<rparr>\<rparr>;
       es = [TickSlice, GuestWrite 0xC0000028 0xffffffff, GuestRead 0xC0000F00]
   in case fold (bus_step arm_ops) es (b, Some arm_init) of (b, uc) \<Rightarrow>
        (case deliver_irq arm_ops uc 0 b of (taken, uc', b') \<Rightarrow>
           taken \<longrightarrow> vic_in_service_line (pb_vic b') \<noteq> int 8)"
proof -
  let ?b = "pb_init\<lparr>pb_vic := vic_init\<lparr>vic_pending := 0x100, vic_enable := 0x100,
                    vic_in_service := 0x100, vic_in_service_line := 8\<rparr>\<rparr>"
  let ?es = "[TickSlice, GuestWrite 0xC0000028 0xffffffff, GuestRead 0xC0000F00] :: arm bus_event list"
  have "bit (0x100 :: u32) 8" by code_simp
  then have "bit (vic_in_service (pb_vic (fst (?b, Some arm_init)))) 8" by simp
  moreover have "\<forall>e \<in> set ?es. \<not> retires (vic_base (fst (?b, Some arm_init))) 8 e"
    by (simp add: pb_init_def pb_consts)
  ultimately show ?thesis
    using no_redelivery_before_eoi [of "(?b, Some arm_init)" 8 ?es arm_ops 0]
    by (simp only: Let_def)
qed

section \<open>Virtual time\<close>

fun is_tick :: "'u bus_event \<Rightarrow> bool" where
  "is_tick TickSlice \<longleftrightarrow> True"
| "is_tick _ \<longleftrightarrow> False"

definition tick_count :: "'u bus_event list \<Rightarrow> nat" where
  "tick_count es = length (filter is_tick es)"

lemma virtual_ticks_step:
  "virtual_ticks (fst (bus_step ops e s)) =
     virtual_ticks (fst s) + (if is_tick e then ucast (ticks_per_slice (fst s)) else 0)"
  by (cases s; cases e)
     (auto simp: mmio_write_def mmio_read_def tick_slice_def tick_def deliver_irq_def Let_def
       split: prod.splits)

lemma ticks_per_slice_step: "ticks_per_slice (fst (bus_step ops e s)) = ticks_per_slice (fst s)"
  using pb_config_step [of ops e s] by (simp add: pb_config_def)

text \<open>
  Virtual time depends on the number of scheduler slices only. After any run, the clock has
  advanced by the fixed quantum times the number of slices in the run (modulo \<open>2 ^ 64\<close>), whatever
  the guest loaded, stored or executed in between.
\<close>

theorem virtual_time_deterministic:
  "virtual_ticks (fst (fold (bus_step ops) es s)) =
     virtual_ticks (fst s) + of_nat (tick_count es) * ucast (ticks_per_slice (fst s))"
proof (induction es arbitrary: s)
  case (Cons e es)
  then show ?case
    by (simp add: virtual_ticks_step ticks_per_slice_step tick_count_def algebra_simps)
qed (simp add: tick_count_def)

text \<open>Events that leave the timer's registers alone.\<close>

fun no_gpt_write :: "peripheral_bus \<Rightarrow> 'u bus_event \<Rightarrow> bool" where
  "no_gpt_write b (GuestWrite addr val) \<longleftrightarrow> in_vic b addr \<or> \<not> in_gpt b addr"
| "no_gpt_write b _ \<longleftrightarrow> True"

lemma no_gpt_write_step: "no_gpt_write (fst (bus_step ops e s)) e' = no_gpt_write (fst s) e'"
  using pb_config_step [of ops e s]
  by (cases e') (auto simp: in_vic_def in_gpt_def pb_config_def)

lemma gpt_step:
  assumes "no_gpt_write (fst s) e"
  shows "pb_gpt (fst (bus_step ops e s)) =
    (if is_tick e then snd (gpt_advance (ticks_per_slice (fst s)) (pb_gpt (fst s)))
     else pb_gpt (fst s))"
  using assms
  by (cases s; cases e)
     (auto simp: mmio_write_def mmio_read_def tick_slice_def tick_def deliver_irq_def Let_def
       split: prod.splits)

lemma gpt_after_shift: "gpt_after q n (snd (gpt_advance q g)) = gpt_after q (Suc n) g"
  by (simp only: gpt_after_def funpow_Suc_right comp_apply)

lemma gpt_run:
  assumes "\<forall>e \<in> set es. no_gpt_write (fst s) e"
  shows "pb_gpt (fst (fold (bus_step ops) es s)) =
    gpt_after (ticks_per_slice (fst s)) (tick_count es) (pb_gpt (fst s))"
  using assms
proof (induction es arbitrary: s)
  case (Cons e es)
  then show ?case
    by (simp add: gpt_step ticks_per_slice_step no_gpt_write_step tick_count_def gpt_after_shift)
qed (simp add: tick_count_def gpt_after_def)

lemma tick_slice_fires:
  "fst (tick_slice b) = fst (gpt_advance (ticks_per_slice b) (pb_gpt b))"
  "fst (tick_slice b) \<Longrightarrow> gpt_line b < 32 \<Longrightarrow>
     bit (vic_pending (pb_vic (snd (tick_slice b)))) (gpt_line b)"
  by (auto simp: tick_slice_def tick_def Let_def raise_line_def bit_simps split: prod.splits)

text \<open>
  C30: a guest that waits for a timer deadline is released after a number of slices that is known
  in advance. From a bus whose timer is enabled and armed, let \<open>k\<close> be the number of whole quanta
  strictly before the deadline. In every run that does not store to the timer, the slices with
  numbers up to \<open>k\<close> do not fire, and the slice after \<open>k\<close> slices fires and makes the timer's line
  pending in the interrupt controller.
\<close>

theorem timer_fires_at_known_slice:
  assumes "gpt_enabled (pb_gpt (fst s))" "gpt_match_armed (pb_gpt (fst s))"
    and "ticks_per_slice (fst s) \<noteq> 0" "gpt_line (fst s) < 32"
    and "\<forall>e \<in> set es. no_gpt_write (fst s) e"
  shows "let k = (gpt_dist (pb_gpt (fst s)) - 1) div unat (ticks_per_slice (fst s));
             b = fst (fold (bus_step ops) es s)
    in (tick_count es < k \<longrightarrow> \<not> fst (tick_slice b)) \<and>
       (tick_count es = k \<longrightarrow> fst (tick_slice b) \<and>
          bit (vic_pending (pb_vic (snd (tick_slice b)))) (gpt_line b))"
proof -
  let ?b = "fst (fold (bus_step ops) es s)"
  have conf: "pb_config ?b = pb_config (fst s)"
    by (rule bus_config.inv_run) simp
  have "fst (tick_slice ?b) =
      fst (gpt_advance (ticks_per_slice (fst s))
            (gpt_after (ticks_per_slice (fst s)) (tick_count es) (pb_gpt (fst s))))"
    using conf gpt_run [OF assms(5), of ops]
    by (simp add: tick_slice_fires(1) pb_config_def)
  with gpt_first_fire [OF assms(1,2,3)] tick_slice_fires(2) [of ?b] conf assms(4) show ?thesis
    by (auto simp: pb_config_def Let_def)
qed

theorem timer_fires_at_known_slice_witness:
  "let b = pb_init\<lparr>pb_gpt := gpt_init\<lparr>gpt_enabled := True, gpt_match := 10000\<rparr>\<rparr>;
       b' = fst (fold (bus_step arm_ops) [TickSlice, GuestRead 0xC0100004, TickSlice] (b, Some arm_init))
   in fst (tick_slice b') \<and> bit (vic_pending (pb_vic (snd (tick_slice b')))) 8"
proof -
  let ?g = "gpt_init\<lparr>gpt_enabled := True, gpt_match := 10000\<rparr>"
  let ?b = "pb_init\<lparr>pb_gpt := ?g\<rparr>"
  let ?s = "(?b, Some arm_init)"
  let ?es = "[TickSlice, GuestRead 0xC0100004, TickSlice] :: arm bus_event list"
  have h: "gpt_enabled (pb_gpt (fst ?s))" "gpt_match_armed (pb_gpt (fst ?s))"
    "ticks_per_slice (fst ?s) \<noteq> 0" "gpt_line (fst ?s) < 32"
    "\<forall>e \<in> set ?es. no_gpt_write (fst ?s) e"
    by (simp_all add: pb_init_def gpt_init_def pb_consts)
  have k: "(gpt_dist (pb_gpt (fst ?s)) - 1) div unat (ticks_per_slice (fst ?s)) = 2"
    by (simp add: pb_init_def gpt_init_def gpt_dist_def)
  have "pb_config (fst (fold (bus_step arm_ops) ?es ?s)) = pb_config ?b"
    by (rule bus_config.inv_run) simp
  then have "gpt_line (fst (fold (bus_step arm_ops) ?es ?s)) = 8"
    by (simp add: pb_config_def pb_init_def pb_consts)
  with timer_fires_at_known_slice [OF h, of arm_ops] show ?thesis
    unfolding k Let_def by (simp add: tick_count_def)
qed

end
