(* ===== verification/Proc_Comm.thy ===== *)
theory Proc_Comm
  imports Zeebo_Prelude Machine_Runs
begin

text \<open>
  \<open>tools/cpp/zeebo_proccomm.h\<close>: the inter-core ProcComm handshake over shared memory. Core 0 issues
  a command, the modem (core 1) is the only writer of the completion. The model works on the shared
  bytes; the theorems show that a completion the application core observes is the modem's verdict
  on the command issued last, and that no sequence of core 0 operations produces one.
\<close>

definition PCOM_OFF_APP_COMMAND :: u32 where "PCOM_OFF_APP_COMMAND = 0x00"
definition PCOM_OFF_APP_STATUS :: u32 where "PCOM_OFF_APP_STATUS = 0x04"
definition PCOM_OFF_APP_DATA1 :: u32 where "PCOM_OFF_APP_DATA1 = 0x08"
definition PCOM_OFF_APP_DATA2 :: u32 where "PCOM_OFF_APP_DATA2 = 0x0c"
definition PCOM_OFF_PEND_FLAG :: u32 where "PCOM_OFF_PEND_FLAG = 0x20"
definition PCOM_OFF_PEND_CMD :: u32 where "PCOM_OFF_PEND_CMD = 0x24"
definition PCOM_CMD_DONE :: u32 where "PCOM_CMD_DONE = 1"
definition PCOM_STATUS_UNSET :: u32 where "PCOM_STATUS_UNSET = 0xffffffff"
definition PCOM_CMD_SUCCESS :: u32 where "PCOM_CMD_SUCCESS = 0"
definition PCOM_CMD_FAIL_UNSUPPORTED :: u32 where "PCOM_CMD_FAIL_UNSUPPORTED = 1"
definition PCOM_CMD_RESET_MODEM :: u32 where "PCOM_CMD_RESET_MODEM = 0x1"
definition PCOM_CMD_GET_DEM_STATE :: u32 where "PCOM_CMD_GET_DEM_STATE = 0x10"

lemmas pcom_offsets = PCOM_OFF_APP_COMMAND_def PCOM_OFF_APP_STATUS_def PCOM_OFF_APP_DATA1_def
  PCOM_OFF_APP_DATA2_def PCOM_OFF_PEND_FLAG_def PCOM_OFF_PEND_CMD_def

lemmas pcom_codes = PCOM_CMD_DONE_def PCOM_STATUS_UNSET_def PCOM_CMD_SUCCESS_def
  PCOM_CMD_FAIL_UNSUPPORTED_def PCOM_CMD_RESET_MODEM_def PCOM_CMD_GET_DEM_STATE_def

text \<open>The shared backing; \<open>None\<close> is the null pointer of an unbound block.\<close>

record proc_comm =
  smem :: "u8 list option"

definition in_range :: "u32 \<Rightarrow> proc_comm \<Rightarrow> bool" where
  "in_range off pc \<longleftrightarrow>
     (case smem pc of None \<Rightarrow> False | Some m \<Rightarrow> unat (off + 4) \<le> length m)"

definition pc_rd :: "u32 \<Rightarrow> proc_comm \<Rightarrow> u32" where
  "pc_rd off pc =
     (case smem pc of None \<Rightarrow> 0
      | Some m \<Rightarrow> if in_range off pc then rd32 m (unat off) else 0)"

definition pc_wr :: "u32 \<Rightarrow> u32 \<Rightarrow> proc_comm \<Rightarrow> proc_comm" where
  "pc_wr off v pc =
     (case smem pc of None \<Rightarrow> pc
      | Some m \<Rightarrow> if in_range off pc then pc\<lparr>smem := Some (wr32 m (unat off) v)\<rparr> else pc)"

definition bind_block :: "u8 list option \<Rightarrow> proc_comm" where
  "bind_block base =
     (let pc = \<lparr>smem = base\<rparr>;
          pc = (if in_range PCOM_OFF_APP_STATUS pc
                then pc_wr PCOM_OFF_APP_STATUS PCOM_STATUS_UNSET pc else pc)
      in if in_range PCOM_OFF_PEND_FLAG pc then pc_wr PCOM_OFF_PEND_FLAG 0 pc else pc)"

definition core0_issue :: "u32 \<Rightarrow> u32 \<Rightarrow> u32 \<Rightarrow> proc_comm \<Rightarrow> proc_comm" where
  "core0_issue cmd data1 data2 pc =
     (let pc = pc_wr PCOM_OFF_APP_DATA1 data1 pc;
          pc = pc_wr PCOM_OFF_APP_DATA2 data2 pc;
          pc = pc_wr PCOM_OFF_APP_STATUS PCOM_STATUS_UNSET pc;
          pc = pc_wr PCOM_OFF_APP_COMMAND cmd pc;
          pc = pc_wr PCOM_OFF_PEND_CMD cmd pc
      in pc_wr PCOM_OFF_PEND_FLAG 1 pc)"

definition command_pending :: "proc_comm \<Rightarrow> bool" where
  "command_pending pc \<longleftrightarrow> pc_rd PCOM_OFF_PEND_FLAG pc = 1"

definition is_supported :: "u32 \<Rightarrow> bool" where
  "is_supported cmd \<longleftrightarrow> cmd = PCOM_CMD_RESET_MODEM \<or> cmd = PCOM_CMD_GET_DEM_STATE"

definition core1_service :: "proc_comm \<Rightarrow> bool \<times> proc_comm" where
  "core1_service pc =
     (if \<not> command_pending pc then (False, pc)
      else
        let cmd = pc_rd PCOM_OFF_PEND_CMD pc;
            status = (if is_supported cmd then PCOM_CMD_SUCCESS else PCOM_CMD_FAIL_UNSUPPORTED);
            pc = pc_wr PCOM_OFF_APP_STATUS status pc;
            pc = pc_wr PCOM_OFF_APP_COMMAND PCOM_CMD_DONE pc
        in (True, pc_wr PCOM_OFF_PEND_FLAG 0 pc))"

definition completed :: "proc_comm \<Rightarrow> bool" where
  "completed pc \<longleftrightarrow>
     pc_rd PCOM_OFF_APP_COMMAND pc = PCOM_CMD_DONE \<and> pc_rd PCOM_OFF_PEND_FLAG pc = 0"

definition pc_status :: "proc_comm \<Rightarrow> u32" where
  "pc_status pc = pc_rd PCOM_OFF_APP_STATUS pc"

section \<open>The block as a word store\<close>

definition pcom_slots :: "u32 set" where
  "pcom_slots = {0x00, 0x04, 0x08, 0x0c, 0x20, 0x24}"

text \<open>A block that holds every word of the protocol.\<close>

definition block_ok :: "proc_comm \<Rightarrow> bool" where
  "block_ok pc \<longleftrightarrow> (\<exists>m. smem pc = Some m \<and> 0x28 \<le> length m)"

definition pcom_slot :: "proc_comm \<Rightarrow> u32 \<Rightarrow> bool" where
  "pcom_slot pc off \<longleftrightarrow> block_ok pc \<and> off \<in> pcom_slots"

lemma pcom_slot_in_range: "pcom_slot pc off \<Longrightarrow> in_range off pc"
  by (auto simp: pcom_slot_def pcom_slots_def block_ok_def in_range_def)

lemma block_ok_wr [simp]: "pcom_slot pc off \<Longrightarrow> block_ok (pc_wr off v pc) = block_ok pc"
  by (auto simp: pc_wr_def pcom_slot_in_range)
     (auto simp: pcom_slot_def block_ok_def pcom_slots_def)

interpretation pcom: word_mem pc_rd pc_wr pcom_slot
proof
  fix m :: proc_comm and a b v
  show "pcom_slot m a \<Longrightarrow> pcom_slot (pc_wr a v m) b = pcom_slot m b"
    by (simp add: pcom_slot_def [of _ b])
  assume a: "pcom_slot m a"
  then obtain xs where xs: "smem m = Some xs" "0x28 \<le> length xs" "a \<in> pcom_slots"
    by (auto simp: pcom_slot_def block_ok_def)
  then have bound: "unat a + 4 \<le> length xs" by (auto simp: pcom_slots_def)
  have range: "in_range c m = (unat (c + 4) \<le> length xs)" for c by (simp add: in_range_def xs)
  from a have "unat (a + 4) \<le> length xs" using range pcom_slot_in_range by blast
  with xs bound show "pc_rd a (pc_wr a v m) = v"
    by (simp add: pc_wr_def pc_rd_def in_range_def byte_simps)
  show "pc_rd b (pc_wr a v m) = pc_rd b m" if b: "pcom_slot m b" and ne: "a \<noteq> b"
  proof -
    from b have "b \<in> pcom_slots" by (simp add: pcom_slot_def)
    with xs(3) ne have "unat a + 4 \<le> unat b \<or> unat b + 4 \<le> unat a"
      by (auto simp: pcom_slots_def)
    with xs bound show ?thesis
      by (auto simp: pc_wr_def pc_rd_def in_range_def byte_simps)
  qed
qed

lemma pcom_slots_simps [simp]:
  "pcom_slot pc PCOM_OFF_APP_COMMAND = block_ok pc" "pcom_slot pc PCOM_OFF_APP_STATUS = block_ok pc"
  "pcom_slot pc PCOM_OFF_APP_DATA1 = block_ok pc" "pcom_slot pc PCOM_OFF_APP_DATA2 = block_ok pc"
  "pcom_slot pc PCOM_OFF_PEND_FLAG = block_ok pc" "pcom_slot pc PCOM_OFF_PEND_CMD = block_ok pc"
  by (simp_all add: pcom_slot_def pcom_slots_def pcom_offsets)

lemma core0_issue_writes:
  "core0_issue cmd d1 d2 pc = fold (\<lambda>(a, v). pc_wr a v)
     [(PCOM_OFF_APP_DATA1, d1), (PCOM_OFF_APP_DATA2, d2), (PCOM_OFF_APP_STATUS, PCOM_STATUS_UNSET),
      (PCOM_OFF_APP_COMMAND, cmd), (PCOM_OFF_PEND_CMD, cmd), (PCOM_OFF_PEND_FLAG, 1)] pc"
  by (simp add: core0_issue_def Let_def)

definition verdict :: "u32 \<Rightarrow> u32" where
  "verdict cmd = (if is_supported cmd then PCOM_CMD_SUCCESS else PCOM_CMD_FAIL_UNSUPPORTED)"

lemma core1_service_writes:
  "command_pending pc \<Longrightarrow>
   snd (core1_service pc) = fold (\<lambda>(a, v). pc_wr a v)
     [(PCOM_OFF_APP_STATUS, verdict (pc_rd PCOM_OFF_PEND_CMD pc)),
      (PCOM_OFF_APP_COMMAND, PCOM_CMD_DONE), (PCOM_OFF_PEND_FLAG, 0)] pc"
  by (simp add: core1_service_def Let_def verdict_def)

lemma block_ok_slot: "block_ok pc = pcom_slot pc PCOM_OFF_APP_COMMAND"
  by simp

lemma block_ok_issue [simp]: "block_ok pc \<Longrightarrow> block_ok (core0_issue cmd d1 d2 pc)"
  unfolding core0_issue_writes by (subst block_ok_slot, subst pcom.slot_writes) auto

lemma block_ok_service [simp]: "block_ok pc \<Longrightarrow> block_ok (snd (core1_service pc))"
proof (cases "command_pending pc")
  case True
  assume "block_ok pc"
  then show ?thesis
    unfolding core1_service_writes [OF True] by (subst block_ok_slot, subst pcom.slot_writes) auto
qed (simp add: core1_service_def)

lemma core0_issue_reads:
  assumes "block_ok pc"
  shows "pc_rd PCOM_OFF_APP_DATA1 (core0_issue cmd d1 d2 pc) = d1"
    and "pc_rd PCOM_OFF_APP_DATA2 (core0_issue cmd d1 d2 pc) = d2"
    and "pc_rd PCOM_OFF_APP_STATUS (core0_issue cmd d1 d2 pc) = PCOM_STATUS_UNSET"
    and "pc_rd PCOM_OFF_APP_COMMAND (core0_issue cmd d1 d2 pc) = cmd"
    and "pc_rd PCOM_OFF_PEND_CMD (core0_issue cmd d1 d2 pc) = cmd"
    and "pc_rd PCOM_OFF_PEND_FLAG (core0_issue cmd d1 d2 pc) = 1"
  unfolding core0_issue_writes
  by (subst pcom.rd_writes, simp add: assms, simp add: assms, simp add: pcom_offsets)+

lemma core1_service_reads:
  assumes "block_ok pc" "command_pending pc"
  shows "pc_rd PCOM_OFF_APP_STATUS (snd (core1_service pc)) = verdict (pc_rd PCOM_OFF_PEND_CMD pc)"
    and "pc_rd PCOM_OFF_APP_COMMAND (snd (core1_service pc)) = PCOM_CMD_DONE"
    and "pc_rd PCOM_OFF_PEND_FLAG (snd (core1_service pc)) = 0"
    and "pc_rd PCOM_OFF_APP_DATA1 (snd (core1_service pc)) = pc_rd PCOM_OFF_APP_DATA1 pc"
    and "pc_rd PCOM_OFF_APP_DATA2 (snd (core1_service pc)) = pc_rd PCOM_OFF_APP_DATA2 pc"
    and "pc_rd PCOM_OFF_PEND_CMD (snd (core1_service pc)) = pc_rd PCOM_OFF_PEND_CMD pc"
  unfolding core1_service_writes [OF assms(2)]
  by (subst pcom.rd_writes, simp add: assms, simp add: assms, simp add: pcom_offsets)+

lemma bind_block_ok: "0x28 \<le> length m \<Longrightarrow> block_ok (bind_block (Some m))"
proof -
  assume "0x28 \<le> length m"
  then have "block_ok \<lparr>smem = Some m\<rparr>" by (simp add: block_ok_def)
  then show ?thesis by (simp add: bind_block_def Let_def)
qed

lemma bind_block_reads:
  assumes "0x28 \<le> length m"
  shows "pc_rd PCOM_OFF_APP_STATUS (bind_block (Some m)) = PCOM_STATUS_UNSET"
    and "pc_rd PCOM_OFF_PEND_FLAG (bind_block (Some m)) = 0"
proof -
  let ?pc = "\<lparr>smem = Some m\<rparr> :: proc_comm"
  have ok: "block_ok ?pc" using assms by (simp add: block_ok_def)
  have rg: "in_range PCOM_OFF_APP_STATUS ?pc"
    "in_range PCOM_OFF_PEND_FLAG (pc_wr PCOM_OFF_APP_STATUS PCOM_STATUS_UNSET ?pc)"
    using ok by (auto intro: pcom_slot_in_range)
  have "bind_block (Some m) = fold (\<lambda>(a, v). pc_wr a v)
      [(PCOM_OFF_APP_STATUS, PCOM_STATUS_UNSET), (PCOM_OFF_PEND_FLAG, 0)] ?pc"
    using rg by (simp add: bind_block_def Let_def)
  then show "pc_rd PCOM_OFF_APP_STATUS (bind_block (Some m)) = PCOM_STATUS_UNSET"
    and "pc_rd PCOM_OFF_PEND_FLAG (bind_block (Some m)) = 0"
    by (simp_all only:)
       (subst pcom.rd_writes, simp add: ok, simp add: ok, simp add: pcom_offsets)+
qed

section \<open>The handshake\<close>

text \<open>
  C3: a command issued by core 0 is pending and not complete until the modem serves it, for every
  command id, the id of \<open>RESET_MODEM\<close> that equals the completion sentinel included; serving it
  completes the handshake with the honest status (success for the two supported commands,
  unsupported for every other), keeps the argument words, and a second service finds nothing to do.
\<close>

theorem handshake_round:
  assumes "block_ok pc"
  shows "let p = core0_issue cmd d1 d2 pc; q = snd (core1_service p) in
    command_pending p \<and> \<not> completed p \<and> pc_status p = PCOM_STATUS_UNSET \<and>
    fst (core1_service p) \<and> completed q \<and> \<not> command_pending q \<and>
    pc_status q = (if cmd = 0x1 \<or> cmd = 0x10 then PCOM_CMD_SUCCESS else PCOM_CMD_FAIL_UNSUPPORTED) \<and>
    pc_rd PCOM_OFF_APP_DATA1 q = d1 \<and> pc_rd PCOM_OFF_APP_DATA2 q = d2 \<and>
    core1_service q = (False, q)"
proof -
  let ?p = "core0_issue cmd d1 d2 pc"
  have ok: "block_ok ?p" using assms by simp
  have pend: "command_pending ?p" by (simp add: command_pending_def core0_issue_reads assms)
  then have "fst (core1_service ?p)" by (simp add: core1_service_def Let_def)
  moreover have "\<not> command_pending (snd (core1_service ?p))"
    by (simp only: command_pending_def [of "snd _"] core1_service_reads [OF ok pend]) simp
  moreover from this have "core1_service (snd (core1_service ?p)) = (False, snd (core1_service ?p))"
    by (simp add: core1_service_def)
  ultimately show ?thesis
    using pend
    by (simp add: Let_def completed_def pc_status_def core0_issue_reads [OF assms]
        core1_service_reads [OF ok pend] verdict_def is_supported_def pcom_codes)
qed

theorem handshake_round_witness:
  "let pc = bind_block (Some (replicate 64 0)); q = snd (core1_service (core0_issue 0x1 7 9 pc))
   in block_ok pc \<and> completed q \<and> pc_status q = PCOM_CMD_SUCCESS"
proof -
  have ok: "block_ok (bind_block (Some (replicate 64 0)))" by (rule bind_block_ok) simp
  from handshake_round [OF ok, of "0x1" 7 9] ok show ?thesis by (simp add: Let_def)
qed

section \<open>Reachable states\<close>

text \<open>
  The states of a bound block, with the command core 0 issued last (none before the first). The
  application core issues at any time, also over a pending command; the modem serves at any time.
\<close>

inductive pc_reach :: "proc_comm \<Rightarrow> u32 option \<Rightarrow> bool" where
  bound: "0x28 \<le> length m \<Longrightarrow> pc_reach (bind_block (Some m)) None"
| issued: "pc_reach pc lastcmd \<Longrightarrow> pc_reach (core0_issue cmd d1 d2 pc) (Some cmd)"
| served: "pc_reach pc lastcmd \<Longrightarrow> pc_reach (snd (core1_service pc)) lastcmd"

definition pc_inv :: "proc_comm \<Rightarrow> u32 option \<Rightarrow> bool" where
  "pc_inv pc lastcmd \<longleftrightarrow> block_ok pc \<and>
     (if command_pending pc
      then lastcmd = Some (pc_rd PCOM_OFF_PEND_CMD pc) \<and> pc_status pc = PCOM_STATUS_UNSET
      else pc_rd PCOM_OFF_PEND_FLAG pc = 0 \<and>
           pc_status pc = (case lastcmd of None \<Rightarrow> PCOM_STATUS_UNSET | Some cmd \<Rightarrow> verdict cmd))"

lemma pc_reach_inv: "pc_reach pc lastcmd \<Longrightarrow> pc_inv pc lastcmd"
proof (induction rule: pc_reach.induct)
  case (bound m)
  then show ?case
    by (simp add: pc_inv_def bind_block_ok command_pending_def pc_status_def bind_block_reads)
next
  case (issued pc lastcmd cmd d1 d2)
  then have "block_ok pc" by (simp add: pc_inv_def)
  then show ?case
    by (simp add: pc_inv_def command_pending_def pc_status_def core0_issue_reads)
next
  case (served pc lastcmd)
  show ?case
  proof (cases "command_pending pc")
    case True
    with served have "block_ok pc" "lastcmd = Some (pc_rd PCOM_OFF_PEND_CMD pc)"
      by (simp_all add: pc_inv_def)
    with True show ?thesis
      by (simp add: pc_inv_def command_pending_def [of "snd _"] pc_status_def core1_service_reads)
  next
    case False
    with served show ?thesis by (simp add: core1_service_def)
  qed
qed

text \<open>
  No completion is fabricated. In every state the two cores can bring the block to, a status
  other than the unset marker is the modem's verdict on the command issued last, and that command
  is no longer pending; while a command is pending the status is unset and the handshake is not
  complete.
\<close>

theorem status_is_verdict_on_last_command:
  assumes "pc_reach pc lastcmd"
  shows "(pc_status pc \<noteq> PCOM_STATUS_UNSET \<longrightarrow>
      (\<exists>cmd. lastcmd = Some cmd \<and> pc_status pc = verdict cmd \<and> \<not> command_pending pc)) \<and>
    (command_pending pc \<longrightarrow> pc_status pc = PCOM_STATUS_UNSET \<and> \<not> completed pc)"
  using pc_reach_inv [OF assms]
  by (auto simp: pc_inv_def completed_def command_pending_def split: option.splits if_splits)

theorem status_is_verdict_on_last_command_witness:
  "let pc = snd (core1_service (core0_issue 0x99 0 0 (bind_block (Some (replicate 64 0)))))
   in pc_status pc = PCOM_CMD_FAIL_UNSUPPORTED \<and> \<not> command_pending pc"
proof -
  let ?p = "core0_issue 0x99 0 0 (bind_block (Some (replicate 64 0)))"
  have ok: "block_ok (bind_block (Some (replicate 64 0)))" by (rule bind_block_ok) simp
  have r: "pc_reach (snd (core1_service ?p)) (Some 0x99)"
    by (rule pc_reach.served, rule pc_reach.issued, rule pc_reach.bound) simp
  have "pc_status (snd (core1_service ?p)) = PCOM_CMD_FAIL_UNSUPPORTED"
    using ok by (simp add: pc_status_def core1_service_reads command_pending_def core0_issue_reads
      verdict_def is_supported_def pcom_codes)
  with status_is_verdict_on_last_command [OF r] show ?thesis
    by (simp add: Let_def pcom_codes)
qed

section \<open>A pending command stays pending\<close>

datatype pc_event = Issue u32 u32 u32 | Serve

fun pc_step :: "pc_event \<Rightarrow> proc_comm \<Rightarrow> proc_comm" where
  "pc_step (Issue cmd d1 d2) pc = core0_issue cmd d1 d2 pc"
| "pc_step Serve pc = snd (core1_service pc)"

interpretation pc_pending: latch pc_step block_ok command_pending "\<lambda>e. e = Serve"
proof
  fix pc e
  show "block_ok pc \<Longrightarrow> block_ok (pc_step e pc)" by (cases e) simp_all
  show "block_ok pc \<Longrightarrow> command_pending pc \<Longrightarrow> e \<noteq> Serve \<Longrightarrow> command_pending (pc_step e pc)"
    by (cases e) (simp_all add: command_pending_def core0_issue_reads)
qed

text \<open>
  Only the modem ends a handshake. If a command is pending and after some sequence of issues
  and services it is not, the sequence contains a service by the modem.
\<close>

theorem only_modem_completes:
  assumes "block_ok pc" "command_pending pc" "\<not> command_pending (fold pc_step es pc)"
  shows "Serve \<in> set es"
  using pc_pending.released_by_event [OF assms] by simp

theorem only_modem_completes_witness:
  "Serve \<in> set [Issue 2 0 0, Serve]"
proof -
  let ?pc = "core0_issue 1 0 0 (bind_block (Some (replicate 64 0)))"
  have ok0: "block_ok (bind_block (Some (replicate 64 0)))" by (rule bind_block_ok) simp
  then have ok: "block_ok ?pc" by simp
  have pend: "command_pending ?pc" using ok0 by (simp add: command_pending_def core0_issue_reads)
  have pend2: "command_pending (core0_issue 2 0 0 ?pc)"
    using ok by (simp add: command_pending_def core0_issue_reads)
  have "\<not> command_pending (fold pc_step [Issue 2 0 0, Serve] ?pc)"
    using ok pend2 by (simp add: command_pending_def [of "snd _"] core1_service_reads)
  from only_modem_completes [OF ok pend this] show ?thesis .
qed

end
