(* ===== verification/Nand_Controller.thy ===== *)
theory Nand_Controller
  imports Zeebo_Prelude
begin

text \<open>
  \<open>tools/cpp/zeebo_devices.h\<close>, class \<open>NandController\<close>: the flash controller backed by a dump of the
  flash. A command is latched in FLASH_CMD and run by a store to EXEC_CMD; a page read copies one
  page of the dump into the page buffer, which the guest then reads through the FLASH_BUFFER window.
  The dump and the spare-area dump are byte lists (empty when the file can not be opened).
\<close>

definition NAND_BASE :: u32 where "NAND_BASE = 0xA0A00000"
definition R_FLASH_CMD :: u32 where "R_FLASH_CMD = 0x0000"
definition R_ADDR0 :: u32 where "R_ADDR0 = 0x0004"
definition R_ADDR1 :: u32 where "R_ADDR1 = 0x0008"
definition R_EXEC_CMD :: u32 where "R_EXEC_CMD = 0x0010"
definition R_FLASH_STATUS :: u32 where "R_FLASH_STATUS = 0x0014"
definition R_BUFFER_STATUS :: u32 where "R_BUFFER_STATUS = 0x0018"
definition R_DEV0_CFG0 :: u32 where "R_DEV0_CFG0 = 0x0020"
definition R_DEV0_CFG1 :: u32 where "R_DEV0_CFG1 = 0x0024"
definition R_READ_ID :: u32 where "R_READ_ID = 0x0040"
definition R_READ_STATUS :: u32 where "R_READ_STATUS = 0x0044"
definition R_CONFIG_STATUS :: u32 where "R_CONFIG_STATUS = 0x0060"
definition R_FLASH_BUFFER :: u32 where "R_FLASH_BUFFER = 0x0100"
definition CMD_PAGE_READ :: u32 where "CMD_PAGE_READ = 0x32"
definition CMD_PAGE_READ_ECC :: u32 where "CMD_PAGE_READ_ECC = 0x33"
definition CMD_PAGE_READ_ALL :: u32 where "CMD_PAGE_READ_ALL = 0x34"
definition CMD_FETCH_ID :: u32 where "CMD_FETCH_ID = 0x0B"
definition FS_READY :: u32 where "FS_READY = bit_mask 6"
definition FS_OP_ERR :: u32 where "FS_OP_ERR = bit_mask 4"
definition PAGE_DATA :: nat where "PAGE_DATA = 2048"
definition PAGE_FULL :: nat where "PAGE_FULL = 2112"

lemmas nand_regs = NAND_BASE_def R_FLASH_CMD_def R_ADDR0_def R_ADDR1_def R_EXEC_CMD_def
  R_FLASH_STATUS_def R_BUFFER_STATUS_def R_DEV0_CFG0_def R_DEV0_CFG1_def R_READ_ID_def
  R_READ_STATUS_def R_CONFIG_STATUS_def R_FLASH_BUFFER_def

lemmas nand_cmds = CMD_PAGE_READ_def CMD_PAGE_READ_ECC_def CMD_PAGE_READ_ALL_def CMD_FETCH_ID_def

record nand =
  nand_id :: u32
  nand_status :: u32
  last_cmd :: u32
  id_latched :: u32
  data_blob :: "u8 list"
  spare_blob :: "u8 list"
  nand_buffer :: "u8 list"
  nand_reg :: "u32 \<rightharpoonup> u32"

definition nand_new :: "u8 list \<Rightarrow> u8 list option \<Rightarrow> u32 \<Rightarrow> nand" where
  "nand_new data spare nid =
     \<lparr>nand_id = nid, nand_status = FS_READY, last_cmd = 0, id_latched = 0, data_blob = data,
      spare_blob = (case spare of None \<Rightarrow> data | Some s \<Rightarrow> s),
      nand_buffer = replicate PAGE_FULL 0,
      nand_reg = [R_DEV0_CFG0 \<mapsto> 0xa25400c0, R_DEV0_CFG1 \<mapsto> 0x0004745e]\<rparr>"

text \<open>The loop of \<open>read\<close> over the bytes \<open>k = 3, 2, 1, 0\<close>: \<open>k\<close> bytes are left, \<open>v\<close> is the value so far.\<close>

fun buffer_word :: "u8 list \<Rightarrow> nat \<Rightarrow> nat \<Rightarrow> u32 \<Rightarrow> u32" where
  "buffer_word buf i 0 v = v"
| "buffer_word buf i (Suc k) v =
     buffer_word buf i k
       (if i + k < length buf then push_bit 8 v OR ucast (buf ! (i + k)) else push_bit 8 v)"

definition in_flash_buffer :: "u32 \<Rightarrow> bool" where
  "in_flash_buffer off \<longleftrightarrow> off \<ge> R_FLASH_BUFFER \<and> off < R_FLASH_BUFFER + of_nat PAGE_FULL"

definition nand_read :: "u32 \<Rightarrow> nand \<Rightarrow> u32" where
  "nand_read off n =
     (if off = R_FLASH_STATUS \<or> off = R_READ_STATUS then nand_status n
      else if off = R_BUFFER_STATUS then 0
      else if off = R_READ_ID then id_latched n
      else if off = R_CONFIG_STATUS then 1
      else if in_flash_buffer off
      then buffer_word (nand_buffer n) (unat (off - R_FLASH_BUFFER)) 4 0
      else case nand_reg n off of None \<Rightarrow> 0 | Some v \<Rightarrow> v)"

text \<open>\<open>reg_[off]\<close>: the value, a missing register being created with the value 0.\<close>

definition reg_touch :: "u32 \<Rightarrow> nand \<Rightarrow> u32 \<times> nand" where
  "reg_touch off n =
     (case nand_reg n off of
        Some v \<Rightarrow> (v, n)
      | None \<Rightarrow> (0, n\<lparr>nand_reg := (nand_reg n)(off \<mapsto> 0)\<rparr>))"

definition nand_page :: "u32 \<Rightarrow> u32 \<Rightarrow> u32" where
  "nand_page addr0 addr1 =
     (if addr0 \<ge> 0x10000 then drop_bit 16 addr0 OR push_bit 8 (addr1 AND 0xFF) else addr0)"

definition load_page :: "u32 \<Rightarrow> u8 list \<Rightarrow> u8 list \<Rightarrow> u8 list" where
  "load_page page data buf =
     map (\<lambda>i. data ! unat (page * of_nat PAGE_DATA + of_nat i)) [0..<PAGE_DATA] @ drop PAGE_DATA buf"

definition nand_execute :: "u32 \<Rightarrow> nand \<Rightarrow> nand" where
  "nand_execute cmd n =
     (if cmd = CMD_FETCH_ID then n\<lparr>id_latched := nand_id n, nand_status := FS_READY\<rparr>
      else if cmd = CMD_PAGE_READ \<or> cmd = CMD_PAGE_READ_ECC \<or> cmd = CMD_PAGE_READ_ALL then
        let (addr0, n) = reg_touch R_ADDR0 n;
            (addr1, n) = reg_touch R_ADDR1 n;
            page = nand_page addr0 addr1;
            npages = length (data_blob n) div PAGE_DATA
        in if unat page < npages
           then n\<lparr>nand_buffer := load_page page (data_blob n) (nand_buffer n), nand_status := FS_READY\<rparr>
           else n\<lparr>nand_status := FS_OP_ERR\<rparr>
      else n\<lparr>nand_status := FS_READY\<rparr>)"

text \<open>The store loop into the page buffer: bytes \<open>k, k + 1, ...\<close> of \<open>val\<close>, \<open>m\<close> of them left.\<close>

fun buffer_store :: "nat \<Rightarrow> nat \<Rightarrow> nat \<Rightarrow> u32 \<Rightarrow> u8 list \<Rightarrow> u8 list" where
  "buffer_store i k 0 val buf = buf"
| "buffer_store i k (Suc m) val buf =
     (if i + k < length buf
      then buffer_store i (Suc k) m val (buf[i + k := ucast (drop_bit (8 * k) val)])
      else buf)"

definition nand_write :: "u32 \<Rightarrow> u32 \<Rightarrow> nat \<Rightarrow> nand \<Rightarrow> nand" where
  "nand_write off val sz n =
     (let n = n\<lparr>nand_reg := (nand_reg n)(off \<mapsto> val)\<rparr>
      in if off = R_FLASH_CMD then n\<lparr>last_cmd := val AND 0xFF\<rparr>
         else if off = R_EXEC_CMD then nand_execute (last_cmd n) n
         else if in_flash_buffer off
         then n\<lparr>nand_buffer := buffer_store (unat (off - R_FLASH_BUFFER)) 0 sz val (nand_buffer n)\<rparr>
         else n)"

definition buffer_byte :: "u32 \<Rightarrow> nand \<Rightarrow> u8" where
  "buffer_byte idx n = (if unat idx < length (nand_buffer n) then nand_buffer n ! unat idx else 0)"

section \<open>Reading a word of the page buffer\<close>

definition byte_or_0 :: "u8 list \<Rightarrow> nat \<Rightarrow> u8" where
  "byte_or_0 xs i = (if i < length xs then xs ! i else 0)"

lemma buffer_word_step:
  "buffer_word buf i (Suc k) v = buffer_word buf i k (push_bit 8 v OR ucast (byte_or_0 buf (i + k)))"
  by (simp add: byte_or_0_def)

lemma horner_le32:
  "push_bit 8 (push_bit 8 (push_bit 8 (ucast d) OR ucast c) OR ucast b) OR ucast a = le32 a b c d"
  by (rule bit_word_eqI)
     (auto simp: bit_le32 bit_or_iff bit_push_bit_iff bit_ucast_iff dest: bit_imp_le_length)

lemma buffer_word_le32:
  "buffer_word buf i 4 0 =
     le32 (byte_or_0 buf i) (byte_or_0 buf (i + 1)) (byte_or_0 buf (i + 2)) (byte_or_0 buf (i + 3))"
proof -
  have four: "4 = Suc (Suc (Suc (Suc 0)))" "3 = Suc (Suc (Suc 0))" "2 = Suc (Suc 0)" "(1::nat) = Suc 0"
    by simp_all
  show ?thesis
    unfolding horner_le32 [symmetric] four buffer_word_step buffer_word.simps(1)
    by (simp only: push_bit_of_0 or.left_neutral add_0_right)
qed

section \<open>Page reads\<close>

definition nand_ok :: "nand \<Rightarrow> bool" where
  "nand_ok n \<longleftrightarrow> length (nand_buffer n) = PAGE_FULL"

lemma nand_ok_new: "nand_ok (nand_new data spare nid)"
  by (simp add: nand_ok_def nand_new_def)

lemma length_load_page [simp]: "length (load_page page data buf) = max PAGE_DATA (length buf)"
  by (simp add: load_page_def)

lemma length_buffer_store [simp]: "length (buffer_store i k m val buf) = length buf"
  by (induction i k m val buf rule: buffer_store.induct) auto

lemma reg_touch_buffer [simp]:
  "nand_buffer (snd (reg_touch off n)) = nand_buffer n"
  "data_blob (snd (reg_touch off n)) = data_blob n"
  by (auto simp: reg_touch_def split: option.splits)

lemma nand_ok_execute: "nand_ok n \<Longrightarrow> nand_ok (nand_execute cmd n)"
  by (auto simp: nand_ok_def nand_execute_def Let_def PAGE_DATA_def PAGE_FULL_def reg_touch_def
      split: prod.splits option.splits)

lemma nand_write_ok: "nand_ok n \<Longrightarrow> nand_ok (nand_write off val sz n)"
  using nand_ok_execute [of "n\<lparr>nand_reg := (nand_reg n)(off \<mapsto> val)\<rparr>" "last_cmd n"]
  by (auto simp: nand_write_def Let_def nand_ok_def)

lemma nand_write_blob: "data_blob (nand_write off val sz n) = data_blob n"
  by (simp add: nand_write_def nand_execute_def Let_def split: prod.splits)
     (auto simp: reg_touch_def split: option.splits)

text \<open>
  The page buffer keeps its size of one page plus spare under every register store, whatever
  the offset, value and access size, so no page load and no buffer access leaves it.
\<close>

theorem nand_write_keeps_buffer_size:
  assumes "nand_ok n"
  shows "nand_ok (nand_write off val sz n) \<and> data_blob (nand_write off val sz n) = data_blob n"
proof
  show "nand_ok (nand_write off val sz n)" using assms by (rule nand_write_ok)
  show "data_blob (nand_write off val sz n) = data_blob n" by (rule nand_write_blob)
qed

theorem nand_write_keeps_buffer_size_witness:
  "nand_ok (nand_write 0x8FE 0xAABBCCDD 4 (nand_new [1, 2, 3] None 0x5580b1ad)) \<and>
   data_blob (nand_write 0x8FE 0xAABBCCDD 4 (nand_new [1, 2, 3] None 0x5580b1ad)) = [1, 2, 3]"
  using nand_write_keeps_buffer_size [OF nand_ok_new [of "[1, 2, 3]" None "0x5580b1ad"],
    of "0x8FE" "0xAABBCCDD" 4]
  by (simp add: nand_new_def)

text \<open>The guest's page-read sequence: both address registers, the command, and the trigger.\<close>

definition page_read_seq :: "u32 \<Rightarrow> u32 \<Rightarrow> u32 \<Rightarrow> nand \<Rightarrow> nand" where
  "page_read_seq cmd addr0 addr1 n =
     nand_write R_EXEC_CMD 1 4 (nand_write R_FLASH_CMD cmd 4
       (nand_write R_ADDR1 addr1 4 (nand_write R_ADDR0 addr0 4 n)))"

definition is_page_read :: "u32 \<Rightarrow> bool" where
  "is_page_read cmd \<longleftrightarrow> cmd = CMD_PAGE_READ \<or> cmd = CMD_PAGE_READ_ECC \<or> cmd = CMD_PAGE_READ_ALL"

lemma page_read_seq_eq:
  assumes "is_page_read cmd"
  shows "nand_buffer (page_read_seq cmd a0 a1 n) =
      (if unat (nand_page a0 a1) < length (data_blob n) div PAGE_DATA
       then load_page (nand_page a0 a1) (data_blob n) (nand_buffer n) else nand_buffer n)"
    and "nand_status (page_read_seq cmd a0 a1 n) =
      (if unat (nand_page a0 a1) < length (data_blob n) div PAGE_DATA then FS_READY else FS_OP_ERR)"
  using assms
  by (auto simp: page_read_seq_def nand_write_def nand_execute_def reg_touch_def Let_def
      in_flash_buffer_def is_page_read_def nand_regs nand_cmds)

lemma load_page_nth:
  assumes "unat page < length data div PAGE_DATA" "length data \<le> 2 ^ 32" "i < PAGE_DATA"
  shows "load_page page data buf ! i = data ! (unat page * PAGE_DATA + i)"
proof -
  have "Suc (unat page) * 2048 \<le> length data"
    using assms(1) by (simp only: PAGE_DATA_def less_eq_div_iff_mult_less_eq Suc_le_eq [symmetric])
  with assms(3) have "unat page * 2048 + i < length data" by (simp add: PAGE_DATA_def)
  then have lt: "unat page * 2048 + i < 2 ^ 32" using assms(2) by simp
  then have "unat (page * 2048 + of_nat i) = unat page * 2048 + i"
    using assms(3) by (simp add: unat_word_ariths unat_of_nat PAGE_DATA_def)
  with assms(3) show ?thesis by (simp add: load_page_def PAGE_DATA_def nth_append)
qed

lemma load_page_take:
  assumes "unat page < length data div PAGE_DATA" "length data \<le> 2 ^ 32" "k \<le> PAGE_DATA"
  shows "take k (load_page page data buf) = take k (drop (unat page * PAGE_DATA) data)"
proof (rule nth_equalityI)
  have "(unat page + 1) * PAGE_DATA \<le> length data"
    using assms(1) unfolding PAGE_DATA_def by (simp only: less_eq_div_iff_mult_less_eq Suc_eq_plus1 [symmetric] Suc_le_eq [symmetric])
  then have long: "unat page * PAGE_DATA + PAGE_DATA \<le> length data" by simp
  then show "length (take k (load_page page data buf)) = length (take k (drop (unat page * PAGE_DATA) data))"
    using assms(3) by simp
  fix i assume "i < length (take k (load_page page data buf))"
  then show "take k (load_page page data buf) ! i = take k (drop (unat page * PAGE_DATA) data) ! i"
    using load_page_nth [OF assms(1,2), of i buf] assms(3) long by simp
qed

text \<open>
  A page read delivers the page. For a controller over a dump of at most 4 GiB, the guest's
  page-read sequence for a page inside the dump reports ready, and every aligned word of the
  FLASH_BUFFER window then reads as the little-endian word of the dump at that place of the page;
  for a page outside the dump it reports an operation error and leaves the page buffer unchanged.
\<close>

theorem page_read_delivers_page:
  assumes "is_page_read cmd" "nand_ok n" "length (data_blob n) \<le> 2 ^ 32" "j < 512"
  shows "let page = unat (nand_page a0 a1); n' = page_read_seq cmd a0 a1 n in
    if page < length (data_blob n) div PAGE_DATA
    then nand_read R_FLASH_STATUS n' = FS_READY \<and>
         nand_read (R_FLASH_BUFFER + of_nat (4 * j)) n' = rd32 (data_blob n) (page * PAGE_DATA + 4 * j)
    else nand_read R_FLASH_STATUS n' = FS_OP_ERR \<and> nand_buffer n' = nand_buffer n"
proof -
  let ?n' = "page_read_seq cmd a0 a1 n" and ?page = "nand_page a0 a1"
  let ?off = "R_FLASH_BUFFER + of_nat (4 * j) :: u32"
  have uoff: "unat (4 * of_nat j :: u32) = 4 * j"
    using assms(4) by (simp add: unat_word_ariths unat_of_nat)
  have "in_flash_buffer ?off"
    using assms(4) uoff unfolding in_flash_buffer_def
    by (simp add: nand_regs PAGE_FULL_def word_le_nat_alt word_less_nat_alt unat_word_ariths)
  moreover have "unat ?off \<ge> 0x100"
    using assms(4) uoff by (simp add: nand_regs unat_word_ariths)
  then have "?off \<notin> {0x14, 0x44, 0x18, 0x40, 0x60}" by auto
  ultimately have rd: "nand_read ?off m = buffer_word (nand_buffer m) (4 * j) 4 0" for m
    by (simp add: nand_read_def nand_regs uoff)
  have "buffer_word (load_page ?page (data_blob n) (nand_buffer n)) (4 * j) 4 0 =
      rd32 (data_blob n) (unat ?page * PAGE_DATA + 4 * j)"
    if "unat ?page < length (data_blob n) div PAGE_DATA"
    using assms that
    by (simp add: buffer_word_le32 rd32_def byte_or_0_def load_page_nth nand_ok_def
        PAGE_FULL_def PAGE_DATA_def add.assoc)
  then show ?thesis
    unfolding Let_def rd by (simp add: page_read_seq_eq [OF assms(1)] nand_read_def nand_regs)
qed

theorem page_read_delivers_page_witness:
  "let n = nand_new (replicate 4096 0xAB) None 0; n' = page_read_seq CMD_PAGE_READ 1 0 n in
   nand_read R_FLASH_STATUS n' = FS_READY \<and> nand_read (R_FLASH_BUFFER + 8) n' = 0xABABABAB"
proof -
  let ?n = "nand_new (replicate 4096 0xAB) None 0"
  have h: "is_page_read CMD_PAGE_READ" "nand_ok ?n" "length (data_blob ?n) \<le> 2 ^ 32" "(2::nat) < 512"
    by (simp_all add: is_page_read_def nand_ok_new) (simp add: nand_new_def)
  have "nand_page 1 0 = 1" by code_simp
  moreover have "rd32 (replicate 4096 0xAB) (PAGE_DATA + 8) = 0xABABABAB"
    by (simp add: rd32_def le32_def PAGE_DATA_def)
  ultimately show ?thesis
    using page_read_delivers_page [OF h, of 1 0]
    by (simp add: Let_def) (simp add: nand_new_def PAGE_DATA_def)
qed

section \<open>Page addresses\<close>

text \<open>
  The address words the MSM NAND driver in \<open>refs/msm_nand-kernel-driver.c\<close> programs for a page and a
  column: \<open>addr0 = (page << 16) | oob_col\<close>, \<open>addr1 = (page >> 16) & 0xff\<close>.
\<close>

definition drv_addr0 :: "u32 \<Rightarrow> u32 \<Rightarrow> u32" where
  "drv_addr0 page col = push_bit 16 page OR col"

definition drv_addr1 :: "u32 \<Rightarrow> u32" where
  "drv_addr1 page = drop_bit 16 page AND 0xff"

lemma drv_addr0_page: "unat page < 2 ^ 16 \<Longrightarrow> unat col < 2 ^ 16 \<Longrightarrow> drop_bit 16 (drv_addr0 page col) = page"
  unfolding word_less_exp_iff drv_addr0_def
  by (rule bit_word_eqI) (auto simp: bit_drop_bit_eq bit_or_iff bit_push_bit_iff, meson leI)

lemma high_byte_small:
  fixes a0 y :: u32
  assumes "unat y < 2 ^ 8"
  shows "unat (drop_bit 16 a0 OR push_bit 8 y) < 2 ^ 16"
  using assms unfolding word_less_exp_iff
  by (auto simp: bit_or_iff bit_push_bit_iff bit_drop_bit_eq dest: bit_imp_le_length)

lemma nand_page_small: "unat (nand_page a0 a1) < 2 ^ 16"
proof (cases "0x10000 \<le> a0")
  case True
  have "unat (a1 AND 0xFF) < 2 ^ 8"
    using word_and_le1 [of a1 "0xFF"] by (simp add: word_le_nat_alt)
  from high_byte_small [OF this, of a0] True show ?thesis by (simp add: nand_page_def)
next
  case False
  then show ?thesis by (simp add: nand_page_def word_le_nat_alt)
qed

text \<open>
  Which page addresses the controller decodes as the driver encodes them. For a 24-bit page
  number and a 16-bit column, decoding the driver's two address words gives back the page exactly
  when the page number is below \<open>2 ^ 16\<close> and the access is not to a nonzero column of page 0: the
  decoder shifts the high address byte by 8 instead of 16, and takes any \<open>addr0\<close> below \<open>0x10000\<close> for
  a page number.
\<close>

theorem nand_page_decodes_driver_address:
  assumes "unat page < 2 ^ 24" "unat col < 2 ^ 16"
  shows "nand_page (drv_addr0 page col) (drv_addr1 page) = page \<longleftrightarrow>
    unat page < 2 ^ 16 \<and> (page \<noteq> 0 \<or> col = 0)"
proof (cases "unat page < 2 ^ 16")
  case True
  then have a1: "drv_addr1 page = 0"
    by (simp add: drv_addr1_def drop_bit_eq_0_iff_less [THEN iffD2])
  have a0: "drop_bit 16 (drv_addr0 page col) = page"
    using True assms(2) by (rule drv_addr0_page)
  show ?thesis
  proof (cases "page = 0")
    case True
    then show ?thesis using assms(2) a1 by (auto simp: drv_addr0_def nand_page_def word_le_nat_alt)
  next
    case False
    then have "\<not> unat (drv_addr0 page col) < 2 ^ 16"
      using a0 drop_bit_eq_0_iff_less [of 16 "drv_addr0 page col"] by auto
    then show ?thesis using True False a0 a1 by (simp add: nand_page_def word_le_nat_alt)
  qed
next
  case False
  moreover have "unat (nand_page (drv_addr0 page col) (drv_addr1 page)) < 2 ^ 16"
    by (rule nand_page_small)
  ultimately show ?thesis by auto
qed

theorem nand_page_decodes_driver_address_witness:
  "nand_page (drv_addr0 0x10000 0) (drv_addr1 0x10000) \<noteq> 0x10000 \<and>
   nand_page (drv_addr0 0x2DC0 0) (drv_addr1 0x2DC0) = 0x2DC0"
  using nand_page_decodes_driver_address [of "0x10000" 0]
    nand_page_decodes_driver_address [of "0x2DC0" 0] by simp

end
