(* ===== verification/Byte_Reader.thy ===== *)
theory Byte_Reader
  imports Zeebo_Prelude "HOL-Library.Monad_Syntax"
begin

text \<open>
  Reads from a byte array through a pointer. A read outside the array is \<open>None\<close>, so that a parser
  written with these readers returns \<open>None\<close> exactly when the source would read out of bounds; the
  parsers are proved never to.
\<close>

definition at8 :: "u8 list \<Rightarrow> nat \<Rightarrow> u8 option" where
  "at8 d i = (if i < length d then Some (d ! i) else None)"

definition at16 :: "u8 list \<Rightarrow> nat \<Rightarrow> u16 option" where
  "at16 d i = (if i + 2 \<le> length d then Some (ucast (d ! i) OR push_bit 8 (ucast (d ! (i + 1)))) else None)"

definition at32 :: "u8 list \<Rightarrow> nat \<Rightarrow> u32 option" where
  "at32 d i = (if i + 4 \<le> length d then Some (rd32 d i) else None)"

definition bytes_at :: "u8 list \<Rightarrow> nat \<Rightarrow> nat \<Rightarrow> u8 list option" where
  "bytes_at d i n = (if i + n \<le> length d then Some (take n (drop i d)) else None)"

lemma at_Some [simp]:
  "i < length d \<Longrightarrow> at8 d i = Some (d ! i)"
  "i + 4 \<le> length d \<Longrightarrow> at32 d i = Some (rd32 d i)"
  "i + n \<le> length d \<Longrightarrow> bytes_at d i n = Some (take n (drop i d))"
  by (simp_all add: at8_def at32_def bytes_at_def)

lemma at32_iff: "at32 d i = Some w \<longleftrightarrow> i + 4 \<le> length d \<and> w = rd32 d i"
  by (auto simp: at32_def)

lemma rd32_drop: "i + 4 \<le> length (drop k d) \<Longrightarrow> rd32 (drop k d) i = rd32 d (k + i)"
  by (simp add: rd32_def add.assoc)

lemma rd32_append [simp]:
  "i + 4 \<le> length xs \<Longrightarrow> rd32 (xs @ ys) i = rd32 xs i"
  by (simp add: rd32_def nth_append)

lemma rd32_le32_bytes [simp]: "rd32 (le32_bytes w @ ys) 0 = w"
  by (simp add: rd32_def le32_bytes_def le32_le32_bytes)

text \<open>Reading behind a prefix.\<close>

lemma rd32_skip: "length xs = k \<Longrightarrow> k \<le> i \<Longrightarrow> rd32 (xs @ ys) i = rd32 ys (i - k)"
proof -
  assume k: "length xs = k" "k \<le> i"
  have "rd32 (xs @ ys) (k + j) = rd32 ys j" for j using k(1) by (simp add: rd32_def nth_append)
  from this [of "i - k"] show ?thesis using k(2) by simp
qed

lemma length_words [simp]: "length (concat (map le32_bytes ws)) = 4 * length ws"
  by (induction ws) simp_all

lemma those_map_Some: "(\<And>x. x \<in> set xs \<Longrightarrow> f x = Some (g x)) \<Longrightarrow> those (map f xs) = Some (map g xs)"
  by (induction xs) auto

end
