(* ===== verification/Guest_Memory.thy ===== *)
theory Guest_Memory
  imports Uc_Engine Byte_Reader
begin

text \<open>
  The engine's guest memory as the components that load data into it rely on it. \<open>mem u a\<close> is the
  byte at guest address \<open>a\<close>, or nothing when the address is not mapped. \<open>uc_mem_ok\<close> states the
  documented behaviour: a write or a read succeeds exactly when its whole range is mapped, a failed
  write changes nothing, mapping a page either adds a zeroed page or reports that the page is already
  there. Two guest pages on the same host memory are outside this contract. \<open>flat_ops\<close> is an engine
  that satisfies it.
\<close>

type_synonym 'u mem_view = "'u \<Rightarrow> nat \<Rightarrow> u8 option"

definition mapped :: "(nat \<Rightarrow> u8 option) \<Rightarrow> nat \<Rightarrow> nat \<Rightarrow> bool" where
  "mapped m a n \<longleftrightarrow> (\<forall>i < n. m (a + i) \<noteq> None)"

definition overlay :: "(nat \<Rightarrow> u8 option) \<Rightarrow> nat \<Rightarrow> u8 list \<Rightarrow> nat \<Rightarrow> u8 option" where
  "overlay m a bs k = (if a \<le> k \<and> k < a + length bs then Some (bs ! (k - a)) else m k)"

definition page_addr :: "u64 \<Rightarrow> bool" where
  "page_addr a \<longleftrightarrow> 4096 dvd unat a \<and> unat a < 2 ^ 32"

definition uc_mem_ok :: "'u uc_ops \<Rightarrow> 'u mem_view \<Rightarrow> bool" where
  "uc_mem_ok ops mem \<longleftrightarrow>
     (\<forall>u a bs. let (e, u') = uc_mem_write ops u a bs in
        (e = UC_ERR_OK \<longleftrightarrow> mapped (mem u) (unat a) (length bs)) \<and>
        mem u' = (if e = UC_ERR_OK then overlay (mem u) (unat a) bs else mem u)) \<and>
     (\<forall>u a buf. let (e, bs) = uc_mem_read ops u a buf in
        (e = UC_ERR_OK \<longleftrightarrow> mapped (mem u) (unat a) (length buf)) \<and>
        (e = UC_ERR_OK \<longrightarrow> length bs = length buf \<and>
           (\<forall>i < length buf. mem u (unat a + i) = Some (bs ! i)))) \<and>
     (\<forall>u a p. page_addr a \<longrightarrow> (let (e, u') = uc_mem_map ops u a 0x1000 p in
        (e = UC_ERR_OK \<longrightarrow> (\<forall>i < 4096. mem u (unat a + i) = None) \<and>
           mem u' = overlay (mem u) (unat a) (replicate 4096 0)) \<and>
        (e \<noteq> UC_ERR_OK \<longrightarrow> mem u' = mem u) \<and>
        (e = UC_ERR_MAP \<longrightarrow> mapped (mem u) (unat a) 4096)))"

section \<open>Consequences\<close>

lemma mem_write_ok:
  assumes "uc_mem_ok ops mem" "uc_mem_write ops u a bs = (e, u')"
  shows "e = UC_ERR_OK \<longleftrightarrow> mapped (mem u) (unat a) (length bs)"
    and "mem u' = (if e = UC_ERR_OK then overlay (mem u) (unat a) bs else mem u)"
proof -
  have "\<forall>u a bs. let (e, u') = uc_mem_write ops u a bs in
        (e = UC_ERR_OK \<longleftrightarrow> mapped (mem u) (unat a) (length bs)) \<and>
        mem u' = (if e = UC_ERR_OK then overlay (mem u) (unat a) bs else mem u)"
    using assms(1) unfolding uc_mem_ok_def by (rule conjunct1)
  from this [rule_format, of u a bs] show "e = UC_ERR_OK \<longleftrightarrow> mapped (mem u) (unat a) (length bs)"
    and "mem u' = (if e = UC_ERR_OK then overlay (mem u) (unat a) bs else mem u)"
    unfolding assms(2) by simp_all
qed

lemma mem_read_ok:
  assumes "uc_mem_ok ops mem" "uc_mem_read ops u a buf = (e, bs)"
  shows "e = UC_ERR_OK \<longleftrightarrow> mapped (mem u) (unat a) (length buf)"
    and "e = UC_ERR_OK \<Longrightarrow> length bs = length buf"
    and "e = UC_ERR_OK \<Longrightarrow> i < length buf \<Longrightarrow> mem u (unat a + i) = Some (bs ! i)"
proof -
  have "\<forall>u a buf. let (e, bs) = uc_mem_read ops u a buf in
        (e = UC_ERR_OK \<longleftrightarrow> mapped (mem u) (unat a) (length buf)) \<and>
        (e = UC_ERR_OK \<longrightarrow> length bs = length buf \<and>
           (\<forall>i < length buf. mem u (unat a + i) = Some (bs ! i)))"
    using assms(1) unfolding uc_mem_ok_def by (elim conjE)
  from this [rule_format, of u a buf] show "e = UC_ERR_OK \<longleftrightarrow> mapped (mem u) (unat a) (length buf)"
    and "e = UC_ERR_OK \<Longrightarrow> length bs = length buf"
    and "e = UC_ERR_OK \<Longrightarrow> i < length buf \<Longrightarrow> mem u (unat a + i) = Some (bs ! i)"
    unfolding assms(2) by simp_all
qed

lemma mem_map_ok:
  assumes "uc_mem_ok ops mem" "uc_mem_map ops u a 0x1000 p = (e, u')" "page_addr a"
  shows "e = UC_ERR_OK \<Longrightarrow> mem u (unat a + i) = None \<or> \<not> i < 4096"
    and "mem u' = (if e = UC_ERR_OK then overlay (mem u) (unat a) (replicate 4096 0) else mem u)"
    and "e = UC_ERR_OK \<or> e = UC_ERR_MAP \<Longrightarrow> mapped (mem u') (unat a) 4096"
proof -
  have "\<forall>u a p. page_addr a \<longrightarrow> (let (e, u') = uc_mem_map ops u a 0x1000 p in
        (e = UC_ERR_OK \<longrightarrow> (\<forall>i < 4096. mem u (unat a + i) = None) \<and>
           mem u' = overlay (mem u) (unat a) (replicate 4096 0)) \<and>
        (e \<noteq> UC_ERR_OK \<longrightarrow> mem u' = mem u) \<and>
        (e = UC_ERR_MAP \<longrightarrow> mapped (mem u) (unat a) 4096))"
    using assms(1) unfolding uc_mem_ok_def by (elim conjE)
  from this [rule_format, OF assms(3), of u p]
  have l: "e = UC_ERR_OK \<Longrightarrow> (\<forall>i < 4096. mem u (unat a + i) = None)"
      "e = UC_ERR_OK \<Longrightarrow> mem u' = overlay (mem u) (unat a) (replicate 4096 0)"
      "e \<noteq> UC_ERR_OK \<Longrightarrow> mem u' = mem u" "e = UC_ERR_MAP \<Longrightarrow> mapped (mem u) (unat a) 4096"
    unfolding assms(2) by simp_all
  show "e = UC_ERR_OK \<Longrightarrow> mem u (unat a + i) = None \<or> \<not> i < 4096" using l(1) by blast
  show "mem u' = (if e = UC_ERR_OK then overlay (mem u) (unat a) (replicate 4096 0) else mem u)"
    using l(2,3) by simp
  have "mapped (overlay (mem u) (unat a) (replicate 4096 0)) (unat a) 4096"
    by (simp add: mapped_def overlay_def)
  then show "e = UC_ERR_OK \<or> e = UC_ERR_MAP \<Longrightarrow> mapped (mem u') (unat a) 4096"
    using l(2,3,4) by (elim disjE) simp_all
qed

lemma overlay_mapped: "mapped m b n \<Longrightarrow> mapped (overlay m a bs) b n"
  by (auto simp: mapped_def overlay_def)

lemma mapped_sub: "mapped m a n \<Longrightarrow> a \<le> b \<Longrightarrow> b + k \<le> a + n \<Longrightarrow> mapped m b k"
  unfolding mapped_def by (metis add.assoc add_less_cancel_left le_iff_add less_le_trans)

lemma mapped_append: "mapped m a n \<Longrightarrow> mapped m (a + n) k \<Longrightarrow> mapped m a (n + k)"
  unfolding mapped_def by (metis add.assoc add_diff_inverse_nat nat_add_left_cancel_less)

section \<open>Bytes at an address\<close>

definition holds :: "(nat \<Rightarrow> u8 option) \<Rightarrow> nat \<Rightarrow> u8 list \<Rightarrow> bool" where
  "holds m a bs \<longleftrightarrow> (\<forall>i < length bs. m (a + i) = Some (bs ! i))"

lemma holds_Nil [simp]: "holds m a []"
  by (simp add: holds_def)

lemma all_less_add: "(\<forall>i < m + n. P i) \<longleftrightarrow> (\<forall>i < m. P i) \<and> (\<forall>i < n. P (m + i))" for m n :: nat
  by (induction n) (auto simp: less_Suc_eq)

lemma holds_append: "holds m a (xs @ ys) \<longleftrightarrow> holds m a xs \<and> holds m (a + length xs) ys"
  unfolding holds_def length_append all_less_add by (simp add: nth_append add.assoc)

lemma holds_overlay [simp]: "holds (overlay m a bs) a bs"
  by (simp add: holds_def overlay_def)

lemma holds_frame: "b + length cs \<le> a \<or> a + length bs \<le> b \<Longrightarrow> holds (overlay m a bs) b cs = holds m b cs"
proof -
  assume d: "b + length cs \<le> a \<or> a + length bs \<le> b"
  have "overlay m a bs (b + i) = m (b + i)" if "i < length cs" for i
    using d that by (simp add: overlay_def) linarith
  then show ?thesis unfolding holds_def by (metis (full_types))
qed

lemma overlay_Nil [simp]: "overlay m a [] = m"
  by (auto simp: fun_eq_iff overlay_def)

lemma holds_mapped: "holds m a bs \<Longrightarrow> mapped m a (length bs)"
  by (auto simp: holds_def mapped_def)

lemma overlay_append: "overlay (overlay m a xs) (a + length xs) ys = overlay m a (xs @ ys)"
  by (auto simp: fun_eq_iff overlay_def nth_append)

text \<open>A write to mapped memory, and a read of memory with known contents, at a 32-bit address.\<close>

lemma uc_put_bytes:
  assumes "uc_mem_ok ops mem" "mapped (mem u) (unat (a::u32)) (length bs)"
  shows "mem (snd (uc_mem_write ops u (ucast a) bs)) = overlay (mem u) (unat a) bs"
proof -
  obtain e u' where w: "uc_mem_write ops u (ucast a) bs = (e, u')" by fastforce
  show ?thesis using mem_write_ok [OF assms(1) w] assms(2) w by simp
qed

lemma read_bytes:
  assumes "uc_mem_ok ops mem" "holds (mem u) (unat (a::u32)) bs"
  shows "length buf = length bs \<Longrightarrow> snd (uc_mem_read ops u (ucast a) buf) = bs"
proof -
  assume len: "length buf = length bs"
  obtain e xs where r: "uc_mem_read ops u (ucast a) buf = (e, xs)" by fastforce
  have "mapped (mem u) (unat a) (length buf)" using holds_mapped [OF assms(2)] len by simp
  then have e: "e = UC_ERR_OK" using mem_read_ok(1) [OF assms(1) r] by simp
  have "xs = bs"
  proof (rule nth_equalityI)
    show "length xs = length bs" using mem_read_ok(2) [OF assms(1) r e] len by simp
    fix i assume "i < length xs"
    then have "i < length bs" using \<open>length xs = length bs\<close> by simp
    then show "xs ! i = bs ! i"
      using mem_read_ok(3) [OF assms(1) r e, of i] assms(2) len by (simp add: holds_def)
  qed
  then show ?thesis using r by simp
qed

lemma get_word:
  "uc_mem_ok ops mem \<Longrightarrow> holds (mem u) (unat (a::u32)) (le32_bytes w) \<Longrightarrow>
    rd32 (snd (uc_mem_read ops u (ucast a) [0, 0, 0, 0])) 0 = w"
  using read_bytes [of ops mem u a "le32_bytes w" "[0, 0, 0, 0]"] rd32_le32_bytes [of w "[]"] by simp

text \<open>A table of little-endian words.\<close>

lemma holds_word:
  "holds m a (concat (map le32_bytes ws)) \<Longrightarrow> i < length ws \<Longrightarrow> holds m (a + 4 * i) (le32_bytes (ws ! i))"
proof (induction ws arbitrary: a i)
  case (Cons w ws)
  then show ?case
  proof (cases i)
    case (Suc j)
    then have "holds m (a + 4 + 4 * j) (le32_bytes (ws ! j))"
      using Cons.prems by (intro Cons.IH) (simp_all add: holds_append)
    then show ?thesis by (simp add: Suc add.assoc)
  qed (simp add: holds_append)
qed simp

section \<open>A paged memory\<close>

text \<open>The mapped page numbers, the contents of the address space, and one CPU register.\<close>

type_synonym paged = "nat list \<times> (nat \<Rightarrow> u8) \<times> u32"

definition paged_byte :: "paged mem_view" where
  "paged_byte = (\<lambda>(ps, f, c) k. if k div 4096 \<in> set ps then Some (f k) else None)"

definition pages_in :: "paged \<Rightarrow> nat \<Rightarrow> nat \<Rightarrow> bool" where
  "pages_in u a n \<longleftrightarrow> n = 0 \<or> list_all (\<lambda>q. q \<in> set (fst u)) [a div 4096..<Suc ((a + n - 1) div 4096)]"

definition any_page :: "paged \<Rightarrow> nat \<Rightarrow> nat \<Rightarrow> bool" where
  "any_page u a n \<longleftrightarrow> n \<noteq> 0 \<and> list_ex (\<lambda>q. q \<in> set (fst u)) [a div 4096..<Suc ((a + n - 1) div 4096)]"

definition paged_put :: "nat \<Rightarrow> u8 list \<Rightarrow> paged \<Rightarrow> paged" where
  "paged_put a bs u = (fst u, \<lambda>k. if a \<le> k \<and> k < a + length bs then bs ! (k - a) else fst (snd u) k, snd (snd u))"

definition flat_ops :: "paged uc_ops" where
  "flat_ops = \<lparr>uc_reg_read = (\<lambda>u r. snd (snd u)), uc_reg_write = (\<lambda>u r v. (fst u, fst (snd u), v)),
     uc_mem_read = (\<lambda>u a b. if pages_in u (unat a) (length b) then (UC_ERR_OK, map (fst (snd u)) [unat a..<unat a + length b])
        else (UC_ERR_OTHER, b)),
     uc_mem_write = (\<lambda>u a b. if pages_in u (unat a) (length b) then (UC_ERR_OK, paged_put (unat a) b u)
        else (UC_ERR_OTHER, u)),
     uc_mem_map = (\<lambda>u a s p.
        if any_page u (unat a) (unat s) then (UC_ERR_MAP, u)
        else if s \<noteq> 0x1000 then (UC_ERR_OTHER, u)
        else (UC_ERR_OK, paged_put (unat a) (replicate 4096 0) (unat a div 4096 # fst u, snd u))),
     uc_mem_map_ptr = (\<lambda>u a s p h. (UC_ERR_OTHER, u)),
     uc_mem_protect = (\<lambda>u a s p. (UC_ERR_OTHER, u)), uc_mem_unmap = (\<lambda>u a s. (UC_ERR_OTHER, u)),
     uc_mem_regions = (\<lambda>u. (UC_ERR_OK, []))\<rparr>"

lemma pages_in_iff: "pages_in u a n \<longleftrightarrow> mapped (paged_byte u) a n"
proof -
  have "(\<forall>q \<in> {a div 4096..<Suc ((a + n - 1) div 4096)}. q \<in> set (fst u)) \<longleftrightarrow>
      (\<forall>i < n. (a + i) div 4096 \<in> set (fst u))" (is "?l = ?r") if n: "n \<noteq> 0"
  proof
    assume l: ?l
    have "a div 4096 \<le> (a + i) div 4096 \<and> (a + i) div 4096 \<le> (a + n - 1) div 4096" if "i < n" for i
      using that by (intro conjI div_le_mono) auto
    then show ?r using l by (simp add: less_Suc_eq_le)
  next
    assume r: ?r
    have "q \<in> set (fst u)" if q: "a div 4096 \<le> q" "q \<le> (a + n - 1) div 4096" for q
    proof (cases "q * 4096 < a")
      case True
      then have "a div 4096 = q" using q(1) by (metis div_mult_self_is_m le_antisym less_imp_le_nat div_le_mono zero_less_numeral)
      then show ?thesis using r n by (metis add.right_neutral gr0I)
    next
      case False
      have "q * 4096 \<le> a + n - 1" using q(2) by (metis div_le_mono div_times_less_eq_dividend dual_order.trans mult_le_mono1)
      then have "q * 4096 - a < n" "a + (q * 4096 - a) = q * 4096" using False n by linarith+
      then show ?thesis using r by (metis div_mult_self_is_m zero_less_numeral)
    qed
    then show ?l by (simp add: less_Suc_eq_le)
  qed
  moreover have "mapped (paged_byte u) a n \<longleftrightarrow> (\<forall>i < n. (a + i) div 4096 \<in> set (fst u))"
    by (auto simp: mapped_def paged_byte_def split: prod.split)
  moreover have "pages_in u a n \<longleftrightarrow> n = 0 \<or> (\<forall>q \<in> {a div 4096..<Suc ((a + n - 1) div 4096)}. q \<in> set (fst u))"
    unfolding pages_in_def list_all_iff set_upt ..
  ultimately show ?thesis by (cases "n = 0") simp_all
qed

lemma paged_put_overlay:
  assumes "mapped (paged_byte u) a (length bs)"
  shows "paged_byte (paged_put a bs u) = overlay (paged_byte u) a bs"
proof
  fix k
  show "paged_byte (paged_put a bs u) k = overlay (paged_byte u) a bs k"
  proof (cases "a \<le> k \<and> k < a + length bs")
    case True
    then have "paged_byte u (a + (k - a)) \<noteq> None" using assms unfolding mapped_def by (metis less_diff_conv2 add.commute)
    then have "k div 4096 \<in> set (fst u)" using True by (auto simp: paged_byte_def split: prod.splits if_splits)
    then show ?thesis using True by (simp add: paged_byte_def paged_put_def overlay_def)
  next
    case False
    then show ?thesis by (auto simp: paged_byte_def paged_put_def overlay_def split: prod.split)
  qed
qed

lemma paged_map:
  assumes "4096 dvd a" "a div 4096 \<notin> set (fst u)"
  shows "\<forall>i < 4096. paged_byte u (a + i) = None"
    and "paged_byte (paged_put a (replicate 4096 0) (a div 4096 # fst u, snd u)) =
      overlay (paged_byte u) a (replicate 4096 0)"
proof -
  obtain q where a: "a = 4096 * q" using assms(1) by (elim dvdE)
  have q: "(a + i) div 4096 = q" if "i < 4096" for i using that by (simp add: a)
  show "\<forall>i < 4096. paged_byte u (a + i) = None"
    using assms(2) q by (auto simp: paged_byte_def a split: prod.split)
  show "paged_byte (paged_put a (replicate 4096 0) (a div 4096 # fst u, snd u)) =
      overlay (paged_byte u) a (replicate 4096 0)"
  proof
    fix k
    have iff: "k div 4096 = q \<longleftrightarrow> a \<le> k \<and> k < a + 4096"
      unfolding a using div_nat_eqI [of 4096 q k] by (auto simp: div_nat_eqI algebra_simps)
    show "paged_byte (paged_put a (replicate 4096 0) (a div 4096 # fst u, snd u)) k =
        overlay (paged_byte u) a (replicate 4096 0) k"
      using iff by (auto simp: paged_byte_def paged_put_def overlay_def a split: prod.split)
  qed
qed

lemma any_page_iff:
  "4096 dvd a \<Longrightarrow> any_page u a 4096 \<longleftrightarrow> a div 4096 \<in> set (fst u)"
  "(\<exists>i < n. paged_byte u (a + i) \<noteq> None) \<Longrightarrow> any_page u a n"
proof -
  assume "4096 dvd a"
  then obtain q where a: "a = 4096 * q" by (elim dvdE)
  have "(a + 4096 - 1) div 4096 = q" by (simp add: a)
  then show "any_page u a 4096 \<longleftrightarrow> a div 4096 \<in> set (fst u)" by (simp add: any_page_def a)
next
  assume "\<exists>i < n. paged_byte u (a + i) \<noteq> None"
  then obtain i where i: "i < n" "(a + i) div 4096 \<in> set (fst u)"
    by (auto simp: paged_byte_def split: prod.splits if_splits)
  have "(a + i) div 4096 \<in> set [a div 4096..<Suc ((a + n - 1) div 4096)]"
    unfolding set_upt atLeastLessThan_iff less_Suc_eq_le using i(1) by (intro conjI div_le_mono) simp_all
  then show "any_page u a n" using i unfolding any_page_def list_ex_iff by (metis gr_implies_not0)
qed

lemma flat_mem_ok: "uc_mem_ok flat_ops paged_byte"
  unfolding uc_mem_ok_def
proof (intro conjI allI impI, goal_cases)
  case (1 u a bs)
  then show ?case using paged_put_overlay by (auto simp: flat_ops_def pages_in_iff)
next
  case (2 u a buf)
  then show ?case by (auto simp: flat_ops_def pages_in_iff mapped_def paged_byte_def split: prod.split)
next
  case (3 u a p)
  have "mapped (paged_byte u) (unat a) 4096" if "unat a div 4096 \<in> set (fst u)"
  proof -
    have "4096 dvd unat a" using 3 by (simp add: page_addr_def)
    then obtain q where "unat a = 4096 * q" by (elim dvdE)
    then show ?thesis using that by (auto simp: mapped_def paged_byte_def split: prod.split)
  qed
  then show ?case using paged_map [of "unat a" u] 3 any_page_iff(1) [of "unat a" u]
    by (auto simp: flat_ops_def page_addr_def)
qed

end
