(* ===== verification/Dmov.thy ===== *)
theory Dmov
  imports Nand_Controller Guest_Memory
begin

text \<open>
  \<open>tools/cpp/zeebo_devices.h\<close>, class \<open>DMOVModel\<close>: the data mover that walks a pointer list of command
  lists in guest memory and executes their descriptors against the flash controller and guest
  memory. The guest memory is the engine's (\<open>uc_mem_read\<close>, \<open>uc_mem_write\<close>). The theorems show that a
  sequence of descriptors draining FLASH_BUFFER copies consecutive bytes of the page to consecutive
  guest addresses, and that the two list walks are bounded.
\<close>

definition DMOV_NAND_CHAN :: u32 where "DMOV_NAND_CHAN = 3"
definition CMD_PTR_LP :: u32 where "CMD_PTR_LP = bit_mask 31"
definition CMD_LC :: u32 where "CMD_LC = bit_mask 31"
definition NAND_FLASH_BUFFER :: u32 where "NAND_FLASH_BUFFER = NAND_BASE + 0x100"
definition DMOV_RSLT_DONE :: u32 where "DMOV_RSLT_DONE = 0x80000002"

record 'u dmov =
  dm_uc :: 'u
  dm_nand :: nand
  exec_count :: u32
  buf_cursor :: u32
  last_chan :: u32

definition dmov_new :: "'u \<Rightarrow> nand \<Rightarrow> 'u dmov" where
  "dmov_new u n = \<lparr>dm_uc = u, dm_nand = n, exec_count = 0, buf_cursor = 0, last_chan = 0\<rparr>"

definition ram32 :: "'u uc_ops \<Rightarrow> u32 \<Rightarrow> 'u dmov \<Rightarrow> u32" where
  "ram32 ops a s = rd32 (snd (uc_mem_read ops (dm_uc s) (ucast a) [0, 0, 0, 0])) 0"

definition is_nand :: "u32 \<Rightarrow> bool" where
  "is_nand a \<longleftrightarrow> a \<ge> NAND_BASE \<and> a < NAND_BASE + 0x400"

definition mem_put :: "'u uc_ops \<Rightarrow> u32 \<Rightarrow> u8 list \<Rightarrow> 'u dmov \<Rightarrow> 'u dmov" where
  "mem_put ops dst bs s = s\<lparr>dm_uc := snd (uc_mem_write ops (dm_uc s) (ucast dst) bs)\<rparr>"

definition nand_put :: "u32 \<Rightarrow> u32 \<Rightarrow> nat \<Rightarrow> 'u dmov \<Rightarrow> 'u dmov" where
  "nand_put off v sz s = s\<lparr>dm_nand := nand_write off v sz (dm_nand s)\<rparr>"

text \<open>
  The loop \<open>for (i = 0; i < length; i += 4)\<close> that fills FLASH_BUFFER from memory; \<open>left\<close> is the
  number of iterations left.
\<close>

fun fill_buffer :: "'u uc_ops \<Rightarrow> u32 \<Rightarrow> u32 \<Rightarrow> nat \<Rightarrow> u32 \<Rightarrow> 'u dmov \<Rightarrow> 'u dmov" where
  "fill_buffer ops src off 0 i s = s"
| "fill_buffer ops src off (Suc left) i s =
     fill_buffer ops src off left (i + 4) (nand_put (off + i) (ram32 ops (src + i) s) 4 s)"

text \<open>The four-register burst, with its two exits.\<close>

fun reg_burst :: "'u uc_ops \<Rightarrow> u32 \<Rightarrow> u32 \<Rightarrow> u32 \<Rightarrow> nat \<Rightarrow> u32 \<Rightarrow> 'u dmov \<Rightarrow> 'u dmov" where
  "reg_burst ops src dst off 0 i s = s"
| "reg_burst ops src dst off (Suc left) i s =
     (if dst AND NOT 3 \<noteq> dst then s
      else
        let v = ram32 ops (src + i) s;
            s = nand_put (off + i) v 4 s
        in if off + i \<ge> 0x400 then s else reg_burst ops src dst off left (i + 4) s)"

text \<open>The three branches of \<open>exec_descriptor\<close>: from the controller, to the controller, memory to memory.\<close>

definition exec_from_nand :: "'u uc_ops \<Rightarrow> u32 \<Rightarrow> u32 \<Rightarrow> u32 \<Rightarrow> 'u dmov \<Rightarrow> 'u dmov" where
  "exec_from_nand ops src dst len s =
     (let off = src - NAND_BASE
      in if src = NAND_FLASH_BUFFER then
           let bytes = map (\<lambda>i. buffer_byte ((buf_cursor s + of_nat i) mod of_nat PAGE_DATA) (dm_nand s))
                         [0..<unat len];
               s = (if bytes \<noteq> [] then mem_put ops dst bytes s else s)
           in s\<lparr>buf_cursor := (buf_cursor s + len) mod of_nat PAGE_DATA\<rparr>
         else mem_put ops dst (le32_bytes (nand_read off (dm_nand s))) s)"

definition exec_to_nand :: "'u uc_ops \<Rightarrow> u32 \<Rightarrow> u32 \<Rightarrow> u32 \<Rightarrow> u32 \<Rightarrow> 'u dmov \<Rightarrow> 'u dmov" where
  "exec_to_nand ops src dst ln len s =
     (let off = dst - NAND_BASE
      in if dst = NAND_FLASH_BUFFER then fill_buffer ops src off ((unat len + 3) div 4) 0 s
         else if ln = 16 then reg_burst ops src dst off 4 0 s
         else
           let s = (if dst = NAND_BASE + 0x10 then s\<lparr>buf_cursor := 0\<rparr> else s)
           in nand_put off (ram32 ops src s) (unat (min ln 4)) s)"

definition exec_copy :: "'u uc_ops \<Rightarrow> u32 \<Rightarrow> u32 \<Rightarrow> u32 \<Rightarrow> 'u dmov \<Rightarrow> 'u dmov" where
  "exec_copy ops src dst ln s =
     (let n = min ln 0x1000
      in if n = 0 then s
         else case uc_mem_read ops (dm_uc s) (ucast src) (replicate (unat n) 0) of
                (UC_ERR_OK, buf) \<Rightarrow> mem_put ops dst buf s
              | _ \<Rightarrow> s)"

definition exec_descriptor ::
    "'u uc_ops \<Rightarrow> u32 \<Rightarrow> u32 \<Rightarrow> u32 \<Rightarrow> u32 \<Rightarrow> 'u dmov \<Rightarrow> 'u dmov" where
  "exec_descriptor ops cmd src dst ln s =
     (let len = min ln (of_nat PAGE_DATA)
      in if is_nand src then exec_from_nand ops src dst len s
         else if is_nand dst then exec_to_nand ops src dst ln len s
         else exec_copy ops src dst ln s)"

fun run_cmdlist :: "'u uc_ops \<Rightarrow> nat \<Rightarrow> u32 \<Rightarrow> 'u dmov \<Rightarrow> 'u dmov" where
  "run_cmdlist ops 0 e s = s"
| "run_cmdlist ops (Suc left) e s =
     (let cmd = ram32 ops e s; src = ram32 ops (e + 4) s; dst = ram32 ops (e + 8) s;
          ln = ram32 ops (e + 12) s;
          s = exec_descriptor ops cmd src dst ln s
      in if cmd AND CMD_LC \<noteq> 0 then s else run_cmdlist ops left (e + 16) s)"

fun run_ptrlist :: "'u uc_ops \<Rightarrow> nat \<Rightarrow> u32 \<Rightarrow> 'u dmov \<Rightarrow> 'u dmov" where
  "run_ptrlist ops 0 pptr s = s"
| "run_ptrlist ops (Suc left) pptr s =
     (let p = ram32 ops pptr s
      in if p = 0 then s
         else
           let cmdlist = push_bit 3 (p AND 0x7FFFFFFF);
               s = run_cmdlist ops 64 cmdlist s
           in if p AND CMD_PTR_LP \<noteq> 0 then s else run_ptrlist ops left (pptr + 4) s)"

definition exec_cmdptr :: "'u uc_ops \<Rightarrow> u32 \<Rightarrow> 'u dmov \<Rightarrow> u32 \<times> 'u dmov" where
  "exec_cmdptr ops regval s =
     (let s = s\<lparr>exec_count := exec_count s + 1\<rparr>;
          s = run_ptrlist ops 16 (push_bit 3 (regval AND 0x7FFFFFFF)) s
      in (DMOV_RSLT_DONE, s\<lparr>last_chan := DMOV_NAND_CHAN\<rparr>))"

section \<open>Draining the page buffer\<close>

definition dmov_ok :: "'u dmov \<Rightarrow> bool" where
  "dmov_ok s \<longleftrightarrow> nand_ok (dm_nand s) \<and> unat (buf_cursor s) < PAGE_DATA"

lemma page_mod [simp]: "unat ((x::u32) mod of_nat PAGE_DATA) = unat x mod PAGE_DATA"
  by (simp add: PAGE_DATA_def unat_mod)

text \<open>
  The data mover keeps its state well formed: whatever descriptor it executes, the page cursor
  stays inside the page and the page buffer keeps its size.
\<close>

theorem exec_descriptor_ok:
  assumes "dmov_ok s"
  shows "dmov_ok (exec_descriptor ops cmd src dst ln s)"
proof -
  have put: "dmov_ok (nand_put off v sz t)" if "dmov_ok t" for off v sz t
    using that nand_write_ok by (simp add: dmov_ok_def nand_put_def)
  have fill: "dmov_ok (fill_buffer ops a b k i t)" if "dmov_ok t" for a b k i t
    using that by (induction k arbitrary: i t) (auto intro: put)
  have burst: "dmov_ok (reg_burst ops a b c k i t)" if "dmov_ok t" for a b c k i t
    using that by (induction k arbitrary: i t) (auto simp: Let_def intro: put)
  have mem: "dmov_ok (mem_put ops a bs t) = dmov_ok t" for a bs t
    by (simp add: dmov_ok_def mem_put_def)
  have cur: "dmov_ok (t\<lparr>buf_cursor := x mod of_nat PAGE_DATA\<rparr>)" "dmov_ok (t\<lparr>buf_cursor := 0\<rparr>)"
    if "dmov_ok t" for t x
    using that by (simp_all add: dmov_ok_def PAGE_DATA_def unat_mod)
  have "dmov_ok (exec_from_nand ops src dst len s)" for len
    using assms by (simp add: exec_from_nand_def Let_def mem cur)
  moreover have "dmov_ok (exec_to_nand ops src dst ln len s)" for len
    using assms by (simp add: exec_to_nand_def Let_def fill burst put cur)
  moreover have "dmov_ok (exec_copy ops src dst ln s)"
    using assms by (simp add: exec_copy_def Let_def mem split: prod.split uc_err.split)
  ultimately show ?thesis by (simp add: exec_descriptor_def Let_def)
qed

theorem exec_descriptor_ok_witness:
  "dmov_ok (exec_descriptor flat_ops 0 NAND_FLASH_BUFFER 0x1000 0xffffffff
     (dmov_new ([], \<lambda>_. 0, 0) (nand_new [] None 0)))"
proof -
  have "dmov_ok (dmov_new ([], \<lambda>_. 0, 0) (nand_new [] None 0) :: paged dmov)"
    by (simp add: dmov_ok_def dmov_new_def nand_ok_new PAGE_DATA_def)
  then show ?thesis by (rule exec_descriptor_ok)
qed

text \<open>A chain of descriptors that drains FLASH_BUFFER into consecutive guest memory.\<close>

fun drain :: "'u uc_ops \<Rightarrow> u32 \<Rightarrow> nat list \<Rightarrow> 'u dmov \<Rightarrow> 'u dmov" where
  "drain ops dst [] s = s"
| "drain ops dst (l # ls) s =
     drain ops (dst + of_nat l) ls (exec_descriptor ops 0 NAND_FLASH_BUFFER dst (of_nat l) s)"

lemma drain_bytes:
  assumes "nand_ok n" "unat c + l \<le> PAGE_DATA"
  shows "map (\<lambda>i. buffer_byte ((c + of_nat i) mod of_nat PAGE_DATA) n) [0..<l] =
    map (\<lambda>i. nand_buffer n ! (unat c + i)) [0..<l]"
proof (rule map_cong [OF refl])
  fix i assume "i \<in> set [0..<l]"
  then have i: "unat c + i < 2048" using assms(2) by (simp add: PAGE_DATA_def)
  then have "unat (c + of_nat i) = unat c + i" by (simp add: unat_word_ariths unat_of_nat)
  with i have "unat ((c + of_nat i) mod of_nat PAGE_DATA) = unat c + i"
    by (subst page_mod) (simp add: PAGE_DATA_def)
  with i assms(1) show "buffer_byte ((c + of_nat i) mod of_nat PAGE_DATA) n = nand_buffer n ! (unat c + i)"
    by (simp add: buffer_byte_def nand_ok_def PAGE_FULL_def)
qed

lemma exec_drain_descriptor:
  assumes "nand_ok (dm_nand s)" "unat (buf_cursor s) + l \<le> PAGE_DATA"
  shows "exec_descriptor ops cmd NAND_FLASH_BUFFER dst (of_nat l) s =
    (if l \<noteq> 0 then mem_put ops dst (map (\<lambda>i. nand_buffer (dm_nand s) ! (unat (buf_cursor s) + i)) [0..<l]) s
     else s)\<lparr>buf_cursor := (buf_cursor s + of_nat l) mod of_nat PAGE_DATA\<rparr>"
proof -
  have l: "l \<le> 2048" using assms(2) by (simp add: PAGE_DATA_def)
  then have ul: "unat (of_nat l :: u32) = l" by (simp add: unat_of_nat)
  with l have "min (of_nat l :: u32) (of_nat PAGE_DATA) = of_nat l"
    by (simp add: min_def word_le_nat_alt PAGE_DATA_def)
  moreover have "is_nand NAND_FLASH_BUFFER" by (simp add: is_nand_def NAND_FLASH_BUFFER_def NAND_BASE_def)
  ultimately show ?thesis
    by (simp add: exec_descriptor_def exec_from_nand_def Let_def mem_put_def drain_bytes [OF assms] ul)
qed

lemma drain_content:
  assumes "uc_mem_ok ops mem" "nand_ok (dm_nand s)" "unat (buf_cursor s) + sum_list ls \<le> PAGE_DATA"
    and "mapped (mem (dm_uc s)) (unat dst) (sum_list ls)" "unat dst + sum_list ls < 2 ^ 32"
  shows "dm_nand (drain ops dst ls s) = dm_nand s \<and>
    mem (dm_uc (drain ops dst ls s)) =
      overlay (mem (dm_uc s)) (unat dst) (take (sum_list ls) (drop (unat (buf_cursor s)) (nand_buffer (dm_nand s))))"
  using assms(2-)
proof (induction ls arbitrary: dst s)
  case (Cons l ls)
  let ?s' = "exec_descriptor ops 0 NAND_FLASH_BUFFER dst (of_nat l) s" and ?c = "unat (buf_cursor s)"
  let ?buf = "nand_buffer (dm_nand s)"
  have l: "?c + l \<le> PAGE_DATA" using Cons.prems(2) by simp
  note step = exec_drain_descriptor [OF Cons.prems(1) l, of ops 0 dst]
  have small: "?c + l < 2 ^ 32" using l by (simp add: PAGE_DATA_def)
  have c': "unat (buf_cursor ?s') = (?c + l) mod PAGE_DATA"
    using small by (simp add: step del: page_mod)
      (simp add: PAGE_DATA_def unat_mod unat_word_ariths unat_of_nat)
  have n': "dm_nand ?s' = dm_nand s" by (simp add: step mem_put_def)
  have d': "unat (dst + of_nat l) = unat dst + l"
    using Cons.prems(4) by (simp add: unat_word_ariths unat_of_nat)
  have bytes: "map (\<lambda>i. ?buf ! (?c + i)) [0..<l] = take l (drop ?c ?buf)"
    using l Cons.prems(1)
    by (intro nth_equalityI) (simp_all add: nand_ok_def PAGE_DATA_def PAGE_FULL_def)
  have len: "length (take l (drop ?c ?buf)) = l"
    using l Cons.prems(1) by (simp add: nand_ok_def PAGE_DATA_def PAGE_FULL_def)
  have "mapped (mem (dm_uc s)) (unat dst) l" using Cons.prems(3) by (rule mapped_sub) simp_all
  then have m': "mem (dm_uc ?s') = overlay (mem (dm_uc s)) (unat dst) (take l (drop ?c ?buf))"
    by (simp add: step mem_put_def bytes uc_put_bytes [OF assms(1)] len del: length_take length_drop)
  have "mapped (mem (dm_uc ?s')) (unat dst + l) (sum_list ls)"
    unfolding m' using Cons.prems(3) by (intro overlay_mapped) (erule mapped_sub; simp)
  moreover have "unat (buf_cursor ?s') + sum_list ls \<le> PAGE_DATA"
    using Cons.prems(2) l by (cases "?c + l = PAGE_DATA") (auto simp: c')
  ultimately have IH: "dm_nand (drain ops (dst + of_nat l) ls ?s') = dm_nand s \<and>
      mem (dm_uc (drain ops (dst + of_nat l) ls ?s')) =
      overlay (mem (dm_uc ?s')) (unat dst + l) (take (sum_list ls) (drop (unat (buf_cursor ?s')) ?buf))"
    using Cons.IH [of ?s' "dst + of_nat l"] Cons.prems(1,4) by (simp add: n' d')
  have "unat (buf_cursor ?s') = ?c + l" if "sum_list ls \<noteq> 0"
    using Cons.prems(2) that unfolding c' sum_list.Cons by (subst mod_less) linarith+
  then have cur: "take (sum_list ls) (drop (unat (buf_cursor ?s')) ?buf) = take (sum_list ls) (drop (?c + l) ?buf)"
    by (cases "sum_list ls = 0") (simp_all del: sum_list_eq_0_iff)
  have "take (sum_list (l # ls)) (drop ?c ?buf) = take l (drop ?c ?buf) @ take (sum_list ls) (drop (?c + l) ?buf)"
    by (simp add: take_add add.commute)
  then show ?case
    using IH overlay_append [of "mem (dm_uc s)" "unat dst" "take l (drop ?c ?buf)"]
    unfolding m' cur len by simp
qed simp

text \<open>
  Loading a page by DMA is exact. After a page-read command for a page inside the dump has run
  (which resets the cursor), a chain of descriptors that drains FLASH_BUFFER in pieces of any sizes
  adding up to at most one page, into consecutive mapped guest memory, leaves there exactly the
  consecutive bytes of that page of the dump, and changes no other byte of guest memory.
\<close>

theorem dma_page_load_exact:
  assumes "uc_mem_ok ops mem" "is_page_read cmd" "nand_ok n" "length (data_blob n) \<le> 2 ^ 32"
    and "unat (nand_page a0 a1) < length (data_blob n) div PAGE_DATA"
    and "dm_nand s = page_read_seq cmd a0 a1 n" "buf_cursor s = 0"
    and "sum_list ls \<le> PAGE_DATA" "mapped (mem (dm_uc s)) (unat dst) (sum_list ls)" "unat dst + sum_list ls < 2 ^ 32"
  shows "mem (dm_uc (drain ops dst ls s)) =
    overlay (mem (dm_uc s)) (unat dst)
      (take (sum_list ls) (drop (unat (nand_page a0 a1) * PAGE_DATA) (data_blob n)))"
proof -
  have buf: "nand_buffer (dm_nand s) = load_page (nand_page a0 a1) (data_blob n) (nand_buffer n)"
    using assms(5,6) by (simp add: page_read_seq_eq [OF assms(2)])
  then have "nand_ok (dm_nand s)" using assms(3) by (simp add: nand_ok_def PAGE_DATA_def PAGE_FULL_def)
  then have "mem (dm_uc (drain ops dst ls s)) =
      overlay (mem (dm_uc s)) (unat dst) (take (sum_list ls) (nand_buffer (dm_nand s)))"
    using drain_content [OF assms(1), of s ls dst] assms(7-) by simp
  then show ?thesis unfolding buf load_page_take [OF assms(5,4,8)] .
qed

theorem dma_page_load_exact_witness:
  "let s = \<lparr>dm_uc = ([1], \<lambda>_. 0, 0), dm_nand = page_read_seq CMD_PAGE_READ 1 0 (nand_new (replicate 4096 0xAB) None 0),
            exec_count = 0, buf_cursor = 0, last_chan = 0\<rparr>
   in paged_byte (dm_uc (drain flat_ops 0x1000 [512, 512, 1024] s)) =
     overlay (paged_byte ([1], \<lambda>_. 0, 0)) 0x1000 (replicate 2048 0xAB)"
proof -
  let ?n = "nand_new (replicate 4096 0xAB) None 0"
  let ?s = "\<lparr>dm_uc = ([1], \<lambda>_. 0, 0), dm_nand = page_read_seq CMD_PAGE_READ 1 0 ?n,
            exec_count = 0, buf_cursor = 0, last_chan = 0\<rparr> :: paged dmov"
  have p: "nand_page 1 0 = 1" by code_simp
  have d: "data_blob ?n = replicate 4096 0xAB" by (simp add: nand_new_def)
  have "mapped (paged_byte ([1], \<lambda>_. 0, 0)) 0x1000 0x1000"
    by (simp add: pages_in_iff [symmetric] pages_in_def)
  then have m: "mapped (paged_byte (dm_uc ?s)) (unat (0x1000::u32)) (sum_list [512, 512, 1024])"
    by (simp add: mapped_def)
  have "paged_byte (dm_uc (drain flat_ops 0x1000 [512, 512, 1024] ?s)) =
      overlay (paged_byte (dm_uc ?s)) (unat (0x1000::u32))
       (take (sum_list [512, 512, 1024]) (drop (unat (nand_page 1 0) * PAGE_DATA) (data_blob ?n)))"
    by (rule dma_page_load_exact [OF flat_mem_ok _ _ _ _ _ _ _ m, where cmd = CMD_PAGE_READ])
       (simp_all add: is_page_read_def nand_ok_new p d PAGE_DATA_def)
  then show ?thesis by (simp add: p d PAGE_DATA_def Let_def)
qed

end
