(* ===== verification/Partition_Read.thy ===== *)
theory Partition_Read
  imports Dmov
begin

text \<open>
  \<open>tools/cpp/zeebo_partition.cpp\<close>: reading a whole partition of the flash through the data mover, the
  way the boot loader's driver does. \<open>read_page\<close> puts the command words, a list of eight descriptors and
  a pointer list into guest memory and starts the data mover on it; \<open>run_partition\<close> reads the pages of
  the partition one after the other and compares the result with the dump. The theorem follows one
  page through all layers (guest memory, pointer list, descriptor list, register stores, the page
  read of the controller, the drain of the page buffer) and then the whole partition.
\<close>

definition PR_IO :: u32 where "PR_IO = 0x00400000"
definition PR_CL :: u32 where "PR_CL = 0x00401000"
definition PR_PTR :: u32 where "PR_PTR = 0x00402000"
definition PR_DEST :: u32 where "PR_DEST = 0x10000000"

type_synonym desc = "u32 \<times> u32 \<times> u32 \<times> u32"

definition wram :: "'u uc_ops \<Rightarrow> u32 \<Rightarrow> u32 \<Rightarrow> 'u dmov \<Rightarrow> 'u dmov" where
  "wram ops a v s = mem_put ops a (le32_bytes v) s"

definition io_words :: "u32 \<Rightarrow> (u32 \<times> u32) list" where
  "io_words page =
     [(0x00, 0x33), (0x04, push_bit 16 page AND 0xFFFFFFFF), (0x08, drop_bit 16 page AND 0xFF), (0x0c, 0 OR 4),
      (0x10, 0xa25400c0), (0x14, 0x0004745e), (0x18, 1), (0x1c, 0x203), (0x20, 0)]"

definition page_descs :: "u32 \<Rightarrow> desc list" where
  "page_descs dest =
     [(push_bit 7 5, PR_IO + 0x00, NAND_BASE + 0x00, 16),
      (0, PR_IO + 0x10, NAND_BASE + 0x20, 8),
      (0, PR_IO + 0x18, NAND_BASE + 0x10, 4),
      (push_bit 3 4, NAND_BASE + 0x14, PR_IO + 0x24, 8),
      (0, NAND_FLASH_BUFFER, dest, 512),
      (0, NAND_FLASH_BUFFER, dest + 512, 512),
      (0, NAND_FLASH_BUFFER, dest + 1024, 512),
      (CMD_LC, NAND_FLASH_BUFFER, dest + 1536, 512)]"

definition desc_words :: "desc \<Rightarrow> u32 list" where
  "desc_words = (\<lambda>(cmd, src, dst, ln). [cmd, src, dst, ln])"

definition desc_bytes :: "desc \<Rightarrow> u8 list" where
  "desc_bytes d = concat (map le32_bytes (desc_words d))"

definition read_page :: "'u uc_ops \<Rightarrow> u32 \<Rightarrow> u32 \<Rightarrow> 'u dmov \<Rightarrow> 'u dmov" where
  "read_page ops page dest s =
     (let s = foldl (\<lambda>s (off, v). wram ops (PR_IO + off) v s) s (io_words page);
          s = foldl (\<lambda>s (i, d). mem_put ops (PR_CL + of_nat i * 16) (desc_bytes d) s) s
                (enumerate 0 (page_descs dest));
          s = wram ops PR_PTR (drop_bit 3 PR_CL OR CMD_PTR_LP) s
      in snd (exec_cmdptr ops (drop_bit 3 PR_PTR OR CMD_PTR_LP) s))"

text \<open>One round of the inner loop; \<open>buf\<close> is what the uninitialised page buffer on the stack held.\<close>

definition append_page :: "'u uc_ops \<Rightarrow> u8 list \<Rightarrow> u32 \<Rightarrow> 'u dmov \<times> u8 list \<Rightarrow> 'u dmov \<times> u8 list" where
  "append_page ops buf page = (\<lambda>(s, out).
     let s = read_page ops page PR_DEST s
     in (s, out @ snd (uc_mem_read ops (dm_uc s) (ucast PR_DEST) buf)))"

definition read_blocks :: "'u uc_ops \<Rightarrow> u8 list \<Rightarrow> u32 \<Rightarrow> nat \<Rightarrow> 'u dmov \<Rightarrow> 'u dmov \<times> u8 list" where
  "read_blocks ops buf start_blk nblocks s =
     foldl (\<lambda>st blk. foldl (\<lambda>st p. append_page ops buf ((start_blk + of_nat blk) * 64 + of_nat p) st) st [0..<64])
       (s, []) [0..<nblocks]"

text \<open>\<open>None\<close> when the comparison would read past the end of the dump.\<close>

definition run_partition :: "'u uc_ops \<Rightarrow> u8 list \<Rightarrow> u8 list \<Rightarrow> u32 \<Rightarrow> nat \<Rightarrow> 'u dmov \<Rightarrow> bool option \<times> u8 list" where
  "run_partition ops buf raw start_blk nblocks s =
     (let out = snd (read_blocks ops buf start_blk nblocks s);
          first_page = start_blk * 64;
          total_pages = nblocks * 64
      in (case bytes_at raw (unat first_page * 2048) (length out) of
            None \<Rightarrow> None
          | Some ex \<Rightarrow> Some (length out = total_pages * 2048 \<and> out = ex), out))"

section \<open>Writing tables into guest memory\<close>

lemma length_desc_bytes [simp]: "length (desc_bytes d) = 16"
  by (simp add: desc_bytes_def desc_words_def split: prod.split)

lemma length_desc_table [simp]: "length (concat (map desc_bytes ds)) = 16 * length ds"
  by (induction ds) simp_all

fun put_chunks :: "'u uc_ops \<Rightarrow> u32 \<Rightarrow> u8 list list \<Rightarrow> 'u dmov \<Rightarrow> 'u dmov" where
  "put_chunks ops a [] s = s"
| "put_chunks ops a (bs # bss) s = put_chunks ops (a + of_nat (length bs)) bss (mem_put ops a bs s)"

lemma mem_put_mem:
  assumes "uc_mem_ok ops mem" "mapped (mem (dm_uc s)) (unat a) (length bs)"
  shows "mem (dm_uc (mem_put ops a bs s)) = overlay (mem (dm_uc s)) (unat a) bs"
  using uc_put_bytes [OF assms] by (simp add: mem_put_def)

lemma mem_put_other [simp]:
  "dm_nand (mem_put ops a bs s) = dm_nand s" "buf_cursor (mem_put ops a bs s) = buf_cursor s"
  by (simp_all add: mem_put_def)

lemma put_chunks_mem:
  assumes "uc_mem_ok ops mem" "mapped (mem (dm_uc s)) (unat a) (length (concat bss))"
    and "unat a + length (concat bss) < 2 ^ 32"
  shows "mem (dm_uc (put_chunks ops a bss s)) = overlay (mem (dm_uc s)) (unat a) (concat bss) \<and>
    dm_nand (put_chunks ops a bss s) = dm_nand s"
  using assms(2,3)
proof (induction bss arbitrary: a s)
  case (Cons bs bss)
  have m: "mapped (mem (dm_uc s)) (unat a) (length bs)" using Cons.prems(1) by (rule mapped_sub) simp_all
  note w = mem_put_mem [OF assms(1) m]
  have a: "unat (a + of_nat (length bs)) = unat a + length bs"
    using Cons.prems(2) by (simp add: unat_word_ariths unat_of_nat)
  have "mapped (mem (dm_uc (mem_put ops a bs s))) (unat a + length bs) (length (concat bss))"
    unfolding w using Cons.prems(1) by (intro overlay_mapped) (erule mapped_sub; simp)
  then have "mem (dm_uc (put_chunks ops (a + of_nat (length bs)) bss (mem_put ops a bs s))) =
      overlay (mem (dm_uc (mem_put ops a bs s))) (unat a + length bs) (concat bss) \<and>
      dm_nand (put_chunks ops (a + of_nat (length bs)) bss (mem_put ops a bs s)) = dm_nand s"
    using Cons.IH [of "mem_put ops a bs s" "a + of_nat (length bs)"] Cons.prems(2) by (simp add: a)
  then show ?case by (simp add: w overlay_append)
qed simp

section \<open>Running a descriptor list\<close>

definition exec_desc :: "'u uc_ops \<Rightarrow> 'u dmov \<Rightarrow> desc \<Rightarrow> 'u dmov" where
  "exec_desc ops s = (\<lambda>(cmd, src, dst, ln). exec_descriptor ops cmd src dst ln s)"

lemma ram32_holds:
  "uc_mem_ok ops mem \<Longrightarrow> holds (mem (dm_uc s)) (unat a) (le32_bytes w) \<Longrightarrow> ram32 ops a s = w"
  by (simp add: ram32_def get_word)

lemma ram32_words:
  assumes "uc_mem_ok ops mem" "holds (mem (dm_uc s)) (unat a) (concat (map le32_bytes ws))"
    and "i < length ws" "unat a + 4 * length ws < 2 ^ 32"
  shows "ram32 ops (a + of_nat (4 * i)) s = ws ! i"
proof (rule ram32_holds [OF assms(1)])
  have "unat (a + of_nat (4 * i)) = unat a + 4 * i"
    using assms(3,4) by (simp add: unat_word_ariths unat_of_nat)
  then show "holds (mem (dm_uc s)) (unat (a + of_nat (4 * i))) (le32_bytes (ws ! i))"
    using holds_word [OF assms(2,3)] by simp
qed

lemma run_cmdlist_Cons:
  assumes "uc_mem_ok ops mem" "holds (mem (dm_uc s)) (unat e) (desc_bytes d)" "unat e + 16 < 2 ^ 32"
  shows "run_cmdlist ops (Suc left) e s =
    (if fst d AND CMD_LC \<noteq> 0 then exec_desc ops s d else run_cmdlist ops left (e + 16) (exec_desc ops s d))"
proof -
  obtain cmd src dst ln where d: "d = (cmd, src, dst, ln)" by (cases d)
  have r: "ram32 ops (e + of_nat (4 * i)) s = [cmd, src, dst, ln] ! i" if "i < 4" for i
    using assms(2,3) that
    by (intro ram32_words [OF assms(1)]) (simp_all add: desc_bytes_def desc_words_def d)
  show ?thesis using r [of 0] r [of 1] r [of 2] r [of 3] by (simp add: d exec_desc_def Let_def)
qed

text \<open>The list is run to its last descriptor, provided no descriptor writes over the ones behind it.\<close>

definition spares :: "nat \<Rightarrow> nat \<Rightarrow> desc \<Rightarrow> bool" where
  "spares a n = (\<lambda>(cmd, src, dst, ln).
     if is_nand src then unat dst + max 4 (unat ln) \<le> a \<or> a + n \<le> unat dst else is_nand dst)"

lemma exec_to_nand_uc [simp]: "dm_uc (exec_to_nand ops src dst ln len s) = dm_uc s"
proof -
  have "dm_uc (fill_buffer ops a b k i t) = dm_uc t" for a b k i t
    by (induction k arbitrary: i t) (simp_all add: nand_put_def)
  moreover have "dm_uc (reg_burst ops a b c k i t) = dm_uc t" for a b c k i t
    by (induction k arbitrary: i t) (simp_all add: nand_put_def Let_def)
  ultimately show ?thesis by (simp add: exec_to_nand_def Let_def nand_put_def)
qed

lemma mem_put_holds:
  assumes "uc_mem_ok ops mem" "unat a + length bs \<le> b \<or> b + length cs \<le> unat a"
  shows "holds (mem (dm_uc (mem_put ops a bs s))) b cs = holds (mem (dm_uc s)) b cs"
proof -
  obtain e u' where w: "uc_mem_write ops (dm_uc s) (ucast a) bs = (e, u')" by fastforce
  have "mem u' = (if e = UC_ERR_OK then overlay (mem (dm_uc s)) (unat a) bs else mem (dm_uc s))"
    using mem_write_ok(2) [OF assms(1) w] by simp
  then show ?thesis using holds_frame [of b cs "unat a" bs "mem (dm_uc s)"] assms(2) w by (auto simp: mem_put_def)
qed

lemma exec_desc_spares:
  assumes "uc_mem_ok ops mem" "spares b (length cs) d"
  shows "holds (mem (dm_uc (exec_desc ops s d))) b cs = holds (mem (dm_uc s)) b cs"
proof -
  obtain cmd src dst ln where d: "d = (cmd, src, dst, ln)" by (cases d)
  let ?bs = "map (\<lambda>i. buffer_byte ((buf_cursor s + of_nat i) mod of_nat PAGE_DATA) (dm_nand s))
               [0..<unat (min ln (of_nat PAGE_DATA))]"
  have "unat (min ln (of_nat PAGE_DATA)) \<le> unat ln"
    by (simp add: word_le_nat_alt [symmetric])
  then have l: "length ?bs \<le> max 4 (unat ln)" by simp
  show ?thesis
  proof (cases "is_nand src")
    case True
    then have away: "unat dst + max 4 (unat ln) \<le> b \<or> b + length cs \<le> unat dst"
      using assms(2) by (simp add: spares_def d)
    have "holds (mem (dm_uc (mem_put ops dst ?bs s))) b cs = holds (mem (dm_uc s)) b cs"
      "holds (mem (dm_uc (mem_put ops dst (le32_bytes w) s))) b cs = holds (mem (dm_uc s)) b cs" for w
      using away l by (auto intro!: mem_put_holds [OF assms(1)])
    then show ?thesis using True
      by (simp add: d exec_desc_def exec_descriptor_def exec_from_nand_def Let_def)
  next
    case False
    then show ?thesis using assms(2) by (simp add: d spares_def exec_desc_def exec_descriptor_def Let_def)
  qed
qed

lemma run_cmdlist_list:
  assumes "uc_mem_ok ops mem"
    and "holds (mem (dm_uc s)) (unat e) (concat (map desc_bytes ds))"
    and "\<forall>d \<in> set ds. spares (unat e) (16 * length ds) d"
    and "ds \<noteq> []" "\<forall>d \<in> set (butlast ds). fst d AND CMD_LC = 0" "fst (last ds) AND CMD_LC \<noteq> 0"
    and "length ds \<le> left" "unat e + 16 * length ds < 2 ^ 32"
  shows "run_cmdlist ops left e s = foldl (exec_desc ops) s ds"
  using assms(2-)
proof (induction ds arbitrary: left e s)
  case (Cons d ds)
  obtain k where left: "left = Suc k" using Cons.prems(6) by (cases left) simp_all
  have h: "holds (mem (dm_uc s)) (unat e) (desc_bytes d)"
      "holds (mem (dm_uc s)) (unat e + 16) (concat (map desc_bytes ds))"
    using Cons.prems(1) by (simp_all add: holds_append)
  note step = run_cmdlist_Cons [OF assms(1) h(1), of k]
  show ?case
  proof (cases "ds = []")
    case True
    then show ?thesis using step Cons.prems(5,7) by (simp add: left)
  next
    case False
    have e: "unat (e + 16) = unat e + 16" using Cons.prems(7) by (simp add: unat_word_ariths)
    have sub: "spares (unat e + 16) (16 * length ds) x" if "spares (unat e) (16 * length (d # ds)) x" for x
      using that by (auto simp: spares_def split: prod.splits if_splits)
    have "spares (unat e + 16) (length (concat (map desc_bytes ds))) d"
      using Cons.prems(2) by (simp add: sub)
    then have "holds (mem (dm_uc (exec_desc ops s d))) (unat (e + 16)) (concat (map desc_bytes ds))"
      using exec_desc_spares [OF assms(1)] h(2) e by simp
    then have "run_cmdlist ops k (e + 16) (exec_desc ops s d) = foldl (exec_desc ops) (exec_desc ops s d) ds"
      using Cons.prems False sub by (intro Cons.IH) (simp_all add: left e)
    then show ?thesis using step Cons.prems(4,7) False by (simp add: left)
  qed
qed simp

section \<open>One page\<close>

text \<open>The tables \<open>read_page\<close> leaves in memory, and the guest memory it needs.\<close>

definition io_values :: "u32 \<Rightarrow> u32 list" where
  "io_values page = map snd (io_words page)"

definition pr_tables :: "u32 \<Rightarrow> u32 \<Rightarrow> (nat \<Rightarrow> u8 option) \<Rightarrow> nat \<Rightarrow> u8 option" where
  "pr_tables page dest m =
     overlay (overlay (overlay m 0x400000 (concat (map le32_bytes (io_values page))))
       0x401000 (concat (map desc_bytes (page_descs dest)))) 0x402000 (le32_bytes (drop_bit 3 PR_CL OR CMD_PTR_LP))"

definition dma_mapped :: "(nat \<Rightarrow> u8 option) \<Rightarrow> bool" where
  "dma_mapped m \<longleftrightarrow> mapped m 0x400000 0x100000"

lemma pr_tables_hold:
  "holds (pr_tables page dest m) 0x400000 (concat (map le32_bytes (io_values page)))"
  "holds (pr_tables page dest m) 0x401000 (concat (map desc_bytes (page_descs dest)))"
  "holds (pr_tables page dest m) 0x402000 (le32_bytes (drop_bit 3 PR_CL OR CMD_PTR_LP))"
proof -
  have l: "length (io_values page) = 9" "length (page_descs dest) = 8"
    by (simp_all add: io_values_def io_words_def page_descs_def)
  show "holds (pr_tables page dest m) 0x400000 (concat (map le32_bytes (io_values page)))"
    unfolding pr_tables_def using l by (subst holds_frame, simp, subst holds_frame, simp) (rule holds_overlay)
  show "holds (pr_tables page dest m) 0x401000 (concat (map desc_bytes (page_descs dest)))"
    unfolding pr_tables_def using l by (subst holds_frame, simp) (rule holds_overlay)
  show "holds (pr_tables page dest m) 0x402000 (le32_bytes (drop_bit 3 PR_CL OR CMD_PTR_LP))"
    unfolding pr_tables_def by (rule holds_overlay)
qed

lemma pr_tables_frame: "k < 0x400000 \<or> 0x403000 \<le> k \<Longrightarrow> pr_tables page dest m k = m k"
  by (auto simp: pr_tables_def overlay_def io_values_def io_words_def page_descs_def)

lemma pr_tables_mapped: "mapped m a n \<Longrightarrow> mapped (pr_tables page dest m) a n"
  unfolding pr_tables_def by (intro overlay_mapped)

definition pr_setup :: "'u uc_ops \<Rightarrow> u32 \<Rightarrow> u32 \<Rightarrow> 'u dmov \<Rightarrow> 'u dmov" where
  "pr_setup ops page dest s =
     put_chunks ops PR_PTR [le32_bytes (drop_bit 3 PR_CL OR CMD_PTR_LP)]
       (put_chunks ops PR_CL (map desc_bytes (page_descs dest))
         (put_chunks ops PR_IO (map le32_bytes (io_values page)) s))"

lemma read_page_setup:
  "read_page ops page dest s =
     snd (exec_cmdptr ops (drop_bit 3 PR_PTR OR CMD_PTR_LP) (pr_setup ops page dest s))"
proof -
  have "foldl (\<lambda>s (off, v). wram ops (PR_IO + off) v s) s (io_words page) =
      put_chunks ops PR_IO (map le32_bytes (io_values page)) s" for s
    by (simp add: io_values_def io_words_def wram_def PR_IO_def)
  moreover have "foldl (\<lambda>s (i, d). mem_put ops (PR_CL + of_nat i * 16) (desc_bytes d) s) s (enumerate 0 (page_descs dest)) =
      put_chunks ops PR_CL (map desc_bytes (page_descs dest)) s" for s
    by (simp add: page_descs_def PR_CL_def)
  ultimately show ?thesis by (simp add: read_page_def pr_setup_def wram_def Let_def)
qed

lemma pr_setup_mem:
  assumes "uc_mem_ok ops mem" "dma_mapped (mem (dm_uc s))"
  shows "mem (dm_uc (pr_setup ops page dest s)) = pr_tables page dest (mem (dm_uc s)) \<and>
    dm_nand (pr_setup ops page dest s) = dm_nand s"
proof -
  have l: "length (io_values page) = 9" "length (page_descs dest) = 8"
    by (simp_all add: io_values_def io_words_def page_descs_def)
  have a: "unat PR_IO = 0x400000" "unat PR_CL = 0x401000" "unat PR_PTR = 0x402000"
    by (simp_all add: PR_IO_def PR_CL_def PR_PTR_def)
  have sub: "mapped m a n" if "dma_mapped m" "0x400000 \<le> a" "a + n \<le> 0x500000" for m a n
    using that(1) unfolding dma_mapped_def by (rule mapped_sub) (use that in simp_all)
  let ?s1 = "put_chunks ops PR_IO (map le32_bytes (io_values page)) s"
  let ?s2 = "put_chunks ops PR_CL (map desc_bytes (page_descs dest)) ?s1"
  have 1: "mem (dm_uc ?s1) = overlay (mem (dm_uc s)) 0x400000 (concat (map le32_bytes (io_values page))) \<and>
      dm_nand ?s1 = dm_nand s"
    using put_chunks_mem [OF assms(1), of s PR_IO "map le32_bytes (io_values page)"]
      sub [OF assms(2)] by (simp only: a length_words l) simp
  have d1: "dma_mapped (mem (dm_uc ?s1))"
    using 1 assms(2) by (simp add: dma_mapped_def overlay_mapped)
  have 2: "mem (dm_uc ?s2) = overlay (mem (dm_uc ?s1)) 0x401000 (concat (map desc_bytes (page_descs dest))) \<and>
      dm_nand ?s2 = dm_nand ?s1"
    using put_chunks_mem [OF assms(1), of ?s1 PR_CL "map desc_bytes (page_descs dest)"]
      sub [OF d1] by (simp only: a length_desc_table l) simp
  have d2: "dma_mapped (mem (dm_uc ?s2))" using 2 d1 by (simp add: dma_mapped_def overlay_mapped)
  have "mem (dm_uc (put_chunks ops PR_PTR [le32_bytes (drop_bit 3 PR_CL OR CMD_PTR_LP)] ?s2)) =
      overlay (mem (dm_uc ?s2)) 0x402000 (le32_bytes (drop_bit 3 PR_CL OR CMD_PTR_LP)) \<and>
      dm_nand (put_chunks ops PR_PTR [le32_bytes (drop_bit 3 PR_CL OR CMD_PTR_LP)] ?s2) = dm_nand ?s2"
    using put_chunks_mem [OF assms(1), of ?s2 PR_PTR "[le32_bytes (drop_bit 3 PR_CL OR CMD_PTR_LP)]"]
      sub [OF d2] by (simp only: a concat.simps append_Nil2 length_le32_bytes) simp
  then show ?thesis using 1 2 by (simp add: pr_setup_def pr_tables_def)
qed

text \<open>What the first three descriptors store into the controller.\<close>

definition pr_nand :: "u32 \<Rightarrow> nand \<Rightarrow> nand" where
  "pr_nand page n =
     nand_write 0x10 1 4 (nand_write 0x20 0xa25400c0 4 (nand_write 0x0c 4 4
       (nand_write 0x08 (drop_bit 16 page AND 0xFF) 4 (nand_write 0x04 (push_bit 16 page) 4 (nand_write 0x00 0x33 4 n)))))"

lemma page_encoded:
  assumes "unat page < 2 ^ 16"
  shows "nand_page (push_bit 16 page) (drop_bit 16 page AND 0xFF) = page"
proof -
  have hi: "drop_bit 16 page = 0" using assms by (simp add: drop_bit_eq_0_iff_less)
  have d: "drop_bit 16 (push_bit 16 page) = page"
    using drv_addr0_page [of page 0] assms by (simp add: drv_addr0_def)
  show ?thesis
  proof (cases "0x10000 \<le> push_bit 16 page")
    case True
    then show ?thesis by (simp add: nand_page_def hi d)
  next
    case False
    then have "unat (push_bit 16 page) < 2 ^ 16" by (simp add: word_le_nat_alt)
    then have "drop_bit 16 (push_bit 16 page) = 0" by (simp only: drop_bit_eq_0_iff_less)
    then have "page = 0" using d by simp
    then show ?thesis by (simp add: nand_page_def)
  qed
qed

lemma pr_nand_loaded:
  assumes "nand_ok n" "unat page < 2 ^ 16" "unat page < length (data_blob n) div PAGE_DATA" "length (data_blob n) \<le> 2 ^ 32"
  shows "take PAGE_DATA (nand_buffer (pr_nand page n)) = take PAGE_DATA (drop (unat page * PAGE_DATA) (data_blob n))"
    "nand_ok (pr_nand page n)" "data_blob (pr_nand page n) = data_blob n"
proof -
  have "nand_buffer (pr_nand page n) = load_page page (data_blob n) (nand_buffer n)"
    using assms(3) page_encoded [OF assms(2)]
    by (simp add: pr_nand_def nand_write_def nand_execute_def reg_touch_def Let_def in_flash_buffer_def nand_regs nand_cmds)
  then show "take PAGE_DATA (nand_buffer (pr_nand page n)) = take PAGE_DATA (drop (unat page * PAGE_DATA) (data_blob n))"
    using load_page_take [OF assms(3,4) order_refl] by simp
  show "nand_ok (pr_nand page n)" unfolding pr_nand_def by (intro nand_write_ok assms(1))
  show "data_blob (pr_nand page n) = data_blob n"
    unfolding pr_nand_def by (simp add: nand_write_blob)
qed

lemma io_word:
  assumes "uc_mem_ok ops mem" "holds (mem (dm_uc s)) 0x400000 (concat (map le32_bytes (io_values page)))" "i < 9"
  shows "ram32 ops (0x400000 + of_nat (4 * i)) s = io_values page ! i"
  using ram32_words [OF assms(1), of s "0x400000" "io_values page" i] assms(2,3)
  by (simp add: io_values_def io_words_def)

lemma ram32_cong [simp]:
  "ram32 ops a (nand_put off v sz s) = ram32 ops a s" "ram32 ops a (s\<lparr>buf_cursor := c\<rparr>) = ram32 ops a s"
  by (simp_all add: ram32_def nand_put_def)

lemma reg_burst_four:
  "reg_burst ops src NAND_BASE 0 4 0 s =
     nand_put 12 (ram32 ops (src + 12) s) 4 (nand_put 8 (ram32 ops (src + 8) s) 4
       (nand_put 4 (ram32 ops (src + 4) s) 4 (nand_put 0 (ram32 ops src s) 4 s)))"
proof -
  have "NAND_BASE AND NOT 3 = NAND_BASE" by (simp add: NAND_BASE_def)
  then have step: "reg_burst ops src NAND_BASE 0 (Suc k) i t =
      (if i \<ge> 0x400 then nand_put i (ram32 ops (src + i) t) 4 t
       else reg_burst ops src NAND_BASE 0 k (i + 4) (nand_put i (ram32 ops (src + i) t) 4 t))" for k i t
    by (simp add: Let_def)
  have "reg_burst ops src NAND_BASE 0 4 0 s = reg_burst ops src NAND_BASE 0 (Suc (Suc (Suc (Suc 0)))) 0 s"
    by (rule arg_cong [where f = "\<lambda>k. reg_burst ops src NAND_BASE 0 k 0 s"]) simp
  then show ?thesis unfolding step by simp
qed

lemma register_descs:
  assumes "uc_mem_ok ops mem" "holds (mem (dm_uc s)) 0x400000 (concat (map le32_bytes (io_values page)))"
  shows "foldl (exec_desc ops) s (take 3 (page_descs dest)) = s\<lparr>dm_nand := pr_nand page (dm_nand s), buf_cursor := 0\<rparr>"
proof -
  note w = io_word [OF assms]
  have ones: "x AND 0xFFFFFFFF = x" for x :: u32
  proof -
    have "(0xFFFFFFFF::u32) = - 1" by simp
    then show ?thesis by (metis and.right_neutral)
  qed
  have v: "ram32 ops PR_IO s = 0x33" "ram32 ops (PR_IO + 4) s = push_bit 16 page"
      "ram32 ops (PR_IO + 8) s = drop_bit 16 page AND 0xFF"
      "ram32 ops (PR_IO + 12) s = 4" "ram32 ops (PR_IO + 0x10) s = 0xa25400c0" "ram32 ops (PR_IO + 0x18) s = 1"
    using w [of 0] w [of 1] w [of 2] w [of 3] w [of 4] w [of 6]
    by (simp_all add: io_values_def io_words_def ones PR_IO_def)
  have nand: "is_nand NAND_BASE" "is_nand (NAND_BASE + 0x20)" "is_nand (NAND_BASE + 0x10)"
      "\<not> is_nand PR_IO" "\<not> is_nand (PR_IO + 0x10)" "\<not> is_nand (PR_IO + 0x18)"
    by (simp_all add: is_nand_def NAND_BASE_def PR_IO_def)
  have off: "NAND_BASE \<noteq> NAND_FLASH_BUFFER" "NAND_BASE + 0x20 \<noteq> NAND_FLASH_BUFFER" "NAND_BASE + 0x10 \<noteq> NAND_FLASH_BUFFER"
      "NAND_BASE + 0x20 \<noteq> NAND_BASE + 0x10" "NAND_BASE - NAND_BASE = 0" "NAND_BASE + 0x20 - NAND_BASE = 0x20"
      "NAND_BASE + 0x10 - NAND_BASE = 0x10"
    by (simp_all add: NAND_FLASH_BUFFER_def NAND_BASE_def)
  have mn: "unat (min (8::u32) 4) = 4" "unat (min (4::u32) 4) = 4" by (simp_all add: min_def)
  have 1: "exec_descriptor ops c PR_IO NAND_BASE 16 t = reg_burst ops PR_IO NAND_BASE 0 4 0 t" for c t
    by (simp add: exec_descriptor_def exec_to_nand_def nand off Let_def)
  have 2: "exec_descriptor ops c (PR_IO + 0x10) (NAND_BASE + 0x20) 8 t =
      nand_put 0x20 (ram32 ops (PR_IO + 0x10) t) 4 t" for c t
    unfolding exec_descriptor_def exec_to_nand_def Let_def off mn by (simp add: nand off)
  have 3: "exec_descriptor ops c (PR_IO + 0x18) (NAND_BASE + 0x10) 4 t =
      nand_put 0x10 (ram32 ops (PR_IO + 0x18) t) 4 (t\<lparr>buf_cursor := 0\<rparr>)" for c t
    unfolding exec_descriptor_def exec_to_nand_def Let_def off mn by (simp add: nand off)
  have "take 3 (page_descs dest) = [(push_bit 7 5, PR_IO, NAND_BASE, 16), (0, PR_IO + 0x10, NAND_BASE + 0x20, 8),
      (0, PR_IO + 0x18, NAND_BASE + 0x10, 4)]"
    by (simp add: page_descs_def)
  then show ?thesis
    by (simp add: exec_desc_def 1 2 3 reg_burst_four v) (simp add: nand_put_def pr_nand_def)
qed

lemma drain_descs:
  "foldl (exec_desc ops) s (drop 4 (page_descs dest)) = drain ops dest [512, 512, 512, 512] s"
proof -
  have c: "exec_descriptor ops CMD_LC = exec_descriptor ops 0" by (simp add: exec_descriptor_def fun_eq_iff)
  have "drop 4 (page_descs dest) = [(0, NAND_FLASH_BUFFER, dest, 512), (0, NAND_FLASH_BUFFER, dest + 512, 512),
      (0, NAND_FLASH_BUFFER, dest + 1024, 512), (CMD_LC, NAND_FLASH_BUFFER, dest + 1536, 512)]"
    by (simp add: page_descs_def)
  then show ?thesis by (simp add: exec_desc_def c add.commute)
qed

lemma status_desc:
  "exec_desc ops s (page_descs dest ! 3) = mem_put ops 0x400024 (le32_bytes (nand_status (dm_nand s))) s"
proof -
  have "is_nand (NAND_BASE + 0x14)" "NAND_BASE + 0x14 \<noteq> NAND_FLASH_BUFFER" "NAND_BASE + 0x14 - NAND_BASE = R_FLASH_STATUS"
    by (simp_all add: is_nand_def NAND_FLASH_BUFFER_def nand_regs)
  then show ?thesis
    by (simp add: page_descs_def exec_desc_def exec_descriptor_def exec_from_nand_def nand_read_def PR_IO_def Let_def)
qed

lemma page_descs_split:
  "foldl f s (page_descs dest) = foldl f (f (foldl f s (take 3 (page_descs dest))) (page_descs dest ! 3)) (drop 4 (page_descs dest))"
  by (simp add: page_descs_def)

lemma page_descs_spare:
  assumes "0x403000 \<le> unat dest" "unat dest + 2048 < 2 ^ 32" "d \<in> set (page_descs dest)"
  shows "spares 0x401000 (16 * length (page_descs dest)) d"
proof -
  have u: "unat (dest + of_nat k) = unat dest + k" if "k \<le> 2048" for k
    using assms(2) that by (simp add: unat_word_ariths unat_of_nat)
  have "unat (dest + 512) = unat dest + 512" "unat (dest + 1024) = unat dest + 1024" "unat (dest + 1536) = unat dest + 1536"
    using u [of 512] u [of 1024] u [of 1536] by simp_all
  moreover have "is_nand NAND_FLASH_BUFFER" "is_nand (NAND_BASE + 0x14)" "is_nand NAND_BASE" "is_nand (NAND_BASE + 0x20)"
      "is_nand (NAND_BASE + 0x10)" "\<not> is_nand PR_IO" "\<not> is_nand (PR_IO + 0x10)" "\<not> is_nand (PR_IO + 0x18)"
      "unat (PR_IO + 0x24) = 0x400024"
    by (simp_all add: is_nand_def NAND_FLASH_BUFFER_def NAND_BASE_def PR_IO_def)
  moreover have "length (page_descs dest) = 8" by (simp add: page_descs_def)
  ultimately show ?thesis using assms(1,3) unfolding page_descs_def by (auto simp: spares_def)
qed

lemma exec_cmdptr_list:
  assumes "uc_mem_ok ops mem" "mem (dm_uc s) = pr_tables page dest m"
    "0x403000 \<le> unat dest" "unat dest + 2048 < 2 ^ 32"
  shows "snd (exec_cmdptr ops (drop_bit 3 PR_PTR OR CMD_PTR_LP) s) =
    (foldl (exec_desc ops) (s\<lparr>exec_count := exec_count s + 1\<rparr>) (page_descs dest))\<lparr>last_chan := DMOV_NAND_CHAN\<rparr>"
proof -
  let ?s = "s\<lparr>exec_count := exec_count s + 1\<rparr>" and ?p = "drop_bit 3 PR_CL OR CMD_PTR_LP"
  have a: "push_bit 3 ((drop_bit 3 PR_PTR OR CMD_PTR_LP) AND 0x7FFFFFFF) = PR_PTR" "push_bit 3 (?p AND 0x7FFFFFFF) = PR_CL"
      "?p \<noteq> 0" "?p AND CMD_PTR_LP \<noteq> 0" "unat PR_PTR = 0x402000" "unat PR_CL = 0x401000"
    by (simp_all add: PR_PTR_def PR_CL_def CMD_PTR_LP_def)
  have m: "mem (dm_uc ?s) = pr_tables page dest m" using assms(2) by simp
  have p: "ram32 ops PR_PTR ?s = ?p"
    by (rule ram32_holds [OF assms(1)]) (use pr_tables_hold(3) in \<open>simp only: m a\<close>)
  have lc: "fst d AND CMD_LC = 0" if "d \<in> set (butlast (page_descs dest))" for d
    using that by (auto simp: page_descs_def CMD_LC_def)
  have "fst (last (page_descs dest)) AND CMD_LC \<noteq> 0" by (simp add: page_descs_def CMD_LC_def)
  moreover have len: "length (page_descs dest) = 8" by (simp add: page_descs_def)
  moreover have "page_descs dest \<noteq> []" using len by force
  ultimately have "run_cmdlist ops 64 PR_CL ?s = foldl (exec_desc ops) ?s (page_descs dest)"
    using pr_tables_hold(2) page_descs_spare [OF assms(3,4)] lc
    by (intro run_cmdlist_list [OF assms(1)]) (simp_all only: m a, simp_all)
  moreover have "run_ptrlist ops (Suc 15) PR_PTR ?s = run_cmdlist ops 64 PR_CL ?s"
    unfolding run_ptrlist.simps p Let_def a(2) using a(3,4) by simp
  ultimately show ?thesis unfolding exec_cmdptr_def Let_def a(1) by simp
qed

lemma read_page_mem:
  assumes "uc_mem_ok ops mem" "dma_mapped (mem (dm_uc s))" "nand_ok (dm_nand s)" "unat page < 2 ^ 16"
    "unat page < length (data_blob (dm_nand s)) div PAGE_DATA" "length (data_blob (dm_nand s)) \<le> 2 ^ 32"
    "0x403000 \<le> unat dest" "unat dest + 2048 < 2 ^ 32" "mapped (mem (dm_uc s)) (unat dest) 2048"
  shows "\<exists>st. mem (dm_uc (read_page ops page dest s)) =
      overlay (overlay (pr_tables page dest (mem (dm_uc s))) 0x400024 (le32_bytes st)) (unat dest)
        (take PAGE_DATA (drop (unat page * PAGE_DATA) (data_blob (dm_nand s))))"
    and "dm_nand (read_page ops page dest s) = pr_nand page (dm_nand s)"
proof -
  let ?s0 = "(pr_setup ops page dest s)\<lparr>exec_count := exec_count (pr_setup ops page dest s) + 1\<rparr>"
  let ?s3 = "?s0\<lparr>dm_nand := pr_nand page (dm_nand s), buf_cursor := 0\<rparr>" and ?st = "nand_status (pr_nand page (dm_nand s))"
  let ?s4 = "mem_put ops 0x400024 (le32_bytes ?st) ?s3"
  note set = pr_setup_mem [OF assms(1,2), of page dest]
  note loaded = pr_nand_loaded [OF assms(3-6)]
  have "holds (mem (dm_uc ?s0)) 0x400000 (concat (map le32_bytes (io_values page)))"
    using set pr_tables_hold(1) by simp
  from register_descs [OF assms(1) this, of dest]
  have 3: "foldl (exec_desc ops) ?s0 (take 3 (page_descs dest)) = ?s3" using set by simp
  have run: "read_page ops page dest s = (drain ops dest [512, 512, 512, 512] ?s4)\<lparr>last_chan := DMOV_NAND_CHAN\<rparr>"
    unfolding read_page_setup
    using exec_cmdptr_list [OF assms(1) conjunct1 [OF set] assms(7,8)]
    by (simp add: page_descs_split [of _ ?s0] 3 status_desc drain_descs)
  have tm: "mem (dm_uc ?s3) = pr_tables page dest (mem (dm_uc s))" using set by simp
  have "mapped (mem (dm_uc s)) (unat (0x400024::u32)) (length (le32_bytes ?st))"
    using assms(2) unfolding dma_mapped_def by (rule mapped_sub) simp_all
  then have "mapped (mem (dm_uc ?s3)) (unat (0x400024::u32)) (length (le32_bytes ?st))"
    unfolding tm by (rule pr_tables_mapped)
  then have m4: "mem (dm_uc ?s4) = overlay (pr_tables page dest (mem (dm_uc s))) 0x400024 (le32_bytes ?st)"
    using mem_put_mem [OF assms(1)] tm by simp
  have "mapped (mem (dm_uc ?s4)) (unat dest) 2048"
    unfolding m4 by (intro overlay_mapped pr_tables_mapped assms(9))
  then have d: "dm_nand (drain ops dest [512, 512, 512, 512] ?s4) = pr_nand page (dm_nand s) \<and>
      mem (dm_uc (drain ops dest [512, 512, 512, 512] ?s4)) =
      overlay (mem (dm_uc ?s4)) (unat dest) (take PAGE_DATA (nand_buffer (pr_nand page (dm_nand s))))"
    using drain_content [OF assms(1), of ?s4 "[512, 512, 512, 512]" dest] loaded(2) assms(8)
    by (simp add: PAGE_DATA_def)
  then show "dm_nand (read_page ops page dest s) = pr_nand page (dm_nand s)" by (simp add: run)
  show "\<exists>st. mem (dm_uc (read_page ops page dest s)) =
      overlay (overlay (pr_tables page dest (mem (dm_uc s))) 0x400024 (le32_bytes st)) (unat dest)
        (take PAGE_DATA (drop (unat page * PAGE_DATA) (data_blob (dm_nand s))))"
    using d m4 loaded(1) by (intro exI [of _ ?st]) (simp add: run)
qed

section \<open>A whole partition\<close>

text \<open>What stays true from page to page: the mapped areas and the dump behind the controller.\<close>

definition reader_ok :: "'u mem_view \<Rightarrow> u8 list \<Rightarrow> 'u dmov \<Rightarrow> bool" where
  "reader_ok mem raw s \<longleftrightarrow> dma_mapped (mem (dm_uc s)) \<and> mapped (mem (dm_uc s)) 0x10000000 0x400000 \<and>
     nand_ok (dm_nand s) \<and> data_blob (dm_nand s) = raw"

definition raw_page :: "u8 list \<Rightarrow> nat \<Rightarrow> u8 list" where
  "raw_page raw k = take PAGE_DATA (drop (k * PAGE_DATA) raw)"

lemma length_raw_page: "k < length raw div PAGE_DATA \<Longrightarrow> length (raw_page raw k) = 2048"
proof -
  assume "k < length raw div PAGE_DATA"
  then have "Suc k * PAGE_DATA \<le> length raw"
    by (simp only: PAGE_DATA_def less_eq_div_iff_mult_less_eq Suc_le_eq [symmetric])
  then show ?thesis by (simp add: raw_page_def PAGE_DATA_def)
qed

lemma read_page_dest:
  assumes "uc_mem_ok ops mem" "reader_ok mem raw s" "length raw \<le> 2 ^ 32"
    "unat page < 2 ^ 16" "unat page < length raw div PAGE_DATA"
  shows "holds (mem (dm_uc (read_page ops page PR_DEST s))) 0x10000000 (raw_page raw (unat page))"
    "reader_ok mem raw (read_page ops page PR_DEST s)"
proof -
  have d: "unat PR_DEST = 0x10000000" by (simp add: PR_DEST_def)
  note ok = assms(2) [unfolded reader_ok_def]
  have sub: "mapped (mem (dm_uc s)) (unat PR_DEST) 2048"
    using ok unfolding d by (auto elim: mapped_sub)
  let ?s = "read_page ops page PR_DEST s"
  have pre: "uc_mem_ok ops mem" "dma_mapped (mem (dm_uc s))" "nand_ok (dm_nand s)" "unat page < 2 ^ 16"
      "unat page < length (data_blob (dm_nand s)) div PAGE_DATA" "length (data_blob (dm_nand s)) \<le> 2 ^ 32"
      "0x403000 \<le> unat PR_DEST" "unat PR_DEST + 2048 < 2 ^ 32"
    using ok assms by (simp_all add: d)
  obtain st where m: "mem (dm_uc ?s) = overlay (overlay (pr_tables page PR_DEST (mem (dm_uc s))) 0x400024 (le32_bytes st))
      0x10000000 (raw_page raw (unat page))"
    using read_page_mem(1) [OF pre sub] ok unfolding raw_page_def d by auto
  show "holds (mem (dm_uc ?s)) 0x10000000 (raw_page raw (unat page))" unfolding m by (rule holds_overlay)
  show "reader_ok mem raw ?s"
    using ok read_page_mem(2) [OF pre sub] pr_nand_loaded(2,3) [OF pre(3-6)]
    unfolding reader_ok_def dma_mapped_def m by (simp add: overlay_mapped pr_tables_mapped)
qed

lemma append_page_step:
  assumes "uc_mem_ok ops mem" "reader_ok mem raw s" "length raw \<le> 2 ^ 32" "length buf = 2048"
    "unat page < 2 ^ 16" "unat page < length raw div PAGE_DATA"
  shows "\<exists>s'. append_page ops buf page (s, out) = (s', out @ raw_page raw (unat page)) \<and> reader_ok mem raw s'"
proof -
  have d: "unat PR_DEST = 0x10000000" by (simp add: PR_DEST_def)
  note r = read_page_dest [OF assms(1-3,5,6)]
  have "snd (uc_mem_read ops (dm_uc (read_page ops page PR_DEST s)) (ucast PR_DEST) buf) = raw_page raw (unat page)"
    using read_bytes [OF assms(1), of _ PR_DEST] r(1) assms(4) length_raw_page [OF assms(6)] by (simp add: d)
  then show ?thesis using r(2) by (simp add: append_page_def Let_def)
qed

lemma append_pages:
  assumes "uc_mem_ok ops mem" "reader_ok mem raw s" "length raw \<le> 2 ^ 32" "length buf = 2048"
    and "\<forall>k \<in> set ks. unat (pg k) < 2 ^ 16 \<and> unat (pg k) < length raw div PAGE_DATA"
  shows "\<exists>s'. foldl (\<lambda>st k. append_page ops buf (pg k) st) (s, out) ks =
    (s', out @ concat (map (\<lambda>k. raw_page raw (unat (pg k))) ks)) \<and> reader_ok mem raw s'"
  using assms(2,5)
proof (induction ks arbitrary: s out)
  case (Cons k ks)
  obtain s' where s': "append_page ops buf (pg k) (s, out) = (s', out @ raw_page raw (unat (pg k)))" "reader_ok mem raw s'"
    using append_page_step [OF assms(1) Cons.prems(1) assms(3,4)] Cons.prems(2) by force
  then show ?case using Cons.IH [OF s'(2), of "out @ raw_page raw (unat (pg k))"] Cons.prems(2) by simp
qed simp

lemma concat_pages: "concat (map (\<lambda>k. raw_page raw (a + k)) [0..<n]) = take (n * PAGE_DATA) (drop (a * PAGE_DATA) raw)"
proof (induction n)
  case (Suc n)
  have "take (Suc n * PAGE_DATA) (drop (a * PAGE_DATA) raw) =
      take (n * PAGE_DATA) (drop (a * PAGE_DATA) raw) @ take PAGE_DATA (drop (n * PAGE_DATA) (drop (a * PAGE_DATA) raw))"
    using take_add [of "n * PAGE_DATA" PAGE_DATA "drop (a * PAGE_DATA) raw"] by (simp add: add.commute)
  moreover have "drop (n * PAGE_DATA) (drop (a * PAGE_DATA) raw) = drop ((a + n) * PAGE_DATA) raw"
    by (simp add: add_mult_distrib add.commute)
  ultimately show ?case using Suc by (simp add: raw_page_def)
qed simp

lemma read_blocks_exact:
  assumes "uc_mem_ok ops mem" "reader_ok mem raw s" "length raw \<le> 2 ^ 32" "length buf = 2048"
    and "(unat start_blk + nblocks) * 64 \<le> 2 ^ 16" "(unat start_blk + nblocks) * 64 \<le> length raw div PAGE_DATA"
  shows "\<exists>s'. read_blocks ops buf start_blk nblocks s =
    (s', take (nblocks * 64 * PAGE_DATA) (drop (unat start_blk * 64 * PAGE_DATA) raw)) \<and> reader_ok mem raw s'"
proof -
  let ?pg = "\<lambda>blk p. (start_blk + of_nat blk) * 64 + of_nat p :: u32"
  let ?block = "\<lambda>st blk. foldl (\<lambda>st p. append_page ops buf (?pg blk p) st) st [0..<64]"
  have pg: "unat (?pg blk p) = (unat start_blk + blk) * 64 + p" if "blk < nblocks" "p < 64" for blk p
  proof -
    have "(unat start_blk + blk) * 64 + p < 2 ^ 16" using that assms(5) by simp
    moreover have "?pg blk p = of_nat ((unat start_blk + blk) * 64 + p)" by simp
    ultimately show ?thesis unfolding unat_of_nat \<open>?pg blk p = _\<close> by simp
  qed
  have "\<exists>s'. foldl ?block (s, []) [0..<n] = (s', take (n * 64 * PAGE_DATA) (drop (unat start_blk * 64 * PAGE_DATA) raw)) \<and>
      reader_ok mem raw s'" if "n \<le> nblocks" for n
    using that
  proof (induction n)
    case (Suc n)
    obtain s1 where s1: "foldl ?block (s, []) [0..<n] = (s1, take (n * 64 * PAGE_DATA) (drop (unat start_blk * 64 * PAGE_DATA) raw))"
        "reader_ok mem raw s1"
      using Suc.IH Suc.prems by auto
    have lim: "unat (?pg n p) < 2 ^ 16 \<and> unat (?pg n p) < length raw div PAGE_DATA" if "p \<in> set [0..<64]" for p
      using that pg [of n p] Suc.prems assms(5,6) by (simp add: add_mult_distrib del: upt_rec_numeral)
    obtain s2 where s2: "?block (s1, take (n * 64 * PAGE_DATA) (drop (unat start_blk * 64 * PAGE_DATA) raw)) n =
        (s2, take (n * 64 * PAGE_DATA) (drop (unat start_blk * 64 * PAGE_DATA) raw) @
           concat (map (\<lambda>p. raw_page raw (unat (?pg n p))) [0..<64]))" "reader_ok mem raw s2"
      using append_pages [OF assms(1) s1(2) assms(3,4), of "[0..<64]" "?pg n"] lim by blast
    have "map (\<lambda>p. raw_page raw (unat (?pg n p))) [0..<64] = map (\<lambda>p. raw_page raw ((unat start_blk + n) * 64 + p)) [0..<64]"
      using pg [of n] Suc.prems by (intro map_cong) (simp_all del: upt_rec_numeral)
    then have "concat (map (\<lambda>p. raw_page raw (unat (?pg n p))) [0..<64]) =
        take (64 * PAGE_DATA) (drop ((unat start_blk + n) * 64 * PAGE_DATA) raw)"
      using concat_pages [of raw "(unat start_blk + n) * 64" 64] by (simp only:)
    moreover have "take (n * 64 * PAGE_DATA) xs @ take (64 * PAGE_DATA) (drop (n * 64 * PAGE_DATA) xs) = take (Suc n * 64 * PAGE_DATA) xs"
      for xs :: "u8 list" using take_add [of "n * 64 * PAGE_DATA" "64 * PAGE_DATA" xs] by (simp add: add.commute add_mult_distrib)
    moreover have "drop ((unat start_blk + n) * 64 * PAGE_DATA) raw =
        drop (n * 64 * PAGE_DATA) (drop (unat start_blk * 64 * PAGE_DATA) raw)"
      by (simp add: add_mult_distrib add.commute)
    ultimately have "?block (foldl ?block (s, []) [0..<n]) n =
        (s2, take (Suc n * 64 * PAGE_DATA) (drop (unat start_blk * 64 * PAGE_DATA) raw))"
      unfolding s1(1) s2(1) by (simp only:)
    then show ?case using s2(2) by (simp del: upt_rec_numeral)
  qed (use assms(2) in simp)
  from this [OF order_refl] show ?thesis by (simp only: read_blocks_def)
qed

text \<open>
  C11: a partition read through the data mover is the partition of the dump. On an engine with ordinary
  memory in which the two areas of the reader are mapped, and a controller over a dump that contains the
  partition within its first 65536 pages, the reader returns exactly the bytes of the partition in the
  dump, and its comparison with the dump succeeds. This goes through every layer: the command words and
  the descriptor list the reader writes to guest memory, the pointer list the data mover walks, the
  register stores that start the page read, and the four descriptors that drain the page buffer, 64
  times per block.
\<close>

theorem partition_read_exact:
  assumes "uc_mem_ok ops mem" "reader_ok mem raw s" "length raw \<le> 2 ^ 32" "length buf = 2048"
    and "(unat start_blk + nblocks) * 64 \<le> 2 ^ 16" "(unat start_blk + nblocks) * 64 \<le> length raw div PAGE_DATA"
  shows "run_partition ops buf raw start_blk nblocks s =
    (Some True, take (nblocks * 64 * PAGE_DATA) (drop (unat start_blk * 64 * PAGE_DATA) raw))"
proof -
  let ?out = "take (nblocks * 64 * PAGE_DATA) (drop (unat start_blk * 64 * PAGE_DATA) raw)"
  have "(unat start_blk + nblocks) * 64 * PAGE_DATA \<le> length raw"
    using assms(6) by (simp only: PAGE_DATA_def less_eq_div_iff_mult_less_eq)
  then have fits: "unat start_blk * 64 * 2048 + nblocks * 64 * 2048 \<le> length raw"
    by (simp add: PAGE_DATA_def add_mult_distrib)
  have "unat start_blk * 64 < 2 ^ 32" using assms(5) by simp
  then have first: "unat (start_blk * 64) = unat start_blk * 64" by (simp add: unat_word_ariths)
  have "snd (read_blocks ops buf start_blk nblocks s) = ?out" using read_blocks_exact [OF assms] by auto
  then show ?thesis
    using fits by (simp add: run_partition_def Let_def first bytes_at_def PAGE_DATA_def)
qed

text \<open>An engine with the reader's two areas mapped.\<close>

definition reader_engine :: paged where
  "reader_engine = ([0x400..<0x500] @ [0x10000..<0x10400], \<lambda>_. 0, 0)"

lemma reader_engine_ok: "reader_ok paged_byte raw (dmov_new reader_engine (nand_new raw None 0))"
proof -
  have pages: "mapped (paged_byte reader_engine) a n"
    if "0x400000 \<le> a \<and> a + n \<le> 0x500000 \<or> 0x10000000 \<le> a \<and> a + n \<le> 0x10400000" for a n
  proof -
    have "(a + i) div 4096 \<in> {0x400..<0x500} \<union> {0x10000..<0x10400}" if "i < n" for i
      using that \<open>_ \<or> _\<close> by auto
    then show ?thesis by (simp add: mapped_def paged_byte_def reader_engine_def del: upt_rec_numeral)
  qed
  show ?thesis
    unfolding reader_ok_def dma_mapped_def using pages by (simp add: dmov_new_def nand_new_def nand_ok_def)
qed

theorem partition_read_exact_witness:
  "run_partition flat_ops (replicate 2048 0) (replicate 0x40000 0xAB) 1 1
     (dmov_new reader_engine (nand_new (replicate 0x40000 0xAB) None 0)) =
   (Some True, replicate 0x20000 0xAB)"
  using partition_read_exact [OF flat_mem_ok reader_engine_ok, of "replicate 0x40000 0xAB" "replicate 2048 0" 1 1]
  by (simp add: PAGE_DATA_def)

end
