(* ===== verification/Std_Map.thy ===== *)
theory Std_Map
  imports Main
begin

text \<open>
  \<open>std::map\<close> as the sources use it: a list of key-value pairs in increasing key order, so that
  iteration order is list order. \<open>om_put\<close> is \<open>m[k] = v\<close>, \<open>om_at\<close> the value \<open>m[k]\<close> refers to (a default
  for a missing key, which \<open>m[k]\<close> creates), \<open>om_erase\<close> is \<open>erase(k)\<close>, and \<open>map_of\<close> is \<open>find\<close>. The
  locale \<open>keyed_store\<close> is what the clients rely on.
\<close>

type_synonym ('k, 'v) omap = "('k \<times> 'v) list"

fun om_put :: "'k::linorder \<Rightarrow> 'v \<Rightarrow> ('k, 'v) omap \<Rightarrow> ('k, 'v) omap" where
  "om_put k v [] = [(k, v)]"
| "om_put k v (kv # m) =
     (if k < fst kv then (k, v) # kv # m
      else if k = fst kv then (k, v) # m
      else kv # om_put k v m)"

definition om_at :: "'v \<Rightarrow> 'k \<Rightarrow> ('k, 'v) omap \<Rightarrow> 'v" where
  "om_at d k m = (case map_of m k of None \<Rightarrow> d | Some v \<Rightarrow> v)"

definition om_erase :: "'k \<Rightarrow> ('k, 'v) omap \<Rightarrow> ('k, 'v) omap" where
  "om_erase k m = filter (\<lambda>kv. fst kv \<noteq> k) m"

definition om_ok :: "('k::linorder, 'v) omap \<Rightarrow> bool" where
  "om_ok m \<longleftrightarrow> sorted_wrt (<) (map fst m)"

lemma om_ok_simps [simp]:
  "om_ok []" "om_ok (kv # m) \<longleftrightarrow> (\<forall>kv' \<in> set m. fst kv < fst kv') \<and> om_ok m"
  by (auto simp: om_ok_def)

lemma om_ok_distinct: "om_ok m \<Longrightarrow> distinct (map fst m)"
  by (simp add: om_ok_def strict_sorted_iff)

lemma set_om_put: "set (om_put k v m) \<subseteq> insert (k, v) (set m)"
  by (induction m) auto

lemma om_ok_put [simp]: "om_ok m \<Longrightarrow> om_ok (om_put k v m)"
  by (induction m) (use set_om_put in fastforce)+

lemma map_of_om_put [simp]: "om_ok m \<Longrightarrow> map_of (om_put k v m) = (map_of m)(k \<mapsto> v)"
proof (induction m)
  case (Cons kv m)
  have "map_of m k = None" if "k < fst kv"
    using that Cons.prems by (force simp: map_of_eq_None_iff)
  with Cons show ?case by (cases kv) (auto simp: fun_eq_iff)
qed simp

lemma om_ok_erase [simp]: "om_ok m \<Longrightarrow> om_ok (om_erase k m)"
  by (induction m) (auto simp: om_erase_def)

lemma map_of_om_erase [simp]: "map_of (om_erase k m) = (map_of m)(k := None)"
  by (induction m) (auto simp: om_erase_def fun_eq_iff)

lemma om_at_put [simp]: "om_ok m \<Longrightarrow> om_at d k (om_put k' v m) = (if k = k' then v else om_at d k m)"
  by (simp add: om_at_def)

lemma om_find_iff: "om_ok m \<Longrightarrow> map_of m k = Some v \<longleftrightarrow> (k, v) \<in> set m"
  by (simp add: om_ok_distinct)

lemma keys_om_put: "om_ok m \<Longrightarrow> fst ` set (om_put k v m) = insert k (fst ` set m)"
  by (metis dom_map_of_conv_image_fst dom_fun_upd map_of_om_put option.distinct(1))

lemma length_om_put:
  "om_ok m \<Longrightarrow> length (om_put k v m) = (if k \<in> fst ` set m then length m else Suc (length m))"
proof -
  assume ok: "om_ok m"
  have "length x = card (fst ` set x)" if "om_ok x" for x :: "('a::linorder \<times> 'b) list"
    using om_ok_distinct [OF that] by (metis distinct_card length_map list.set_map)
  with ok show ?thesis by (simp add: keys_om_put card_insert_if)
qed

text \<open>The iterator ranges before and from \<open>upper_bound(c)\<close>.\<close>

lemma om_takeWhile_le: "om_ok m \<Longrightarrow> takeWhile (\<lambda>kv. fst kv \<le> c) m = filter (\<lambda>kv. fst kv \<le> c) m"
  and om_dropWhile_le: "om_ok m \<Longrightarrow> dropWhile (\<lambda>kv. fst kv \<le> c) m = filter (\<lambda>kv. c < fst kv) m"
proof (induction m)
  case (Cons kv m)
  have above: "\<forall>kv' \<in> set m. c < fst kv'" if "\<not> fst kv \<le> c" "om_ok (kv # m)"
    using that by (auto dest: order.strict_trans)
  { case 1 with Cons.IH above show ?case by (auto simp: filter_empty_conv not_le) }
  { case 2 with Cons.IH above show ?case by (auto simp: filter_id_conv not_le) }
qed simp_all

section \<open>The contract\<close>

locale keyed_store =
  fixes find :: "'m \<Rightarrow> 'k \<Rightarrow> 'v option"
    and put :: "'k \<Rightarrow> 'v \<Rightarrow> 'm \<Rightarrow> 'm"
    and erase :: "'k \<Rightarrow> 'm \<Rightarrow> 'm"
    and ok :: "'m \<Rightarrow> bool"
  assumes find_put: "ok m \<Longrightarrow> find (put k v m) k' = (if k' = k then Some v else find m k')"
    and find_erase: "ok m \<Longrightarrow> find (erase k m) k' = (if k' = k then None else find m k')"
    and ok_put: "ok m \<Longrightarrow> ok (put k v m)"
    and ok_erase: "ok m \<Longrightarrow> ok (erase k m)"
begin

text \<open>An update in place of one entry, the way \<open>auto& x = m[k]; x.f = ...\<close> does it.\<close>

definition modify :: "'v \<Rightarrow> 'k \<Rightarrow> ('v \<Rightarrow> 'v) \<Rightarrow> 'm \<Rightarrow> 'm" where
  "modify d k f m = put k (f (case find m k of None \<Rightarrow> d | Some v \<Rightarrow> v)) m"

lemma find_modify:
  "ok m \<Longrightarrow> find (modify d k f m) k' =
     (if k' = k then Some (f (case find m k of None \<Rightarrow> d | Some v \<Rightarrow> v)) else find m k')"
  by (simp add: modify_def find_put)

lemma ok_modify: "ok m \<Longrightarrow> ok (modify d k f m)"
  by (simp add: modify_def ok_put)

lemma modify_all:
  assumes "ok m" "P d" "\<And>k v. find m k = Some v \<Longrightarrow> P v" "\<And>v. P v \<Longrightarrow> P (f v)"
  shows "find (modify d k f m) k' = Some v \<Longrightarrow> P v"
  using assms by (auto simp: find_modify split: if_splits option.splits)

end

interpretation om: keyed_store map_of om_put om_erase om_ok
  by unfold_locales auto

end
