(* ===== verification/L4_Thread.thy ===== *)
theory L4_Thread
  imports Zeebo_Prelude Uc_Engine Std_Map Machine_Runs
begin

text \<open>
  \<open>tools/cpp/zeebo_l4_thread.h\<close>: the table of L4 threads (creation by ThreadControl, activation and
  halting by ExchangeRegisters, saved CPU contexts, the round-robin choice of the next thread) and
  the transfer of a complete ARM context between the table and the engine.
\<close>

record cpu_context =
  ctx_r :: "u32 list"
  ctx_sp :: u32
  ctx_lr :: u32
  ctx_pc :: u32
  ctx_cpsr :: u32

definition cpu_context_init :: cpu_context where
  "cpu_context_init = \<lparr>ctx_r = replicate 13 0, ctx_sp = 0, ctx_lr = 0, ctx_pc = 0, ctx_cpsr = 0\<rparr>"

definition EXREGS_CTRL_HALT :: u32 where "EXREGS_CTRL_HALT = bit_mask 0"
definition EXREGS_CTRL_SP :: u32 where "EXREGS_CTRL_SP = bit_mask 3"
definition EXREGS_CTRL_IP :: u32 where "EXREGS_CTRL_IP = bit_mask 4"
definition EXREGS_CTRL_FLAGS :: u32 where "EXREGS_CTRL_FLAGS = bit_mask 5"
definition EXREGS_CTRL_HALTFLAG :: u32 where "EXREGS_CTRL_HALTFLAG = bit_mask 8"
definition EXREGS_CTRL_DELIVER :: u32 where "EXREGS_CTRL_DELIVER = bit_mask 9"

lemmas exregs_ctrl = EXREGS_CTRL_HALT_def EXREGS_CTRL_SP_def EXREGS_CTRL_IP_def
  EXREGS_CTRL_FLAGS_def EXREGS_CTRL_HALTFLAG_def EXREGS_CTRL_DELIVER_def

record thread_info =
  th_tid :: u32
  th_sp :: u32
  th_ip :: u32
  th_flags :: u32
  th_started :: bool
  th_active :: bool
  th_space_id :: u32
  th_user_def_handle :: u32
  th_scheduler :: u32
  th_pager :: u32
  th_ctx :: cpu_context
  th_has_context :: bool

definition thread_init :: thread_info where
  "thread_init = \<lparr>th_tid = 0, th_sp = 0, th_ip = 0, th_flags = 0, th_started = False,
     th_active = False, th_space_id = 0, th_user_def_handle = 0, th_scheduler = 0, th_pager = 0,
     th_ctx = cpu_context_init, th_has_context = False\<rparr>"

record thread_table =
  current_tid :: u32
  threads :: "(u32, thread_info) omap"

definition thread_table_init :: thread_table where
  "thread_table_init = \<lparr>current_tid = 0, threads = []\<rparr>"

definition set_current_tid :: "u32 \<Rightarrow> thread_table \<Rightarrow> thread_table" where
  "set_current_tid tid t = t\<lparr>current_tid := tid\<rparr>"

text \<open>\<open>auto& th = threads_[tid]\<close> followed by assignments to fields of \<open>th\<close>.\<close>

definition upd_thread :: "u32 \<Rightarrow> (thread_info \<Rightarrow> thread_info) \<Rightarrow> thread_table \<Rightarrow> thread_table" where
  "upd_thread tid f t = t\<lparr>threads := om_put tid (f (om_at thread_init tid (threads t))) (threads t)\<rparr>"

definition set_thread_space :: "u32 \<Rightarrow> u32 \<Rightarrow> thread_table \<Rightarrow> thread_table" where
  "set_thread_space tid space_id t =
     (if tid = 0 then t
      else upd_thread tid (\<lambda>th. th\<lparr>th_tid := tid, th_space_id := space_id\<rparr>) t)"

definition thread_space :: "u32 \<Rightarrow> thread_table \<Rightarrow> u32" where
  "thread_space tid t = (case map_of (threads t) tid of None \<Rightarrow> 0 | Some th \<Rightarrow> th_space_id th)"

definition on_thread_control :: "u32 \<Rightarrow> u32 \<Rightarrow> u32 \<Rightarrow> u32 \<Rightarrow> thread_table \<Rightarrow> thread_table" where
  "on_thread_control dest space_specifier scheduler pager t =
     (if dest = 0 then t
      else upd_thread dest (\<lambda>th.
        let th = th\<lparr>th_tid := dest, th_scheduler := scheduler, th_pager := pager\<rparr>
        in if space_specifier \<noteq> 0 then th\<lparr>th_space_id := space_specifier\<rparr> else th) t)"

definition set_user_def_handle :: "u32 \<Rightarrow> u32 \<Rightarrow> thread_table \<Rightarrow> thread_table" where
  "set_user_def_handle tid handle t =
     (if tid = 0 then t
      else upd_thread tid (\<lambda>th. th\<lparr>th_tid := tid, th_user_def_handle := handle\<rparr>) t)"

definition user_def_handle :: "u32 \<Rightarrow> thread_table \<Rightarrow> u32" where
  "user_def_handle tid t =
     (case map_of (threads t) tid of None \<Rightarrow> 0 | Some th \<Rightarrow> th_user_def_handle th)"

definition save_context :: "u32 \<Rightarrow> cpu_context \<Rightarrow> thread_table \<Rightarrow> thread_table" where
  "save_context tid ctx t =
     (if tid = 0 then t
      else upd_thread tid (\<lambda>th. th\<lparr>th_tid := tid, th_ctx := ctx, th_has_context := True,
             th_sp := ctx_sp ctx, th_ip := ctx_pc ctx\<rparr>) t)"

definition load_context :: "u32 \<Rightarrow> thread_table \<Rightarrow> cpu_context option" where
  "load_context tid t =
     (case map_of (threads t) tid of
        None \<Rightarrow> None
      | Some th \<Rightarrow> if \<not> th_has_context th then None else Some (th_ctx th))"

text \<open>The assignments \<open>on_exchange_registers\<close> makes to the thread's entry.\<close>

definition exregs_update :: "u32 \<Rightarrow> u32 \<Rightarrow> u32 \<Rightarrow> u32 \<Rightarrow> u32 \<Rightarrow> thread_info \<Rightarrow> thread_info" where
  "exregs_update dest control new_sp new_ip flags th =
     (let th = th\<lparr>th_tid := dest\<rparr>;
          th = (if control AND EXREGS_CTRL_SP \<noteq> 0 then th\<lparr>th_sp := new_sp\<rparr> else th);
          th = (if control AND EXREGS_CTRL_IP \<noteq> 0 then th\<lparr>th_ip := new_ip\<rparr> else th);
          th = (if control AND EXREGS_CTRL_FLAGS \<noteq> 0 then th\<lparr>th_flags := flags\<rparr> else th);
          resume = (control AND EXREGS_CTRL_HALTFLAG \<noteq> 0 \<and> \<not> control AND EXREGS_CTRL_HALT \<noteq> 0);
          halt = (control AND EXREGS_CTRL_HALTFLAG \<noteq> 0 \<and> control AND EXREGS_CTRL_HALT \<noteq> 0);
          th = (if control AND EXREGS_CTRL_DELIVER \<noteq> 0 \<or> resume
                then th\<lparr>th_started := True, th_active := True\<rparr> else th)
      in if halt then th\<lparr>th_active := False\<rparr> else th)"

definition on_exchange_registers ::
    "u32 \<Rightarrow> u32 \<Rightarrow> u32 \<Rightarrow> u32 \<Rightarrow> u32 \<Rightarrow> thread_table \<Rightarrow> bool \<times> thread_table" where
  "on_exchange_registers dest control new_sp new_ip flags t =
     (if dest = 0 then (False, t)
      else (True, upd_thread dest (exregs_update dest control new_sp new_ip flags) t))"

definition get_thread :: "u32 \<Rightarrow> thread_table \<Rightarrow> thread_info option" where
  "get_thread tid t = map_of (threads t) tid"

text \<open>The scan for the next active thread other than the current one, in iteration order.\<close>

fun first_other :: "u32 \<Rightarrow> (u32, thread_info) omap \<Rightarrow> u32 option" where
  "first_other current [] = None"
| "first_other current (kv # m) =
     (if th_active (snd kv) \<and> fst kv \<noteq> current then Some (fst kv) else first_other current m)"

definition pick_next_thread :: "u32 \<Rightarrow> thread_table \<Rightarrow> u32" where
  "pick_next_thread current t =
     (if threads t = [] then 0
      else
        case first_other current (dropWhile (\<lambda>kv. fst kv \<le> current) (threads t)) of
          Some tid \<Rightarrow> tid
        | None \<Rightarrow>
            (case first_other current (takeWhile (\<lambda>kv. fst kv \<le> current) (threads t)) of
               Some tid \<Rightarrow> tid
             | None \<Rightarrow>
                 (case map_of (threads t) current of
                    Some th \<Rightarrow> if th_active th then current else 0
                  | None \<Rightarrow> 0)))"

definition thread_count :: "thread_table \<Rightarrow> nat" where
  "thread_count t = length (threads t)"

definition clear_threads :: "thread_table \<Rightarrow> thread_table" where
  "clear_threads t = t\<lparr>threads := [], current_tid := 0\<rparr>"

definition get_active_threads :: "thread_table \<Rightarrow> u32 list" where
  "get_active_threads t = map fst (filter (\<lambda>kv. th_active (snd kv)) (threads t))"

text \<open>The complete ARM context of the engine.\<close>

definition cpu_context_read :: "'u uc_ops \<Rightarrow> 'u \<Rightarrow> cpu_context" where
  "cpu_context_read ops u =
     \<lparr>ctx_r = map (\<lambda>i. uc_reg_read ops u (UC_R i)) [0..<13], ctx_sp = uc_reg_read ops u UC_SP,
      ctx_lr = uc_reg_read ops u UC_LR, ctx_pc = uc_reg_read ops u UC_PC,
      ctx_cpsr = uc_reg_read ops u UC_CPSR\<rparr>"

definition cpu_context_write :: "'u uc_ops \<Rightarrow> cpu_context \<Rightarrow> 'u \<Rightarrow> 'u" where
  "cpu_context_write ops ctx u =
     (let u = uc_reg_write ops u UC_CPSR (ctx_cpsr ctx);
          u = fold (\<lambda>i u. uc_reg_write ops u (UC_R i) (ctx_r ctx ! i)) [0..<13] u;
          u = uc_reg_write ops u UC_SP (ctx_sp ctx);
          u = uc_reg_write ops u UC_LR (ctx_lr ctx);
          thumb = (drop_bit 5 (ctx_cpsr ctx) AND 1 \<noteq> 0);
          pc_write = (if thumb then ctx_pc ctx OR 1 else ctx_pc ctx AND NOT 1)
      in uc_reg_write ops u UC_PC pc_write)"

section \<open>The table invariant\<close>

text \<open>
  Keys in order, no thread 0, every entry under its own id, no active thread that was never started.
\<close>

definition tt_ok :: "thread_table \<Rightarrow> bool" where
  "tt_ok t \<longleftrightarrow> om_ok (threads t) \<and>
     (\<forall>tid th. map_of (threads t) tid = Some th \<longrightarrow>
        tid \<noteq> 0 \<and> th_tid th = tid \<and> (th_active th \<longrightarrow> th_started th))"

datatype tt_event =
    SetCurrent u32 | SetSpace u32 u32 | ThreadControl u32 u32 u32 u32 | SetHandle u32 u32
  | SaveContext u32 cpu_context | ExchangeRegisters u32 u32 u32 u32 u32 | Clear

fun tt_step :: "tt_event \<Rightarrow> thread_table \<Rightarrow> thread_table" where
  "tt_step (SetCurrent tid) t = set_current_tid tid t"
| "tt_step (SetSpace tid sid) t = set_thread_space tid sid t"
| "tt_step (ThreadControl dest spec sched pager) t = on_thread_control dest spec sched pager t"
| "tt_step (SetHandle tid h) t = set_user_def_handle tid h t"
| "tt_step (SaveContext tid ctx) t = save_context tid ctx t"
| "tt_step (ExchangeRegisters dest ctl sp ip fl) t = snd (on_exchange_registers dest ctl sp ip fl t)"
| "tt_step Clear t = clear_threads t"

lemma tt_ok_upd:
  assumes "tt_ok t" "tid \<noteq> 0" "\<And>th. th_tid (f th) = tid"
    and "\<And>th. (th_active th \<longrightarrow> th_started th) \<Longrightarrow> th_active (f th) \<longrightarrow> th_started (f th)"
  shows "tt_ok (upd_thread tid f t)"
proof -
  have "th_active (om_at thread_init tid (threads t)) \<longrightarrow> th_started (om_at thread_init tid (threads t))"
    using assms(1) by (auto simp: tt_ok_def om_at_def thread_init_def split: option.splits)
  with assms show ?thesis by (auto simp: tt_ok_def upd_thread_def)
qed

lemma exregs_update_fields:
  "th_tid (exregs_update d c sp ip fl th) = d"
  "(th_active th \<longrightarrow> th_started th) \<Longrightarrow>
     th_active (exregs_update d c sp ip fl th) \<longrightarrow> th_started (exregs_update d c sp ip fl th)"
  by (simp_all add: exregs_update_def Let_def)

lemma tt_ok_step: "tt_ok t \<Longrightarrow> tt_ok (tt_step e t)"
proof (cases e)
  case (ThreadControl dest spec sched pager)
  assume "tt_ok t"
  with ThreadControl show ?thesis
    by (auto simp: on_thread_control_def Let_def intro!: tt_ok_upd)
next
  case (ExchangeRegisters dest ctl sp ip fl)
  assume "tt_ok t"
  with ExchangeRegisters show ?thesis
    by (auto simp: on_exchange_registers_def exregs_update_fields intro!: tt_ok_upd)
qed (auto simp: set_thread_space_def set_user_def_handle_def save_context_def set_current_tid_def
       clear_threads_def intro!: tt_ok_upd, auto simp: tt_ok_def)

interpretation tt: machine_inv tt_step tt_ok
  by unfold_locales (rule tt_ok_step)

lemma tt_ok_init: "tt_ok thread_table_init"
  by (simp add: tt_ok_def thread_table_init_def)

text \<open>
  C40: the thread table stays well formed in every run of the kernel's thread operations from the
  empty table: keys in order and distinct, no entry for thread 0, every entry filed under its own
  thread id, and no thread active that was never started.
\<close>

theorem thread_table_invariant: "tt_ok (fold tt_step es thread_table_init)"
  by (rule tt.inv_run [OF tt_ok_init])

section \<open>Activation\<close>

lemma exregs_bits:
  "control AND EXREGS_CTRL_HALT = 0 \<longleftrightarrow> \<not> bit control 0"
  "control AND EXREGS_CTRL_SP = 0 \<longleftrightarrow> \<not> bit control 3"
  "control AND EXREGS_CTRL_IP = 0 \<longleftrightarrow> \<not> bit control 4"
  "control AND EXREGS_CTRL_FLAGS = 0 \<longleftrightarrow> \<not> bit control 5"
  "control AND EXREGS_CTRL_HALTFLAG = 0 \<longleftrightarrow> \<not> bit control 8"
  "control AND EXREGS_CTRL_DELIVER = 0 \<longleftrightarrow> \<not> bit control 9"
  unfolding exregs_ctrl push_bit_of_1 by (rule and_exp_eq_0)+

lemma exregs_update_spec:
  "th_active (exregs_update d c sp ip fl th) =
     (if bit c 8 then \<not> bit c 0 else bit c 9 \<or> th_active th)"
  "th_sp (exregs_update d c sp ip fl th) = (if bit c 3 then sp else th_sp th)"
  "th_ip (exregs_update d c sp ip fl th) = (if bit c 4 then ip else th_ip th)"
  "th_flags (exregs_update d c sp ip fl th) = (if bit c 5 then fl else th_flags th)"
  "th_space_id (exregs_update d c sp ip fl th) = th_space_id th"
  "th_ctx (exregs_update d c sp ip fl th) = th_ctx th"
  by (simp_all add: exregs_update_def Let_def exregs_bits)

text \<open>
  What ExchangeRegisters does to a thread's schedulability. On a well-formed table and a nonzero
  thread id, the thread becomes active exactly when DELIVER is requested without a halt or a resume
  is requested (HALTFLAG without HALT), becomes inactive when a halt is requested (HALTFLAG with
  HALT), and otherwise keeps its state; SP, IP and flags change only when their control bits are
  set, and every other thread is untouched.
\<close>

theorem exchange_registers_effect:
  assumes "tt_ok t" "dest \<noteq> 0"
  shows "let th = om_at thread_init dest (threads t);
             t' = snd (on_exchange_registers dest control new_sp new_ip flags t);
             haltflag = bit control 8; halt = bit control 0; deliver = bit control 9
    in \<exists>th'. get_thread dest t' = Some th' \<and>
      th_active th' = (if haltflag then \<not> halt else deliver \<or> th_active th) \<and>
      th_sp th' = (if bit control 3 then new_sp else th_sp th) \<and>
      th_ip th' = (if bit control 4 then new_ip else th_ip th) \<and>
      th_flags th' = (if bit control 5 then flags else th_flags th) \<and>
      th_space_id th' = th_space_id th \<and> th_ctx th' = th_ctx th \<and>
      (\<forall>tid. tid \<noteq> dest \<longrightarrow> get_thread tid t' = get_thread tid t)"
  using assms
  by (simp add: Let_def get_thread_def on_exchange_registers_def upd_thread_def tt_ok_def
      exregs_update_spec)

theorem exchange_registers_effect_witness:
  "let t' = snd (on_exchange_registers 5 0x11e 0x2000 0x8000 0 thread_table_init)
   in \<exists>th'. get_thread 5 t' = Some th' \<and> th_active th' \<and> th_ip th' = 0x8000"
proof -
  have b: "bit (0x11e :: u32) 8" "\<not> bit (0x11e :: u32) 0" "bit (0x11e :: u32) 4"
    by code_simp+
  show ?thesis
    using exchange_registers_effect [OF tt_ok_init, of 5 "0x11e" "0x2000" "0x8000" 0] b
    by (auto simp: Let_def)
qed

section \<open>Saved contexts\<close>

text \<open>
  The context a suspended thread resumes with is the one saved for it last: \<open>load_context\<close> after
  \<open>save_context\<close> returns the saved context for that thread and is unchanged for every other, and a
  thread that was never suspended has none.
\<close>

theorem load_save_context:
  assumes "tt_ok t" "tid \<noteq> 0"
  shows "load_context tid' (save_context tid ctx t) =
      (if tid' = tid then Some ctx else load_context tid' t) \<and>
    load_context tid' thread_table_init = None"
  using assms
  by (auto simp: load_context_def save_context_def upd_thread_def tt_ok_def thread_table_init_def
      split: option.splits)

theorem load_save_context_witness:
  "load_context 7 (save_context 7 (cpu_context_init\<lparr>ctx_pc := 0x8004\<rparr>) thread_table_init) =
     Some (cpu_context_init\<lparr>ctx_pc := 0x8004\<rparr>)"
  using load_save_context [OF tt_ok_init, of 7 7 "cpu_context_init\<lparr>ctx_pc := 0x8004\<rparr>"] by simp

lemma fold_reg_writes:
  assumes "uc_regs_ok ops" "distinct is"
  shows "uc_reg_read ops (fold (\<lambda>i u. uc_reg_write ops u (UC_R i) (f i)) is u) r =
    (case r of UC_R i \<Rightarrow> if i \<in> set is then f i else uc_reg_read ops u r | _ \<Rightarrow> uc_reg_read ops u r)"
  using assms(2)
proof (induction "is" arbitrary: u)
  case (Cons j js)
  then show ?case
    by (cases r) (auto simp: uc_reg_simps assms(1))
qed (auto split: uc_reg.splits)

lemma thumb_bit: "drop_bit 5 (c::u32) AND 1 \<noteq> 0 \<longleftrightarrow> bit c 5"
  by (simp add: and_one_eq bit_iff_odd_drop_bit odd_iff_mod_2_eq_one)

lemma thumb_bit_kept:
  "bit (c::u32) 5 \<Longrightarrow> c OR 32 = c" "\<not> bit (c::u32) 5 \<Longrightarrow> c AND - 33 = c"
proof -
  have "c OR 2 ^ 5 = c" if "bit c 5"
    using that by (intro bit_word_eqI) (auto simp only: bit_or_iff bit_exp_word)
  then show "bit c 5 \<Longrightarrow> c OR 32 = c" by simp
  have "c AND NOT (2 ^ 5) = c" if "\<not> bit c 5"
    using that by (intro bit_word_eqI) (auto simp only: bit_clear bit_exp_word)
  then show "\<not> bit c 5 \<Longrightarrow> c AND - 33 = c" by simp
qed

text \<open>
  C1: a context switch restores the complete context. Writing a context with a halfword-aligned PC
  into the engine and reading it back gives the same context (r0 to r12, SP, LR, PC and CPSR), for
  ARM and Thumb contexts, whatever mode the engine was in before: CPSR is written first, so that the
  banked SP and LR land in the bank of the target mode.
\<close>

theorem context_switch_roundtrip:
  assumes "uc_regs_ok ops" "length (ctx_r ctx) = 13" "\<not> bit (ctx_pc ctx) 0"
  shows "cpu_context_read ops (cpu_context_write ops ctx u) = ctx"
proof -
  let ?pc = "ctx_pc ctx" and ?c = "ctx_cpsr ctx"
  let ?u = "uc_reg_write ops (uc_reg_write ops (fold (\<lambda>i u. uc_reg_write ops u (UC_R i) (ctx_r ctx ! i))
      [0..<13] (uc_reg_write ops u UC_CPSR ?c)) UC_SP (ctx_sp ctx)) UC_LR (ctx_lr ctx)"
  let ?w = "if bit ?c 5 then ?pc OR 1 else ?pc AND NOT 1"
  have w: "bit ?w 0 \<longleftrightarrow> bit ?c 5" "?w AND NOT 1 = ?pc"
  proof -
    show "bit ?w 0 \<longleftrightarrow> bit ?c 5" using assms(3) by (simp add: bit_or_iff bit_and_iff)
    have "(?pc OR 1) AND NOT 1 = ?pc" "?pc AND NOT 1 = ?pc"
      using assms(3) by (auto intro!: bit_word_eqI gr0I simp: bit_simps bit_1_iff)
    then show "?w AND NOT 1 = ?pc" by simp
  qed
  have fin: "cpu_context_write ops ctx u = uc_reg_write ops ?u UC_PC ?w"
    by (simp add: cpu_context_write_def Let_def thumb_bit)
  have cp: "uc_reg_read ops ?u UC_CPSR = ?c"
    by (simp add: uc_reg_simps assms(1) fold_reg_writes)
  show ?thesis
    unfolding cpu_context_read_def fin
    by (rule cpu_context.equality)
       (use assms w cp in \<open>auto simp: uc_reg_simps fold_reg_writes thumb_bit_kept
          simp del: upt_Suc intro!: nth_equalityI\<close>)
qed

theorem context_switch_roundtrip_witness:
  "let ctx = \<lparr>ctx_r = replicate 13 7, ctx_sp = 0x100, ctx_lr = 0x200, ctx_pc = 0x8002, ctx_cpsr = 0x30\<rparr>
   in cpu_context_read arm_ops (cpu_context_write arm_ops ctx arm_init) = ctx"
proof -
  let ?ctx = "\<lparr>ctx_r = replicate 13 7, ctx_sp = 0x100, ctx_lr = 0x200, ctx_pc = 0x8002, ctx_cpsr = 0x30\<rparr>"
  have "length (ctx_r ?ctx) = 13" "\<not> bit (ctx_pc ?ctx) 0" by simp_all
  from context_switch_roundtrip [OF arm_regs_ok this] show ?thesis by (simp add: Let_def)
qed

section \<open>Round robin\<close>

lemma first_other_eq:
  "first_other c m = List.find (\<lambda>x. x \<noteq> c) (map fst (filter (\<lambda>kv. th_active (snd kv)) m))"
  by (induction m) auto

lemma active_part:
  "map fst (filter (\<lambda>kv. th_active (snd kv)) (filter (\<lambda>kv. P (fst kv)) m)) =
     filter P (map fst (filter (\<lambda>kv. th_active (snd kv)) m))"
  by (induction m) auto

lemma active_iff:
  "om_ok (threads t) \<Longrightarrow>
   c \<in> set (get_active_threads t) \<longleftrightarrow> (\<exists>th. map_of (threads t) c = Some th \<and> th_active th)"
  by (force simp: get_active_threads_def om_find_iff)

lemma pick_next_eq:
  assumes "om_ok (threads t)"
  shows "pick_next_thread c t =
    (case List.find (\<lambda>x. x \<noteq> c) (filter (\<lambda>x. c < x) (get_active_threads t)) of
       Some x \<Rightarrow> x
     | None \<Rightarrow> (case List.find (\<lambda>x. x \<noteq> c) (filter (\<lambda>x. x \<le> c) (get_active_threads t)) of
         Some x \<Rightarrow> x
       | None \<Rightarrow> if c \<in> set (get_active_threads t) then c else 0))"
proof -
  have last_case: "(if c \<in> set (get_active_threads t) then c else 0) =
      (case map_of (threads t) c of Some th \<Rightarrow> if th_active th then c else 0 | None \<Rightarrow> 0)"
    by (simp add: active_iff [OF assms] split: option.split)
  show ?thesis
  proof (cases "threads t = []")
    case True
    then show ?thesis by (simp add: pick_next_thread_def get_active_threads_def)
  next
    case False
    then show ?thesis
      unfolding last_case
      by (simp only: pick_next_thread_def first_other_eq om_takeWhile_le [OF assms]
          om_dropWhile_le [OF assms] active_part [of "\<lambda>x. c < x"] active_part [of "\<lambda>x. x \<le> c"]
          get_active_threads_def if_False)
  qed
qed

lemma sorted_active: "om_ok (threads t) \<Longrightarrow> sorted_wrt (<) (get_active_threads t)"
  unfolding get_active_threads_def om_ok_def by (simp add: sorted_wrt_map sorted_wrt_filter)

lemma sorted_after:
  assumes "sorted_wrt (<) (xs :: 'a::linorder list)" "i < length xs"
  shows "filter (\<lambda>x. xs ! i < x) xs = drop (Suc i) xs"
    and "filter (\<lambda>x. x \<le> xs ! i) xs = take (Suc i) xs"
  using assms
proof (induction xs arbitrary: i)
  case (Cons x xs)
  have below: "x < xs ! n" if "i = Suc n" "i < length (x # xs)" "sorted_wrt (<) (x # xs)" for n
    using that by auto
  { case 1 with Cons.IH(1) below show ?case
      by (cases i) (auto simp: filter_id_conv not_less intro!: less_imp_le) }
  { case 2 with Cons.IH(2) below show ?case
      by (cases i) (auto simp: filter_empty_conv not_le less_imp_le) }
qed simp_all

lemma find_other_drop:
  assumes "sorted_wrt (<) (xs :: u32 list)" "i < length xs"
  shows "List.find (\<lambda>x. x \<noteq> xs ! i) (drop (Suc i) xs) = (if Suc i < length xs then Some (xs ! Suc i) else None)"
    and "List.find (\<lambda>x. x \<noteq> xs ! i) (take (Suc i) xs) = (if 0 < i then Some (xs ! 0) else None)"
proof -
  have less: "j < k \<Longrightarrow> k < length xs \<Longrightarrow> xs ! j \<noteq> xs ! k" for j k
    using assms(1) by (metis order_less_irrefl sorted_wrt_nth_less)
  show "List.find (\<lambda>x. x \<noteq> xs ! i) (drop (Suc i) xs) =
      (if Suc i < length xs then Some (xs ! Suc i) else None)"
    using less [of i "Suc i"] by (auto simp: Cons_nth_drop_Suc [symmetric])
  obtain y ys where xs: "xs = y # ys" using assms(2) by (cases xs) auto
  show "List.find (\<lambda>x. x \<noteq> xs ! i) (take (Suc i) xs) = (if 0 < i then Some (xs ! 0) else None)"
    using less [of 0 i] assms(2) by (cases i) (auto simp: xs)
qed

lemma pick_next_cycles:
  assumes "om_ok (threads t)" "i < length (get_active_threads t)"
  shows "pick_next_thread (get_active_threads t ! i) t =
    get_active_threads t ! (Suc i mod length (get_active_threads t))"
proof -
  let ?A = "get_active_threads t"
  note sorted = sorted_active [OF assms(1)]
  have "pick_next_thread (?A ! i) t =
      (if Suc i < length ?A then ?A ! Suc i else if 0 < i then ?A ! 0 else ?A ! i)"
    unfolding pick_next_eq [OF assms(1)] sorted_after [OF sorted assms(2)]
      find_other_drop [OF sorted assms(2)]
    using assms(2) by auto
  with assms(2) show ?thesis by (cases "Suc i = length ?A") auto
qed

text \<open>
  C8: scheduling is fair. From an active thread, picking the next thread \<open>k\<close> times leads to the
  \<open>k\<close>-th following active thread in cyclic order of thread ids, so every active thread is chosen
  exactly once in as many picks as there are active threads.
\<close>

theorem round_robin_fair:
  assumes "tt_ok t" "i < length (get_active_threads t)"
  shows "((\<lambda>c. pick_next_thread c t) ^^ k) (get_active_threads t ! i) =
    get_active_threads t ! ((i + k) mod length (get_active_threads t))"
proof (induction k)
  case 0
  then show ?case using assms(2) by simp
next
  case (Suc k)
  have ok: "om_ok (threads t)" using assms(1) by (simp add: tt_ok_def)
  have "(i + k) mod length (get_active_threads t) < length (get_active_threads t)"
    using assms(2) by (intro mod_less_divisor) linarith
  from Suc pick_next_cycles [OF ok this] show ?case by (simp add: mod_Suc_eq)
qed

text \<open>
  The pick is safe from any current thread, also one that is halted or unknown: the result is
  an active thread of the table, and it is 0 exactly when no thread is active.
\<close>

theorem pick_next_active:
  assumes "tt_ok t"
  shows "if get_active_threads t = [] then pick_next_thread c t = 0
    else pick_next_thread c t \<in> set (get_active_threads t) \<and> pick_next_thread c t \<noteq> 0"
proof -
  let ?A = "get_active_threads t"
  have ok: "om_ok (threads t)" using assms by (simp add: tt_ok_def)
  have nz: "x \<noteq> 0" if "x \<in> set ?A" for x
    using that assms by (auto simp: active_iff [OF ok] tt_ok_def)
  have found: "x \<in> set xs" if "List.find P xs = Some x" for P x and xs :: "u32 list"
    using that by (metis find_Some_iff nth_mem)
  have "pick_next_thread c t \<in> set ?A" if "?A \<noteq> []"
  proof (cases "List.find (\<lambda>x. x \<noteq> c) (filter (\<lambda>x. c < x) ?A)")
    case (Some x)
    with found [OF Some] show ?thesis by (simp add: pick_next_eq [OF ok])
  next
    case None
    show ?thesis
    proof (cases "List.find (\<lambda>x. x \<noteq> c) (filter (\<lambda>x. x \<le> c) ?A)")
      case (Some x)
      with None found [OF Some] show ?thesis by (simp add: pick_next_eq [OF ok])
    next
      case None': None
      with None have "\<forall>x \<in> set ?A. x = c" by (auto simp: find_None_iff) (metis linorder_le_less_linear)
      with that have "c \<in> set ?A" by (metis last_in_set)
      with None None' show ?thesis by (simp add: pick_next_eq [OF ok])
    qed
  qed
  with nz show ?thesis by (auto simp: pick_next_eq [OF ok])
qed

text \<open>Two active threads, 3 and 9, and one halted.\<close>

definition demo_threads :: thread_table where
  "demo_threads = fold tt_step
     [ExchangeRegisters 9 0x100 0 0 0, ExchangeRegisters 5 0x101 0 0 0, ExchangeRegisters 3 0x100 0 0 0]
     thread_table_init"

lemma demo_threads_active: "get_active_threads demo_threads = [3, 9]"
  by code_simp

theorem round_robin_fair_witness:
  "((\<lambda>c. pick_next_thread c demo_threads) ^^ 2) 3 = 3 \<and> pick_next_thread 3 demo_threads = 9"
proof -
  have ok: "tt_ok demo_threads" unfolding demo_threads_def by (rule tt.inv_run [OF tt_ok_init])
  show ?thesis
    using round_robin_fair [OF ok, of 0 2] round_robin_fair [OF ok, of 0 1]
    by (simp add: demo_threads_active)
qed

theorem pick_next_active_witness:
  "pick_next_thread 5 demo_threads \<in> {3, 9}"
proof -
  have "tt_ok demo_threads" unfolding demo_threads_def by (rule tt.inv_run [OF tt_ok_init])
  from pick_next_active [OF this, of 5] show ?thesis by (simp add: demo_threads_active)
qed

end
