(* ===== verification/L4_Mmu.thy ===== *)
theory L4_Mmu
  imports Zeebo_Prelude Uc_Engine Std_Map
begin

text \<open>
  \<open>tools/cpp/zeebo_l4_mmu.h\<close>: decoding of the L4_MapControl descriptors (flexpages, physical
  descriptors, the control word), the page-indexed lookup table \<open>VtlbLut\<close> from guest addresses to host
  pointers, the physical pool, and the syscall dispatcher that turns descriptors into engine
  mappings. Host pointers are \<open>u64\<close> values with 0 for \<open>nullptr\<close>.
\<close>

definition UTCB_MR_BYTE_OFFSET :: u32 where "UTCB_MR_BYTE_OFFSET = 64"
definition IPC_NUM_MR :: nat where "IPC_NUM_MR = 32"
definition PAGE :: u64 where "PAGE = 0x1000"
definition TOP32 :: u64 where "TOP32 = 0x100000000"

definition UC_PROT_NONE :: nat where "UC_PROT_NONE = 0"
definition UC_PROT_READ :: nat where "UC_PROT_READ = 1"
definition UC_PROT_WRITE :: nat where "UC_PROT_WRITE = 2"
definition UC_PROT_EXEC :: nat where "UC_PROT_EXEC = 4"

section \<open>Descriptors\<close>

text \<open>The control word \<open>map_control_t\<close>.\<close>

definition is_modify :: "u32 \<Rightarrow> bool" where
  "is_modify raw \<longleftrightarrow> drop_bit 31 raw AND 1 \<noteq> 0"

definition is_query :: "u32 \<Rightarrow> bool" where
  "is_query raw \<longleftrightarrow> drop_bit 30 raw AND 1 \<noteq> 0"

definition highest_item :: "u32 \<Rightarrow> u32" where
  "highest_item raw = raw AND 0x3f"

definition mc_count :: "u32 \<Rightarrow> u32" where
  "mc_count raw = highest_item raw + 1"

text \<open>\<open>phys_desc_t\<close>.\<close>

definition pd_attributes :: "u32 \<Rightarrow> u32" where
  "pd_attributes raw = raw AND 0x3f"

definition phys_base :: "u32 \<Rightarrow> u64" where
  "phys_base raw = push_bit 6 (ucast (drop_bit 6 raw))"

definition pd_is_device :: "u32 \<Rightarrow> bool" where
  "pd_is_device raw \<longleftrightarrow> pd_attributes raw = 6 \<or> pd_attributes raw = 7"

text \<open>\<open>fpage_t\<close>.\<close>

definition fp_is_execute :: "u32 \<Rightarrow> bool" where
  "fp_is_execute raw \<longleftrightarrow> drop_bit 0 raw AND 1 \<noteq> 0"

definition fp_is_write :: "u32 \<Rightarrow> bool" where
  "fp_is_write raw \<longleftrightarrow> drop_bit 1 raw AND 1 \<noteq> 0"

definition fp_is_read :: "u32 \<Rightarrow> bool" where
  "fp_is_read raw \<longleftrightarrow> drop_bit 2 raw AND 1 \<noteq> 0"

definition size_log2 :: "u32 \<Rightarrow> u32" where
  "size_log2 raw = drop_bit 4 raw AND 0x3f"

definition fp_rwx :: "u32 \<Rightarrow> u32" where
  "fp_rwx raw = raw AND 7"

definition fp_vaddr :: "u32 \<Rightarrow> u64" where
  "fp_vaddr raw = ucast (raw AND NOT 0x3ff)"

definition size_bytes :: "u32 \<Rightarrow> u64" where
  "size_bytes raw = (let s = size_log2 raw in if s \<ge> 32 then push_bit 32 1 else push_bit (unat s) 1)"

definition is_nil :: "u32 \<Rightarrow> bool" where
  "is_nil raw \<longleftrightarrow> raw = 0"

definition is_complete :: "u32 \<Rightarrow> bool" where
  "is_complete raw \<longleftrightarrow> size_log2 raw = 1 \<and> raw AND NOT 0x3ff = 0"

definition is_whole_space :: "u32 \<Rightarrow> bool" where
  "is_whole_space raw \<longleftrightarrow> size_log2 raw \<ge> 32"

record map_item =
  mi_phys :: u32
  mi_fpage :: u32

definition decode_item :: "u32 \<Rightarrow> u32 \<Rightarrow> map_item" where
  "decode_item mr_phys mr_fpage = \<lparr>mi_phys = mr_phys, mi_fpage = mr_fpage\<rparr>"

definition fpage_to_uc_prot :: "u32 \<Rightarrow> nat" where
  "fpage_to_uc_prot f =
     (let prot = 0;
          prot = (if fp_is_read f then prot + UC_PROT_READ else prot);
          prot = (if fp_is_write f then prot + UC_PROT_WRITE else prot)
      in if fp_is_execute f then prot + UC_PROT_EXEC else prot)"

section \<open>The lookup table\<close>

definition NUM_PAGES :: nat where "NUM_PAGES = 2 ^ 20"

type_synonym lut = "nat \<Rightarrow> u64"

definition lut_init :: lut where
  "lut_init = (\<lambda>_. 0)"

text \<open>The loop shared by \<open>map\<close> and \<open>unmap\<close>: entry \<open>first + i\<close> gets \<open>g i\<close>.\<close>

function lut_fill :: "nat \<Rightarrow> nat \<Rightarrow> nat \<Rightarrow> (nat \<Rightarrow> u64) \<Rightarrow> lut \<Rightarrow> lut" where
  "lut_fill pages first i g l =
     (if i < pages \<and> first + i < NUM_PAGES
      then lut_fill pages first (Suc i) g (l(first + i := g i)) else l)"
  by pat_completeness auto
termination
  by (relation "measure (\<lambda>(pages, first, i, g, l). pages - i)") auto

declare lut_fill.simps [simp del]

definition page_index :: "u64 \<Rightarrow> nat" where
  "page_index va = unat (drop_bit 12 (va AND 0xffffffff))"

definition page_span :: "u64 \<Rightarrow> nat" where
  "page_span sz = unat (drop_bit 12 (sz + 0xfff))"

definition lut_map :: "u64 \<Rightarrow> u64 \<Rightarrow> u64 \<Rightarrow> lut \<Rightarrow> lut" where
  "lut_map va sz host l =
     lut_fill (page_span sz) (page_index va) 0 (\<lambda>i. host + push_bit 12 (of_nat i)) l"

definition lut_unmap :: "u64 \<Rightarrow> u64 \<Rightarrow> lut \<Rightarrow> lut" where
  "lut_unmap va sz l = lut_fill (page_span sz) (page_index va) 0 (\<lambda>i. 0) l"

definition lut_translate :: "u64 \<Rightarrow> lut \<Rightarrow> u64" where
  "lut_translate va l =
     (let base = l (page_index va) in if base \<noteq> 0 then base + (va AND 0xfff) else 0)"

definition lut_is_mapped :: "u64 \<Rightarrow> lut \<Rightarrow> bool" where
  "lut_is_mapped va l \<longleftrightarrow> l (page_index va) \<noteq> 0"

text \<open>
  Byte-wise access to host memory through the table; \<open>n\<close> bytes are left, \<open>i\<close> are done. A read returns
  the bytes copied before it failed or finished.
\<close>

fun lut_read :: "lut \<Rightarrow> (u64 \<Rightarrow> u8) \<Rightarrow> u64 \<Rightarrow> nat \<Rightarrow> bool \<times> u8 list" where
  "lut_read l hm va 0 = (True, [])"
| "lut_read l hm va (Suc n) =
     (let p = lut_translate va l
      in if p = 0 then (False, [])
         else let (ok, bs) = lut_read l hm (va + 1) n in (ok, hm p # bs))"

fun lut_write :: "lut \<Rightarrow> u64 \<Rightarrow> u8 list \<Rightarrow> (u64 \<Rightarrow> u8) \<Rightarrow> bool \<times> (u64 \<Rightarrow> u8)" where
  "lut_write l va [] hm = (True, hm)"
| "lut_write l va (b # bs) hm =
     (let p = lut_translate va l
      in if p = 0 then (False, hm) else lut_write l (va + 1) bs (hm(p := b)))"

section \<open>The physical pool\<close>

record phys_pool =
  pool_base :: u64
  pool_size :: u64
  pool_host :: u64

definition pool_contains :: "phys_pool \<Rightarrow> u64 \<Rightarrow> u64 \<Rightarrow> bool" where
  "pool_contains p phys len \<longleftrightarrow>
     pool_host p \<noteq> 0 \<and> phys \<ge> pool_base p \<and> phys + len \<le> pool_base p + pool_size p"

definition host_of :: "phys_pool \<Rightarrow> u64 \<Rightarrow> u64" where
  "host_of p phys =
     (if pool_host p = 0 \<or> phys < pool_base p \<or> phys \<ge> pool_base p + pool_size p then 0
      else pool_host p + (phys - pool_base p))"

section \<open>Engine mappings\<close>

definition read_mr :: "'u uc_ops \<Rightarrow> 'u \<Rightarrow> u32 \<Rightarrow> u32 \<Rightarrow> u32" where
  "read_mr ops u utcb_base index =
     rd32 (snd (uc_mem_read ops u (ucast (utcb_base + UTCB_MR_BYTE_OFFSET + index * 4)) [0, 0, 0, 0])) 0"

definition write_mr :: "'u uc_ops \<Rightarrow> 'u \<Rightarrow> u32 \<Rightarrow> u32 \<Rightarrow> u32 \<Rightarrow> 'u" where
  "write_mr ops u utcb_base index val =
     snd (uc_mem_write ops u (ucast (utcb_base + UTCB_MR_BYTE_OFFSET + index * 4)) (le32_bytes val))"

text \<open>
  The page-aligned range of an fpage, clamped to the 32-bit space: base and size, or nothing when
  the base lies outside.
\<close>

definition map_range :: "u64 \<Rightarrow> u64 \<Rightarrow> (u64 \<times> u64) option" where
  "map_range va sz =
     (let base = va AND NOT (PAGE - 1);
          end = (va + sz + PAGE - 1) AND NOT (PAGE - 1)
      in if base \<ge> TOP32 then None
         else let end = (if end > TOP32 then TOP32 else end);
                  msize = end - base
              in Some (base, if msize < PAGE then PAGE else msize))"

definition map_one :: "'u uc_ops \<Rightarrow> 'u \<Rightarrow> map_item \<Rightarrow> uc_err \<times> 'u" where
  "map_one ops u it =
     (let f = mi_fpage it; va = fp_vaddr f; sz = size_bytes f
      in if is_nil f \<or> sz = 0 then (UC_ERR_OK, u)
         else if is_whole_space f then (UC_ERR_OK, u)
         else case map_range va sz of
           None \<Rightarrow> (UC_ERR_OK, u)
         | Some (base, msize) \<Rightarrow>
             let prot = fpage_to_uc_prot f;
                 revoke = (prot = 0);
                 (e, u) = uc_mem_map ops u base msize (if revoke then UC_PROT_READ else prot)
             in if e = UC_ERR_MAP \<or> e = UC_ERR_NOMEM then
                  let (ep, u) = uc_mem_protect ops u base msize (if revoke then UC_PROT_NONE else prot)
                  in (if ep = UC_ERR_OK then UC_ERR_OK else e, u)
                else if e = UC_ERR_OK \<and> revoke then
                  (e, snd (uc_mem_protect ops u base msize UC_PROT_NONE))
                else (e, u))"

definition map_one_aliased ::
    "'u uc_ops \<Rightarrow> 'u \<Rightarrow> map_item \<Rightarrow> phys_pool \<Rightarrow> lut option \<Rightarrow> uc_err \<times> 'u \<times> lut option" where
  "map_one_aliased ops u it pool lut =
     (let f = mi_fpage it; va = fp_vaddr f; sz = size_bytes f
      in if is_nil f \<or> sz = 0 then (UC_ERR_OK, u, lut)
         else if is_whole_space f then (UC_ERR_OK, u, lut)
         else case map_range va sz of
           None \<Rightarrow> (UC_ERR_OK, u, lut)
         | Some (base, msize) \<Rightarrow>
             let phys = phys_base (mi_phys it); hp = host_of pool phys
             in if hp = 0 \<or> \<not> pool_contains pool phys msize then (UC_ERR_ARG, u, lut)
                else
                  let prot = fpage_to_uc_prot f;
                      revoke = (prot = 0);
                      (e, u) = uc_mem_map_ptr ops u base msize (if revoke then UC_PROT_READ else prot) hp;
                      host_ptr_accepted = (e = UC_ERR_OK);
                      (e, u) = (if e = UC_ERR_MAP
                                then uc_mem_protect ops u base msize (if revoke then UC_PROT_NONE else prot)
                                else if e = UC_ERR_OK \<and> revoke
                                then (e, snd (uc_mem_protect ops u base msize UC_PROT_NONE))
                                else (e, u))
                  in (e, u, if e = UC_ERR_OK \<and> host_ptr_accepted
                            then map_option (lut_map base msize hp) lut else lut))"

text \<open>Revocation of the whole space: every 32-bit region the engine reports loses all access.\<close>

fun revoke_regions :: "'u uc_ops \<Rightarrow> (u64 \<times> u64 \<times> nat) list \<Rightarrow> 'u \<Rightarrow> 'u" where
  "revoke_regions ops [] u = u"
| "revoke_regions ops ((b, e, p) # rs) u =
     revoke_regions ops rs
       (if b > 0xffffffff then u else snd (uc_mem_protect ops u b (e - b + 1) UC_PROT_NONE))"

definition revoke_whole_space :: "'u uc_ops \<Rightarrow> 'u \<Rightarrow> u32 \<Rightarrow> uc_err \<times> 'u" where
  "revoke_whole_space ops u f =
     (if \<not> is_whole_space f then (UC_ERR_ARG, u)
      else if fp_rwx f \<noteq> 0 then (UC_ERR_OK, u)
      else
        let (e, rs) = uc_mem_regions ops u
        in if e \<noteq> UC_ERR_OK then (e, u) else (UC_ERR_OK, revoke_regions ops rs u))"

text \<open>
  One iteration of the dispatcher loop: item \<open>i\<close> is read from the message registers, echoed back, and
  applied. The boolean tells whether the item counts as mapped.
\<close>

definition map_control_item ::
    "'u uc_ops \<Rightarrow> u32 \<Rightarrow> u32 \<Rightarrow> phys_pool option \<Rightarrow> nat \<Rightarrow> 'u \<Rightarrow> lut option
       \<Rightarrow> map_item \<times> bool \<times> 'u \<times> lut option" where
  "map_control_item ops utcb_base control pool i u lut =
     (let mr_phys = read_mr ops u utcb_base (of_nat i * 2);
          mr_fpage = read_mr ops u utcb_base (of_nat i * 2 + 1);
          it = decode_item mr_phys mr_fpage;
          u = write_mr ops u utcb_base (of_nat i * 2) mr_phys;
          u = write_mr ops u utcb_base (of_nat i * 2 + 1) mr_fpage
      in if is_query control then (it, False, u, lut)
         else if is_nil mr_fpage then (it, False, u, lut)
         else if is_whole_space mr_fpage then
           (it, True, if fp_rwx mr_fpage = 0 then snd (revoke_whole_space ops u mr_fpage) else u, lut)
         else
           let (e, u, lut) =
             (case pool of
                Some p \<Rightarrow>
                  if pool_host p \<noteq> 0 \<and> phys_base mr_phys \<noteq> 0 then
                    let (e, u', lut') = map_one_aliased ops u it p lut
                    in if e = UC_ERR_ARG then let (e, u'') = map_one ops u' it in (e, u'', lut')
                       else (e, u', lut')
                  else let (e, u') = map_one ops u it in (e, u', lut)
              | None \<Rightarrow> let (e, u') = map_one ops u it in (e, u', lut))
           in (it, e = UC_ERR_OK, u, lut))"

fun map_control_loop ::
    "'u uc_ops \<Rightarrow> u32 \<Rightarrow> u32 \<Rightarrow> phys_pool option \<Rightarrow> nat \<Rightarrow> nat \<Rightarrow> map_item list \<Rightarrow> 'u \<Rightarrow> lut option
       \<Rightarrow> map_item list \<times> 'u \<times> lut option" where
  "map_control_loop ops utcb control pool i 0 items u lut = (items, u, lut)"
| "map_control_loop ops utcb control pool i (Suc left) items u lut =
     (let (it, _, u, lut) = map_control_item ops utcb control pool i u lut
      in map_control_loop ops utcb control pool (Suc i) left (items @ [it]) u lut)"

definition handle_map_control ::
    "'u uc_ops \<Rightarrow> 'u \<Rightarrow> u32 \<Rightarrow> u32 \<Rightarrow> phys_pool option \<Rightarrow> lut option
       \<Rightarrow> u32 \<times> map_item list \<times> 'u \<times> lut option" where
  "handle_map_control ops u utcb_base control pool lut =
     (let n = unat (mc_count control);
          n = (if n > IPC_NUM_MR div 2 then IPC_NUM_MR div 2 else n)
      in (1, map_control_loop ops utcb_base control pool 0 n [] u lut))"

text \<open>The overload with one table per space: the target space's table is created on demand.\<close>

type_synonym space_map = "(u32, lut) omap"

definition handle_map_control_spaces ::
    "'u uc_ops \<Rightarrow> 'u \<Rightarrow> u32 \<Rightarrow> u32 \<Rightarrow> u32 \<Rightarrow> phys_pool option \<Rightarrow> space_map option
       \<Rightarrow> u32 \<times> map_item list \<times> 'u \<times> space_map option" where
  "handle_map_control_spaces ops u utcb_base space_id control pool spaces =
     (case spaces of
        None \<Rightarrow> let (r, items, u, _) = handle_map_control ops u utcb_base control pool None
                in (r, items, u, None)
      | Some sm \<Rightarrow>
          let (r, items, u, l) = handle_map_control ops u utcb_base control pool
                                   (Some (om_at lut_init space_id sm))
          in (r, items, u, Some (om_put space_id (the l) sm)))"

section \<open>Translation\<close>

lemma unat_and_mask: "unat ((x::u64) AND mask k) = unat x mod 2 ^ k"
proof -
  have "unat (x AND mask k) = take_bit k (unat x)"
    by (simp flip: take_bit_eq_mask add: unsigned_take_bit_eq)
  then show ?thesis by (simp add: take_bit_eq_mod)
qed

lemma page_index_unat: "page_index va = unat va mod 2 ^ 32 div 4096"
proof -
  have m: "(0xffffffff::u64) = mask 32" by (simp add: mask_eq_exp_minus_1)
  show ?thesis
    unfolding page_index_def m unat_drop_bit_eq unat_and_mask by (simp add: drop_bit_eq_div)
qed

lemma page_offset_unat: "unat ((va::u64) AND 0xfff) = unat va mod 4096"
proof -
  have m: "(0xfff::u64) = mask 12" by (simp add: mask_eq_exp_minus_1)
  show ?thesis unfolding m by (simp add: unat_and_mask)
qed

lemma lut_fill_at:
  "lut_fill pages first i g l j =
     (if first + i \<le> j \<and> j < first + pages \<and> j < NUM_PAGES then g (j - first) else l j)"
proof (induction pages first i g l rule: lut_fill.induct)
  case (1 pages first i g l)
  show ?case
  proof (cases "i < pages \<and> first + i < NUM_PAGES")
    case True
    show ?thesis
      by (subst lut_fill.simps, subst if_P [OF True], subst 1 [OF True]) (use True in \<open>auto simp: le_Suc_eq\<close>)
  next
    case False
    then show ?thesis by (subst lut_fill.simps) auto
  qed
qed


lemma lut_map_at:
  "lut_map va sz host l j =
     (if page_index va \<le> j \<and> j < page_index va + page_span sz \<and> j < NUM_PAGES
      then host + push_bit 12 (of_nat (j - page_index va)) else l j)"
  by (simp add: lut_map_def lut_fill_at)

lemma lut_unmap_at:
  "lut_unmap va sz l j =
     (if page_index va \<le> j \<and> j < page_index va + page_span sz \<and> j < NUM_PAGES then 0 else l j)"
  by (simp add: lut_unmap_def lut_fill_at)

text \<open>The pages from an aligned base hold exactly the addresses up to the end of the last page.\<close>

definition in_pages :: "u64 \<Rightarrow> u64 \<Rightarrow> u64 \<Rightarrow> bool" where
  "in_pages va sz x \<longleftrightarrow> unat va \<le> unat x \<and> unat x < unat va + 4096 * page_span sz"

lemma page_hit:
  assumes "va AND 0xfff = 0" "unat va + 4096 * page_span sz \<le> 2 ^ 32" "unat x < 2 ^ 32"
    and "0 < page_span sz"
  shows "page_index va \<le> page_index x \<and> page_index x < page_index va + page_span sz \<and>
    page_index x < NUM_PAGES \<longleftrightarrow> in_pages va sz x"
proof -
  have "unat va mod 4096 = 0" using assms(1) by (metis page_offset_unat unsigned_0)
  then obtain q where q: "unat va = 4096 * q" by auto
  have i: "page_index va = q" "page_index x = unat x div 4096"
    using assms q by (simp_all add: page_index_unat)
  have "q \<le> unat x div 4096 \<longleftrightarrow> 4096 * q \<le> unat x" by (simp add: less_eq_div_iff_mult_less_eq mult.commute)
  moreover have "unat x div 4096 < q + page_span sz \<longleftrightarrow> unat x < 4096 * (q + page_span sz)"
    by (simp add: div_less_iff_less_mult mult.commute)
  moreover have "unat x div 4096 < NUM_PAGES" using assms(3) by (simp add: NUM_PAGES_def)
  ultimately show ?thesis by (simp add: i in_pages_def q algebra_simps)
qed

lemma page_host:
  assumes "va AND 0xfff = 0" "unat va < 2 ^ 32" "unat x < 2 ^ 32" "unat va \<le> unat x"
  shows "host + push_bit 12 (of_nat (page_index x - page_index va)) + (x AND 0xfff) = host + (x - va)"
proof -
  have "unat va mod 4096 = 0" using assms(1) by (metis page_offset_unat unsigned_0)
  then obtain q where q: "unat va = 4096 * q" by auto
  have i: "page_index va = q" "page_index x = unat x div 4096"
    using assms q by (simp_all add: page_index_unat)
  have split: "x AND 0xfff = of_nat (unat x mod 4096)"
    by (simp flip: page_offset_unat)
  have "x - va = of_nat (unat x - unat va)" using assms(4) by (simp add: of_nat_diff)
  also have "unat x - unat va = 4096 * (unat x div 4096 - q) + unat x mod 4096"
  proof -
    have "unat x = 4096 * (unat x div 4096) + unat x mod 4096" by simp
    moreover have "q \<le> unat x div 4096" using assms(4) q by (simp add: less_eq_div_iff_mult_less_eq)
    ultimately show ?thesis using q by (simp add: diff_mult_distrib2)
  qed
  finally have "x - va = 4096 * of_nat (unat x div 4096 - q) + of_nat (unat x mod 4096)"
    by (simp only: of_nat_add of_nat_mult of_nat_numeral)
  then show ?thesis by (simp add: i split push_bit_eq_mult)
qed


lemma translate_map_unmap:
  assumes "va AND 0xfff = 0" "unat va + 4096 * page_span sz \<le> 2 ^ 32" "0 < page_span sz"
    and "host \<noteq> 0" "unat host + 4096 * page_span sz \<le> 2 ^ 64" "unat x < 2 ^ 32"
  shows "lut_translate x (lut_map va sz host l) =
      (if in_pages va sz x then host + (x - va) else lut_translate x l) \<and>
    lut_translate x (lut_unmap va sz l) = (if in_pages va sz x then 0 else lut_translate x l)"
proof (cases "in_pages va sz x")
  case True
  let ?d = "page_index x - page_index va"
  have "unat va < 2 ^ 32" using assms(2,3) by linarith
  with True have h: "host + push_bit 12 (of_nat ?d) + (x AND 0xfff) = host + (x - va)"
    using assms by (intro page_host) (simp_all add: in_pages_def)
  note hit = page_hit [OF assms(1,2,6,3), THEN iffD2, OF True]
  have "host + push_bit 12 (of_nat ?d) \<noteq> 0"
  proof -
    have d: "4096 * ?d + 4096 \<le> 4096 * page_span sz" using hit by linarith
    then have "unat (push_bit 12 (of_nat ?d) :: u64) = 4096 * ?d"
      using assms(2) by (simp add: push_bit_eq_mult unat_word_ariths unat_of_nat)
    then have "unat (host + push_bit 12 (of_nat ?d)) = unat host + 4096 * ?d"
      using d assms(5) by (simp add: unat_word_ariths)
    then show ?thesis using assms(4) by (metis add_is_0 unat_eq_zero)
  qed
  then show ?thesis
    using True hit h by (simp add: lut_translate_def lut_map_at lut_unmap_at Let_def)
next
  case False
  then have "\<not> (page_index va \<le> page_index x \<and> page_index x < page_index va + page_span sz \<and>
      page_index x < NUM_PAGES)"
    using page_hit [OF assms(1,2,6,3)] by blast
  then show ?thesis using False by (auto simp: lut_translate_def lut_map_at lut_unmap_at Let_def)
qed

text \<open>
  The lookup table translates a mapped range linearly. After mapping page-aligned pages that
  fit the 32-bit space to a host block, every address inside them translates to the host byte at
  the same distance from the block's start, and every address outside translates as before; after
  unmapping them, no address inside translates and the others are unchanged.
\<close>

theorem lut_map_translates:
  assumes "va AND 0xfff = 0" "unat va + 4096 * page_span sz \<le> 2 ^ 32" "0 < page_span sz"
    and "host \<noteq> 0" "unat host + 4096 * page_span sz \<le> 2 ^ 64" "unat x < 2 ^ 32"
  shows "lut_translate x (lut_map va sz host l) =
      (if in_pages va sz x then host + (x - va) else lut_translate x l) \<and>
    lut_translate x (lut_unmap va sz l) = (if in_pages va sz x then 0 else lut_translate x l)"
  using assms by (rule translate_map_unmap)

theorem lut_map_translates_witness:
  "lut_translate 0xb0001234 (lut_map 0xb0000000 0x1800 0x7f0000000000 lut_init) = 0x7f0000001234"
proof -
  have "page_span 0x1800 = 2" by (simp add: page_span_def)
  then show ?thesis
    using lut_map_translates [of "0xb0000000" "0x1800" "0x7f0000000000" "0xb0001234" lut_init]
    by (simp add: in_pages_def)
qed

section \<open>Aliases\<close>

text \<open>A run of \<open>n\<close> addresses from \<open>va\<close> that the table takes to consecutive host bytes from \<open>h\<close>.\<close>

definition linear :: "lut \<Rightarrow> u64 \<Rightarrow> u64 \<Rightarrow> nat \<Rightarrow> bool" where
  "linear l va h n \<longleftrightarrow>
     (\<forall>i < n. lut_translate (va + of_nat i) l = h + of_nat i \<and> h + of_nat i \<noteq> 0)"

lemma linear_Suc:
  assumes "linear l va h (Suc n)"
  shows "lut_translate va l = h" "h \<noteq> 0" "linear l (va + 1) (h + 1) n"
proof -
  have a: "lut_translate (va + of_nat i) l = h + of_nat i \<and> h + of_nat i \<noteq> 0" if "i < Suc n" for i
    using assms that by (simp add: linear_def)
  show "lut_translate va l = h" "h \<noteq> 0" using a [of 0] by simp_all
  show "linear l (va + 1) (h + 1) n"
    unfolding linear_def using a [of "Suc i" for i] by (simp add: algebra_simps)
qed

fun host_store :: "u64 \<Rightarrow> u8 list \<Rightarrow> (u64 \<Rightarrow> u8) \<Rightarrow> u64 \<Rightarrow> u8" where
  "host_store h [] hm = hm"
| "host_store h (b # bs) hm = host_store (h + 1) bs (hm(h := b))"

lemma lut_write_linear:
  "linear l va h (length bs) \<Longrightarrow> lut_write l va bs hm = (True, host_store h bs hm)"
proof (induction bs arbitrary: va h hm)
  case (Cons b bs)
  then show ?case using linear_Suc [of l va h "length bs"] by (simp add: fun_upd_def)
qed simp

lemma lut_read_linear:
  "linear l va h n \<Longrightarrow> lut_read l hm va n = (True, map (\<lambda>i. hm (h + of_nat i)) [0..<n])"
proof (induction n arbitrary: va h)
  case (Suc n)
  have "map (\<lambda>i. hm (h + of_nat i)) [0..<Suc n] = hm h # map (\<lambda>i. hm (h + 1 + of_nat i)) [0..<n]"
    by (simp add: map_upt_Suc algebra_simps del: upt_Suc)
  then show ?case using linear_Suc [OF Suc.prems] Suc.IH by simp
qed simp

lemma host_store_other:
  "length bs < 2 ^ 64 \<Longrightarrow> (\<And>i. i < length bs \<Longrightarrow> p \<noteq> h + of_nat i) \<Longrightarrow> host_store h bs hm p = hm p"
proof (induction bs arbitrary: h hm)
  case (Cons b bs)
  have "p \<noteq> h" using Cons.prems(2) [of 0] by simp
  moreover have "p \<noteq> h + 1 + of_nat i" if "i < length bs" for i
    using Cons.prems(2) [of "Suc i"] that by (simp add: algebra_simps)
  ultimately show ?case using Cons by simp
qed simp

lemma host_store_at:
  "length bs < 2 ^ 64 \<Longrightarrow> i < length bs \<Longrightarrow> host_store h bs hm (h + of_nat i) = bs ! i"
proof (induction bs arbitrary: h hm i)
  case (Cons b bs)
  show ?case
  proof (cases i)
    case 0
    have "h \<noteq> h + 1 + of_nat j" if "j < length bs" for j
    proof -
      have "unat (of_nat (Suc j) :: u64) = Suc j" using that Cons.prems(1) by (simp add: unat_of_nat del: of_nat_Suc)
      then have "(of_nat (Suc j) :: u64) \<noteq> 0" by (metis nat.distinct(1) unsigned_0)
      then show ?thesis by (simp add: add.assoc)
    qed
    then show ?thesis using Cons.prems 0 by (simp add: host_store_other)
  next
    case (Suc j)
    then show ?thesis using Cons.IH [of j "h + 1" "hm(h := b)"] Cons.prems
      by (simp add: algebra_simps fun_upd_def)
  qed
qed simp

text \<open>Pages mapped at two places of the space are two linear windows on the same host block.\<close>

lemma linear_map:
  assumes "va AND 0xfff = 0" "unat va + 4096 * page_span sz \<le> 2 ^ 32" "0 < page_span sz"
    and "host \<noteq> 0" "unat host + 4096 * page_span sz \<le> 2 ^ 64"
    and "off + n \<le> 4096 * page_span sz"
  shows "linear (lut_map va sz host l) (va + of_nat off) (host + of_nat off) n"
  unfolding linear_def
proof (intro allI impI)
  fix i assume i: "i < n"
  let ?x = "va + of_nat off + of_nat i :: u64"
  have o: "unat (of_nat (off + i) :: u64) = off + i"
    using i assms(2,6) by (simp add: unat_of_nat del: of_nat_add)
  then have x: "unat ?x = unat va + (off + i)"
    using i assms(2,6) by (simp add: add.assoc unat_word_ariths flip: of_nat_add)
  then have in_p: "in_pages va sz ?x" using i assms(6) by (simp add: in_pages_def)
  have "unat ?x < 2 ^ 32" using x i assms(2,6) by linarith
  from translate_map_unmap [OF assms(1-5) this] in_p
  have "lut_translate ?x (lut_map va sz host l) = host + (?x - va)" by simp
  moreover have "unat (host + of_nat (off + i)) = unat host + (off + i)"
    using i assms(5,6) o by (simp add: unat_word_ariths)
  then have "host + of_nat (off + i) \<noteq> 0" using assms(4) by (metis add_is_0 unat_eq_zero)
  ultimately show "lut_translate ?x (lut_map va sz host l) = host + of_nat off + of_nat i \<and>
      host + of_nat off + of_nat i \<noteq> 0"
    by (simp add: add.assoc)
qed


text \<open>
  C31: physical aliases are coherent. When the same host block is mapped at two page ranges of the
  space that do not overlap, bytes written through one range are read back through the other, at
  the same offset, and the write and the read both succeed.
\<close>

theorem alias_coherent:
  assumes "va1 AND 0xfff = 0" "unat va1 + 4096 * page_span sz \<le> 2 ^ 32"
    and "va2 AND 0xfff = 0" "unat va2 + 4096 * page_span sz \<le> 2 ^ 32" "0 < page_span sz"
    and "host \<noteq> 0" "unat host + 4096 * page_span sz \<le> 2 ^ 64"
    and "unat va1 + 4096 * page_span sz \<le> unat va2 \<or> unat va2 + 4096 * page_span sz \<le> unat va1"
    and "off + length bs \<le> 4096 * page_span sz"
  shows "let l = lut_map va2 sz host (lut_map va1 sz host l0) in
    \<exists>hm'. lut_write l (va1 + of_nat off) bs hm = (True, hm') \<and>
      lut_read l hm' (va2 + of_nat off) (length bs) = (True, bs)"
proof -
  let ?l1 = "lut_map va1 sz host l0" and ?n = "length bs"
  let ?l = "lut_map va2 sz host ?l1"
  have "linear ?l (va1 + of_nat off) (host + of_nat off) ?n"
    unfolding linear_def
  proof (intro allI impI)
    fix i assume i: "i < ?n"
    let ?x = "va1 + of_nat off + of_nat i :: u64"
    have "unat (of_nat (off + i) :: u64) = off + i"
      using i assms(2,9) by (simp add: unat_of_nat del: of_nat_add)
    then have x: "unat ?x = unat va1 + (off + i)"
      using i assms(2,9) by (simp add: add.assoc unat_word_ariths flip: of_nat_add)
    then have "unat ?x < 2 ^ 32" "\<not> in_pages va2 sz ?x"
      using i assms(2,8,9) by (auto simp: in_pages_def)
    then have "lut_translate ?x ?l = lut_translate ?x ?l1"
      using translate_map_unmap [OF assms(3,4,5,6,7)] by simp
    then show "lut_translate ?x ?l = host + of_nat off + of_nat i \<and> host + of_nat off + of_nat i \<noteq> 0"
      using linear_map [OF assms(1,2,5,6,7,9), of l0] i by (simp add: linear_def)
  qed
  then have w: "lut_write ?l (va1 + of_nat off) bs hm = (True, host_store (host + of_nat off) bs hm)"
    by (rule lut_write_linear)
  have "?n < 2 ^ 64" using assms(2,9) by simp
  then have "map (\<lambda>i. host_store (host + of_nat off) bs hm (host + of_nat off + of_nat i)) [0..<?n] = bs"
    by (intro nth_equalityI) (simp_all add: host_store_at)
  then have "lut_read ?l (host_store (host + of_nat off) bs hm) (va2 + of_nat off) ?n = (True, bs)"
    using lut_read_linear [OF linear_map [OF assms(3,4,5,6,7,9), of ?l1]] by simp
  with w show ?thesis by (auto simp: Let_def)
qed

theorem alias_coherent_witness:
  "let l = lut_map 0xb0000000 0x2000 0x7f0000000000 (lut_map 0x80000000 0x2000 0x7f0000000000 lut_init)
   in \<exists>hm'. lut_write l 0x80000ffe [1, 2, 3, 4] (\<lambda>_. 0) = (True, hm') \<and>
     lut_read l hm' 0xb0000ffe (length [1, 2, 3, 4 :: u8]) = (True, [1, 2, 3, 4])"
proof -
  have "page_span 0x2000 = 2" by (simp add: page_span_def)
  then show ?thesis
    using alias_coherent [of "0x80000000" "0x2000" "0xb0000000" "0x7f0000000000" "0xffe" "[1, 2, 3, 4]"
      lut_init "\<lambda>_. 0"] by (simp del: lut_write.simps lut_read.simps)
qed


section \<open>Access rights\<close>

text \<open>
  What Unicorn documents of its mapping calls on 4 KiB pages, over a view \<open>pm\<close> of the engine's pages
  and their protection: \<open>uc_mem_map\<close> maps a page-aligned range none of whose pages is mapped and
  otherwise fails with a mapping error; \<open>uc_mem_protect\<close> changes the protection of a range all of
  whose pages are mapped and otherwise fails; a failing call changes nothing.
\<close>

definition pages_of :: "u64 \<Rightarrow> u64 \<Rightarrow> nat set" where
  "pages_of base sz = {unat base div 4096 ..< (unat base + unat sz) div 4096}"

definition set_pages :: "nat set \<Rightarrow> nat option \<Rightarrow> (nat \<Rightarrow> nat option) \<Rightarrow> nat \<Rightarrow> nat option" where
  "set_pages P v pm = (\<lambda>p. if p \<in> P then v else pm p)"

definition uc_map_ok :: "'u uc_ops \<Rightarrow> ('u \<Rightarrow> nat \<Rightarrow> nat option) \<Rightarrow> bool" where
  "uc_map_ok ops pm \<longleftrightarrow>
     (\<forall>u b s p. b AND 0xfff = 0 \<and> s AND 0xfff = 0 \<and> s \<noteq> 0 \<and> unat b + unat s \<le> 2 ^ 32 \<longrightarrow>
        (let (e, u') = uc_mem_map ops u b s p in
           if \<forall>q \<in> pages_of b s. pm u q = None
           then e = UC_ERR_OK \<and> pm u' = set_pages (pages_of b s) (Some p) (pm u)
           else e = UC_ERR_MAP \<and> pm u' = pm u) \<and>
        (let (e, u') = uc_mem_protect ops u b s p in
           if \<forall>q \<in> pages_of b s. pm u q \<noteq> None
           then e = UC_ERR_OK \<and> pm u' = set_pages (pages_of b s) (Some p) (pm u)
           else e = UC_ERR_NOMEM \<and> pm u' = pm u))"

lemma uc_map_cases:
  assumes "uc_map_ok ops pm" "b AND 0xfff = 0" "s AND 0xfff = 0" "s \<noteq> 0" "unat b + unat s \<le> 2 ^ 32"
  obtains u' where "\<forall>q \<in> pages_of b s. pm u q = None" "uc_mem_map ops u b s p = (UC_ERR_OK, u')"
      "pm u' = set_pages (pages_of b s) (Some p) (pm u)"
  | u' where "\<not> (\<forall>q \<in> pages_of b s. pm u q = None)" "uc_mem_map ops u b s p = (UC_ERR_MAP, u')" "pm u' = pm u"
proof (cases "uc_mem_map ops u b s p")
  case (Pair e u')
  then have "if \<forall>q \<in> pages_of b s. pm u q = None
      then e = UC_ERR_OK \<and> pm u' = set_pages (pages_of b s) (Some p) (pm u)
      else e = UC_ERR_MAP \<and> pm u' = pm u"
    using assms(1) [unfolded uc_map_ok_def, THEN spec [of _ u], THEN spec [of _ b],
        THEN spec [of _ s], THEN spec [of _ p]] assms(2-5) by (simp split: if_splits)
  with Pair that show thesis by (auto split: if_splits)
qed

lemma uc_protect_cases:
  assumes "uc_map_ok ops pm" "b AND 0xfff = 0" "s AND 0xfff = 0" "s \<noteq> 0" "unat b + unat s \<le> 2 ^ 32"
  obtains u' where "\<forall>q \<in> pages_of b s. pm u q \<noteq> None" "uc_mem_protect ops u b s p = (UC_ERR_OK, u')"
      "pm u' = set_pages (pages_of b s) (Some p) (pm u)"
  | u' where "\<not> (\<forall>q \<in> pages_of b s. pm u q \<noteq> None)" "uc_mem_protect ops u b s p = (UC_ERR_NOMEM, u')" "pm u' = pm u"
proof (cases "uc_mem_protect ops u b s p")
  case (Pair e u')
  then have "if \<forall>q \<in> pages_of b s. pm u q \<noteq> None
      then e = UC_ERR_OK \<and> pm u' = set_pages (pages_of b s) (Some p) (pm u)
      else e = UC_ERR_NOMEM \<and> pm u' = pm u"
    using assms(1) [unfolded uc_map_ok_def, THEN spec [of _ u], THEN spec [of _ b],
        THEN spec [of _ s], THEN spec [of _ p]] assms(2-5) by (simp split: if_splits)
  with Pair that show thesis by (auto split: if_splits)
qed


lemma and_not_page: "unat ((x::u64) AND NOT (PAGE - 1)) = unat x div 4096 * 4096"
proof -
  have m: "PAGE - 1 = mask 12" by (simp add: PAGE_def mask_eq_exp_minus_1)
  show ?thesis unfolding m unat_clear_low by simp
qed

lemma page_aligned_iff: "(x::u64) AND 0xfff = 0 \<longleftrightarrow> 4096 dvd unat x"
  by (metis page_offset_unat dvd_eq_mod_eq_0 unat_eq_zero)

lemma map_range_ok:
  assumes "map_range va sz = Some (b, s)" "unat va + unat sz \<le> 2 ^ 63"
  shows "unat b = unat va div 4096 * 4096" "4096 dvd unat s" "s \<noteq> 0" "unat b + unat s \<le> 2 ^ 32"
    "unat b + unat s = max (unat b + 4096) (min (2 ^ 32) ((unat va + unat sz + 4095) div 4096 * 4096))"
proof -
  let ?e = "(va + sz + PAGE - 1) AND NOT (PAGE - 1)"
  let ?E = "(unat va + unat sz + 4095) div 4096 * 4096"
  have b: "b = va AND NOT (PAGE - 1)" and bt: "b < TOP32"
    and s: "s = (let m = (if ?e > TOP32 then TOP32 else ?e) - b in if m < PAGE then PAGE else m)"
    using assms(1) by (auto simp: map_range_def Let_def split: if_splits)
  show ub: "unat b = unat va div 4096 * 4096" by (simp add: b and_not_page)
  have ue: "unat ?e = ?E"
  proof -
    have e: "va + sz + PAGE - 1 = va + sz + 0xfff" by (simp add: PAGE_def algebra_simps)
    have w: "unat (va + sz) = unat va + unat sz" using assms(2) by (simp add: unat_word_ariths)
    have "unat (va + sz) + unat (0xfff::u64) < 2 ^ LENGTH(64)" using assms(2) by (simp add: w)
    then have "unat (va + sz + 0xfff) = unat (va + sz) + unat (0xfff::u64)"
      by (rule unat_add_lem [THEN iffD1])
    then have "unat (va + sz + 0xfff) = unat va + unat sz + 4095"
      unfolding w by simp
    then show ?thesis by (simp only: e and_not_page)
  qed
  have b32: "unat b < 2 ^ 32" using bt by (simp add: TOP32_def word_less_nat_alt)
  have b4: "unat b + 4096 \<le> 2 ^ 32" 
  proof -
    have "unat va div 4096 < 2 ^ 20" using b32 unfolding ub by simp
    then show ?thesis unfolding ub by simp
  qed
  have be: "unat b \<le> ?E" using ub by (simp add: div_le_mono)
  let ?m = "min (2 ^ 32) ?E - unat b"
  have um: "unat ((if ?e > TOP32 then TOP32 else ?e) - b) = ?m"
    using ue be b32 by (auto simp: TOP32_def word_less_nat_alt unat_sub_if' min_def)
  have us: "unat s = (if ?m < 4096 then 4096 else ?m)"
    using um by (simp add: s Let_def word_less_nat_alt PAGE_def)
  show "4096 dvd unat s" unfolding us using ub by (auto simp: min_def intro!: dvd_diff_nat)
  show "s \<noteq> 0" using us by (auto split: if_splits)
  show "unat b + unat s \<le> 2 ^ 32" unfolding us using b4 be b32 by auto
  show "unat b + unat s = max (unat b + 4096) (min (2 ^ 32) ?E)"
    unfolding us using b32 be by (auto simp: min_def)
qed


text \<open>The pages of an fpage, clipped to the 32-bit space.\<close>

definition fpage_pages :: "u32 \<Rightarrow> nat set" where
  "fpage_pages f = {unat (fp_vaddr f) div 4096 ..<
     min (2 ^ 20) ((unat (fp_vaddr f) + unat (size_bytes f) + 4095) div 4096)}"

lemma fp_vaddr_less: "unat (fp_vaddr f) < 2 ^ 32"
  using unat_less_u32 [of "f AND NOT 0x3ff"]
  by (simp add: fp_vaddr_def unsigned_ucast_eq take_bit_nat_eq_self)

lemma size_bytes_range: "0 < unat (size_bytes f)" "unat (size_bytes f) \<le> 2 ^ 32"
proof -
  have e: "unat (push_bit k 1 :: u64) = 2 ^ k" if "k \<le> 32" for k
  proof -
    have "(2::nat) ^ k < 2 ^ 64" using that by (intro power_strict_increasing) auto
    then have "unat (of_nat (2 ^ k) :: u64) = 2 ^ k" by (subst unat_of_nat) simp
    then show ?thesis by (simp add: push_bit_eq_mult)
  qed
  have "unat (size_log2 f) \<le> 31 \<or> size_log2 f \<ge> 32" by unat_arith
  then have "\<exists>k \<le> 32. size_bytes f = push_bit k 1"
    by (auto simp: size_bytes_def Let_def intro: exI [of _ 32] exI [of _ "unat (size_log2 f)"])
  then obtain k where "k \<le> 32" "unat (size_bytes f) = 2 ^ k" using e by auto
  then show "0 < unat (size_bytes f)" "unat (size_bytes f) \<le> 2 ^ 32"
    using power_increasing [of k 32 "2::nat"] by simp_all
qed

lemma map_range_fpage:
  obtains b s where "map_range (fp_vaddr f) (size_bytes f) = Some (b, s)"
    "b AND 0xfff = 0" "s AND 0xfff = 0" "s \<noteq> 0" "unat b + unat s \<le> 2 ^ 32" "pages_of b s = fpage_pages f"
proof -
  let ?va = "fp_vaddr f" and ?sz = "size_bytes f"
  have le: "unat ?va + unat ?sz \<le> 2 ^ 63" using fp_vaddr_less [of f] size_bytes_range [of f] by simp
  have "unat (?va AND NOT (PAGE - 1)) < unat TOP32"
    unfolding and_not_page using fp_vaddr_less [of f] div_times_less_eq_dividend [of "unat ?va" 4096]
    by (simp add: TOP32_def)
  then obtain b s where r: "map_range ?va ?sz = Some (b, s)"
    by (auto simp: map_range_def Let_def word_less_nat_alt not_le word_le_nat_alt)
  note ok = map_range_ok [OF r le]
  let ?q = "unat ?va div 4096" and ?E = "(unat ?va + unat ?sz + 4095) div 4096"
  have q: "?q < 2 ^ 20" using fp_vaddr_less [of f] by simp
  have "?q + 1 \<le> ?E"
  proof -
    have "(unat ?va + 4096) div 4096 \<le> ?E" using size_bytes_range(1) [of f] by (intro div_le_mono) simp
    then show ?thesis by simp
  qed
  then have "unat b + unat s = min (2 ^ 20) ?E * 4096"
    using ok(5) q unfolding ok(1) by (auto simp: min_def max_def)
  then have "pages_of b s = fpage_pages f" by (simp add: pages_of_def fpage_pages_def ok(1))
  moreover have "b AND 0xfff = 0" "s AND 0xfff = 0" using ok(1,2) by (simp_all add: page_aligned_iff)
  ultimately show thesis using that r ok(3,4) by blast
qed

lemma set_pages_twice [simp]: "set_pages P v (set_pages P w pm) = set_pages P v pm"
  by (auto simp: set_pages_def)


text \<open>
  MapControl gives the pages of an fpage exactly the requested rights. If all of its pages are
  unmapped or all are mapped, \<open>map_one\<close> succeeds and every page of the fpage ends with exactly the
  read, write and execute rights of the fpage (none at all for a revocation, even though the engine
  is asked for a readable mapping first), and no other page changes; if only some are mapped, it
  reports the mapping error and changes nothing.
\<close>

theorem map_one_rights:
  assumes "uc_map_ok ops pm" "\<not> is_nil f" "\<not> is_whole_space f"
  shows "let (e, u') = map_one ops u (decode_item ph f); P = fpage_pages f in
    if (\<forall>q \<in> P. pm u q = None) \<or> (\<forall>q \<in> P. pm u q \<noteq> None)
    then e = UC_ERR_OK \<and> pm u' = set_pages P (Some (fpage_to_uc_prot f)) (pm u)
    else e = UC_ERR_MAP \<and> pm u' = pm u"
proof -
  obtain b s where r: "map_range (fp_vaddr f) (size_bytes f) = Some (b, s)"
    and law: "b AND 0xfff = 0" "s AND 0xfff = 0" "s \<noteq> 0" "unat b + unat s \<le> 2 ^ 32"
    and P: "pages_of b s = fpage_pages f" by (rule map_range_fpage)
  let ?P = "fpage_pages f" and ?p = "fpage_to_uc_prot f"
  let ?q = "if ?p = 0 then UC_PROT_READ else ?p"
  have sz: "size_bytes f \<noteq> 0" using size_bytes_range(1) [of f] by auto
  note [simp] = P r sz assms(2,3) decode_item_def map_one_def Let_def UC_PROT_NONE_def
  note cases_map = uc_map_cases [OF assms(1) law, of u ?q]
  note cases_prot = uc_protect_cases [OF assms(1) law]
  show ?thesis
  proof (rule cases_map)
    fix v assume m: "\<forall>q \<in> pages_of b s. pm u q = None" "uc_mem_map ops u b s ?q = (UC_ERR_OK, v)"
      "pm v = set_pages (pages_of b s) (Some ?q) (pm u)"
    show ?thesis
      by (rule cases_prot [of v 0]) (use m in \<open>auto simp: set_pages_def split: if_splits\<close>)
  next
    fix v assume m: "\<not> (\<forall>q \<in> pages_of b s. pm u q = None)" "uc_mem_map ops u b s ?q = (UC_ERR_MAP, v)"
      "pm v = pm u"
    show ?thesis
      by (rule cases_prot [of v ?p]) (use m in \<open>auto simp: set_pages_def split: if_splits\<close>)
  qed
qed


text \<open>A table of pages that satisfies the mapping laws.\<close>

definition page_ops :: "(nat \<Rightarrow> nat option) uc_ops" where
  "page_ops = \<lparr>uc_reg_read = (\<lambda>u r. 0), uc_reg_write = (\<lambda>u r v. u),
     uc_mem_read = (\<lambda>u a b. (UC_ERR_OTHER, b)), uc_mem_write = (\<lambda>u a b. (UC_ERR_OTHER, u)),
     uc_mem_map = (\<lambda>u b s p. if \<forall>q \<in> pages_of b s. u q = None
        then (UC_ERR_OK, set_pages (pages_of b s) (Some p) u) else (UC_ERR_MAP, u)),
     uc_mem_map_ptr = (\<lambda>u b s p h. if \<forall>q \<in> pages_of b s. u q = None
        then (UC_ERR_OK, set_pages (pages_of b s) (Some p) u) else (UC_ERR_MAP, u)),
     uc_mem_protect = (\<lambda>u b s p. if \<forall>q \<in> pages_of b s. u q \<noteq> None
        then (UC_ERR_OK, set_pages (pages_of b s) (Some p) u) else (UC_ERR_NOMEM, u)),
     uc_mem_unmap = (\<lambda>u b s. if \<forall>q \<in> pages_of b s. u q \<noteq> None
        then (UC_ERR_OK, set_pages (pages_of b s) None u) else (UC_ERR_NOMEM, u)),
     uc_mem_regions = (\<lambda>u. (UC_ERR_OK, []))\<rparr>"

lemma page_ops_ok: "uc_map_ok page_ops (\<lambda>u. u)"
  by (auto simp: uc_map_ok_def page_ops_def)

text \<open>A revocation of one page: the page stays mapped with no rights.\<close>

theorem map_one_rights_witness:
  "snd (map_one page_ops (\<lambda>q. if q = 0xb0000 then Some 7 else None) (decode_item 0 0xb00000c0)) 0xb0000
     = Some 0"
proof -
  have f: "\<not> is_nil 0xb00000c0" "\<not> is_whole_space 0xb00000c0" "fpage_to_uc_prot 0xb00000c0 = 0"
    "fp_vaddr 0xb00000c0 = 0xb0000000" "size_bytes 0xb00000c0 = 0x1000"
    by code_simp+
  have "fpage_pages 0xb00000c0 = {0xb0000}" by (auto simp: fpage_pages_def f)
  then show ?thesis
    using map_one_rights [OF page_ops_ok f(1,2), of "\<lambda>q. if q = 0xb0000 then Some 7 else None" 0]
    by (simp add: f Let_def set_pages_def split: prod.splits)
qed

section \<open>The dispatcher\<close>

lemma map_control_loop_shape:
  "let (items', u', lut') = map_control_loop ops utcb control pool i n items u lut in
     length items' = length items + n \<and> (is_query control \<longrightarrow> lut' = lut)"
proof (induction n arbitrary: i items u lut)
  case (Suc n)
  obtain it b u2 lut2 where item: "map_control_item ops utcb control pool i u lut = (it, b, u2, lut2)"
    by (cases "map_control_item ops utcb control pool i u lut")
  have "lut2 = lut" if "is_query control"
    using item that by (auto simp: map_control_item_def Let_def)
  with Suc [of "Suc i" "items @ [it]" u2 lut2] item show ?case by (auto simp: Let_def)
qed simp

lemma mc_count_unat: "unat (mc_count control) = unat (highest_item control) + 1"
proof -
  have "unat (highest_item control) \<le> unat (0x3f::u32)"
    unfolding highest_item_def by (intro word_le_nat_alt [THEN iffD1] word_and_le1)
  then show ?thesis by (simp add: mc_count_def unat_word_ariths)
qed

text \<open>
  MapControl reports every descriptor it was given, up to the sixteen the message registers can
  hold: the result is 1, the number of decoded items is the smaller of the control word's count and
  16, and a call in query mode leaves the lookup table as it was.
\<close>

theorem map_control_items:
  "let (r, items, u', lut') = handle_map_control ops u utcb control pool lut in
     r = 1 \<and> length items = min (unat (control AND 0x3f) + 1) 16 \<and>
     (is_query control \<longrightarrow> lut' = lut)"
  using map_control_loop_shape [of ops utcb control pool 0 "min (unat (control AND 0x3f) + 1) 16" "[]" u lut]
  by (simp add: handle_map_control_def Let_def mc_count_unat highest_item_def IPC_NUM_MR_def min_def
      split: prod.splits if_splits)

theorem map_control_items_witness:
  "let (r, items, u', lut') = handle_map_control page_ops (\<lambda>_. None) 0x1000 0x40000002 None (Some lut_init)
   in length items = 3 \<and> lut' = Some lut_init"
proof -
  have "is_query 0x40000002" by code_simp
  moreover have "(0x40000002::u32) AND 0x3f = 2" by simp
  ultimately show ?thesis
    using map_control_items [of page_ops "\<lambda>_. None" "0x1000" "0x40000002" None "Some lut_init"]
    by (simp split: prod.splits)
qed

text \<open>
  The lookup table and the engine agree on the backing. Whatever the pool, the item and the
  previous table, mapping an item with an alias changes the table only when the engine accepted
  the host pointer itself, and then the table gets exactly the pages and the host pointer the engine
  got; re-protecting pages that already had another backing leaves the table alone.
\<close>

theorem alias_table_follows_engine:
  "let (e, u', lut') = map_one_aliased ops u it pool (Some l) in
     lut' = Some l \<or>
     (\<exists>b s prot. map_range (fp_vaddr (mi_fpage it)) (size_bytes (mi_fpage it)) = Some (b, s) \<and>
        fst (uc_mem_map_ptr ops u b s prot (host_of pool (phys_base (mi_phys it)))) = UC_ERR_OK \<and>
        pool_contains pool (phys_base (mi_phys it)) s \<and>
        lut' = Some (lut_map b s (host_of pool (phys_base (mi_phys it))) l))"
  by (auto simp: map_one_aliased_def Let_def split: option.splits prod.splits if_splits)
     (metis fst_conv)+

end
