(* ===== verification/Space_Manager.thy ===== *)
theory Space_Manager
  imports L4_Mmu Machine_Runs
begin

text \<open>
  \<open>SpaceManager\<close> of \<open>tools/cpp/zeebo_l4_mmu.h\<close>: the regions each address space has mapped, the
  base/extension links between spaces, the lookup through a chain of bases, and the switch of the
  engine's real mappings between scheduler slices. \<open>activate\<close> is the whole method but for its
  diagnostic trace.
\<close>

record region =
  r_va :: u64
  r_size :: u64
  r_prot :: nat
  r_host :: u64

record space_mgr =
  sm_spaces :: "(u32, region list) omap"
  sm_base_of :: "(u32, u32) omap"
  mapped_host :: "(u64, u64) omap"
  shadowed :: "(u64, region) omap"
  has_pending_activate :: bool
  pending_sid :: u32
  active_sid :: u32
  activated_once :: bool

definition sm_init :: space_mgr where
  "sm_init = \<lparr>sm_spaces = [], sm_base_of = [], mapped_host = [], shadowed = [],
     has_pending_activate = False, pending_sid = 0, active_sid = 0, activated_once = False\<rparr>"

text \<open>The search-and-replace loop of \<open>record\<close>: the first region at the same base is replaced.\<close>

fun put_region :: "region \<Rightarrow> region list \<Rightarrow> region list" where
  "put_region r [] = [r]"
| "put_region r (q # qs) =
     (if r_va q = r_va r then q\<lparr>r_size := r_size r, r_prot := r_prot r, r_host := r_host r\<rparr> # qs
      else q # put_region r qs)"

definition record_region :: "u32 \<Rightarrow> u64 \<Rightarrow> u64 \<Rightarrow> nat \<Rightarrow> u64 \<Rightarrow> space_mgr \<Rightarrow> space_mgr" where
  "record_region sid va sz prot host m =
     (case map_range va sz of
        None \<Rightarrow> m
      | Some (base, msize) \<Rightarrow>
          m\<lparr>sm_spaces := om_put sid
              (put_region \<lparr>r_va = base, r_size = msize, r_prot = prot, r_host = host\<rparr>
                 (om_at [] sid (sm_spaces m))) (sm_spaces m)\<rparr>)"

definition has_space :: "u32 \<Rightarrow> space_mgr \<Rightarrow> bool" where
  "has_space sid m \<longleftrightarrow> map_of (sm_spaces m) sid \<noteq> None"

definition regions_of :: "u32 \<Rightarrow> space_mgr \<Rightarrow> region list option" where
  "regions_of sid m = map_of (sm_spaces m) sid"

definition link_base :: "u32 \<Rightarrow> u32 \<Rightarrow> space_mgr \<Rightarrow> space_mgr" where
  "link_base ext base m =
     (if ext = 0 \<or> ext = base then m
      else if base = 0 then m\<lparr>sm_base_of := om_erase ext (sm_base_of m)\<rparr>
      else m\<lparr>sm_base_of := om_put ext base (sm_base_of m)\<rparr>)"

definition base_of :: "u32 \<Rightarrow> space_mgr \<Rightarrow> u32" where
  "base_of sid m = (case map_of (sm_base_of m) sid of Some b \<Rightarrow> b | None \<Rightarrow> 0)"

definition covers :: "u64 \<Rightarrow> region \<Rightarrow> bool" where
  "covers base_va r \<longleftrightarrow> base_va \<ge> r_va r \<and> base_va < r_va r + r_size r"

text \<open>
  The loop shared by \<open>resolve_host\<close> and \<open>maps\<close>: the first region, along the chain of bases and over at
  most \<open>hops\<close> spaces, that covers the page.
\<close>

fun resolve_from :: "nat \<Rightarrow> u32 \<Rightarrow> u64 \<Rightarrow> space_mgr \<Rightarrow> region option" where
  "resolve_from 0 cur base_va m = None"
| "resolve_from (Suc hops) cur base_va m =
     (if cur = 0 then None
      else case List.find (covers base_va) (om_at [] cur (sm_spaces m)) of
        Some r \<Rightarrow> Some r
      | None \<Rightarrow>
          let nxt = base_of cur m
          in if nxt = cur then None else resolve_from hops nxt base_va m)"

definition resolve_host :: "u32 \<Rightarrow> u64 \<Rightarrow> space_mgr \<Rightarrow> u64" where
  "resolve_host sid va m =
     (case resolve_from 8 sid (va AND NOT (PAGE - 1)) m of Some r \<Rightarrow> r_host r | None \<Rightarrow> 0)"

definition sm_maps :: "u32 \<Rightarrow> u64 \<Rightarrow> space_mgr \<Rightarrow> bool" where
  "sm_maps sid va m \<longleftrightarrow> resolve_from 8 sid (va AND NOT (PAGE - 1)) m \<noteq> None"

fun add_missing :: "region list \<Rightarrow> region list \<Rightarrow> region list" where
  "add_missing eff [] = eff"
| "add_missing eff (br # brs) =
     add_missing (if \<exists>r \<in> set eff. r_va r = r_va br then eff else eff @ [br]) brs"

fun gather :: "nat \<Rightarrow> u32 \<Rightarrow> space_mgr \<Rightarrow> region list \<Rightarrow> region list" where
  "gather 0 cur m eff = eff"
| "gather (Suc hops) cur m eff =
     (if cur = 0 then eff
      else
        let eff = add_missing eff (om_at [] cur (sm_spaces m));
            nxt = base_of cur m
        in if nxt = cur then eff else gather hops nxt m eff)"

definition effective_regions :: "u32 \<Rightarrow> space_mgr \<Rightarrow> region list" where
  "effective_regions sid m = gather 8 (base_of sid m) m (om_at [] sid (sm_spaces m))"

section \<open>Switching the engine\<close>

definition usable_prot :: "region \<Rightarrow> nat" where
  "usable_prot r = (if r_prot r \<noteq> 0 then r_prot r else UC_PROT_READ)"

definition record_shadow :: "'u uc_ops \<Rightarrow> u64 \<Rightarrow> u64 \<Rightarrow> nat \<Rightarrow> 'u \<Rightarrow> space_mgr \<Rightarrow> space_mgr" where
  "record_shadow ops va sz prot u m =
     (if map_of (shadowed m) va \<noteq> None then m
      else
        let (e, rs) = uc_mem_regions ops u;
            found_prot =
              (if e = UC_ERR_OK
               then case List.find (\<lambda>(b, en, p). va \<ge> b \<and> va \<le> en) rs of
                      Some (b, en, p) \<Rightarrow> p | None \<Rightarrow> prot
               else prot)
        in m\<lparr>shadowed := om_put va \<lparr>r_va = va, r_size = sz, r_prot = found_prot, r_host = 0\<rparr>
              (shadowed m)\<rparr>)"

definition restore_shadow :: "'u uc_ops \<Rightarrow> u64 \<Rightarrow> 'u \<times> space_mgr \<Rightarrow> 'u \<times> space_mgr" where
  "restore_shadow ops va um =
     (let (u, m) = um
      in case map_of (shadowed m) va of
           None \<Rightarrow> (u, m)
         | Some s \<Rightarrow>
             let (_, u) = uc_mem_map ops u (r_va s) (r_size s) (usable_prot s)
             in (u, m\<lparr>shadowed := om_erase va (shadowed m)\<rparr>))"

text \<open>The first pass of \<open>activate\<close>: leave the active space.\<close>

definition kept :: "region list \<Rightarrow> region \<Rightarrow> bool" where
  "kept eff pr \<longleftrightarrow> (\<exists>tr \<in> set eff. r_va tr = r_va pr \<and> r_size tr = r_size pr \<and> r_host tr = r_host pr)"

definition leave_region :: "'u uc_ops \<Rightarrow> region list \<Rightarrow> region \<Rightarrow> 'u \<times> space_mgr \<Rightarrow> 'u \<times> space_mgr" where
  "leave_region ops eff pr um =
     (let (u, m) = um
      in if kept eff pr then (u, m)
         else
           let (_, u) = uc_mem_unmap ops u (r_va pr) (r_size pr);
               m = m\<lparr>mapped_host := om_erase (r_va pr) (mapped_host m)\<rparr>
           in restore_shadow ops (r_va pr) (u, m))"

text \<open>The second pass: enter the target space.\<close>

definition rebind_region ::
    "'u uc_ops \<Rightarrow> region \<Rightarrow> nat \<Rightarrow> 'u \<times> space_mgr \<Rightarrow> uc_err \<times> 'u \<times> space_mgr" where
  "rebind_region ops tr prot um =
     (let (u, m) = um;
          m = (if map_of (mapped_host m) (r_va tr) = None
               then record_shadow ops (r_va tr) (r_size tr) prot u m else m);
          (ue, u) = uc_mem_unmap ops u (r_va tr) (r_size tr);
          (e, u) = (if ue = UC_ERR_OK then uc_mem_map_ptr ops u (r_va tr) (r_size tr) prot (r_host tr)
                    else (UC_ERR_MAP, u));
          (e, u) = (if e \<noteq> UC_ERR_OK then uc_mem_protect ops u (r_va tr) (r_size tr) prot else (e, u))
      in (e, u, m))"

definition bind_region ::
    "'u uc_ops \<Rightarrow> region \<Rightarrow> nat \<Rightarrow> 'u \<times> space_mgr \<Rightarrow> uc_err \<times> 'u \<times> space_mgr" where
  "bind_region ops tr prot um =
     (let (u, m) = um;
          (e, u) = uc_mem_map_ptr ops u (r_va tr) (r_size tr) prot (r_host tr)
      in if e = UC_ERR_MAP then
           if r_host tr \<noteq> 0 then rebind_region ops tr prot (u, m)
           else let (e, u) = uc_mem_protect ops u (r_va tr) (r_size tr) prot in (e, u, m)
         else (e, u, m))"

definition enter_region :: "'u uc_ops \<Rightarrow> region \<Rightarrow> 'u \<times> space_mgr \<Rightarrow> uc_err \<times> 'u \<times> space_mgr" where
  "enter_region ops tr um =
     (let (u, m) = um;
          prot = usable_prot tr
      in if map_of (mapped_host m) (r_va tr) = Some (r_host tr) then
           let (e, u) = uc_mem_protect ops u (r_va tr) (r_size tr) prot in (e, u, m)
         else
           let (e, u, m) = bind_region ops tr prot (u, m)
           in (e, u, if e = UC_ERR_OK
                     then m\<lparr>mapped_host := om_put (r_va tr) (r_host tr) (mapped_host m)\<rparr> else m))"

fun enter_regions ::
    "'u uc_ops \<Rightarrow> region list \<Rightarrow> uc_err \<Rightarrow> 'u \<times> space_mgr \<Rightarrow> uc_err \<times> 'u \<times> space_mgr" where
  "enter_regions ops [] first_err um = (first_err, um)"
| "enter_regions ops (tr # trs) first_err um =
     (let (e, um) = enter_region ops tr um
      in enter_regions ops trs (if e \<noteq> UC_ERR_OK \<and> first_err = UC_ERR_OK then e else first_err) um)"

text \<open>\<open>activate_live\<close> is \<open>activate\<close> after its null check on the engine.\<close>

definition activate_live :: "'u uc_ops \<Rightarrow> u32 \<Rightarrow> 'u \<times> space_mgr \<Rightarrow> uc_err \<times> 'u \<times> space_mgr" where
  "activate_live ops sid um =
     (let (u, m) = um
      in if \<not> has_space sid m then (UC_ERR_ARG, u, m)
         else if sid = active_sid m \<and> activated_once m then (UC_ERR_OK, u, m)
         else
           let eff = effective_regions sid m;
               (u, m) = (if activated_once m
                         then fold (leave_region ops eff) (effective_regions (active_sid m) m) (u, m)
                         else (u, m));
               (first_err, u, m) = enter_regions ops eff UC_ERR_OK (u, m)
           in (first_err, u, m\<lparr>active_sid := sid, activated_once := True\<rparr>))"

definition activate ::
    "'u uc_ops \<Rightarrow> u32 \<Rightarrow> 'u option \<times> space_mgr \<Rightarrow> uc_err \<times> 'u option \<times> space_mgr" where
  "activate ops sid um =
     (case um of
        (None, m) \<Rightarrow> (UC_ERR_ARG, None, m)
      | (Some u, m) \<Rightarrow> (let (e, u, m) = activate_live ops sid (u, m) in (e, Some u, m)))"

definition queue_activate :: "u32 \<Rightarrow> space_mgr \<Rightarrow> space_mgr" where
  "queue_activate sid m = m\<lparr>pending_sid := sid, has_pending_activate := True\<rparr>"

definition drain_activate ::
    "'u uc_ops \<Rightarrow> 'u option \<times> space_mgr \<Rightarrow> uc_err \<times> 'u option \<times> space_mgr" where
  "drain_activate ops um =
     (let (u, m) = um
      in if \<not> has_pending_activate m then (UC_ERR_OK, u, m)
         else
           let sid = pending_sid m; m = m\<lparr>has_pending_activate := False, pending_sid := 0\<rparr>
           in if \<not> has_space sid m then (UC_ERR_OK, u, m) else activate ops sid (u, m))"

definition sm_clear :: "space_mgr \<Rightarrow> space_mgr" where
  "sm_clear m = m\<lparr>sm_spaces := [], sm_base_of := [], mapped_host := [], shadowed := [],
     has_pending_activate := False, pending_sid := 0, active_sid := 0, activated_once := False\<rparr>"

section \<open>The invariant\<close>

definition region_ok :: "region \<Rightarrow> bool" where
  "region_ok r \<longleftrightarrow> 4096 dvd unat (r_va r) \<and> 4096 dvd unat (r_size r) \<and> r_size r \<noteq> 0 \<and>
     unat (r_va r) + unat (r_size r) \<le> 2 ^ 32"

definition space_ok :: "region list \<Rightarrow> bool" where
  "space_ok rs \<longleftrightarrow> (\<forall>r \<in> set rs. region_ok r) \<and> distinct (map r_va rs)"

definition sm_ok :: "space_mgr \<Rightarrow> bool" where
  "sm_ok m \<longleftrightarrow> om_ok (sm_spaces m) \<and> om_ok (sm_base_of m) \<and> om_ok (mapped_host m) \<and> om_ok (shadowed m) \<and>
     (\<forall>sid rs. map_of (sm_spaces m) sid = Some rs \<longrightarrow> space_ok rs) \<and>
     (\<forall>e b. map_of (sm_base_of m) e = Some b \<longrightarrow> e \<noteq> 0 \<and> b \<noteq> 0 \<and> b \<noteq> e)"

lemma space_ok_Nil [simp]: "space_ok []"
  by (simp add: space_ok_def)

lemma space_ok_at: "sm_ok m \<Longrightarrow> space_ok (om_at [] sid (sm_spaces m))"
  by (auto simp: sm_ok_def om_at_def split: option.splits)

lemma put_region_vas:
  "r_va ` set (put_region r rs) = insert (r_va r) (r_va ` set rs)"
  by (induction rs) auto

lemma put_region_ok: "space_ok rs \<Longrightarrow> region_ok r \<Longrightarrow> space_ok (put_region r rs)"
proof (induction rs)
  case (Cons q qs)
  show ?case
  proof (cases "r_va q = r_va r")
    case True
    then show ?thesis using Cons.prems by (simp add: space_ok_def region_ok_def)
  next
    case False
    then have "r_va q \<notin> r_va ` set (put_region r qs)"
      using Cons.prems(1) by (simp add: put_region_vas space_ok_def)
    then show ?thesis using Cons False by (simp add: space_ok_def)
  qed
qed (simp add: space_ok_def)

lemma range_region_ok:
  "map_range va sz = Some (b, s) \<Longrightarrow> unat va + unat sz \<le> 2 ^ 63 \<Longrightarrow>
     region_ok \<lparr>r_va = b, r_size = s, r_prot = p, r_host = h\<rparr>"
  using map_range_ok [of va sz b s] by (simp add: region_ok_def)

lemma record_region_ok:
  assumes "sm_ok m" "unat va + unat sz \<le> 2 ^ 63"
  shows "sm_ok (record_region sid va sz prot host m)"
proof (cases "map_range va sz")
  case (Some bs)
  then obtain b s where r: "map_range va sz = Some (b, s)" by (cases bs) auto
  have "space_ok (put_region \<lparr>r_va = b, r_size = s, r_prot = prot, r_host = host\<rparr>
      (om_at [] sid (sm_spaces m)))"
    using assms r by (intro put_region_ok space_ok_at range_region_ok)
  then show ?thesis using assms(1) r by (auto simp: record_region_def sm_ok_def)
qed (use assms in \<open>simp add: record_region_def\<close>)

lemma link_base_ok: "sm_ok m \<Longrightarrow> sm_ok (link_base ext base m)"
  by (auto simp: link_base_def sm_ok_def split: if_splits)

lemma sm_ok_upd [simp]:
  "sm_ok m \<Longrightarrow> sm_ok (m\<lparr>shadowed := om_erase k (shadowed m)\<rparr>)"
  "sm_ok m \<Longrightarrow> sm_ok (m\<lparr>shadowed := om_put k r (shadowed m)\<rparr>)"
  "sm_ok m \<Longrightarrow> sm_ok (m\<lparr>mapped_host := om_erase k (mapped_host m)\<rparr>)"
  "sm_ok m \<Longrightarrow> sm_ok (m\<lparr>mapped_host := om_put k h (mapped_host m)\<rparr>)"
  "sm_ok (m\<lparr>active_sid := a, activated_once := b\<rparr>) \<longleftrightarrow> sm_ok m"
  "sm_ok (m\<lparr>has_pending_activate := c, pending_sid := d\<rparr>) \<longleftrightarrow> sm_ok m"
  "sm_ok (m\<lparr>pending_sid := d, has_pending_activate := c\<rparr>) \<longleftrightarrow> sm_ok m"
  by (simp_all add: sm_ok_def)

lemma restore_shadow_ok: "sm_ok m \<Longrightarrow> sm_ok (snd (restore_shadow ops va (u, m)))"
  by (simp add: restore_shadow_def Let_def split: prod.split option.split)

lemma leave_region_ok: "sm_ok (snd um) \<Longrightarrow> sm_ok (snd (leave_region ops eff pr um))"
  by (cases um) (simp add: leave_region_def Let_def restore_shadow_ok split: prod.split)

lemma record_shadow_ok: "sm_ok m \<Longrightarrow> sm_ok (record_shadow ops va sz prot u m)"
  by (simp add: record_shadow_def Let_def split: prod.split)

lemma rebind_region_ok: "sm_ok m \<Longrightarrow> sm_ok (snd (snd (rebind_region ops tr prot (u, m))))"
  using record_shadow_ok [of m ops "r_va tr" "r_size tr" prot u]
  by (simp add: rebind_region_def Let_def split: prod.split)

lemma bind_region_ok: "sm_ok m \<Longrightarrow> sm_ok (snd (snd (bind_region ops tr prot (u, m))))"
  using rebind_region_ok [of m ops tr prot v for v]
  by (auto simp: bind_region_def Let_def split: prod.split)

lemma enter_region_ok: "sm_ok m \<Longrightarrow> sm_ok (snd (snd (enter_region ops tr (u, m))))"
proof -
  assume ok: "sm_ok m"
  let ?prot = "usable_prot tr"
  obtain e v k where b: "bind_region ops tr ?prot (u, m) = (e, v, k)" by (cases "bind_region ops tr ?prot (u, m)")
  then have "sm_ok k" using bind_region_ok [OF ok, of ops tr ?prot u] by simp
  with ok show ?thesis by (simp add: enter_region_def b Let_def split: prod.split)
qed

lemma enter_regions_ok: "sm_ok (snd um) \<Longrightarrow> sm_ok (snd (snd (enter_regions ops trs fe um)))"
proof (induction trs arbitrary: fe um)
  case (Cons tr trs)
  obtain u m where um: "um = (u, m)" by (cases um)
  obtain e v k where b: "enter_region ops tr (u, m) = (e, v, k)" by (cases "enter_region ops tr (u, m)")
  then have "sm_ok k" using enter_region_ok [of m ops tr u] Cons.prems um by simp
  then show ?case using Cons.IH [of "(v, k)"] by (simp add: um b Let_def)
qed simp

lemma fold_leave_ok: "sm_ok (snd um) \<Longrightarrow> sm_ok (snd (fold (leave_region ops eff) prs um))"
proof (induction prs arbitrary: um)
  case (Cons pr prs)
  then show ?case using leave_region_ok [OF Cons.prems, of ops eff pr] Cons.IH by simp
qed simp

text \<open>The two passes of a switch that does something.\<close>

lemma activate_live_switch:
  assumes "has_space sid m" "\<not> (sid = active_sid m \<and> activated_once m)"
  shows "activate_live ops sid (u, m) =
    (let eff = effective_regions sid m;
         um = (if activated_once m
               then fold (leave_region ops eff) (effective_regions (active_sid m) m) (u, m) else (u, m));
         r = enter_regions ops eff UC_ERR_OK um
     in (fst r, fst (snd r), (snd (snd r))\<lparr>active_sid := sid, activated_once := True\<rparr>))"
  using assms by (auto simp: activate_live_def Let_def split: prod.splits)

lemma activate_live_ok: "sm_ok m \<Longrightarrow> sm_ok (snd (snd (activate_live ops sid (u, m))))"
proof (cases "has_space sid m \<and> \<not> (sid = active_sid m \<and> activated_once m)")
  case True
  assume "sm_ok m"
  then show ?thesis
    using True by (auto simp: activate_live_switch Let_def intro!: enter_regions_ok fold_leave_ok)
qed (auto simp: activate_live_def)

text \<open>
  The calls the system makes: MapControl records the fpages it mapped, ThreadControl links an
  extension to its base, the syscall hook queues a switch, the scheduler loop drains it.
\<close>

datatype sm_event =
  RecordFpage u32 u32 nat u64 | LinkBase u32 u32 | QueueActivate u32 | DrainActivate | Activate u32 | ClearAll

fun sm_step :: "'u uc_ops \<Rightarrow> sm_event \<Rightarrow> 'u option \<times> space_mgr \<Rightarrow> 'u option \<times> space_mgr" where
  "sm_step ops (RecordFpage sid f prot host) (u, m) =
     (u, record_region sid (fp_vaddr f) (size_bytes f) prot host m)"
| "sm_step ops (LinkBase e b) (u, m) = (u, link_base e b m)"
| "sm_step ops (QueueActivate sid) (u, m) = (u, queue_activate sid m)"
| "sm_step ops DrainActivate um = snd (drain_activate ops um)"
| "sm_step ops (Activate sid) um = snd (activate ops sid um)"
| "sm_step ops ClearAll (u, m) = (u, sm_clear m)"

lemma activate_ok: "sm_ok m \<Longrightarrow> sm_ok (snd (snd (activate ops sid (u, m))))"
  using activate_live_ok [of m ops sid "the u"]
  by (auto simp: activate_def Let_def split: option.split prod.split)

lemma drain_activate_ok: "sm_ok m \<Longrightarrow> sm_ok (snd (snd (drain_activate ops (u, m))))"
  by (simp add: drain_activate_def Let_def activate_ok)

lemma record_fpage_ok: "sm_ok m \<Longrightarrow> sm_ok (record_region sid (fp_vaddr f) (size_bytes f) prot host m)"
  using fp_vaddr_less [of f] size_bytes_range(2) [of f] by (intro record_region_ok) simp_all

lemma sm_clear_ok: "sm_ok (sm_clear m)"
  by (simp add: sm_ok_def sm_clear_def)

lemma sm_step_ok: "sm_ok (snd um) \<Longrightarrow> sm_ok (snd (sm_step ops e um))"
  by (cases um; cases e)
     (simp_all add: record_fpage_ok link_base_ok queue_activate_def drain_activate_ok activate_ok
        sm_clear_ok)

interpretation sm: machine_inv "sm_step ops" "\<lambda>um. sm_ok (snd um)" for ops
  by unfold_locales (rule sm_step_ok)

lemma sm_ok_init: "sm_ok sm_init"
  by (simp add: sm_ok_def sm_init_def)

text \<open>
  C13: the bookkeeping of address spaces stays well formed in every run of the calls the system makes,
  whatever the engine answers: in every space the recorded regions are page-aligned, not empty and
  inside the 32-bit space, no two start at the same address, and no space is linked to itself or to
  the null space.
\<close>

theorem space_manager_invariant: "sm_ok (snd (fold (sm_step ops) es (u, sm_init)))"
  by (rule sm.inv_run) (simp add: sm_ok_init)

section \<open>What a space sees\<close>

text \<open>The spaces visited from \<open>sid\<close>, and their regions in the order of the search.\<close>

fun chain :: "nat \<Rightarrow> u32 \<Rightarrow> space_mgr \<Rightarrow> u32 list" where
  "chain 0 cur m = []"
| "chain (Suc hops) cur m =
     (if cur = 0 then []
      else cur # (if base_of cur m = cur then [] else chain hops (base_of cur m) m))"

definition regions_along :: "u32 list \<Rightarrow> space_mgr \<Rightarrow> region list" where
  "regions_along ss m = concat (map (\<lambda>s. om_at [] s (sm_spaces m)) ss)"

lemma regions_along_simps [simp]:
  "regions_along [] m = []"
  "regions_along (s # ss) m = om_at [] s (sm_spaces m) @ regions_along ss m"
  by (simp_all add: regions_along_def)

lemma find_append:
  "List.find P (xs @ ys) = (case List.find P xs of Some x \<Rightarrow> Some x | None \<Rightarrow> List.find P ys)"
  by (induction xs) auto

lemma resolve_from_chain:
  "resolve_from hops cur base_va m = List.find (covers base_va) (regions_along (chain hops cur m) m)"
  by (induction hops cur base_va m rule: resolve_from.induct)
     (auto simp: find_append Let_def split: option.split)

lemma add_missing_append: "add_missing eff (xs @ ys) = add_missing (add_missing eff xs) ys"
  by (induction xs arbitrary: eff) auto

lemma gather_chain: "gather hops cur m eff = add_missing eff (regions_along (chain hops cur m) m)"
  by (induction hops cur m eff rule: gather.induct) (auto simp: Let_def add_missing_append)

lemma find_add_missing:
  "List.find (\<lambda>r. r_va r = v) (add_missing eff brs) = List.find (\<lambda>r. r_va r = v) (eff @ brs)"
proof (induction brs arbitrary: eff)
  case (Cons br brs)
  show ?case
  proof (cases "\<exists>r \<in> set eff. r_va r = r_va br")
    case True
    then have "List.find (\<lambda>r. r_va r = v) eff \<noteq> None" if "r_va br = v" using that by (auto simp: find_None_iff)
    with True show ?thesis by (simp add: Cons.IH find_append split: option.split) auto
  next
    case False
    then show ?thesis by (simp add: Cons.IH)
  qed
qed simp

lemma add_missing_ok:
  "space_ok eff \<Longrightarrow> \<forall>r \<in> set brs. region_ok r \<Longrightarrow> space_ok (add_missing eff brs)"
proof (induction brs arbitrary: eff)
  case (Cons br brs)
  have "space_ok (if \<exists>r \<in> set eff. r_va r = r_va br then eff else eff @ [br])"
    using Cons.prems by (auto simp: space_ok_def)
  then show ?case using Cons by simp
qed simp

lemma regions_along_ok: "sm_ok m \<Longrightarrow> \<forall>r \<in> set (regions_along ss m). region_ok r"
  using space_ok_at by (auto simp: regions_along_def space_ok_def)

lemma effective_regions_ok: "sm_ok m \<Longrightarrow> space_ok (effective_regions sid m)"
  by (simp add: effective_regions_def gather_chain add_missing_ok space_ok_at regions_along_ok)

lemma base_of_not_self: "sm_ok m \<Longrightarrow> sid \<noteq> 0 \<Longrightarrow> base_of sid m \<noteq> sid"
  by (auto simp: base_of_def sm_ok_def split: option.splits)

lemma effective_find:
  assumes "sm_ok m" "sid \<noteq> 0"
  shows "List.find (\<lambda>r. r_va r = v) (effective_regions sid m) =
    List.find (\<lambda>r. r_va r = v) (regions_along (chain 9 sid m) m)"
proof -
  have "chain 9 sid m = sid # chain 8 (base_of sid m) m"
    using assms base_of_not_self by (simp add: numeral_eq_Suc)
  then show ?thesis by (simp add: effective_regions_def gather_chain find_add_missing)
qed

lemma covers_self:
  assumes "region_ok r"
  shows "covers (r_va r) r"
proof -
  have "unat (r_va r + r_size r) = unat (r_va r) + unat (r_size r)"
    using assms by (intro unat_add_lem [THEN iffD1]) (simp add: region_ok_def)
  moreover have "0 < unat (r_size r)" using assms by (simp add: region_ok_def unat_gt_0)
  ultimately show ?thesis by (simp add: covers_def word_less_nat_alt)
qed

lemma find_cong_on: "(\<And>x. x \<in> set xs \<Longrightarrow> P x = Q x) \<Longrightarrow> List.find P xs = List.find Q xs"
  by (induction xs) auto

lemma set_add_missing: "set (add_missing eff brs) \<subseteq> set eff \<union> set brs"
proof (induction brs arbitrary: eff)
  case (Cons br brs)
  then show ?case by (fastforce split: if_splits)
qed simp

lemma set_effective: "sm_ok m \<Longrightarrow> sid \<noteq> 0 \<Longrightarrow> set (effective_regions sid m) \<subseteq> set (regions_along (chain 9 sid m) m)"
proof -
  assume "sm_ok m" "sid \<noteq> 0"
  then have "chain 9 sid m = sid # chain 8 (base_of sid m) m"
    using base_of_not_self by (simp add: numeral_eq_Suc)
  then show ?thesis
    using set_add_missing by (simp add: effective_regions_def gather_chain)
qed

text \<open>
  C12: what is switched in is what is looked up. For a space whose chain of bases has at most seven
  links and whose chain holds no two regions that overlap without being the same range, the region
  that \<open>resolve_host\<close> finds for an address, walking the chain, is the one in the effective set that
  \<open>activate\<close> maps: an extension's own region shadows its base's, and a shared base region is seen
  through the extension.
\<close>

theorem effective_regions_agree:
  assumes "sm_ok m" "sid \<noteq> 0" "chain 9 sid m = chain 8 sid m"
    and "\<forall>a \<in> set (regions_along (chain 9 sid m) m). \<forall>b \<in> set (regions_along (chain 9 sid m) m).
      \<forall>p. covers p a \<and> covers p b \<longrightarrow> r_va a = r_va b \<and> r_size a = r_size b"
  shows "resolve_host sid va m =
    (case List.find (covers (va AND NOT (PAGE - 1))) (effective_regions sid m) of
       Some r \<Rightarrow> r_host r | None \<Rightarrow> 0)"
proof -
  let ?p = "va AND NOT (PAGE - 1)" and ?L = "regions_along (chain 9 sid m) m"
  let ?E = "effective_regions sid m"
  have sub: "set ?E \<subseteq> set ?L" using assms(1,2) by (rule set_effective)
  have "List.find (covers ?p) ?E = List.find (covers ?p) ?L"
  proof (cases "\<exists>r \<in> set ?L. covers ?p r")
    case True
    then obtain r where r: "r \<in> set ?L" "covers ?p r" by auto
    have same: "covers ?p x \<longleftrightarrow> r_va x = r_va r" if x: "x \<in> set ?L" for x
    proof
      assume "covers ?p x"
      then show "r_va x = r_va r" using assms(4) x r by blast
    next
      assume va: "r_va x = r_va r"
      have "covers (r_va r) x" "covers (r_va r) r"
        using covers_self [of x] covers_self [of r] regions_along_ok [OF assms(1)] x r(1) va by auto
      then have "r_size x = r_size r" using assms(4) x r(1) by blast
      then show "covers ?p x" using va r(2) by (simp add: covers_def)
    qed
    have "List.find (covers ?p) ?E = List.find (\<lambda>x. r_va x = r_va r) ?E"
      using sub same by (intro find_cong_on) auto
    also have "\<dots> = List.find (\<lambda>x. r_va x = r_va r) ?L"
      using assms(1,2) by (rule effective_find)
    also have "\<dots> = List.find (covers ?p) ?L" using same by (intro find_cong_on) simp
    finally show ?thesis .
  next
    case False
    then have "List.find (covers ?p) ?L = None" "List.find (covers ?p) ?E = None"
      using sub by (auto simp: find_None_iff)
    then show ?thesis by simp
  qed
  then show ?thesis by (simp add: resolve_host_def resolve_from_chain assms(3))
qed

text \<open>An extension (space 2) of a base (space 1) with a page of its own and one of the base's.\<close>

definition demo_spaces :: space_mgr where
  "demo_spaces = record_region 2 0xb0000000 0x1000 7 0x7f2000
     (record_region 1 0xb0000000 0x1000 5 0x7f1000
       (record_region 1 0x80000000 0x2000 5 0x7f4000 (link_base 2 1 sm_init)))"

theorem effective_regions_agree_witness:
  "resolve_host 2 0x80001234 demo_spaces = 0x7f4000 \<and> resolve_host 2 0xb0000010 demo_spaces = 0x7f2000"
proof -
  have e: "regions_along (chain 9 2 demo_spaces) demo_spaces =
      [\<lparr>r_va = 0xb0000000, r_size = 0x1000, r_prot = 7, r_host = 0x7f2000\<rparr>,
       \<lparr>r_va = 0x80000000, r_size = 0x2000, r_prot = 5, r_host = 0x7f4000\<rparr>,
       \<lparr>r_va = 0xb0000000, r_size = 0x1000, r_prot = 5, r_host = 0x7f1000\<rparr>]"
    and c: "chain 9 2 demo_spaces = chain 8 2 demo_spaces"
    and f: "List.find (covers (0x80001234 AND NOT (PAGE - 1))) (effective_regions 2 demo_spaces) =
        Some \<lparr>r_va = 0x80000000, r_size = 0x2000, r_prot = 5, r_host = 0x7f4000\<rparr>"
      "List.find (covers (0xb0000010 AND NOT (PAGE - 1))) (effective_regions 2 demo_spaces) =
        Some \<lparr>r_va = 0xb0000000, r_size = 0x1000, r_prot = 7, r_host = 0x7f2000\<rparr>"
    by code_simp+
  have ok: "sm_ok demo_spaces"
    unfolding demo_spaces_def by (intro record_region_ok link_base_ok sm_ok_init) simp_all
  have "resolve_host 2 va demo_spaces =
    (case List.find (covers (va AND NOT (PAGE - 1))) (effective_regions 2 demo_spaces) of
       Some r \<Rightarrow> r_host r | None \<Rightarrow> 0)" for va
    by (rule effective_regions_agree [OF ok _ c]) (auto simp: e covers_def word_less_nat_alt word_le_nat_alt)
  then show ?thesis by (simp add: f)
qed

end
