(* ===== verification/Space_Switch.thy ===== *)
theory Space_Switch
  imports Space_Manager
begin

text \<open>
  What \<open>activate\<close> does to the engine. \<open>uc_back_ok\<close> states the documented behaviour of the engine's
  mapping calls over a view \<open>bk\<close> of its pages, each with the host page behind it and its protection;
  \<open>back_ops\<close> is an engine that satisfies it. The main result is that a switch that reports success
  leaves every page of the target space on the target's own backing, whatever was mapped there
  before, and keeps the bookkeeping true for the next switch.
\<close>

definition rpages :: "region \<Rightarrow> nat set" where
  "rpages r = pages_of (r_va r) (r_size r)"

definition host_page :: "u64 \<Rightarrow> u64 \<Rightarrow> nat \<Rightarrow> u64" where
  "host_page va h q = h + push_bit 12 (of_nat (q - unat (drop_bit 12 va)))"

definition range_ok :: "u64 \<Rightarrow> u64 \<Rightarrow> bool" where
  "range_ok b s \<longleftrightarrow> 4096 dvd unat b \<and> 4096 dvd unat s \<and> s \<noteq> 0 \<and> unat b + unat s \<le> 2 ^ 32"

lemma region_ok_range: "region_ok r = range_ok (r_va r) (r_size r)"
  by (simp add: region_ok_def range_ok_def)

definition uc_back_ok :: "'u uc_ops \<Rightarrow> ('u \<Rightarrow> nat \<Rightarrow> (u64 \<times> nat) option) \<Rightarrow> bool" where
  "uc_back_ok ops bk \<longleftrightarrow>
     (\<forall>u b s p h. range_ok b s \<and> h \<noteq> 0 \<longrightarrow>
        (let (e, u') = uc_mem_map_ptr ops u b s p h in
           if p \<le> 7 \<and> (\<forall>q \<in> pages_of b s. bk u q = None)
           then e = UC_ERR_OK \<and>
             bk u' = (\<lambda>q. if q \<in> pages_of b s then Some (host_page b h q, p) else bk u q)
           else e \<noteq> UC_ERR_OK \<and> bk u' = bk u)) \<and>
     (\<forall>u b s. range_ok b s \<longrightarrow>
        (let (e, u') = uc_mem_unmap ops u b s in
           if \<forall>q \<in> pages_of b s. bk u q \<noteq> None
           then e = UC_ERR_OK \<and> bk u' = (\<lambda>q. if q \<in> pages_of b s then None else bk u q)
           else e = UC_ERR_NOMEM \<and> bk u' = bk u)) \<and>
     (\<forall>u b s p. range_ok b s \<longrightarrow>
        (let (e, u') = uc_mem_protect ops u b s p in
           if p \<le> 7 \<and> (\<forall>q \<in> pages_of b s. bk u q \<noteq> None)
           then e = UC_ERR_OK \<and>
             bk u' = (\<lambda>q. if q \<in> pages_of b s then map_option (\<lambda>(h, _). (h, p)) (bk u q) else bk u q)
           else e \<noteq> UC_ERR_OK \<and> bk u' = bk u)) \<and>
     (\<forall>u b s p q. bk u q \<noteq> None \<longrightarrow> bk (snd (uc_mem_map ops u b s p)) q = bk u q)"

text \<open>The laws, one call at a time, on a region.\<close>

lemma back_map_ptr:
  assumes "uc_back_ok ops bk" "region_ok r" "r_host r \<noteq> 0"
    and "uc_mem_map_ptr ops u (r_va r) (r_size r) p (r_host r) = (e, u')"
  shows "if p \<le> 7 \<and> (\<forall>q \<in> rpages r. bk u q = None)
    then e = UC_ERR_OK \<and> bk u' = (\<lambda>q. if q \<in> rpages r then Some (host_page (r_va r) (r_host r) q, p) else bk u q)
    else e \<noteq> UC_ERR_OK \<and> bk u' = bk u"
  using assms(1) [unfolded uc_back_ok_def, THEN conjunct1, rule_format, of "r_va r" "r_size r" "r_host r" u p]
    assms(2-4) by (simp add: rpages_def region_ok_range)

lemma back_unmap:
  assumes "uc_back_ok ops bk" "region_ok r" "uc_mem_unmap ops u (r_va r) (r_size r) = (e, u')"
  shows "if \<forall>q \<in> rpages r. bk u q \<noteq> None
    then e = UC_ERR_OK \<and> bk u' = (\<lambda>q. if q \<in> rpages r then None else bk u q)
    else e = UC_ERR_NOMEM \<and> bk u' = bk u"
  using assms(1) [unfolded uc_back_ok_def, THEN conjunct2, THEN conjunct1, rule_format,
      of "r_va r" "r_size r" u] assms(2-3) by (simp add: rpages_def region_ok_range)

lemma back_protect:
  assumes "uc_back_ok ops bk" "region_ok r" "uc_mem_protect ops u (r_va r) (r_size r) p = (e, u')"
  shows "if p \<le> 7 \<and> (\<forall>q \<in> rpages r. bk u q \<noteq> None)
    then e = UC_ERR_OK \<and>
      bk u' = (\<lambda>q. if q \<in> rpages r then map_option (\<lambda>(h, _). (h, p)) (bk u q) else bk u q)
    else e \<noteq> UC_ERR_OK \<and> bk u' = bk u"
  using assms(1) [unfolded uc_back_ok_def, THEN conjunct2, THEN conjunct2, THEN conjunct1, rule_format,
      of "r_va r" "r_size r" u p] assms(2-3) by (simp add: rpages_def region_ok_range)

lemma back_map:
  assumes "uc_back_ok ops bk" "bk u q \<noteq> None"
  shows "bk (snd (uc_mem_map ops u b s p)) q = bk u q"
  using assms unfolding uc_back_ok_def by blast

section \<open>Hosted regions\<close>

definition hosted :: "('u \<Rightarrow> nat \<Rightarrow> (u64 \<times> nat) option) \<Rightarrow> 'u \<Rightarrow> region \<Rightarrow> bool" where
  "hosted bk u r \<longleftrightarrow> (\<forall>q \<in> rpages r. \<exists>p. bk u q = Some (host_page (r_va r) (r_host r) q, p))"

definition backed :: "('u \<Rightarrow> nat \<Rightarrow> (u64 \<times> nat) option) \<Rightarrow> 'u \<Rightarrow> region \<Rightarrow> bool" where
  "backed bk u r \<longleftrightarrow> (\<forall>q \<in> rpages r. bk u q = Some (host_page (r_va r) (r_host r) q, usable_prot r))"

lemma backed_hosted: "backed bk u r \<Longrightarrow> hosted bk u r"
  by (simp add: backed_def hosted_def)

lemma hosted_frame:
  "hosted bk u r \<Longrightarrow> \<forall>q \<in> rpages r. bk u' q = bk u q \<Longrightarrow> hosted bk u' r"
  by (simp add: hosted_def)

definition disjoint_regions :: "region list \<Rightarrow> bool" where
  "disjoint_regions rs \<longleftrightarrow> (\<forall>a \<in> set rs. \<forall>b \<in> set rs. a \<noteq> b \<longrightarrow> rpages a \<inter> rpages b = {})"

text \<open>The bookkeeping is true of the engine: every recorded host is behind a region of \<open>rs\<close>.\<close>

definition true_map :: "('u \<Rightarrow> nat \<Rightarrow> (u64 \<times> nat) option) \<Rightarrow> region list \<Rightarrow> 'u \<Rightarrow> space_mgr \<Rightarrow> bool" where
  "true_map bk rs u m \<longleftrightarrow> (\<forall>va h. map_of (mapped_host m) va = Some h \<longrightarrow>
     (\<exists>r \<in> set rs. r_va r = va \<and> r_host r = h \<and> hosted bk u r))"

text \<open>The parts of the bookkeeping that a switch does not touch.\<close>

definition same_spaces :: "space_mgr \<Rightarrow> space_mgr \<Rightarrow> bool" where
  "same_spaces m m' \<longleftrightarrow> sm_spaces m' = sm_spaces m \<and> sm_base_of m' = sm_base_of m \<and>
     active_sid m' = active_sid m \<and> activated_once m' = activated_once m"

lemma same_spaces_refl [simp]: "same_spaces m m"
  by (simp add: same_spaces_def)

lemma same_spaces_trans: "same_spaces a b \<Longrightarrow> same_spaces b c \<Longrightarrow> same_spaces a c"
  by (simp add: same_spaces_def)

lemma gather_cong:
  "sm_spaces m' = sm_spaces m \<Longrightarrow> sm_base_of m' = sm_base_of m \<Longrightarrow> gather h cur m' eff = gather h cur m eff"
  by (induction h cur m eff rule: gather.induct) (simp_all add: base_of_def Let_def)

lemma effective_cong:
  assumes "sm_spaces m' = sm_spaces m" "sm_base_of m' = sm_base_of m"
  shows "effective_regions sid m' = effective_regions sid m"
  using gather_cong [OF assms] assms by (simp add: effective_regions_def base_of_def)

section \<open>Leaving a space\<close>

lemma restore_shadow_effect:
  assumes "uc_back_ok ops bk" "restore_shadow ops va (u, m) = (u', m')"
  shows "mapped_host m' = mapped_host m \<and> same_spaces m m' \<and> (\<forall>q. bk u q \<noteq> None \<longrightarrow> bk u' q = bk u q)"
proof (cases "map_of (shadowed m) va")
  case (Some s)
  obtain e v where "uc_mem_map ops u (r_va s) (r_size s) (usable_prot s) = (e, v)" by fastforce
  then show ?thesis
    using assms Some back_map [OF assms(1), of u _ "r_va s" "r_size s" "usable_prot s"]
    by (auto simp: restore_shadow_def Let_def same_spaces_def)
qed (use assms in \<open>auto simp: restore_shadow_def\<close>)

lemma leave_region_effect:
  assumes "uc_back_ok ops bk" "region_ok pr" "leave_region ops eff pr (u, m) = (u', m')"
  shows "same_spaces m m' \<and>
    map_of (mapped_host m') = (if kept eff pr then map_of (mapped_host m)
      else (map_of (mapped_host m))(r_va pr := None)) \<and>
    (\<forall>q. bk u q \<noteq> None \<and> (kept eff pr \<or> q \<notin> rpages pr) \<longrightarrow> bk u' q = bk u q)"
proof (cases "kept eff pr")
  case False
  obtain e v where un: "uc_mem_unmap ops u (r_va pr) (r_size pr) = (e, v)" by fastforce
  let ?m = "m\<lparr>mapped_host := om_erase (r_va pr) (mapped_host m)\<rparr>"
  have "restore_shadow ops (r_va pr) (v, ?m) = (u', m')"
    using assms(3) False un by (simp add: leave_region_def)
  from restore_shadow_effect [OF assms(1) this]
  have "mapped_host m' = om_erase (r_va pr) (mapped_host m)" "same_spaces ?m m'"
    "\<forall>q. bk v q \<noteq> None \<longrightarrow> bk u' q = bk v q" by auto
  moreover have "bk v q = bk u q" if "q \<notin> rpages pr" for q
    using back_unmap [OF assms(1,2) un] that by (simp split: if_splits)
  ultimately show ?thesis using False by (auto simp: same_spaces_def)
qed (use assms in \<open>auto simp: leave_region_def\<close>)

text \<open>
  While the first pass runs, a recorded host belongs to a region of the old space that is still
  hosted and is either kept for the target or still to be left.
\<close>

definition leaving :: "('u \<Rightarrow> nat \<Rightarrow> (u64 \<times> nat) option) \<Rightarrow> region list \<Rightarrow> region list \<Rightarrow> region list \<Rightarrow>
    'u \<Rightarrow> space_mgr \<Rightarrow> bool" where
  "leaving bk eff prev todo u m \<longleftrightarrow> (\<forall>va h. map_of (mapped_host m) va = Some h \<longrightarrow>
     (\<exists>r \<in> set prev. r_va r = va \<and> r_host r = h \<and> hosted bk u r \<and> (kept eff r \<or> r \<in> set todo)))"

lemma leave_region_leaving:
  assumes "uc_back_ok ops bk" "space_ok prev" "disjoint_regions prev" "set (pr # todo) \<subseteq> set prev"
    and "leaving bk eff prev (pr # todo) u m" "leave_region ops eff pr (u, m) = (u', m')"
  shows "leaving bk eff prev todo u' m' \<and> same_spaces m m'"
proof -
  have pr: "region_ok pr" "pr \<in> set prev" using assms(2,4) by (auto simp: space_ok_def)
  note eff = leave_region_effect [OF assms(1) pr(1) assms(6)]
  have "\<exists>r \<in> set prev. r_va r = va \<and> r_host r = h \<and> hosted bk u' r \<and> (kept eff r \<or> r \<in> set todo)"
    if "map_of (mapped_host m') va = Some h" for va h
  proof -
    have old: "map_of (mapped_host m) va = Some h" "kept eff pr \<or> va \<noteq> r_va pr"
      using that eff by (auto split: if_splits)
    then obtain r where r: "r \<in> set prev" "r_va r = va" "r_host r = h" "hosted bk u r"
        "kept eff r \<or> r = pr \<or> r \<in> set todo"
      using assms(5) by (auto simp: leaving_def)
    have "hosted bk u' r"
    proof (cases "kept eff pr")
      case False
      then have "r \<noteq> pr" using old(2) r(2) by auto
      then have "rpages r \<inter> rpages pr = {}" using assms(3) r(1) pr(2) by (simp add: disjoint_regions_def)
      moreover have "\<forall>q \<in> rpages r. bk u q \<noteq> None" using r(4) by (auto simp: hosted_def)
      moreover have "bk u' q = bk u q" if "bk u q \<noteq> None" "q \<notin> rpages pr" for q
        using eff that by simp
      ultimately have "\<forall>q \<in> rpages r. bk u' q = bk u q" by (meson disjoint_iff)
      with r(4) show ?thesis by (rule hosted_frame)
    qed (use eff r(4) in \<open>auto simp: hosted_def\<close>)
    then show ?thesis using r old(2) by blast
  qed
  then show ?thesis using eff by (simp add: leaving_def)
qed

lemma fold_leave_leaving:
  assumes "uc_back_ok ops bk" "space_ok prev" "disjoint_regions prev"
  shows "set todo \<subseteq> set prev \<Longrightarrow> leaving bk eff prev todo u m \<Longrightarrow>
    fold (leave_region ops eff) todo (u, m) = (u', m') \<Longrightarrow>
    leaving bk eff prev [] u' m' \<and> same_spaces m m'"
proof (induction todo arbitrary: u m)
  case (Cons pr todo)
  obtain v k where l: "leave_region ops eff pr (u, m) = (v, k)" by fastforce
  note step = leave_region_leaving [OF assms Cons.prems(1,2) l]
  have "leaving bk eff prev [] u' m' \<and> same_spaces k m'"
    using Cons.prems l step by (intro Cons.IH [of v k]) auto
  then show ?case using step same_spaces_trans by blast
qed simp

lemma left_true_map:
  assumes "leaving bk eff prev [] u m"
  shows "true_map bk eff u m"
  unfolding true_map_def
proof (intro allI impI)
  fix va h assume "map_of (mapped_host m) va = Some h"
  then obtain r where r: "r_va r = va" "r_host r = h" "hosted bk u r" "kept eff r"
    using assms by (auto simp: leaving_def)
  then obtain tr where "tr \<in> set eff" "r_va tr = r_va r" "r_size tr = r_size r" "r_host tr = r_host r"
    by (auto simp: kept_def)
  then show "\<exists>r \<in> set eff. r_va r = va \<and> r_host r = h \<and> hosted bk u r"
    using r by (auto simp: hosted_def rpages_def)
qed

section \<open>Entering a space\<close>

lemma record_shadow_keeps:
  "mapped_host (record_shadow ops va sz p u m) = mapped_host m \<and> same_spaces m (record_shadow ops va sz p u m)"
  by (simp add: record_shadow_def Let_def same_spaces_def split: prod.split)

lemma rebind_region_effect:
  assumes "uc_back_ok ops bk" "region_ok tr" "r_host tr \<noteq> 0"
    and "rebind_region ops tr p (u, m) = (UC_ERR_OK, u', m')"
  shows "bk u' = (\<lambda>q. if q \<in> rpages tr then Some (host_page (r_va tr) (r_host tr) q, p) else bk u q) \<and>
    mapped_host m' = mapped_host m \<and> same_spaces m m'"
proof -
  obtain ue v where un: "uc_mem_unmap ops u (r_va tr) (r_size tr) = (ue, v)" by fastforce
  obtain e w where mp: "uc_mem_map_ptr ops v (r_va tr) (r_size tr) p (r_host tr) = (e, w)" by fastforce
  obtain e' w' where pt: "uc_mem_protect ops v (r_va tr) (r_size tr) p = (e', w')" by fastforce
  have m': "mapped_host m' = mapped_host m \<and> same_spaces m m'"
    using assms(4) record_shadow_keeps [of ops "r_va tr" "r_size tr" p u m]
    by (auto simp: rebind_region_def Let_def split: prod.splits if_splits)
  show ?thesis
  proof (cases "\<forall>q \<in> rpages tr. bk u q \<noteq> None")
    case True
    then have v: "ue = UC_ERR_OK" "bk v = (\<lambda>q. if q \<in> rpages tr then None else bk u q)"
      using back_unmap [OF assms(1,2) un] by auto
    have "e = UC_ERR_OK \<or> p \<le> 7"
    proof (rule ccontr)
      assume bad: "\<not> (e = UC_ERR_OK \<or> p \<le> 7)"
      obtain e2 w2 where pt2: "uc_mem_protect ops w (r_va tr) (r_size tr) p = (e2, w2)" by fastforce
      have "e2 \<noteq> UC_ERR_OK" using back_protect [OF assms(1,2) pt2] bad by auto
      then show False using assms(4) v(1) un mp pt2 bad by (simp add: rebind_region_def Let_def)
    qed
    then have "e = UC_ERR_OK" "bk w = (\<lambda>q. if q \<in> rpages tr then
        Some (host_page (r_va tr) (r_host tr) q, p) else bk v q)"
      using back_map_ptr [OF assms(1,2,3) mp] v(2) by (auto split: if_splits)
    then have "u' = w" using assms(4) v(1) un mp by (simp add: rebind_region_def Let_def)
    then show ?thesis using m' v \<open>bk w = _\<close> by auto
  next
    case False
    then have v: "ue = UC_ERR_NOMEM" "bk v = bk u" using back_unmap [OF assms(1,2) un] by auto
    then have "e' \<noteq> UC_ERR_OK" using back_protect [OF assms(1,2) pt] False by auto
    then show ?thesis using assms(4) v(1) un pt by (simp add: rebind_region_def Let_def)
  qed
qed

lemma bind_region_effect:
  assumes "uc_back_ok ops bk" "region_ok tr" "r_host tr \<noteq> 0"
    and "bind_region ops tr p (u, m) = (UC_ERR_OK, u', m')"
  shows "bk u' = (\<lambda>q. if q \<in> rpages tr then Some (host_page (r_va tr) (r_host tr) q, p) else bk u q) \<and>
    mapped_host m' = mapped_host m \<and> same_spaces m m'"
proof -
  obtain e v where mp: "uc_mem_map_ptr ops u (r_va tr) (r_size tr) p (r_host tr) = (e, v)" by fastforce
  note law = back_map_ptr [OF assms(1,2,3) mp]
  show ?thesis
  proof (cases "e = UC_ERR_MAP")
    case True
    then have "bk v = bk u" using law by (auto split: if_splits)
    then show ?thesis
      using rebind_region_effect [OF assms(1,2,3), of p v m u' m'] True assms(3,4) mp
      by (auto simp: bind_region_def)
  next
    case False
    then show ?thesis using law assms(4) mp by (auto simp: bind_region_def split: if_splits)
  qed
qed

lemma enter_region_effect:
  assumes "uc_back_ok ops bk" "space_ok eff" "disjoint_regions eff" "tr \<in> set eff" "r_host tr \<noteq> 0"
    and "sm_ok m" "true_map bk eff u m" "enter_region ops tr (u, m) = (UC_ERR_OK, u', m')"
  shows "backed bk u' tr \<and> (\<forall>q. q \<notin> rpages tr \<longrightarrow> bk u' q = bk u q) \<and>
    map_of (mapped_host m') = (map_of (mapped_host m))(r_va tr \<mapsto> r_host tr) \<and> same_spaces m m'"
proof -
  let ?p = "usable_prot tr"
  have rok: "region_ok tr" using assms(2,4) by (simp add: space_ok_def)
  show ?thesis
  proof (cases "map_of (mapped_host m) (r_va tr) = Some (r_host tr)")
    case True
    then obtain r where r: "r \<in> set eff" "r_va r = r_va tr" "hosted bk u r"
      using assms(7) by (auto simp: true_map_def)
    then have "r = tr" using assms(2,4) by (metis (no_types) space_ok_def distinct_map inj_onD)
    with r have host: "hosted bk u tr" by simp
    obtain e v where pt: "uc_mem_protect ops u (r_va tr) (r_size tr) ?p = (e, v)" by fastforce
    have "u' = v" "m' = m" "e = UC_ERR_OK" using assms(8) True pt by (auto simp: enter_region_def)
    moreover have "(map_of (mapped_host m))(r_va tr \<mapsto> r_host tr) = map_of (mapped_host m)"
      using True by (auto simp: fun_eq_iff)
    ultimately show ?thesis
      using back_protect [OF assms(1) rok pt] host
      by (auto simp: backed_def hosted_def split: if_splits)
  next
    case False
    obtain e v k where b: "bind_region ops tr ?p (u, m) = (e, v, k)" by (cases "bind_region ops tr ?p (u, m)")
    have r: "e = UC_ERR_OK" "u' = v" "m' = k\<lparr>mapped_host := om_put (r_va tr) (r_host tr) (mapped_host k)\<rparr>"
      using assms(8) False b by (auto simp: enter_region_def split: if_splits)
    note eff = bind_region_effect [OF assms(1) rok assms(5) b [unfolded r(1)]]
    have "om_ok (mapped_host m)" using assms(6) by (simp add: sm_ok_def)
    then show ?thesis using eff r by (auto simp: backed_def same_spaces_def)
  qed
qed

text \<open>The second pass, when it ends without an error.\<close>

lemma enter_region_true_map:
  assumes "uc_back_ok ops bk" "space_ok eff" "disjoint_regions eff" "tr \<in> set eff" "r_host tr \<noteq> 0"
    and "sm_ok m" "true_map bk eff u m" "enter_region ops tr (u, m) = (UC_ERR_OK, u', m')"
  shows "true_map bk eff u' m'"
  unfolding true_map_def
proof (intro allI impI)
  fix va h assume mh: "map_of (mapped_host m') va = Some h"
  note eff = enter_region_effect [OF assms]
  show "\<exists>r \<in> set eff. r_va r = va \<and> r_host r = h \<and> hosted bk u' r"
  proof (cases "va = r_va tr")
    case True
    then show ?thesis using mh eff assms(4) by (auto intro: backed_hosted)
  next
    case False
    then obtain r where r: "r \<in> set eff" "r_va r = va" "r_host r = h" "hosted bk u r"
      using mh eff assms(7) by (auto simp: true_map_def)
    moreover have "r \<noteq> tr" using False r(2) by auto
    ultimately have "rpages r \<inter> rpages tr = {}" using assms(3,4) by (simp add: disjoint_regions_def)
    then have "\<forall>q \<in> rpages r. bk u' q = bk u q" using eff by (meson disjoint_iff)
    with r(4) have "hosted bk u' r" by (rule hosted_frame)
    then show ?thesis using r by blast
  qed
qed

lemma enter_regions_sticky: "fe \<noteq> UC_ERR_OK \<Longrightarrow> fst (enter_regions ops trs fe um) \<noteq> UC_ERR_OK"
  by (induction trs arbitrary: fe um) (auto split: prod.split)

lemma enter_regions_effect:
  assumes "uc_back_ok ops bk" "space_ok eff" "disjoint_regions eff" "\<forall>r \<in> set eff. r_host r \<noteq> 0"
  shows "set trs \<subseteq> set eff \<Longrightarrow> sm_ok m \<Longrightarrow> true_map bk eff u m \<Longrightarrow>
    \<forall>r \<in> set eff - set trs. backed bk u r \<and> map_of (mapped_host m) (r_va r) = Some (r_host r) \<Longrightarrow>
    enter_regions ops trs UC_ERR_OK (u, m) = (UC_ERR_OK, u', m') \<Longrightarrow>
    (\<forall>r \<in> set eff. backed bk u' r \<and> map_of (mapped_host m') (r_va r) = Some (r_host r)) \<and>
    true_map bk eff u' m' \<and> same_spaces m m'"
proof (induction trs arbitrary: u m)
  case (Cons tr trs)
  obtain e v k where en: "enter_region ops tr (u, m) = (e, v, k)" by (cases "enter_region ops tr (u, m)")
  have e: "e = UC_ERR_OK"
    using Cons.prems(5) en enter_regions_sticky [of e ops trs "(v, k)"] by (auto split: if_splits)
  have tr: "tr \<in> set eff" "r_host tr \<noteq> 0" using Cons.prems(1) assms(4) by auto
  note en' = en [unfolded e]
  note eff = enter_region_effect [OF assms(1-3) tr Cons.prems(2,3) en']
  have ok: "sm_ok k" using enter_region_ok [OF Cons.prems(2), of ops tr u] en by simp
  have fin: "backed bk v r \<and> map_of (mapped_host k) (r_va r) = Some (r_host r)"
    if "r \<in> set eff - set trs" for r
  proof (cases "r = tr")
    case False
    then have "rpages r \<inter> rpages tr = {}" using that tr assms(3) by (auto simp: disjoint_regions_def)
    moreover have "r_va r \<noteq> r_va tr"
      using False that tr(1) assms(2) by (metis (no_types) Diff_iff space_ok_def distinct_map inj_onD)
    ultimately show ?thesis using Cons.prems(4) that False eff by (auto simp: backed_def)
  qed (use eff in simp)
  have "(\<forall>r \<in> set eff. backed bk u' r \<and> map_of (mapped_host m') (r_va r) = Some (r_host r)) \<and>
      true_map bk eff u' m' \<and> same_spaces k m'"
    using Cons.prems ok fin en e enter_region_true_map [OF assms(1-3) tr Cons.prems(2,3) en']
    by (intro Cons.IH [of k v]) auto
  then show ?case using eff same_spaces_trans by blast
qed simp

section \<open>The switch\<close>

text \<open>
  The engine and the bookkeeping agree on the active space: each of its regions is on its own
  backing and recorded so, the regions do not overlap, and nothing else is recorded.
\<close>

definition synced :: "('u \<Rightarrow> nat \<Rightarrow> (u64 \<times> nat) option) \<Rightarrow> 'u \<Rightarrow> space_mgr \<Rightarrow> bool" where
  "synced bk u m \<longleftrightarrow>
     (if activated_once m
      then let eff = effective_regions (active_sid m) m in
        disjoint_regions eff \<and> true_map bk eff u m \<and>
        (\<forall>r \<in> set eff. hosted bk u r \<and> map_of (mapped_host m) (r_va r) = Some (r_host r))
      else mapped_host m = [])"

lemma activate_synced:
  assumes "uc_back_ok ops bk" "sm_ok m" "synced bk u m" "disjoint_regions (effective_regions sid m)"
    and "\<forall>r \<in> set (effective_regions sid m). r_host r \<noteq> 0"
    and "activate ops sid (Some u, m) = (UC_ERR_OK, Some u', m')"
  shows "active_sid m' = sid \<and> synced bk u' m' \<and> (\<forall>r \<in> set (effective_regions sid m). hosted bk u' r)"
proof -
  let ?eff = "effective_regions sid m" and ?prev = "effective_regions (active_sid m) m"
  have live: "activate_live ops sid (u, m) = (UC_ERR_OK, u', m')"
    using assms(6) by (auto simp: activate_def split: prod.splits)
  have has: "has_space sid m" using live by (auto simp: activate_live_def split: if_splits)
  show ?thesis
  proof (cases "sid = active_sid m \<and> activated_once m")
    case True
    then have "u' = u" "m' = m" using live has by (auto simp: activate_live_def)
    then show ?thesis using True assms(3) by (auto simp: synced_def Let_def)
  next
    case False
    obtain v k where left: "(if activated_once m then fold (leave_region ops ?eff) ?prev (u, m) else (u, m)) = (v, k)"
      by fastforce
    obtain fe w n where en: "enter_regions ops ?eff UC_ERR_OK (v, k) = (fe, w, n)"
      by (cases "enter_regions ops ?eff UC_ERR_OK (v, k)")
    have res: "fe = UC_ERR_OK" "u' = w" "m' = n\<lparr>active_sid := sid, activated_once := True\<rparr>"
      using live left en by (auto simp: activate_live_switch [OF has False] Let_def)
    have "leaving bk ?eff ?prev ?prev u m" if "activated_once m"
      using assms(3) that by (auto simp: leaving_def synced_def true_map_def Let_def)
    then have pass1: "true_map bk ?eff v k \<and> same_spaces m k"
    proof (cases "activated_once m")
      case True
      then have "leaving bk ?eff ?prev [] v k \<and> same_spaces m k"
        using \<open>activated_once m \<Longrightarrow> leaving bk ?eff ?prev ?prev u m\<close> left assms(3)
        by (intro fold_leave_leaving [OF assms(1) effective_regions_ok [OF assms(2)] _ subset_refl])
           (auto simp: synced_def Let_def)
      then show ?thesis using left_true_map [of bk ?eff ?prev v k] by simp
    qed (use left assms(3) in \<open>auto simp: true_map_def synced_def\<close>)
    have "sm_ok k"
      using fold_leave_ok [of "(u, m)" ops ?eff ?prev] left assms(2) by (auto split: if_splits)
    with pass1 have pass2: "(\<forall>r \<in> set ?eff. backed bk w r \<and> map_of (mapped_host n) (r_va r) = Some (r_host r)) \<and>
        true_map bk ?eff w n \<and> same_spaces k n"
      using en res(1)
      by (intro enter_regions_effect [OF assms(1) effective_regions_ok [OF assms(2)] assms(4,5) subset_refl]) auto
    have "effective_regions sid m' = ?eff"
      using pass1 pass2 res(3) by (intro effective_cong) (auto simp: same_spaces_def)
    then show ?thesis
      using pass2 res assms(4) by (auto simp: synced_def Let_def true_map_def intro: backed_hosted)
  qed
qed

text \<open>
  C5: a switch that reports success is a real switch. If the engine and the bookkeeping agree on the
  space that was active (or no space was), the target's effective regions do not overlap and all
  have a host backing, and \<open>activate\<close> returns success, then the target is the active space, every
  page of every effective region of the target is mapped to the target's own host page, whatever
  backed it before, and engine and bookkeeping agree again, so the next switch starts from the same
  premise.
\<close>

theorem activate_switches_backing:
  assumes "uc_back_ok ops bk" "sm_ok m" "synced bk u m" "disjoint_regions (effective_regions sid m)"
    and "\<forall>r \<in> set (effective_regions sid m). r_host r \<noteq> 0"
    and "activate ops sid (Some u, m) = (UC_ERR_OK, Some u', m')"
  shows "active_sid m' = sid \<and> synced bk u' m' \<and>
    (\<forall>r \<in> set (effective_regions sid m). \<forall>q \<in> rpages r.
       \<exists>p. bk u' q = Some (host_page (r_va r) (r_host r) q, p))"
  using activate_synced [OF assms] by (simp add: hosted_def)

text \<open>An engine that satisfies the laws: a list of mapped pages.\<close>

type_synonym page_list = "(nat \<times> u64 \<times> nat) list"

definition page_range :: "u64 \<Rightarrow> u64 \<Rightarrow> nat list" where
  "page_range b s = [unat (drop_bit 12 b) ..< unat (drop_bit 12 (b + s))]"

definition add_pages :: "(nat \<Rightarrow> u64 \<times> nat) \<Rightarrow> nat list \<Rightarrow> page_list \<Rightarrow> page_list" where
  "add_pages f qs u = map (\<lambda>q. (q, f q)) qs @ u"

definition all_free :: "nat list \<Rightarrow> page_list \<Rightarrow> bool" where
  "all_free qs u \<longleftrightarrow> list_all (\<lambda>q. map_of u q = None) qs"

definition all_mapped :: "nat list \<Rightarrow> page_list \<Rightarrow> bool" where
  "all_mapped qs u \<longleftrightarrow> list_all (\<lambda>q. map_of u q \<noteq> None) qs"

definition back_ops :: "page_list uc_ops" where
  "back_ops = \<lparr>uc_reg_read = (\<lambda>u r. 0), uc_reg_write = (\<lambda>u r v. u),
     uc_mem_read = (\<lambda>u a b. (UC_ERR_OTHER, b)), uc_mem_write = (\<lambda>u a b. (UC_ERR_OTHER, u)),
     uc_mem_map = (\<lambda>u b s p. if all_free (page_range b s) u
        then (UC_ERR_OK, add_pages (\<lambda>q. (0, p)) (page_range b s) u) else (UC_ERR_MAP, u)),
     uc_mem_map_ptr = (\<lambda>u b s p h. if p \<le> 7 \<and> all_free (page_range b s) u
        then (UC_ERR_OK, add_pages (\<lambda>q. (host_page b h q, p)) (page_range b s) u) else (UC_ERR_MAP, u)),
     uc_mem_protect = (\<lambda>u b s p. if p \<le> 7 \<and> all_mapped (page_range b s) u
        then (UC_ERR_OK, map (\<lambda>(q, h, p'). (q, h, if q \<in> set (page_range b s) then p else p')) u)
        else (UC_ERR_NOMEM, u)),
     uc_mem_unmap = (\<lambda>u b s. if all_mapped (page_range b s) u
        then (UC_ERR_OK, filter (\<lambda>(q, _). q \<notin> set (page_range b s)) u) else (UC_ERR_NOMEM, u)),
     uc_mem_regions = (\<lambda>u. (UC_ERR_OK, []))\<rparr>"

lemma set_page_range: "range_ok b s \<Longrightarrow> set (page_range b s) = pages_of b s"
proof -
  assume "range_ok b s"
  then have "unat (b + s) = unat b + unat s"
    by (intro unat_add_lem [THEN iffD1]) (simp add: range_ok_def)
  moreover have "unat (drop_bit 12 x) = unat x div 4096" for x :: u64
    unfolding unat_drop_bit_eq by (simp add: drop_bit_eq_div)
  ultimately show ?thesis by (simp only: page_range_def pages_of_def set_upt)
qed

lemma all_free_iff: "range_ok b s \<Longrightarrow> all_free (page_range b s) u \<longleftrightarrow> (\<forall>q \<in> pages_of b s. map_of u q = None)"
  and all_mapped_iff: "range_ok b s \<Longrightarrow> all_mapped (page_range b s) u \<longleftrightarrow> (\<forall>q \<in> pages_of b s. map_of u q \<noteq> None)"
  unfolding all_free_def all_mapped_def list_all_iff by (simp_all add: set_page_range)

lemma map_of_add_pages: "map_of (add_pages f qs u) = (\<lambda>q. if q \<in> set qs then Some (f q) else map_of u q)"
  by (induction qs) (auto simp: add_pages_def)

lemma map_of_protect:
  "map_of (map (\<lambda>(q, h, p'). (q, h, if q \<in> P then p else p')) u) =
     (\<lambda>q. if q \<in> P then map_option (\<lambda>(h, _). (h, p)) (map_of u q) else map_of u q)"
  by (induction u) auto

lemma map_of_unmap:
  "map_of (filter (\<lambda>(q, _). q \<notin> P) u) = (\<lambda>q. if q \<in> P then None else map_of u q)"
  by (induction u) auto

lemma back_ops_ok: "uc_back_ok back_ops map_of"
proof -
  have "map_of (snd (uc_mem_map back_ops u b s p)) q = map_of u q" if "map_of u q \<noteq> None" for u b s p q
    using that by (auto simp: back_ops_def map_of_add_pages all_free_def list_all_iff)
  then show ?thesis
    unfolding uc_back_ok_def
    by (simp add: back_ops_def all_free_iff all_mapped_iff map_of_add_pages map_of_protect map_of_unmap
        set_page_range) fastforce
qed

text \<open>Two spaces with the same page on different host memory, switched from the first to the second.\<close>

definition two_spaces :: space_mgr where
  "two_spaces = record_region 2 0x1000 0x1000 7 0x7f2000 (record_region 1 0x1000 0x1000 7 0x7f1000 sm_init)"

theorem activate_switches_backing_witness:
  "case activate back_ops 1 (Some [], two_spaces) of (_, u1, m1) \<Rightarrow>
     (case activate back_ops 2 (u1, m1) of (e, u2, m2) \<Rightarrow>
        e = UC_ERR_OK \<and> (\<exists>p. map_of (the u2) 1 = Some (host_page 0x1000 0x7f2000 1, p)))"
proof -
  let ?m1 = "two_spaces\<lparr>mapped_host := [(0x1000, 0x7f1000)], active_sid := 1, activated_once := True\<rparr>"
  let ?m2 = "two_spaces\<lparr>mapped_host := [(0x1000, 0x7f2000)], active_sid := 2, activated_once := True\<rparr>"
  let ?r = "\<lambda>h. \<lparr>r_va = 0x1000, r_size = 0x1000, r_prot = 7, r_host = h\<rparr> :: region"
  have a1: "activate back_ops 1 (Some [], two_spaces) = (UC_ERR_OK, Some [(1, 0x7f1000, 7)], ?m1)"
    and a2: "activate back_ops 2 (Some [(1, 0x7f1000, 7)], ?m1) = (UC_ERR_OK, Some [(1, 0x7f2000, 7)], ?m2)"
    and e1: "effective_regions 1 two_spaces = [?r 0x7f1000]"
    and e2: "effective_regions 2 ?m1 = [?r 0x7f2000]"
    by code_simp+
  have ok1: "sm_ok two_spaces"
    unfolding two_spaces_def by (intro record_region_ok sm_ok_init) simp_all
  have ok2: "sm_ok ?m1" using activate_ok [OF ok1, of back_ops 1 "Some []"] unfolding a1 by simp
  have "synced map_of [] two_spaces" by (simp add: synced_def two_spaces_def record_region_def sm_init_def split: option.split)
  have "synced map_of [(1, 0x7f1000, 7)] ?m1"
    using activate_switches_backing [OF back_ops_ok ok1 \<open>synced map_of [] two_spaces\<close> _ _ a1]
    by (simp add: e1 disjoint_regions_def)
  moreover have "1 \<in> rpages (?r 0x7f2000)" by (simp add: rpages_def pages_of_def)
  ultimately have "\<exists>p. map_of [(1, 0x7f2000, 7)] 1 = Some (host_page 0x1000 0x7f2000 1, p)"
    using activate_switches_backing [OF back_ops_ok ok2 _ _ _ a2] unfolding e2
    by (fastforce simp: disjoint_regions_def)
  then show ?thesis by (simp only: a1 a2 prod.case option.sel simp_thms)
qed

end
