(* ===== verification/L4_Ipc.thy ===== *)
theory L4_Ipc
  imports Zeebo_Prelude
begin

text \<open>
  \<open>tools/cpp/zeebo_l4_ipc.h\<close>: the OKL4 message tag and the registry of system services, two hash
  maps filled together, one by name and one by server thread. The maps are never iterated.
\<close>

section \<open>Message tags\<close>

definition msgtag_create :: "u32 \<Rightarrow> u32 \<Rightarrow> bool \<Rightarrow> bool \<Rightarrow> u32" where
  "msgtag_create untyped label sndblock rcvblock =
     (let raw = (untyped AND 0x3f) OR push_bit 16 (label AND 0xffff);
          raw = (if sndblock then raw OR bit_mask 15 else raw)
      in if rcvblock then raw OR bit_mask 14 else raw)"

definition tag_untyped :: "u32 \<Rightarrow> u32" where
  "tag_untyped raw = raw AND 0x3f"

definition tag_label :: "u32 \<Rightarrow> u32" where
  "tag_label raw = drop_bit 16 raw AND 0xffff"

definition is_error :: "u32 \<Rightarrow> bool" where
  "is_error raw \<longleftrightarrow> raw AND bit_mask 15 \<noteq> 0"

definition is_notify :: "u32 \<Rightarrow> bool" where
  "is_notify raw \<longleftrightarrow> raw AND bit_mask 13 \<noteq> 0"

definition error_tag :: u32 where
  "error_tag = bit_mask 15"

definition nil_tag :: u32 where
  "nil_tag = 0"

section \<open>The service registry\<close>

record service_descriptor =
  sd_name :: string
  server_tid :: u32
  interface_id :: u32
  buffer_base :: u32
  buffer_size :: u32

record service_registry =
  services :: "string \<rightharpoonup> service_descriptor"
  by_tid :: "u32 \<rightharpoonup> service_descriptor"

definition registry_init :: service_registry where
  "registry_init = \<lparr>services = (\<lambda>_. None), by_tid = (\<lambda>_. None)\<rparr>"

definition register_service ::
    "string \<Rightarrow> u32 \<Rightarrow> u32 \<Rightarrow> u32 \<Rightarrow> u32 \<Rightarrow> service_registry \<Rightarrow> bool \<times> service_registry" where
  "register_service name tid iface_id buf_base buf_sz r =
     (if name = '''' \<or> tid = 0 then (False, r)
      else
        let desc = \<lparr>sd_name = name, server_tid = tid, interface_id = iface_id,
                    buffer_base = buf_base, buffer_size = buf_sz\<rparr>
        in (True, r\<lparr>services := (services r)(name \<mapsto> desc), by_tid := (by_tid r)(tid \<mapsto> desc)\<rparr>))"

definition lookup_by_name :: "string \<Rightarrow> service_registry \<Rightarrow> service_descriptor option" where
  "lookup_by_name name r = services r name"

definition lookup_by_tid :: "u32 \<Rightarrow> service_registry \<Rightarrow> service_descriptor option" where
  "lookup_by_tid tid r = by_tid r tid"

definition is_amss_thread :: "u32 \<Rightarrow> service_registry \<Rightarrow> bool" where
  "is_amss_thread tid r =
     (case lookup_by_tid tid r of Some desc \<Rightarrow> sd_name desc = ''amss'' | None \<Rightarrow> False)"

definition get_amss_entry :: "service_registry \<Rightarrow> u32" where
  "get_amss_entry r = (case lookup_by_name ''amss'' r of Some desc \<Rightarrow> buffer_base desc | None \<Rightarrow> 0)"

definition registry_clear :: "service_registry \<Rightarrow> service_registry" where
  "registry_clear r = r\<lparr>services := (\<lambda>_. None), by_tid := (\<lambda>_. None)\<rparr>"

section \<open>Tags carry what was put into them\<close>

lemma and_masks:
  "(x::u32) AND 0x3f = take_bit 6 x" "(x::u32) AND 0xffff = take_bit 16 x"
proof -
  have "(0x3f::u32) = mask 6" "(0xffff::u32) = mask 16" by (simp_all add: mask_eq_exp_minus_1)
  then show "x AND 0x3f = take_bit 6 x" "x AND 0xffff = take_bit 16 x"
    by (simp_all add: take_bit_eq_mask)
qed

lemma bit_mask_bits: "bit (bit_mask k :: u32) n \<longleftrightarrow> n = k \<and> k < 32"
  and and_bit_mask: "(x::u32) AND bit_mask k = 0 \<longleftrightarrow> \<not> bit x k"
  by (auto simp: push_bit_of_1 bit_exp_word and_exp_eq_0)

lemma bit_msgtag:
  "bit (msgtag_create untyped label s r) n \<longleftrightarrow>
     n < 6 \<and> bit untyped n \<or> 16 \<le> n \<and> n < 32 \<and> bit label (n - 16) \<or> s \<and> n = 15 \<or> r \<and> n = 14"
  unfolding msgtag_create_def Let_def and_masks
  by (cases s; cases r; simp only: if_True if_False bit_or_iff bit_mask_bits bit_take_bit_iff
        bit_push_bit_iff)
     (auto simp: bit_1_iff dest: bit_imp_le_length)

text \<open>
  A message tag carries its fields. The tag built from a word count, a label and the two
  blocking flags gives back the count modulo 64, the label modulo \<open>2 ^ 16\<close> and the send flag (the
  bit that reads as the error flag on the receive side), and is never a notification; the error tag
  reads as an error with no words.
\<close>

theorem msgtag_fields:
  "tag_untyped (msgtag_create untyped label s r) = untyped AND 0x3f \<and>
   tag_label (msgtag_create untyped label s r) = label AND 0xffff \<and>
   is_error (msgtag_create untyped label s r) = s \<and>
   \<not> is_notify (msgtag_create untyped label s r) \<and>
   is_error error_tag \<and> tag_untyped error_tag = 0 \<and> \<not> is_error nil_tag"
proof -
  let ?t = "msgtag_create untyped label s r"
  have "tag_untyped ?t = untyped AND 0x3f"
    unfolding tag_untyped_def and_masks
    by (rule bit_word_eqI) (auto simp: bit_take_bit_iff bit_msgtag)
  moreover have "tag_label ?t = label AND 0xffff"
    unfolding tag_label_def and_masks
    by (rule bit_word_eqI) (auto simp: bit_take_bit_iff bit_drop_bit_eq bit_msgtag dest: bit_imp_le_length)
  moreover have "is_error ?t = s" "\<not> is_notify ?t"
    unfolding is_error_def is_notify_def and_bit_mask by (simp_all add: bit_msgtag)
  ultimately show ?thesis by (simp add: error_tag_def nil_tag_def is_error_def tag_untyped_def)
qed

section \<open>Lookups find the last registration\<close>

type_synonym registration = "string \<times> u32 \<times> u32 \<times> u32 \<times> u32"

definition reg_step :: "registration \<Rightarrow> service_registry \<Rightarrow> service_registry" where
  "reg_step = (\<lambda>(name, tid, i, b, s) r. snd (register_service name tid i b s r))"

definition accepted :: "registration \<Rightarrow> bool" where
  "accepted = (\<lambda>(name, tid, _). name \<noteq> '''' \<and> tid \<noteq> 0)"

definition descriptor :: "registration \<Rightarrow> service_descriptor" where
  "descriptor = (\<lambda>(name, tid, i, b, s). \<lparr>sd_name = name, server_tid = tid, interface_id = i,
     buffer_base = b, buffer_size = s\<rparr>)"

lemma reg_step_maps:
  "services (reg_step x r) = (if accepted x then (services r)(fst x \<mapsto> descriptor x) else services r)"
  "by_tid (reg_step x r) = (if accepted x then (by_tid r)(fst (snd x) \<mapsto> descriptor x) else by_tid r)"
  by (cases x; simp add: reg_step_def register_service_def accepted_def descriptor_def Let_def)+

lemma find_snoc: "List.find P (rev (xs @ [x])) = (if P x then Some x else List.find P (rev xs))"
  by simp

text \<open>
  A lookup finds the registration made last. After any sequence of registrations the descriptor
  found under a name is the one of the last accepted registration with that name, and the one
  found under a thread the one of the last accepted registration with that thread; registrations
  with an empty name or a null thread leave no trace.
\<close>

theorem registry_lookup_last:
  "lookup_by_name name (fold reg_step xs registry_init) =
     map_option descriptor (List.find (\<lambda>x. accepted x \<and> fst x = name) (rev xs)) \<and>
   lookup_by_tid tid (fold reg_step xs registry_init) =
     map_option descriptor (List.find (\<lambda>x. accepted x \<and> fst (snd x) = tid) (rev xs))"
proof (induction xs rule: rev_induct)
  case Nil
  then show ?case by (simp add: lookup_by_name_def lookup_by_tid_def registry_init_def)
next
  case (snoc x xs)
  then show ?case
    by (auto simp: lookup_by_name_def lookup_by_tid_def reg_step_maps find_snoc)
qed

text \<open>
  Re-registering a service under another thread leaves the old thread behind. After ''amss'' is
  registered for thread \<open>t\<close> and then for another thread \<open>t'\<close>, both threads are reported as AMSS entry
  threads, although only the second registration is found by name.
\<close>

theorem stale_amss_thread:
  assumes "t \<noteq> 0" "t' \<noteq> 0" "t \<noteq> t'"
  shows "let r = snd (register_service ''amss'' t' i' b' s' (snd (register_service ''amss'' t i b s r0)))
    in is_amss_thread t r \<and> is_amss_thread t' r \<and> get_amss_entry r = b'"
  using assms
  by (simp add: register_service_def is_amss_thread_def lookup_by_tid_def lookup_by_name_def
      get_amss_entry_def Let_def)

theorem stale_amss_thread_witness:
  "is_amss_thread 5 (snd (register_service ''amss'' 9 0 0x2000 0
     (snd (register_service ''amss'' 5 0 0x1000 0 registry_init))))"
  using stale_amss_thread [of 5 9 0 "0x2000" 0 0 "0x1000" 0 registry_init] by (simp add: Let_def)

end
