(* ===== verification/Brew_Mif.thy ===== *)
theory Brew_Mif
  imports Byte_Reader
begin

text \<open>
  \<open>tools/cpp/zeebo_brew_mif.h\<close>: the structural parser of BREW MIF files. A MIF holds a table of
  section boundaries; an applet record is a 20-byte section whose second and fourth words are zero.
  Parsing is in the option monad of \<open>Byte_Reader\<close>: \<open>None\<close> would be a read outside the file.
\<close>

record mif_applet_info =
  mif_clsid :: u32
  mif_name :: "u8 list"
  mif_mod_file :: "u8 list"
  mif_valid :: bool

definition mif_info_init :: mif_applet_info where
  "mif_info_init = \<lparr>mif_clsid = 0, mif_name = [], mif_mod_file = [], mif_valid = False\<rparr>"

definition kMagic :: u16 where "kMagic = 0x0011"
definition kHeaderSize :: nat where "kHeaderSize = 0x20"
definition kAppletRecordSize :: u32 where "kAppletRecordSize = 20"

text \<open>One section \<open>[previous, next)\<close>: does it hold an applet record, and with which class id.\<close>

definition mif_section :: "u8 list \<Rightarrow> u32 \<Rightarrow> u32 \<Rightarrow> mif_applet_info \<Rightarrow> mif_applet_info option" where
  "mif_section d previous next info =
     (if next - previous = kAppletRecordSize then do {
        w1 \<leftarrow> at32 d (unat previous + 4);
        if w1 = 0 then do {
          w3 \<leftarrow> at32 d (unat previous + 12);
          if w3 = 0 then do {
            clsid \<leftarrow> at32 d (unat previous);
            Some (if clsid \<noteq> 0 \<and> \<not> mif_valid info
                  then info\<lparr>mif_clsid := clsid, mif_valid := True\<rparr> else info)
          } else Some info
        } else Some info
      } else Some info)"

text \<open>
  The loop over the sections; \<open>left\<close> iterations remain, the next boundary is entry \<open>i + 1\<close> of the
  table at \<open>tab\<close>. The boolean is False when the loop returns an empty result early.
\<close>

fun mif_sections ::
    "u8 list \<Rightarrow> nat \<Rightarrow> nat \<Rightarrow> nat \<Rightarrow> u32 \<Rightarrow> mif_applet_info \<Rightarrow> (bool \<times> mif_applet_info) option" where
  "mif_sections d tab 0 i previous info = Some (True, info)"
| "mif_sections d tab (Suc left) i previous info = do {
     next \<leftarrow> at32 d (tab + (i + 1) * 4);
     if next < previous \<or> length d < unat next then Some (False, mif_info_init)
     else do {
       info \<leftarrow> mif_section d previous next info;
       mif_sections d tab left (i + 1) next info
     }
   }"

definition dot_mod :: "u8 list" where
  "dot_mod = [0x2e, 0x6d, 0x6f, 0x64]"

text \<open>The backward scan over printable characters.\<close>

fun name_start :: "u8 list \<Rightarrow> nat \<Rightarrow> nat option" where
  "name_start d 0 = Some 0"
| "name_start d (Suc s) = do {
     c \<leftarrow> at8 d s;
     if 0x20 \<le> c \<and> c \<le> 0x7e then name_start d s else Some (Suc s)
   }"

text \<open>The search for the module name from \<open>i\<close> on; the inner option is \<open>None\<close> when there is none.\<close>

function mod_file_from :: "u8 list \<Rightarrow> nat \<Rightarrow> u8 list option option" where
  "mod_file_from d i =
     (if i + 4 \<le> length d then do {
        w \<leftarrow> bytes_at d i 4;
        if w \<noteq> dot_mod then mod_file_from d (i + 1)
        else do {
          start \<leftarrow> name_start d i;
          f \<leftarrow> bytes_at d start (i + 4 - start);
          Some (Some f)
        }
      } else Some None)"
  by pat_completeness auto
termination
  by (relation "measure (\<lambda>(d, i). length d - i)") auto

declare mod_file_from.simps [simp del]

definition mif_parse :: "u8 list option \<Rightarrow> mif_applet_info option" where
  "mif_parse data =
     (case data of
        None \<Rightarrow> Some mif_info_init
      | Some d \<Rightarrow>
          if length d < kHeaderSize then Some mif_info_init
          else do {
            magic \<leftarrow> at16 d 0;
            if magic \<noteq> kMagic then Some mif_info_init
            else do {
              table_offset \<leftarrow> at32 d 0x10;
              section_count \<leftarrow> at32 d 0x14;
              if section_count = 0 \<or> length d div 4 < unat section_count then Some mif_info_init
              else if length d < unat table_offset \<or>
                      (length d - unat table_offset) div 4 < unat section_count + 1
              then Some mif_info_init
              else do {
                previous \<leftarrow> at32 d (unat table_offset);
                if length d < unat previous then Some mif_info_init
                else do {
                  (go, info) \<leftarrow> mif_sections d (unat table_offset) (unat section_count) 0 previous
                                  mif_info_init;
                  if go then do {
                    f \<leftarrow> mod_file_from d 0;
                    Some (case f of Some f \<Rightarrow> info\<lparr>mif_mod_file := f\<rparr> | None \<Rightarrow> info)
                  } else Some info
                }
              }
            }
          })"

section \<open>What a MIF file says\<close>

text \<open>
  The format, independently of the parser: the table of section boundaries has one entry more than there are
  sections, lies in the file, and its entries ascend and point into the file. A section is an applet record
  when it is 20 bytes long, its second and fourth words are zero and its first word, the class id, is not.
\<close>

definition mif_table :: "u8 list \<Rightarrow> nat" where "mif_table d = unat (rd32 d 0x10)"
definition mif_count :: "u8 list \<Rightarrow> nat" where "mif_count d = unat (rd32 d 0x14)"

definition mif_bounds :: "u8 list \<Rightarrow> u32 list" where
  "mif_bounds d = map (\<lambda>j. rd32 d (mif_table d + 4 * j)) [0..<mif_count d + 1]"

definition mif_well_formed :: "u8 list \<Rightarrow> bool" where
  "mif_well_formed d \<longleftrightarrow>
     0x20 \<le> length d \<and> d ! 0 = 0x11 \<and> d ! 1 = 0 \<and> mif_count d \<noteq> 0 \<and>
     mif_table d + 4 * (mif_count d + 1) \<le> length d \<and>
     sorted (mif_bounds d) \<and> list_all (\<lambda>q. unat q \<le> length d) (mif_bounds d)"

definition applet_section :: "u8 list \<Rightarrow> u32 \<Rightarrow> u32 \<Rightarrow> bool" where
  "applet_section d p q \<longleftrightarrow>
     unat q = unat p + 20 \<and> rd32 d (unat p + 4) = 0 \<and> rd32 d (unat p + 12) = 0 \<and> rd32 d (unat p) \<noteq> 0"

fun mif_classes :: "u8 list \<Rightarrow> u32 list \<Rightarrow> u32 list" where
  "mif_classes d (p # q # bs) =
     (if applet_section d p q then rd32 d (unat p) # mif_classes d (q # bs) else mif_classes d (q # bs))"
| "mif_classes d _ = []"

text \<open>The printable characters that end at \<open>i\<close>, and the first name in the file that ends in ".mod".\<close>

definition is_print :: "u8 \<Rightarrow> bool" where
  "is_print c \<longleftrightarrow> 0x20 \<le> c \<and> c \<le> 0x7e"

definition print_before :: "u8 list \<Rightarrow> nat \<Rightarrow> u8 list" where
  "print_before d i = rev (takeWhile is_print (rev (take i d)))"

definition mod_name :: "u8 list \<Rightarrow> u8 list option" where
  "mod_name d = map_option (\<lambda>i. print_before d i @ dot_mod) (find (\<lambda>i. take 4 (drop i d) = dot_mod) [0..<length d])"

definition mif_spec :: "u8 list \<Rightarrow> mif_applet_info" where
  "mif_spec d =
     (if mif_well_formed d then
        \<lparr>mif_clsid = (case mif_classes d (mif_bounds d) of [] \<Rightarrow> 0 | c # _ \<Rightarrow> c), mif_name = [],
         mif_mod_file = (case mod_name d of None \<Rightarrow> [] | Some f \<Rightarrow> f), mif_valid = (mif_classes d (mif_bounds d) \<noteq> [])\<rparr>
      else mif_info_init)"

section \<open>The sections\<close>

lemma section_size: "(p::u32) \<le> q \<Longrightarrow> q - p = kAppletRecordSize \<longleftrightarrow> unat q = unat p + 20"
  by (simp add: kAppletRecordSize_def word_unat_eq_iff unat_sub word_le_nat_alt) arith

lemma mif_section_spec:
  assumes "p \<le> q" "unat q \<le> length d"
  shows "mif_section d p q info =
    Some (if applet_section d p q \<and> \<not> mif_valid info then info\<lparr>mif_clsid := rd32 d (unat p), mif_valid := True\<rparr> else info)"
proof (cases "unat q = unat p + 20")
  case True
  then have "unat p + 20 \<le> length d" using assms(2) by simp
  then show ?thesis using True section_size [OF assms(1)] by (simp add: mif_section_def applet_section_def)
next
  case False
  then show ?thesis using section_size [OF assms(1)] by (simp add: mif_section_def applet_section_def)
qed

definition first_class :: "u32 list \<Rightarrow> mif_applet_info \<Rightarrow> mif_applet_info" where
  "first_class cs info =
     (if mif_valid info then info else case cs of [] \<Rightarrow> info | c # _ \<Rightarrow> info\<lparr>mif_clsid := c, mif_valid := True\<rparr>)"

lemma mif_sections_spec:
  assumes "tab + (i + left + 1) * 4 \<le> length d"
  shows "mif_sections d tab left i p info =
    (let bs = p # map (\<lambda>j. rd32 d (tab + j * 4)) [i + 1..<i + 1 + left]
     in Some (if sorted bs \<and> list_all (\<lambda>q. unat q \<le> length d) (tl bs)
              then (True, first_class (mif_classes d bs) info) else (False, mif_info_init)))"
  using assms
proof (induction left arbitrary: i p info)
  case 0
  then show ?case by (simp add: first_class_def)
next
  case (Suc left)
  let ?q = "rd32 d (tab + (i + 1) * 4)" and ?bs = "map (\<lambda>j. rd32 d (tab + j * 4)) [i + 2..<i + 2 + left]"
  have at: "at32 d (tab + (i + 1) * 4) = Some ?q" using Suc.prems by (intro at_Some) simp
  have bs: "map (\<lambda>j. rd32 d (tab + j * 4)) [i + 1..<i + 1 + Suc left] = ?q # ?bs"
    by (simp add: upt_conv_Cons del: upt_Suc)
  show ?case
  proof (cases "?q < p \<or> length d < unat ?q")
    case True
    then have "\<not> (sorted (p # ?q # ?bs) \<and> list_all (\<lambda>q. unat q \<le> length d) (?q # ?bs))" by auto
    then show ?thesis using True at by (simp only: bs Let_def list.sel) auto
  next
    case False
    then have ok: "p \<le> ?q" "unat ?q \<le> length d" by auto
    let ?info = "if applet_section d p ?q \<and> \<not> mif_valid info then info\<lparr>mif_clsid := rd32 d (unat p), mif_valid := True\<rparr> else info"
    have "mif_sections d tab (Suc left) i p info = mif_sections d tab left (i + 1) ?q ?info"
      using at False mif_section_spec [OF ok, of info] by simp
    also have "\<dots> = Some (if sorted (?q # ?bs) \<and> list_all (\<lambda>q. unat q \<le> length d) ?bs
        then (True, first_class (mif_classes d (?q # ?bs)) ?info) else (False, mif_info_init))"
    proof -
      have "i + 1 + 1 = i + 2" by simp
      moreover have "tab + (i + 1 + left + 1) * 4 \<le> length d" using Suc.prems by simp
      ultimately show ?thesis using Suc.IH [of "i + 1" ?q ?info] by (simp only: Let_def list.sel)
    qed
    also have "first_class (mif_classes d (?q # ?bs)) ?info = first_class (mif_classes d (p # ?q # ?bs)) info"
      by (simp add: first_class_def)
    also have "sorted (?q # ?bs) \<and> list_all (\<lambda>q. unat q \<le> length d) ?bs \<longleftrightarrow>
        sorted (p # ?q # ?bs) \<and> list_all (\<lambda>q. unat q \<le> length d) (?q # ?bs)"
      using ok by auto
    finally show ?thesis by (simp only: bs Let_def list.sel)
  qed
qed

section \<open>The module name\<close>

lemma takeWhile_rev: "rev (takeWhile P (rev xs)) = drop (length xs - length (takeWhile P (rev xs))) xs"
proof -
  have "rev (takeWhile P (rev xs)) = rev (take (length (takeWhile P (rev xs))) (rev xs))"
    using takeWhile_eq_take [of P "rev xs"] by simp
  then show ?thesis by (simp only: rev_take length_rev rev_rev_ident)
qed

lemma print_before_drop:
  "print_before d i = drop (length (take i d) - length (takeWhile is_print (rev (take i d)))) (take i d)"
  unfolding print_before_def by (rule takeWhile_rev)

lemma name_start_spec:
  "i \<le> length d \<Longrightarrow> name_start d i = Some (i - length (takeWhile is_print (rev (take i d))))"
proof (induction i)
  case (Suc i)
  have "rev (take (Suc i) d) = d ! i # rev (take i d)" using Suc.prems by (simp add: take_Suc_conv_app_nth)
  then show ?case using Suc by (simp add: is_print_def)
qed simp

lemma name_bytes:
  assumes "i + 4 \<le> length d" "take 4 (drop i d) = dot_mod"
  shows "do { start \<leftarrow> name_start d i; bytes_at d start (i + 4 - start) } = Some (print_before d i @ dot_mod)"
proof -
  let ?k = "length (takeWhile is_print (rev (take i d)))"
  have k: "?k \<le> i" using length_takeWhile_le [of is_print "rev (take i d)"] assms(1) by simp
  have "take (i + 4 - (i - ?k)) (drop (i - ?k) d) = take ?k (drop (i - ?k) d) @ take 4 (drop ?k (drop (i - ?k) d))"
  proof -
    have "i + 4 - (i - ?k) = ?k + 4" using k by simp
    then show ?thesis by (simp only: take_add)
  qed
  also have "\<dots> = print_before d i @ dot_mod"
    using k assms by (simp add: print_before_drop drop_take)
  finally show ?thesis using k assms(1) by (simp add: name_start_spec)
qed

lemma mod_file_from_spec:
  "mod_file_from d i = Some (map_option (\<lambda>i. print_before d i @ dot_mod)
     (find (\<lambda>i. take 4 (drop i d) = dot_mod) [i..<length d]))"
proof (induction d i rule: mod_file_from.induct)
  case (1 d i)
  show ?case
  proof (cases "i + 4 \<le> length d")
    case True
    then have up: "[i..<length d] = i # [i + 1..<length d]" by (simp add: upt_conv_Cons)
    have b: "bytes_at d i 4 = Some (take 4 (drop i d))" using True by simp
    show ?thesis
    proof (cases "take 4 (drop i d) = dot_mod")
      case mod: True
      have "mod_file_from d i = map_option Some (do { start \<leftarrow> name_start d i; bytes_at d start (i + 4 - start) })"
        using True mod b by (subst mod_file_from.simps) (simp add: map_conv_bind_option comp_def)
      then show ?thesis unfolding name_bytes [OF True mod] up using mod by simp
    next
      case False
      then show ?thesis using "1.IH" True b up by (subst mod_file_from.simps) simp
    qed
  next
    case False
    have "take 4 (drop k d) \<noteq> dot_mod" if "i \<le> k" for k
    proof
      assume "take 4 (drop k d) = dot_mod"
      then have "length (take 4 (drop k d)) = 4" by (simp add: dot_mod_def)
      then show False using False that by simp
    qed
    then have "find (\<lambda>i. take 4 (drop i d) = dot_mod) [i..<length d] = None" by (simp add: find_None_iff)
    then show ?thesis using False by (subst mod_file_from.simps) simp
  qed
qed

section \<open>The parser\<close>

lemma magic_bytes: "2 \<le> length d \<Longrightarrow> at16 d 0 = Some kMagic \<longleftrightarrow> d ! 0 = 0x11 \<and> d ! 1 = 0"
proof -
  assume len: "2 \<le> length d"
  let ?w = "ucast (d ! 0) OR push_bit 8 (ucast (d ! 1)) :: u16"
  have parts: "ucast ?w = d ! 0" "ucast (drop_bit 8 ?w) = d ! 1"
    by (rule bit_word_eqI; auto simp: bit_ucast_iff bit_or_iff bit_push_bit_iff bit_drop_bit_eq dest: bit_imp_le_length)+
  show ?thesis
  proof
    assume "at16 d 0 = Some kMagic"
    then have "?w = 0x11" using len by (simp add: at16_def kMagic_def)
    then have "d ! 0 = ucast (0x11 :: u16) \<and> d ! 1 = ucast (drop_bit 8 (0x11 :: u16))" using parts by (simp only:)
    then show "d ! 0 = 0x11 \<and> d ! 1 = 0" by simp
  qed (use len in \<open>simp add: at16_def kMagic_def\<close>)
qed

lemma mif_parse_is_spec: "mif_parse (Some d) = Some (mif_spec d)"
proof (cases "0x20 \<le> length d")
  case True
  let ?tab = "mif_table d" and ?n = "mif_count d"
  have hdr: "at32 d 0x10 = Some (rd32 d 0x10)" "at32 d 0x14 = Some (rd32 d 0x14)" "\<exists>m. at16 d 0 = Some m"
    using True by (simp_all add: at16_def)
  have magic: "at16 d 0 = Some kMagic \<longleftrightarrow> d ! 0 = 0x11 \<and> d ! 1 = 0" using True by (intro magic_bytes) simp
  have zero: "rd32 d 0x14 = 0 \<longleftrightarrow> ?n = 0" by (simp add: mif_count_def unat_eq_zero)
  have fits: "\<not> (length d < ?tab \<or> (length d - ?tab) div 4 < ?n + 1) \<longleftrightarrow> ?tab + 4 * (?n + 1) \<le> length d"
    by (auto simp: not_less less_eq_div_iff_mult_less_eq)
  show ?thesis
  proof (cases "d ! 0 = 0x11 \<and> d ! 1 = 0 \<and> ?n \<noteq> 0 \<and> ?tab + 4 * (?n + 1) \<le> length d")
    case False
    then have "\<not> mif_well_formed d" by (auto simp: mif_well_formed_def)
    moreover have "mif_parse (Some d) = Some mif_info_init"
    proof (cases "at16 d 0 = Some kMagic \<and> ?n \<noteq> 0")
      case ok: True
      then have "length d < ?tab \<or> (length d - ?tab) div 4 < ?n + 1" using fits magic False by blast
      then show ?thesis using True hdr(1,2) ok by (auto simp: mif_parse_def kHeaderSize_def mif_table_def mif_count_def)
    next
      case bad: False
      obtain m where "at16 d 0 = Some m" using hdr(3) by blast
      then show ?thesis using True hdr(1,2) zero bad by (auto simp: mif_parse_def kHeaderSize_def)
    qed
    ultimately show ?thesis by (simp add: mif_spec_def)
  next
    case head: True
    then have n: "\<not> length d div 4 < ?n" by (simp add: not_less less_eq_div_iff_mult_less_eq)
    let ?p = "rd32 d ?tab"
    have "[0..<?n + 1] = 0 # [1..<1 + ?n]" by (simp add: upt_conv_Cons)
    then have bs: "mif_bounds d = ?p # map (\<lambda>j. rd32 d (?tab + j * 4)) [0 + 1..<0 + 1 + ?n]"
      by (simp add: mif_bounds_def mult.commute)
    have p: "at32 d ?tab = Some ?p" using head by (intro at_Some) simp
    note sec = mif_sections_spec [of ?tab 0 ?n d ?p mif_info_init, unfolded Let_def, folded bs]
    have "mif_parse (Some d) =
        (if length d < unat ?p then Some mif_info_init
         else do { (go, info) \<leftarrow> mif_sections d ?tab ?n 0 ?p mif_info_init;
                if go then do { f \<leftarrow> mod_file_from d 0; Some (case f of Some f \<Rightarrow> info\<lparr>mif_mod_file := f\<rparr> | None \<Rightarrow> info) }
                else Some info })"
      using True hdr magic zero fits head n p by (simp add: mif_parse_def kHeaderSize_def mif_table_def mif_count_def)
    also have "\<dots> = Some (mif_spec d)"
    proof (cases "sorted (mif_bounds d) \<and> list_all (\<lambda>q. unat q \<le> length d) (mif_bounds d)")
      case True
      then have "mif_well_formed d" using \<open>0x20 \<le> length d\<close> head by (simp add: mif_well_formed_def)
      moreover have "\<not> length d < unat ?p" "list_all (\<lambda>q. unat q \<le> length d) (tl (mif_bounds d))"
        using True unfolding bs by simp_all
      ultimately show ?thesis using sec head True
        by (simp add: mod_file_from_spec mif_spec_def mod_name_def first_class_def mif_info_init_def split: list.split option.split)
    next
      case False
      then have "\<not> mif_well_formed d" by (auto simp: mif_well_formed_def)
      moreover have "length d < unat ?p \<or> \<not> (sorted (mif_bounds d) \<and> list_all (\<lambda>q. unat q \<le> length d) (tl (mif_bounds d)))"
        using False unfolding bs by auto
      ultimately show ?thesis using sec head by (auto simp: mif_spec_def)
    qed
    finally show ?thesis .
  qed
next
  case False
  then show ?thesis by (simp add: mif_parse_def kHeaderSize_def mif_spec_def mif_well_formed_def)
qed

text \<open>What a reader of the result knows: a valid result names a record that is in the file.\<close>

definition applet_record_at :: "u8 list \<Rightarrow> nat \<Rightarrow> u32 \<Rightarrow> bool" where
  "applet_record_at d p c \<longleftrightarrow>
     p + 20 \<le> length d \<and> rd32 d p = c \<and> c \<noteq> 0 \<and> rd32 d (p + 4) = 0 \<and> rd32 d (p + 12) = 0"

lemma mif_classes_records:
  "list_all (\<lambda>q. unat q \<le> length d) bs \<Longrightarrow> c \<in> set (mif_classes d bs) \<Longrightarrow> \<exists>p. applet_record_at d p c"
  by (induction d bs rule: mif_classes.induct) (auto simp: applet_section_def applet_record_at_def split: if_splits)

lemma mif_parse_found: "\<exists>info. mif_parse (Some d) = Some info \<and> (mif_valid info \<longrightarrow> (\<exists>p. applet_record_at d p (mif_clsid info)))"
proof -
  have "\<exists>p. applet_record_at d p (mif_clsid (mif_spec d))" if "mif_valid (mif_spec d)"
    using that mif_classes_records [of d "mif_bounds d"]
    by (cases "mif_classes d (mif_bounds d)") (auto simp: mif_spec_def mif_well_formed_def mif_info_init_def split: if_splits)
  then show ?thesis using mif_parse_is_spec [of d] by blast
qed

text \<open>
  C36: parsing a MIF file returns, for every sequence of bytes, exactly what the file says, and reads no byte
  outside it (the header, the table of boundaries, the records, the search for ".mod" and the scan back over
  the name included). A file that is too short, has the wrong magic, no sections, a table that does not fit
  or boundaries that descend or leave the file gives the empty result; otherwise the result is valid exactly
  when some section is an applet record, its class id is that of the first one, and the module name is the
  first run of printable characters that ends in ".mod".
\<close>

theorem mif_parse_exact: "mif_parse (Some d) = Some (mif_spec d)"
  by (rule mif_parse_is_spec)

text \<open>A file with one section that holds an applet record, followed by a module name.\<close>

definition demo_mif :: "u8 list" where
  "demo_mif = [0x11, 0] @ replicate 14 0 @ le32_bytes 0x20 @ le32_bytes 1 @ replicate 8 0 @
     le32_bytes 0x28 @ le32_bytes 0x3c @ le32_bytes 0x01234567 @ replicate 16 0 @
     [0x61, 0x2e, 0x6d, 0x6f, 0x64]"

lemma demo_mif_parsed:
  "mif_parse (Some demo_mif) = Some \<lparr>mif_clsid = 0x01234567, mif_name = [],
     mif_mod_file = [0x61, 0x2e, 0x6d, 0x6f, 0x64], mif_valid = True\<rparr>"
  by code_simp

end
