(* ===== verification/Bootinfo.thy ===== *)
theory Bootinfo
  imports Byte_Reader L4_Mmu
begin

text \<open>
  \<open>tools/cpp/zeebo_bootinfo.h\<close>: locating and enumerating the OKL4 BootInfo records inside the APPS
  image, and the decomposition of a virtual range into fpages. Reads are those of \<open>Byte_Reader\<close>, so
  \<open>None\<close> from \<open>locate\<close> would be a read past the image.
\<close>

definition BI_TAG_EMPTY :: u32 where "BI_TAG_EMPTY = 1"
definition BI_TAG_INIT :: u32 where "BI_TAG_INIT = 4"
definition BI_TAG_VIRT_POOLS :: u32 where "BI_TAG_VIRT_POOLS = 5"
definition BI_TAG_PHYS_POOLS :: u32 where "BI_TAG_PHYS_POOLS = 6"
definition BI_MAGIC :: u32 where "BI_MAGIC = 0x1960021d"

record bi_record =
  bi_offset :: u32
  bi_type :: u32
  bi_len :: u32
  bi_payload :: "u32 list"

record boot_info =
  base_offset :: u32
  bi_magic :: u32
  bi_records :: "bi_record list"

definition boot_info_init :: boot_info where
  "boot_info_init = \<lparr>base_offset = 0, bi_magic = 0, bi_records = []\<rparr>"

definition pools :: "u32 \<Rightarrow> boot_info \<Rightarrow> (u32 \<times> u32) list" where
  "pools tag bi = map (\<lambda>r. (bi_payload r ! 0, bi_payload r ! 1))
     (filter (\<lambda>r. bi_type r = tag \<and> length (bi_payload r) \<ge> 2) (bi_records bi))"

definition payload_at :: "u8 list \<Rightarrow> nat \<Rightarrow> nat \<Rightarrow> u32 list option" where
  "payload_at d pos len = those (map (\<lambda>j. at32 d (pos + 4 + 4 * j)) [0..<(len - 4) div 4])"

text \<open>The record walk from position \<open>pos\<close>; \<open>i\<close> is where the block began.\<close>

function bi_walk :: "u8 list \<Rightarrow> nat \<Rightarrow> nat \<Rightarrow> bi_record list \<Rightarrow> bi_record list option" where
  "bi_walk d i pos recs =
     (if pos + 4 \<le> length d then do {
        w0 \<leftarrow> at32 d pos;
        let len = unat (w0 AND 0xffff);
        if len < 4 \<or> length d < pos + len then Some recs
        else do {
          payload \<leftarrow> payload_at d pos len;
          let recs = recs @ [\<lparr>bi_offset = of_nat pos, bi_type = drop_bit 16 w0,
                              bi_len = w0 AND 0xffff, bi_payload = payload\<rparr>];
          if pos + len - i > 0x2000 then Some recs
          else bi_walk d i (pos + len) recs
        }
      } else Some recs)"
  by pat_completeness auto
termination
  by (relation "measure (\<lambda>(d, i, pos, recs). length d - pos)") auto

declare bi_walk.simps [simp del]

function locate_from :: "u8 list \<Rightarrow> nat \<Rightarrow> boot_info \<Rightarrow> (bool \<times> boot_info) option" where
  "locate_from d i out =
     (if i + 8 \<le> length d then do {
        h \<leftarrow> at32 d i;
        m \<leftarrow> at32 d (i + 4);
        if h = 0x00010010 \<and> m = BI_MAGIC then do {
          recs \<leftarrow> bi_walk d i i [];
          Some (recs \<noteq> [], \<lparr>base_offset = of_nat i, bi_magic = BI_MAGIC, bi_records = recs\<rparr>)
        }
        else locate_from d (i + 4) out
      } else Some (False, out))"
  by pat_completeness auto
termination
  by (relation "measure (\<lambda>(d, i, out). length d - i)") auto

declare locate_from.simps [simp del]

definition locate :: "u8 list \<Rightarrow> boot_info \<Rightarrow> (bool \<times> boot_info) option" where
  "locate d out = locate_from d 0 out"

text \<open>
  The fpage loop. It need not end: \<open>va += step\<close> wraps, so the loop is a partial function whose
  value is \<open>None\<close> when it runs forever. (The shift is defined in the source for \<open>page_log2 < 32\<close>.)
\<close>

definition bi_fpage :: "u32 \<Rightarrow> u32 \<Rightarrow> u32 \<Rightarrow> u32" where
  "bi_fpage va page_log2 rwx =
     (va AND NOT 0x3ff) OR push_bit 4 (page_log2 AND 0x3f) OR (rwx AND 7)"

partial_function (option) fpages_from :: "u32 \<Rightarrow> u32 \<Rightarrow> u32 \<Rightarrow> u32 \<Rightarrow> u32 list \<Rightarrow> u32 list option" where
  "fpages_from va va_end page_log2 rwx out =
     (if va < va_end
      then fpages_from (va + push_bit (unat page_log2) 1) va_end page_log2 rwx
             (out @ [bi_fpage va page_log2 rwx])
      else Some out)"

definition enumerate_fpages :: "u32 \<Rightarrow> u32 \<Rightarrow> u32 \<Rightarrow> u32 \<Rightarrow> u32 list option" where
  "enumerate_fpages va_start va_end page_log2 rwx = fpages_from va_start va_end page_log2 rwx []"

section \<open>Locating stays inside the image\<close>

lemma payload_in_bounds:
  assumes "pos + len \<le> length d" "4 \<le> len"
  shows "payload_at d pos len = Some (map (\<lambda>j. rd32 d (pos + 4 + 4 * j)) [0..<(len - 4) div 4])"
  unfolding payload_at_def
proof (rule those_map_Some)
  fix j assume "j \<in> set [0..<(len - 4) div 4]"
  then have "4 * j + 4 \<le> len - 4" by auto
  then show "at32 d (pos + 4 + 4 * j) = Some (rd32 d (pos + 4 + 4 * j))"
    using assms by (intro at_Some) simp
qed

lemma bi_walk_total: "\<exists>recs'. bi_walk d i pos recs = Some (recs @ recs')"
proof (induction d i pos recs rule: bi_walk.induct)
  case (1 d i pos recs)
  let ?w = "rd32 d pos" let ?len = "unat (?w AND 0xffff)"
  show ?case
  proof (cases "pos + 4 \<le> length d \<and> \<not> (?len < 4 \<or> length d < pos + ?len)")
    case True
    let ?ps = "map (\<lambda>j. rd32 d (pos + 4 + 4 * j)) [0..<(?len - 4) div 4]"
    let ?r = "\<lparr>bi_offset = of_nat pos, bi_type = drop_bit 16 ?w, bi_len = ?w AND 0xffff, bi_payload = ?ps\<rparr>"
    have p: "payload_at d pos ?len = Some ?ps" using True by (intro payload_in_bounds) auto
    show ?thesis
    proof (cases "pos + ?len - i > 0x2000")
      case False
      then have "\<exists>recs'. bi_walk d i (pos + ?len) (recs @ [?r]) = Some ((recs @ [?r]) @ recs')"
        using True p by (intro "1.IH") auto
      then show ?thesis using True p False by (subst bi_walk.simps) (auto simp: Let_def)
    qed (use True p in \<open>subst bi_walk.simps, auto simp: Let_def\<close>)
  qed (subst bi_walk.simps, auto simp: Let_def)
qed

lemma locate_from_total: "locate_from d i out \<noteq> None"
proof (induction d i out rule: locate_from.induct)
  case (1 d i out)
  then show ?case
    using bi_walk_total [of d i i "[]"] by (subst locate_from.simps) (auto split: bind_splits)
qed

section \<open>Encoding and locating\<close>

text \<open>A record as the image holds it: its header word and its payload words.\<close>

definition enc_record :: "u32 \<times> u32 list \<Rightarrow> u8 list" where
  "enc_record = (\<lambda>(t, ws). le32_bytes (push_bit 16 t OR of_nat (4 + 4 * length ws)) @ concat (map le32_bytes ws))"

definition enc_ok :: "u32 \<times> u32 list \<Rightarrow> bool" where
  "enc_ok = (\<lambda>(t, ws). unat t < 2 ^ 16 \<and> 4 + 4 * length ws < 2 ^ 16)"

lemma length_enc: "length (enc_record (t, ws)) = 4 + 4 * length ws"
  by (simp add: enc_record_def)

lemma header_fields:
  assumes "unat (t::u32) < 2 ^ 16" "n < 2 ^ 16"
  shows "drop_bit 16 (push_bit 16 t OR of_nat n) = t" "(push_bit 16 t OR of_nat n) AND 0xffff = of_nat n"
proof -
  have m: "(0xffff::u32) = mask 16" by (simp add: mask_eq_exp_minus_1)
  have n: "\<not> bit (of_nat n :: u32) k" if "16 \<le> k" for k
    using assms(2) that word_less_exp_iff [of "of_nat n :: u32" 16] by (simp add: unat_of_nat)
  have t: "\<not> bit t k" if "16 \<le> k" for k
    using assms(1) that word_less_exp_iff [of t 16] by simp
  show "drop_bit 16 (push_bit 16 t OR of_nat n) = t"
    by (rule bit_word_eqI)
       (auto simp: bit_drop_bit_eq bit_or_iff bit_push_bit_iff n dest: bit_imp_le_length, meson t not_le)
  show "(push_bit 16 t OR of_nat n) AND 0xffff = of_nat n"
    unfolding m
    by (rule bit_word_eqI) (auto simp: bit_and_iff bit_mask_iff bit_or_iff bit_push_bit_iff, meson n not_le)
qed

lemma rd32_words: "j < length ws \<Longrightarrow> rd32 (concat (map le32_bytes ws) @ ys) (4 * j) = ws ! j"
proof (induction ws arbitrary: j)
  case (Cons w ws)
  show ?case
  proof (cases j)
    case (Suc k)
    have "rd32 (le32_bytes w @ concat (map le32_bytes ws) @ ys) (4 + 4 * k) =
        rd32 (drop 4 (le32_bytes w @ concat (map le32_bytes ws) @ ys)) (4 * k)"
      using Cons.prems Suc by (subst rd32_drop) auto
    then show ?thesis using Cons Suc by simp
  qed simp
qed simp

text \<open>One step of the walk over an encoded record, and the walk over a block of them.\<close>

lemma enc_record_at:
  assumes "enc_ok (t, ws)" "drop pos d = enc_record (t, ws) @ ys" "pos \<le> length d"
  shows "at32 d pos = Some (push_bit 16 t OR of_nat (4 + 4 * length ws))"
    and "pos + (4 + 4 * length ws) \<le> length d"
    and "payload_at d pos (4 + 4 * length ws) = Some ws"
    and "drop (pos + (4 + 4 * length ws)) d = ys"
proof -
  have len: "length d - pos = 4 + 4 * length ws + length ys"
    using assms(2) by (metis length_append length_drop length_enc)
  then show le: "pos + (4 + 4 * length ws) \<le> length d" using assms(3) by simp
  have "rd32 d pos = rd32 (drop pos d) 0" using le by (subst rd32_drop) auto
  also have "\<dots> = push_bit 16 t OR of_nat (4 + 4 * length ws)"
    unfolding assms(2) by (simp add: enc_record_def)
  finally show "at32 d pos = Some (push_bit 16 t OR of_nat (4 + 4 * length ws))" using le by simp
  have "rd32 d (pos + 4 + 4 * j) = ws ! j" if "j < length ws" for j
  proof -
    have "rd32 d (pos + 4 + 4 * j) = rd32 (drop (pos + 4) d) (4 * j)"
      using le that by (subst rd32_drop) auto
    also have "drop (pos + 4) d = drop 4 (drop pos d)" by (simp add: add.commute)
    also have "\<dots> = concat (map le32_bytes ws) @ ys" unfolding assms(2) by (simp add: enc_record_def)
    finally show ?thesis using rd32_words [OF that, of ys] by simp
  qed
  then have "map (\<lambda>j. rd32 d (pos + 4 + 4 * j)) [0..<length ws] = ws"
    by (intro nth_equalityI) auto
  then show "payload_at d pos (4 + 4 * length ws) = Some ws"
    using payload_in_bounds [OF le] by simp
  have "drop (pos + (4 + 4 * length ws)) d = drop (4 + 4 * length ws) (drop pos d)" by (simp add: add.commute)
  then show "drop (pos + (4 + 4 * length ws)) d = ys" unfolding assms(2) by (simp add: enc_record_def)
qed

definition dec_record :: "nat \<Rightarrow> u32 \<times> u32 list \<Rightarrow> bi_record" where
  "dec_record pos = (\<lambda>(t, ws). \<lparr>bi_offset = of_nat pos, bi_type = t,
     bi_len = of_nat (4 + 4 * length ws), bi_payload = ws\<rparr>)"

fun dec_records :: "nat \<Rightarrow> (u32 \<times> u32 list) list \<Rightarrow> bi_record list" where
  "dec_records pos [] = []"
| "dec_records pos (r # rs) = dec_record pos r # dec_records (pos + length (enc_record r)) rs"

definition enc_block :: "(u32 \<times> u32 list) list \<Rightarrow> u8 list" where
  "enc_block rs = concat (map enc_record rs)"

lemma bi_walk_encoded:
  assumes "list_all enc_ok rs" "drop pos d = enc_block rs @ le32_bytes 0 @ ys" "i \<le> pos" "pos \<le> length d"
    and "pos + length (enc_block rs) \<le> i + 0x2000"
  shows "bi_walk d i pos recs = Some (recs @ dec_records pos rs)"
  using assms
proof (induction rs arbitrary: pos recs)
  case Nil
  then have "length d - pos = 4 + length ys" by (metis enc_block_def append_Nil concat.simps(1) length_append length_drop length_le32_bytes list.map(1))
  moreover have "rd32 d pos = rd32 (drop pos d) 0"
    using calculation by (subst rd32_drop) auto
  ultimately have "at32 d pos = Some 0" using Nil.prems by (simp add: enc_block_def)
  then show ?case by (subst bi_walk.simps) (simp add: at32_iff)
next
  case (Cons r rs)
  obtain t ws where r: "r = (t, ws)" by (cases r)
  let ?n = "4 + 4 * length ws"
  have ok: "enc_ok (t, ws)" and dr: "drop pos d = enc_record (t, ws) @ enc_block rs @ le32_bytes 0 @ ys"
    using Cons.prems(1,2) r by (auto simp: enc_block_def)
  note step = enc_record_at [OF ok dr Cons.prems(4)]
  have f: "drop_bit 16 (push_bit 16 t OR of_nat ?n) = t" "(push_bit 16 t OR of_nat ?n) AND 0xffff = of_nat ?n"
    using ok header_fields [of t ?n] by (auto simp: enc_ok_def)
  have un: "unat (of_nat ?n :: u32) = ?n" using ok by (simp add: enc_ok_def unat_of_nat del: of_nat_add)
  have small: "pos + ?n - i \<le> 0x2000"
    using Cons.prems(5) r by (simp add: enc_block_def length_enc)
  have "bi_walk d i (pos + ?n) (recs @ [dec_record pos r]) = Some ((recs @ [dec_record pos r]) @ dec_records (pos + ?n) rs)"
    using Cons.prems r step by (intro Cons.IH) (simp_all add: enc_block_def length_enc)
  then show ?case
    using step small r un
    by (subst bi_walk.simps) (simp add: f dec_record_def length_enc Let_def del: of_nat_add of_nat_Suc drop_bit_or)
qed

text \<open>
  C35: locating the BootInfo block never reads past the image, and reads back what was encoded. For
  every image the search returns; and when the image starts with an encoded block (its magic record,
  then any records, then a zero header) of at most 8 KiB, the search succeeds and yields exactly the
  encoded records, each with its offset, type, length and payload words, in order.
\<close>

theorem locate_encoded:
  assumes "list_all enc_ok rs" "length (enc_block ((BI_TAG_EMPTY, [BI_MAGIC, a, b]) # rs)) \<le> 0x2000"
    and "d = enc_block ((BI_TAG_EMPTY, [BI_MAGIC, a, b]) # rs) @ le32_bytes 0 @ ys"
  shows "locate img out \<noteq> None \<and>
    locate d out = Some (True, \<lparr>base_offset = 0, bi_magic = BI_MAGIC,
      bi_records = dec_records 0 ((BI_TAG_EMPTY, [BI_MAGIC, a, b]) # rs)\<rparr>)"
proof -
  let ?rs = "(BI_TAG_EMPTY, [BI_MAGIC, a, b]) # rs"
  have w: "bi_walk d 0 0 [] = Some ([] @ dec_records 0 ?rs)"
    using assms by (intro bi_walk_encoded) (simp_all add: enc_ok_def BI_TAG_EMPTY_def)
  have d: "d = le32_bytes 0x00010010 @ le32_bytes BI_MAGIC @ le32_bytes a @ le32_bytes b @ enc_block rs @
      le32_bytes 0 @ ys"
    using assms(3) by (simp add: enc_block_def enc_record_def BI_TAG_EMPTY_def)
  have h: "at32 d 0 = Some 0x00010010" "8 \<le> length d" by (simp_all add: d)
  have "rd32 d 4 = rd32 (drop 4 d) 0" using h(2) by (subst rd32_drop) auto
  then have m: "at32 d 4 = Some BI_MAGIC" using h(2) by (simp add: d)
  have "locate d out = Some (True, \<lparr>base_offset = 0, bi_magic = BI_MAGIC, bi_records = dec_records 0 ?rs\<rparr>)"
    unfolding locate_def using h m w by (subst locate_from.simps) simp
  then show ?thesis using locate_from_total by (simp add: locate_def)
qed

theorem locate_encoded_witness:
  "locate (enc_block [(BI_TAG_EMPTY, [BI_MAGIC, 0, 0]), (BI_TAG_VIRT_POOLS, [0xb0000000, 0xbfffffff])] @
     le32_bytes 0 @ []) boot_info_init =
   Some (True, \<lparr>base_offset = 0, bi_magic = BI_MAGIC,
     bi_records = dec_records 0 [(BI_TAG_EMPTY, [BI_MAGIC, 0, 0]), (BI_TAG_VIRT_POOLS, [0xb0000000, 0xbfffffff])]\<rparr>)"
  using locate_encoded [of "[(BI_TAG_VIRT_POOLS, [0xb0000000, 0xbfffffff])]" 0 0 _ "[]" "[]" boot_info_init]
  by (simp add: enc_ok_def enc_block_def length_enc BI_TAG_VIRT_POOLS_def BI_TAG_EMPTY_def)

section \<open>Decomposition into fpages\<close>

lemma fpage_fields:
  assumes "4096 dvd unat x" "unat k < 32"
  shows "unat (fp_vaddr (bi_fpage x k rwx)) = unat x" "size_log2 (bi_fpage x k rwx) = k"
    "fp_rwx (bi_fpage x k rwx) = rwx AND 7"
proof -
  have m: "(0x3ff::u32) = mask 10" "(0x3f::u32) = mask 6" "(7::u32) = mask 3"
    by (simp_all add: mask_eq_exp_minus_1)
  have low: "\<not> bit x n" if "n < 12" for n
  proof -
    have "take_bit 12 (unat x) = 0" using assms(1) by (simp add: take_bit_eq_mod)
    then have "\<not> bit (unat x) n" using that by (metis bit_0_eq bit_take_bit_iff bot_apply bot_bool_def)
    then show ?thesis by (simp add: bit_unsigned_iff)
  qed
  have high: "10 \<le> n" if "bit x n" for n using low [of n] that by (cases "n < 12") auto
  have k: "n < 6" if "bit k n" for n
    using assms(2) that word_less_exp_iff [of k 5] by (cases "5 \<le> n") auto
  let ?f = "bi_fpage x k rwx"
  have bits: "bit ?f n \<longleftrightarrow> (10 \<le> n \<and> bit x n) \<or> (4 \<le> n \<and> n < 10 \<and> bit k (n - 4)) \<or> (n < 3 \<and> bit rwx n)" for n
    unfolding bi_fpage_def m
    by (auto simp: bit_and_iff bit_or_iff bit_not_iff bit_push_bit_iff bit_mask_iff dest: bit_imp_le_length)
  have "?f AND NOT 0x3ff = x"
    unfolding m by (rule bit_word_eqI) (auto simp: bit_clear bits bit_mask_iff dest: high)
  then show "unat (fp_vaddr ?f) = unat x"
    using unat_less_u32 [of x] by (simp add: fp_vaddr_def unsigned_ucast_eq take_bit_nat_eq_self)
  show "size_log2 ?f = k"
    unfolding size_log2_def m
    by (rule bit_word_eqI) (auto simp: bit_and_iff bit_drop_bit_eq bits bit_mask_iff dest: k)
  show "fp_rwx ?f = rwx AND 7"
    unfolding fp_rwx_def m by (rule bit_word_eqI) (auto simp: bit_and_iff bits bit_mask_iff)
qed

lemma fpages_from_run:
  assumes "unat k < 32" "unat va_end + 2 ^ unat k \<le> 2 ^ 32"
    and "unat va_end - unat va = n * 2 ^ unat k"
  shows "fpages_from va va_end k rwx out =
    Some (out @ map (\<lambda>j. bi_fpage (va + of_nat (j * 2 ^ unat k)) k rwx) [0..<n])"
  using assms(3)
proof (induction n arbitrary: va out)
  case 0
  then show ?case by (subst fpages_from.simps) (simp add: word_less_nat_alt)
next
  case (Suc n)
  let ?s = "2 ^ unat k :: nat"
  have lt: "va < va_end" using Suc.prems by (simp add: word_less_nat_alt) (metis add_gr_0 zero_less_diff zero_less_numeral zero_less_power)
  have s32: "?s < 2 ^ 32" using assms(1) by (intro power_strict_increasing) auto
  have us: "unat (push_bit (unat k) 1 :: u32) = ?s"
  proof -
    have "(push_bit (unat k) 1 :: u32) = of_nat ?s" by (simp add: push_bit_eq_mult)
    moreover have "unat (of_nat ?s :: u32) = ?s" using s32 by (subst unat_of_nat) simp
    ultimately show ?thesis by simp
  qed
  have "unat va + ?s < 2 ^ 32" using lt assms(2) by (simp add: word_less_nat_alt)
  then have "unat va + unat (push_bit (unat k) 1 :: u32) < 2 ^ LENGTH(32)" unfolding us by simp
  then have uv: "unat (va + push_bit (unat k) 1) = unat va + ?s"
    using unat_add_lem [THEN iffD1, of va "push_bit (unat k) 1"] unfolding us by blast
  have "unat va_end - unat (va + push_bit (unat k) 1) = n * ?s"
    unfolding uv using Suc.prems by simp
  note IH = Suc.IH [OF this, of "out @ [bi_fpage va k rwx]"]
  have "[0..<Suc n] = 0 # map Suc [0..<n]" by (simp add: map_Suc_upt upt_conv_Cons del: upt_Suc)
  then have "map (\<lambda>j. bi_fpage (va + of_nat (j * ?s)) k rwx) [0..<Suc n] =
      bi_fpage va k rwx # map (\<lambda>j. bi_fpage (va + push_bit (unat k) 1 + of_nat (j * ?s)) k rwx) [0..<n]"
    by (simp add: push_bit_eq_mult algebra_simps del: upt_Suc)
  then show ?case using lt IH by (subst fpages_from.simps) simp
qed

text \<open>
  The fpage decomposition ends and tiles the range. For a page size below \<open>2 ^ 32\<close>, a range that
  is a whole number of pages and does not end in the last page of the address space, the loop
  returns, with one fpage per page of the range, each at its page's address and all with the
  requested size and rights.
\<close>

theorem enumerate_fpages_tiles:
  assumes "unat k < 32" "unat va_end + 2 ^ unat k \<le> 2 ^ 32" "unat va_end - unat va = n * 2 ^ unat k"
    and "4096 dvd unat va" "12 \<le> unat k"
  shows "\<exists>fs. enumerate_fpages va va_end k rwx = Some fs \<and> length fs = n \<and>
    (\<forall>j < n. unat (fp_vaddr (fs ! j)) = unat va + j * 2 ^ unat k \<and>
       size_log2 (fs ! j) = k \<and> fp_rwx (fs ! j) = rwx AND 7)"
proof -
  let ?s = "2 ^ unat k :: nat"
  let ?fs = "map (\<lambda>j. bi_fpage (va + of_nat (j * ?s)) k rwx) [0..<n]"
  have "enumerate_fpages va va_end k rwx = Some ?fs"
    using fpages_from_run [OF assms(1-3), of rwx "[]"] by (simp add: enumerate_fpages_def)
  moreover have "unat (fp_vaddr (?fs ! j)) = unat va + j * ?s \<and> size_log2 (?fs ! j) = k \<and> fp_rwx (?fs ! j) = rwx AND 7"
    if j: "j < n" for j
  proof -
    let ?x = "va + of_nat (j * ?s) :: u32"
    have "(j + 1) * ?s \<le> n * ?s" using j by (intro mult_le_mono1) simp
    moreover have "(j + 1) * ?s = j * ?s + ?s" "0 < ?s" by simp_all
    ultimately have "unat va + j * ?s < 2 ^ 32"
      using assms(3) unat_less_u32 [of va_end] by linarith
    then have ux: "unat ?x = unat va + j * ?s"
      by (simp add: unat_word_ariths unat_of_nat del: of_nat_mult of_nat_power)
    have al: "4096 dvd unat ?x"
      unfolding ux using assms(4,5) le_imp_power_dvd [of 12 "unat k" "2::nat"]
      by (intro dvd_add dvd_mult) simp_all
    show ?thesis using fpage_fields [OF al assms(1), of rwx] j ux by simp
  qed
  ultimately show ?thesis by (intro exI [of _ ?fs]) simp
qed

theorem enumerate_fpages_tiles_witness:
  "\<exists>fs. enumerate_fpages 0xb0d00000 0xb6d00000 20 7 = Some fs \<and> length fs = 96"
  using enumerate_fpages_tiles [of 20 "0xb6d00000" "0xb0d00000" 96 7] by auto

end
