(* ===== verification/Efs2_Fs.thy ===== *)
theory Efs2_Fs
  imports Byte_Reader Machine_Runs
begin

text \<open>
  \<open>tools/cpp/zeebo_efs2_fs.h\<close>: the read-only parser of the EFS2APPS partition: opening a dump,
  scanning it for directory entries, the two indices over them, and reading files through indirect
  blocks. Opening a file yields its bytes or nothing; reads of the partition are those of
  \<open>Byte_Reader\<close>. The hash maps are HOL maps; the multimap by inode is the list of its insertions, and
  which of several entries with one inode \<open>find\<close> returns is left open in the source, so the choice
  is an argument \<open>pick\<close>.
\<close>

definition EFS2APPS_OFF :: u64 where "EFS2APPS_OFF = 0x3220000"
definition CLUSTER_SIZE :: nat where "CLUSTER_SIZE = 512"
definition DIRENT_MARKER :: u8 where "DIRENT_MARKER = 0x69"
definition CLUSTER_NONE :: u32 where "CLUSTER_NONE = 0xffffffff"

record dirent =
  file_off :: u64
  de_inode :: u32
  de_reclen :: u8
  de_type :: u8
  parent_ref :: u32
  de_name :: "u8 list"

definition parent_inode :: "dirent \<Rightarrow> u32" where
  "parent_inode e = drop_bit 8 (parent_ref e)"

definition parent_tag :: "dirent \<Rightarrow> u8" where
  "parent_tag e = ucast (parent_ref e AND 0xff)"

record efs2 =
  part_off :: u64
  part_len :: u64
  efs_buf :: "u8 list"
  dirents :: "dirent list"
  by_key :: "u8 list \<rightharpoonup> nat"
  by_inode :: "(u32 \<times> nat) list"

definition efs_reset :: "u64 \<Rightarrow> efs2" where
  "efs_reset off = \<lparr>part_off = off, part_len = 0, efs_buf = [], dirents = [],
     by_key = (\<lambda>_. None), by_inode = []\<rparr>"

text \<open>
  \<open>open\<close>: the file is absent, or a byte list; \<open>short\<close> is the number of bytes the final read is
  short of the request (0 when it delivers all).
\<close>

definition efs_open :: "u8 list option \<Rightarrow> nat \<Rightarrow> u64 \<Rightarrow> bool \<times> efs2" where
  "efs_open file short off =
     (case file of
        None \<Rightarrow> (False, efs_reset off)
      | Some bs \<Rightarrow>
          if unat off \<ge> length bs then (False, efs_reset off)
          else if short \<noteq> 0 then (False, efs_reset off)
          else (True, (efs_reset off)\<lparr>part_len := of_nat (length bs - unat off),
                                      efs_buf := drop (unat off) bs\<rparr>))"

definition efs_key :: "u32 \<Rightarrow> u8 list \<Rightarrow> u8 list" where
  "efs_key parent name = le32_bytes parent @ [0x3a] @ name"

definition printable :: "u8 \<Rightarrow> bool" where
  "printable c \<longleftrightarrow> \<not> (c < 32 \<or> c \<ge> 127)"

text \<open>The record at position \<open>i\<close>, if the bytes there are a well-formed one.\<close>

definition dirent_at :: "efs2 \<Rightarrow> nat \<Rightarrow> dirent option option" where
  "dirent_at fs i = do {
     let d = efs_buf fs;
     m \<leftarrow> at8 d i;
     if m \<noteq> DIRENT_MARKER then Some None
     else do {
       reclen \<leftarrow> at8 d (i + 5);
       if reclen < 6 \<or> reclen > 200 then Some None
       else do {
         let name_len = unat reclen - 5;
         if i + 12 + name_len > unat (part_len fs) then Some None
         else do {
           pad \<leftarrow> at8 d (i + 11);
           if pad \<noteq> 0 then Some None
           else do {
             nm \<leftarrow> bytes_at d (i + 12) name_len;
             if \<not> list_all printable nm then Some None
             else do {
               ino \<leftarrow> at32 d (i + 1);
               ty \<leftarrow> at8 d (i + 6);
               pref \<leftarrow> at32 d (i + 7);
               Some (Some \<lparr>file_off = part_off fs + of_nat i, de_inode = ino, de_reclen = reclen,
                           de_type = ty, parent_ref = pref, de_name = nm\<rparr>)
             }
           }
         }
       }
     }
   }"

definition add_dirent :: "dirent \<Rightarrow> efs2 \<Rightarrow> efs2" where
  "add_dirent e fs =
     (let idx = length (dirents fs)
      in fs\<lparr>by_key := (by_key fs)(efs_key (parent_inode e) (de_name e) \<mapsto> idx),
            by_inode := by_inode fs @ [(de_inode e, idx)], dirents := dirents fs @ [e]\<rparr>)"

function scan_from :: "nat \<Rightarrow> efs2 \<Rightarrow> efs2 option" where
  "scan_from i fs =
     (if i + 12 \<le> unat (part_len fs) then
        (case dirent_at fs i of
           None \<Rightarrow> None
         | Some None \<Rightarrow> scan_from (i + 1) fs
         | Some (Some e) \<Rightarrow> scan_from (i + 12 + length (de_name e)) (add_dirent e fs))
      else Some fs)"
  by pat_completeness auto
termination
  by (relation "measure (\<lambda>(i, fs). unat (part_len fs) - i)") (auto simp: add_dirent_def Let_def)

declare scan_from.simps [simp del]

definition scan_dirents :: "efs2 \<Rightarrow> (nat \<times> efs2) option" where
  "scan_dirents fs = do {
     fs \<leftarrow> scan_from 0 (fs\<lparr>dirents := [], by_key := (\<lambda>_. None), by_inode := []\<rparr>);
     Some (length (dirents fs), fs)
   }"

definition efs_find :: "u32 \<Rightarrow> u8 list \<Rightarrow> efs2 \<Rightarrow> dirent option" where
  "efs_find parent name fs = map_option (\<lambda>i. dirents fs ! i) (by_key fs (efs_key parent name))"

definition find_by_name :: "u8 list \<Rightarrow> efs2 \<Rightarrow> dirent option" where
  "find_by_name name fs = List.find (\<lambda>e. de_name e = name) (dirents fs)"

definition find_by_inode :: "(nat list \<Rightarrow> nat) \<Rightarrow> u32 \<Rightarrow> efs2 \<Rightarrow> dirent option" where
  "find_by_inode pick ino fs =
     (case map snd (filter (\<lambda>(k, _). k = ino) (by_inode fs)) of
        [] \<Rightarrow> None
      | is \<Rightarrow> Some (dirents fs ! pick is))"

text \<open>
  The outer option is \<open>None\<close> when the copy would read outside the partition, the inner one when the cluster is
  refused.
\<close>

definition read_cluster :: "u32 \<Rightarrow> efs2 \<Rightarrow> u8 list option option" where
  "read_cluster cluster_id fs =
     (let off = ucast cluster_id * of_nat CLUSTER_SIZE :: u64
      in if off + of_nat CLUSTER_SIZE > part_len fs then Some None
         else map_option Some (bytes_at (efs_buf fs) (unat off) CLUSTER_SIZE))"

text \<open>Reading the pointer table, \<open>None\<close> on a read outside the partition.\<close>

fun indirect_from :: "u8 list \<Rightarrow> nat \<Rightarrow> bool \<Rightarrow> nat \<Rightarrow> nat \<Rightarrow> u32 list option" where
  "indirect_from d rel stop 0 k = Some []"
| "indirect_from d rel stop (Suc left) k = do {
     c \<leftarrow> at32 d (rel + k * 4);
     if stop \<and> c = CLUSTER_NONE then Some []
     else do {
       cs \<leftarrow> indirect_from d rel stop left (k + 1);
       Some (c # cs)
     }
   }"

definition read_indirect_block_at :: "u64 \<Rightarrow> bool \<Rightarrow> efs2 \<Rightarrow> u32 list option" where
  "read_indirect_block_at abs_off stop fs =
     (if abs_off < part_off fs then Some []
      else
        let rel = abs_off - part_off fs
        in if rel + of_nat CLUSTER_SIZE > part_len fs then Some []
           else indirect_from (efs_buf fs) (unat rel) stop (CLUSTER_SIZE div 4) 0)"

fun gather_clusters :: "efs2 \<Rightarrow> nat \<Rightarrow> u32 list \<Rightarrow> u8 list \<Rightarrow> u8 list option" where
  "gather_clusters fs nbytes [] out = Some out"
| "gather_clusters fs nbytes (cid # cids) out =
     (if cid = CLUSTER_NONE then Some out
      else do {
        r \<leftarrow> read_cluster cid fs;
        case r of
          None \<Rightarrow> Some out
        | Some c \<Rightarrow>
            let out = out @ c
            in if nbytes \<noteq> 0 \<and> length out \<ge> nbytes then Some out else gather_clusters fs nbytes cids out
      })"

definition read_data_from_indirect :: "u64 \<Rightarrow> nat \<Rightarrow> efs2 \<Rightarrow> u8 list option" where
  "read_data_from_indirect abs_off nbytes fs = do {
     clusters \<leftarrow> read_indirect_block_at abs_off True fs;
     out \<leftarrow> gather_clusters fs nbytes clusters [];
     Some (if nbytes \<noteq> 0 \<and> length out > nbytes then take nbytes out else out)
   }"

definition checksum32 :: "u8 list \<Rightarrow> u32" where
  "checksum32 v = foldl (\<lambda>s b. (s XOR ucast b) * 0x01000193) 0x811c9dc5 v"

section \<open>The scan stays inside the partition\<close>

text \<open>An opened partition: the length that is checked is the length of the buffer.\<close>

definition efs_ok :: "efs2 \<Rightarrow> bool" where
  "efs_ok fs \<longleftrightarrow> length (efs_buf fs) = unat (part_len fs)"

lemma open_ok:
  assumes "efs_open file short off = (r, fs)" "\<forall>bs. file = Some bs \<longrightarrow> length bs < 2 ^ 64"
  shows "efs_ok fs"
proof (cases r)
  case True
  then obtain bs where bs: "file = Some bs" "unat off < length bs"
      "fs = (efs_reset off)\<lparr>part_len := of_nat (length bs - unat off), efs_buf := drop (unat off) bs\<rparr>"
    using assms(1) by (auto simp: efs_open_def split: option.splits if_splits)
  have "unat (of_nat (length bs - unat off) :: u64) = length bs - unat off"
    using assms(2) bs(1) by (simp add: unat_of_nat)
  then show ?thesis by (simp add: efs_ok_def bs(3))
next
  case False
  then have "fs = efs_reset off" using assms(1) by (auto simp: efs_open_def split: option.splits if_splits)
  then show ?thesis by (simp add: efs_ok_def efs_reset_def)
qed

lemma dirent_at_total:
  assumes "efs_ok fs" "i + 12 \<le> unat (part_len fs)"
  shows "dirent_at fs i \<noteq> None"
  using assms by (simp add: efs_ok_def dirent_at_def Let_def)

lemma add_dirent_simps [simp]:
  "part_len (add_dirent e fs) = part_len fs" "efs_buf (add_dirent e fs) = efs_buf fs"
  "part_off (add_dirent e fs) = part_off fs" "dirents (add_dirent e fs) = dirents fs @ [e]"
  by (simp_all add: add_dirent_def Let_def)

text \<open>
  The directory entries a scan from \<open>i\<close> collects, as a list: the scan only adds them one by one, so
  what holds of \<open>add_dirent\<close> holds of the scan.
\<close>

lemma scan_from_adds:
  "efs_ok fs \<Longrightarrow> \<exists>es. scan_from i fs = Some (fold add_dirent es fs)"
proof (induction i fs rule: scan_from.induct)
  case (1 i fs)
  show ?case
  proof (cases "i + 12 \<le> unat (part_len fs)")
    case True
    then obtain r where r: "dirent_at fs i = Some r" using dirent_at_total [OF "1.prems" True] by auto
    show ?thesis
    proof (cases r)
      case None
      then show ?thesis using "1.IH"(1) [OF True] r "1.prems" True by (subst scan_from.simps) auto
    next
      case (Some e)
      have "efs_ok (add_dirent e fs)" using "1.prems" by (simp add: efs_ok_def)
      then obtain es where "scan_from (i + 12 + length (de_name e)) (add_dirent e fs) =
          Some (fold add_dirent es (add_dirent e fs))"
        using "1.IH"(2) [OF True] r Some by auto
      then show ?thesis using r Some True by (subst scan_from.simps) (auto intro: exI [of _ "e # es"])
    qed
  next
    case False
    then show ?thesis by (subst scan_from.simps) (auto intro: exI [of _ "[]"])
  qed
qed

section \<open>The index finds the last entry\<close>

lemma efs_key_inj: "efs_key p n = efs_key p' n' \<longleftrightarrow> p = p' \<and> n = n'"
proof -
  have "p = p'" if "le32_bytes p = le32_bytes p'"
    using that rd32_le32_bytes [of p "[]"] rd32_le32_bytes [of p' "[]"] by simp
  then show ?thesis by (auto simp: efs_key_def)
qed

definition index_ok :: "efs2 \<Rightarrow> bool" where
  "index_ok fs \<longleftrightarrow>
     (\<forall>p n. efs_find p n fs = List.find (\<lambda>e. parent_inode e = p \<and> de_name e = n) (rev (dirents fs))) \<and>
     (\<forall>k i. by_key fs k = Some i \<longrightarrow> i < length (dirents fs))"

interpretation efs: machine_inv add_dirent index_ok
proof
  fix fs e assume ok: "index_ok fs"
  have "efs_find p n (add_dirent e fs) =
      List.find (\<lambda>e. parent_inode e = p \<and> de_name e = n) (rev (dirents (add_dirent e fs)))" for p n
  proof (cases "parent_inode e = p \<and> de_name e = n")
    case True
    then show ?thesis by (simp add: efs_find_def add_dirent_def Let_def)
  next
    case False
    then have "by_key (add_dirent e fs) (efs_key p n) = by_key fs (efs_key p n)"
      by (auto simp: add_dirent_def Let_def efs_key_inj)
    moreover have "map_option (\<lambda>i. (dirents fs @ [e]) ! i) (by_key fs (efs_key p n)) = efs_find p n fs"
      using ok by (cases "by_key fs (efs_key p n)") (auto simp: index_ok_def efs_find_def nth_append)
    ultimately show ?thesis using ok False by (auto simp: index_ok_def efs_find_def)
  qed
  moreover have "\<forall>k i. by_key (add_dirent e fs) k = Some i \<longrightarrow> i < length (dirents (add_dirent e fs))"
    using ok by (auto simp: index_ok_def add_dirent_def Let_def less_SucI)
  ultimately show "index_ok (add_dirent e fs)" by (simp add: index_ok_def)
qed

text \<open>
  Scanning never reads outside the partition, and afterwards the index answers as a search of
  the entries would: for an opened partition the scan returns, reports the number of entries found,
  and looking a name up under a parent gives the last entry on the dump with that parent and name,
  or nothing when there is none.
\<close>

theorem scan_then_find:
  assumes "efs_ok fs"
  shows "\<exists>fs'. scan_dirents fs = Some (length (dirents fs'), fs') \<and>
    efs_buf fs' = efs_buf fs \<and>
    efs_find p n fs' = List.find (\<lambda>e. parent_inode e = p \<and> de_name e = n) (rev (dirents fs'))"
proof -
  let ?fs0 = "fs\<lparr>dirents := [], by_key := (\<lambda>_. None), by_inode := []\<rparr>"
  have "efs_ok ?fs0" using assms by (simp add: efs_ok_def)
  then obtain es where es: "scan_from 0 ?fs0 = Some (fold add_dirent es ?fs0)" using scan_from_adds by blast
  have "index_ok (fold add_dirent es ?fs0)"
    by (rule efs.inv_run) (simp add: index_ok_def efs_find_def)
  moreover have "efs_buf (fold add_dirent es x) = efs_buf x" for x by (induction es arbitrary: x) auto
  ultimately show ?thesis using es by (auto simp: scan_dirents_def index_ok_def)
qed

section \<open>Encoding and scanning\<close>

definition enc_dirent :: "dirent \<Rightarrow> u8 list" where
  "enc_dirent e = DIRENT_MARKER # le32_bytes (de_inode e) @ [de_reclen e, de_type e] @
     le32_bytes (parent_ref e) @ [0] @ de_name e"

definition dirent_ok :: "dirent \<Rightarrow> bool" where
  "dirent_ok e \<longleftrightarrow> list_all printable (de_name e) \<and> 1 \<le> length (de_name e) \<and> length (de_name e) \<le> 195 \<and>
     de_reclen e = of_nat (length (de_name e) + 5)"

lemma length_enc_dirent: "length (enc_dirent e) = 12 + length (de_name e)"
  by (simp add: enc_dirent_def)

lemma reclen_range:
  "dirent_ok e \<Longrightarrow> unat (de_reclen e) = length (de_name e) + 5 \<and> \<not> de_reclen e < 6 \<and> \<not> de_reclen e > 200"
  by (cases "de_name e") (simp_all add: dirent_ok_def word_less_nat_alt unat_of_nat del: of_nat_add of_nat_Suc)

lemma dirent_at_encoded:
  assumes "efs_ok fs" "dirent_ok e" "drop i (efs_buf fs) = enc_dirent e @ ys" "i \<le> length (efs_buf fs)"
  shows "dirent_at fs i = Some (Some (e\<lparr>file_off := part_off fs + of_nat i\<rparr>))"
proof -
  let ?d = "efs_buf fs" and ?n = "length (de_name e)"
  have "length ?d - i = 12 + ?n + length ys"
    using assms(3) by (metis length_append length_drop length_enc_dirent)
  then have le: "i + (12 + ?n) \<le> length ?d" using assms(4) by simp
  have b: "?d ! (i + k) = (enc_dirent e @ ys) ! k" if "k < 12 + ?n" for k
    using that le assms(3) nth_drop [of i "?d" k] by simp
  have w: "rd32 ?d (i + k) = rd32 (enc_dirent e @ ys) k" if "k + 4 \<le> 12 + ?n" for k
    using that le rd32_drop [of k i ?d] assms(3) by (simp add: length_enc_dirent)
  have le32: "le32 (le32_bytes w ! 0) (le32_bytes w ! Suc 0) (le32_bytes w ! 2) (le32_bytes w ! 3) = w" for w
    using rd32_le32_bytes [of w "[]"] by (simp add: rd32_def numeral_2_eq_2)
  have f: "?d ! i = DIRENT_MARKER" "?d ! (i + 5) = de_reclen e" "?d ! (i + 6) = de_type e" "?d ! (i + 11) = 0"
    using b [of 0] b [of 5] b [of 6] b [of 11] by (simp_all add: enc_dirent_def le32_bytes_def)
  have v: "rd32 ?d (i + 1) = de_inode e" "rd32 ?d (i + 7) = parent_ref e"
    using w [of 1] w [of 7] by (simp_all add: enc_dirent_def rd32_def le32_bytes_def le32_le32_bytes)
  have nm: "take ?n (drop (i + 12) ?d) = de_name e"
  proof -
    have "drop (i + 12) ?d = drop 12 (drop i ?d)" by (simp add: add.commute)
    then show ?thesis unfolding assms(3) by (simp add: enc_dirent_def le32_bytes_def)
  qed
  have "unat (de_reclen e) - 5 = ?n" "list_all printable (de_name e)"
    using reclen_range [OF assms(2)] assms(2) by (auto simp: dirent_ok_def)
  then show ?thesis
    using le f v nm reclen_range [OF assms(2)] assms(1) by (simp add: dirent_at_def Let_def efs_ok_def)
qed

fun located :: "u64 \<Rightarrow> nat \<Rightarrow> dirent list \<Rightarrow> dirent list" where
  "located off i [] = []"
| "located off i (e # es) = e\<lparr>file_off := off + of_nat i\<rparr> # located off (i + length (enc_dirent e)) es"

lemma scan_encoded:
  assumes "efs_ok fs" "list_all dirent_ok es" "drop i (efs_buf fs) = concat (map enc_dirent es) @ ys"
    and "length ys < 12" "i \<le> length (efs_buf fs)"
  shows "scan_from i fs = Some (fold add_dirent (located (part_off fs) i es) fs)"
  using assms(1,2,3,5)
proof (induction es arbitrary: i fs)
  case Nil
  then have "length (efs_buf fs) - i = length ys" by (metis append_Nil concat.simps(1) length_drop list.map(1))
  then have "\<not> i + 12 \<le> unat (part_len fs)" using assms(4) Nil.prems(1,4) by (simp add: efs_ok_def)
  then show ?case by (subst scan_from.simps) simp
next
  case (Cons e es)
  let ?e = "e\<lparr>file_off := part_off fs + of_nat i\<rparr>" and ?j = "i + (12 + length (de_name e))"
  have dr: "drop i (efs_buf fs) = enc_dirent e @ concat (map enc_dirent es) @ ys" using Cons.prems(3) by simp
  have at: "dirent_at fs i = Some (Some ?e)"
    using Cons.prems dr by (intro dirent_at_encoded) simp_all
  have "length (efs_buf fs) - i = 12 + length (de_name e) + length (concat (map enc_dirent es) @ ys)"
    using dr by (metis length_append length_drop length_enc_dirent)
  then have le: "?j \<le> length (efs_buf fs)" using Cons.prems(4) by simp
  have "drop ?j (efs_buf fs) = drop (12 + length (de_name e)) (drop i (efs_buf fs))" by (simp add: add.commute)
  then have dj: "drop ?j (efs_buf fs) = concat (map enc_dirent es) @ ys"
    unfolding dr by (simp add: length_enc_dirent)
  have "scan_from ?j (add_dirent ?e fs) =
      Some (fold add_dirent (located (part_off (add_dirent ?e fs)) ?j es) (add_dirent ?e fs))"
    using Cons.prems le dj by (intro Cons.IH) (simp_all add: efs_ok_def)
  then show ?case
    using at le Cons.prems(1) by (subst scan_from.simps) (simp add: efs_ok_def length_enc_dirent add.assoc)
qed

text \<open>
  C24: scanning reads back what was encoded. If the partition is a sequence of encoded directory
  entries with printable names of 1 to 195 characters, followed by fewer than twelve bytes, the scan
  finds exactly these entries, in order, each at its offset in the dump.
\<close>

theorem scan_reads_back:
  assumes "efs_ok fs" "list_all dirent_ok es" "efs_buf fs = concat (map enc_dirent es) @ ys" "length ys < 12"
  shows "\<exists>fs'. scan_dirents fs = Some (length es, fs') \<and> dirents fs' = located (part_off fs) 0 es"
proof -
  let ?fs0 = "fs\<lparr>dirents := [], by_key := (\<lambda>_. None), by_inode := []\<rparr>"
  have "efs_ok ?fs0" using assms(1) by (simp add: efs_ok_def)
  then have s: "scan_from 0 ?fs0 = Some (fold add_dirent (located (part_off fs) 0 es) ?fs0)"
    using scan_encoded [of ?fs0 es 0 ys] assms by simp
  have d: "dirents (fold add_dirent xs x) = dirents x @ xs" for xs x by (induction xs arbitrary: x) auto
  have "length (located off i xs) = length xs" for off i xs by (induction xs arbitrary: i) auto
  then show ?thesis using s by (simp add: scan_dirents_def d)
qed

text \<open>The root entry \<open>a\<close> of inode 5 under parent 1, in a partition opened at offset 0.\<close>

definition demo_entry :: dirent where
  "demo_entry = \<lparr>file_off = 0, de_inode = 5, de_reclen = 6, de_type = 0, parent_ref = 0x164, de_name = [0x61]\<rparr>"

definition demo_fs :: efs2 where
  "demo_fs = snd (efs_open (Some (enc_dirent demo_entry @ [1, 2])) 0 0)"

lemma demo_fs_ok: "efs_ok demo_fs" "efs_buf demo_fs = enc_dirent demo_entry @ [1, 2]" "part_off demo_fs = 0"
  by (simp_all add: demo_fs_def efs_open_def efs_reset_def efs_ok_def enc_dirent_def demo_entry_def le32_bytes_def)

theorem scan_reads_back_witness:
  "\<exists>fs'. scan_dirents demo_fs = Some (1, fs') \<and> dirents fs' = [demo_entry]"
proof -
  have "dirent_ok demo_entry" by (simp add: dirent_ok_def demo_entry_def printable_def)
  then show ?thesis
    using scan_reads_back [of demo_fs "[demo_entry]" "[1, 2]"] by (simp add: demo_fs_ok) (simp add: demo_entry_def)
qed

theorem scan_then_find_witness:
  "\<exists>fs'. scan_dirents demo_fs = Some (length (dirents fs'), fs') \<and>
    efs_find 1 [0x61] fs' = List.find (\<lambda>e. parent_inode e = 1 \<and> de_name e = [0x61]) (rev (dirents fs'))"
  using scan_then_find [OF demo_fs_ok(1), of 1 "[0x61]"] by auto

section \<open>Reading a file\<close>

text \<open>
  The specification, over the bytes of the partition alone: cluster \<open>c\<close> is its 512 bytes from \<open>512 * c\<close> on, and
  a chain holds the clusters up to the first terminator or the first one that is not wholly inside,
  concatenated.
\<close>

definition cluster_in :: "efs2 \<Rightarrow> u32 \<Rightarrow> bool" where
  "cluster_in fs c \<longleftrightarrow> 512 * unat c + 512 \<le> length (efs_buf fs)"

definition cluster_bytes :: "efs2 \<Rightarrow> u32 \<Rightarrow> u8 list" where
  "cluster_bytes fs c = take 512 (drop (512 * unat c) (efs_buf fs))"

definition chain_bytes :: "efs2 \<Rightarrow> u32 list \<Rightarrow> u8 list" where
  "chain_bytes fs cids = concat (map (cluster_bytes fs) (takeWhile (\<lambda>c. c \<noteq> CLUSTER_NONE \<and> cluster_in fs c) cids))"

lemma read_cluster_ok:
  assumes "efs_ok fs"
  shows "read_cluster c fs = Some (if cluster_in fs c then Some (cluster_bytes fs c) else None)"
proof -
  let ?off = "ucast c * of_nat CLUSTER_SIZE :: u64"
  have c: "unat c < 2 ^ 32" by (rule unat_less_u32)
  have u: "unat (ucast c :: u64) = unat c" by (rule unat_ucast_u32)
  have off: "unat ?off = 512 * unat c"
    unfolding unat_word_ariths u using c by (simp add: CLUSTER_SIZE_def)
  have "unat (?off + of_nat CLUSTER_SIZE) = 512 * unat c + 512"
    unfolding unat_word_ariths(1) off using c by (simp add: CLUSTER_SIZE_def)
  then have "?off + of_nat CLUSTER_SIZE > part_len fs \<longleftrightarrow> \<not> cluster_in fs c"
    using assms by (simp add: word_less_nat_alt cluster_in_def efs_ok_def not_le)
  then show ?thesis
    unfolding read_cluster_def Let_def off by (simp add: cluster_in_def cluster_bytes_def CLUSTER_SIZE_def)
qed

lemma gather_all:
  assumes "efs_ok fs"
  shows "gather_clusters fs 0 cids out = Some (out @ chain_bytes fs cids)"
  by (induction cids arbitrary: out) (auto simp: chain_bytes_def read_cluster_ok [OF assms])

lemma gather_take:
  assumes "efs_ok fs" "nbytes \<noteq> 0"
  shows "length out < nbytes \<Longrightarrow>
     map_option (take nbytes) (gather_clusters fs nbytes cids out) = Some (take nbytes (out @ chain_bytes fs cids))"
proof (induction cids arbitrary: out)
  case (Cons c cids)
  show ?case
  proof (cases "c \<noteq> CLUSTER_NONE \<and> cluster_in fs c")
    case True
    then have cb: "chain_bytes fs (c # cids) = cluster_bytes fs c @ chain_bytes fs cids" by (simp add: chain_bytes_def)
    show ?thesis
    proof (cases "length (out @ cluster_bytes fs c) \<ge> nbytes")
      case full: True
      then show ?thesis using True cb assms(2) by (simp add: read_cluster_ok [OF assms(1)] Let_def)
    next
      case False
      then show ?thesis using True cb Cons.IH [of "out @ cluster_bytes fs c"] by (simp add: read_cluster_ok [OF assms(1)] Let_def)
    qed
  qed (auto simp: chain_bytes_def read_cluster_ok [OF assms(1)])
qed (simp add: chain_bytes_def)

lemma indirect_in_bounds:
  "rel + (k + left) * 4 \<le> length d \<Longrightarrow> indirect_from d rel stop left k =
     Some ((if stop then takeWhile (\<lambda>c. c \<noteq> CLUSTER_NONE) else (\<lambda>xs. xs))
       (map (\<lambda>j. rd32 d (rel + j * 4)) [k..<k + left]))"
proof (induction left arbitrary: k)
  case (Suc left)
  have "at32 d (rel + k * 4) = Some (rd32 d (rel + k * 4))" using Suc.prems by (intro at_Some) simp
  moreover have "[k..<k + Suc left] = k # [Suc k..<Suc k + left]" by (simp add: upt_conv_Cons del: upt_Suc)
  ultimately show ?case using Suc.IH [of "Suc k"] Suc.prems by (auto simp del: upt_Suc)
qed simp

text \<open>
  C25: reading a file returns the bytes of its cluster chain. For an indirect block inside the
  partition, the result is the concatenation of the clusters listed there, each the 512 bytes of the
  partition from 512 times its number on, up to the first terminator or the first cluster that is not wholly
  inside the partition; with a size given, exactly its first bytes, and the early exit of the loop never
  loses any. The result is there for every partition: neither the table nor a cluster is read outside it.
\<close>

theorem read_data_is_chain:
  assumes "efs_ok fs" "unat (part_off fs) + r + 512 \<le> 2 ^ 63" "r + 512 \<le> unat (part_len fs)"
  shows "read_data_from_indirect (part_off fs + of_nat r) nbytes fs =
    (let bytes = chain_bytes fs (takeWhile (\<lambda>c. c \<noteq> CLUSTER_NONE)
           (map (\<lambda>j. rd32 (efs_buf fs) (r + j * 4)) [0..<128]))
     in Some (if nbytes = 0 then bytes else take nbytes bytes))"
proof -
  let ?cids = "takeWhile (\<lambda>c. c \<noteq> CLUSTER_NONE) (map (\<lambda>j. rd32 (efs_buf fs) (r + j * 4)) [0..<128])"
  have r: "unat (of_nat r :: u64) = r" using assms(2) by (simp add: unat_of_nat)
  have "unat (part_off fs + of_nat r) = unat (part_off fs) + r"
    using assms(2) r by (simp add: unat_word_ariths)
  then have ge: "\<not> part_off fs + of_nat r < part_off fs" by (simp add: word_less_nat_alt)
  have "unat (of_nat r + of_nat CLUSTER_SIZE :: u64) = r + 512"
    using assms(2) r by (simp add: unat_word_ariths CLUSTER_SIZE_def)
  then have fit: "\<not> of_nat r + of_nat CLUSTER_SIZE > part_len fs"
    using assms(3) by (simp add: word_less_nat_alt)
  have "read_indirect_block_at (part_off fs + of_nat r) True fs = Some ?cids"
    using indirect_in_bounds [of r 0 128 "efs_buf fs" True] assms(1,3) ge fit r
    by (simp add: read_indirect_block_at_def efs_ok_def CLUSTER_SIZE_def del: upt.simps upt_Suc)
  then have *: "read_data_from_indirect (part_off fs + of_nat r) nbytes fs =
      map_option (\<lambda>out. if nbytes \<noteq> 0 \<and> length out > nbytes then take nbytes out else out) (gather_clusters fs nbytes ?cids [])"
    by (simp add: read_data_from_indirect_def map_conv_bind_option comp_def del: upt.simps upt_Suc)
  show ?thesis
  proof (cases "nbytes = 0")
    case True
    then show ?thesis using * by (simp add: Let_def gather_all [OF assms(1)] del: upt.simps upt_Suc)
  next
    case False
    then have "map_option (take nbytes) (gather_clusters fs nbytes ?cids []) = Some (take nbytes (chain_bytes fs ?cids))"
      using gather_take [OF assms(1), of nbytes "[]" ?cids] by simp
    moreover have "(\<lambda>xs :: u8 list. if nbytes \<noteq> 0 \<and> length xs > nbytes then take nbytes xs else xs) = take nbytes"
      using False by (auto simp: fun_eq_iff)
    ultimately show ?thesis unfolding * Let_def using False by simp
  qed
qed

text \<open>A partition whose first cluster is an indirect block listing the second.\<close>

definition demo_disk :: efs2 where
  "demo_disk = snd (efs_open (Some (le32_bytes 1 @ replicate 508 0xff @ replicate 512 0x41)) 0 0)"

theorem read_data_is_chain_witness:
  "read_data_from_indirect 0 3 demo_disk = Some [0x41, 0x41, 0x41]"
proof -
  have ok: "efs_ok demo_disk" "part_off demo_disk = 0" "unat (part_len demo_disk) = 1024"
    and buf: "efs_buf demo_disk = le32_bytes 1 @ replicate 508 0xff @ replicate 512 0x41"
    by (simp_all add: demo_disk_def efs_open_def efs_reset_def efs_ok_def)
  have "[0..<128] = 0 # Suc 0 # [2..<128]" by (simp add: upt_conv_Cons)
  moreover have "rd32 (efs_buf demo_disk) 0 = 1" unfolding buf by simp
  moreover have "rd32 (efs_buf demo_disk) 4 = CLUSTER_NONE"
    unfolding buf by (simp add: rd32_skip [of _ 4] rd32_def nth_append CLUSTER_NONE_def) code_simp
  ultimately have ids: "takeWhile (\<lambda>c. c \<noteq> CLUSTER_NONE) (map (\<lambda>j. rd32 (efs_buf demo_disk) (0 + j * 4)) [0..<128]) = [1]"
    by (simp add: CLUSTER_NONE_def del: upt.simps upt_Suc)
  have "chain_bytes demo_disk [1] = replicate 512 0x41"
    by (simp add: chain_bytes_def cluster_in_def cluster_bytes_def buf CLUSTER_NONE_def)
  moreover have "take 3 (replicate 512 (0x41::u8)) = [0x41, 0x41, 0x41]" by (simp add: numeral_eq_Suc)
  ultimately show ?thesis
    using read_data_is_chain [OF ok(1), of 0 3] ok unfolding ids by (simp add: Let_def)
qed

end
