(* ===== verification/Gpu_Types.thy ===== *)
theory Gpu_Types
  imports Zeebo_Prelude
begin

text \<open>
  \<open>tools/cpp/gpu/igpu_rasterizer.h\<close>: the kinds of primitives, shared by the two producers of draws, the
  GLES hook (\<open>Igl_Hook\<close>) and the PM4 walker (\<open>Pm4_Walker\<close>).
\<close>

datatype prim = Points | Lines | LineStrip | Triangles | TriStrip | TriFan

end
