(* ===== verification/Pm4_Walker.thy ===== *)
theory Pm4_Walker
  imports Gpu_Types "HOL-Library.Monad_Syntax"
begin

text \<open>
  \<open>tools/cpp/gpu/pm4_adreno.h\<close>: the walk over a PM4 command stream. The callbacks of \<open>Pm4Sink\<close> are
  recorded as a trace of events; which of them are set is part of the sink. A ring is the list of
  its dwords; the resolver of indirect buffers, when set, returns the list of dwords of the buffer
  ([] for a null or empty one). Every read of the stream is partial, so that a read past its end is a
  value of the model. The walk recurses into indirect buffers, so it is a partial function: it returns
  exactly when the buffers it meets are nested to a finite depth.
\<close>

definition hdr_type0_base :: "u32 \<Rightarrow> u32" where
  "hdr_type0_base raw = raw AND 0xffff"

definition hdr_count :: "u32 \<Rightarrow> u32" where
  "hdr_count raw = (drop_bit 16 raw AND 0x3fff) + 1"

definition hdr_type3_op :: "u32 \<Rightarrow> u32" where
  "hdr_type3_op raw = drop_bit 8 raw AND 0xff"

definition hdr_type :: "u32 \<Rightarrow> u32" where
  "hdr_type raw = drop_bit 30 raw AND 3"

definition Cp_Nop :: u32 where "Cp_Nop = 0x10"
definition Cp_DrawIndx :: u32 where "Cp_DrawIndx = 0x22"
definition Cp_DrawIndx2 :: u32 where "Cp_DrawIndx2 = 0x36"
definition Cp_Set_Constant :: u32 where "Cp_Set_Constant = 0x2d"
definition Cp_Wait_For_Idle :: u32 where "Cp_Wait_For_Idle = 0x26"
definition Cp_Indirect_Buf :: u32 where "Cp_Indirect_Buf = 0x3f"

datatype pm4_event = WriteReg u32 u32 | Draw bool u32 prim | WaitIdle

record pm4_sink =
  has_write_reg :: bool
  has_draw :: bool
  has_wait_idle :: bool
  resolve_ib :: "(u32 \<Rightarrow> u32 \<Rightarrow> u32 list) option"

text \<open>A read of the stream; \<open>None\<close> is a read outside it.\<close>

definition dw :: "u32 list \<Rightarrow> nat \<Rightarrow> u32 option" where
  "dw dcb i = (if i < length dcb then Some (dcb ! i) else None)"

text \<open>At most \<open>n\<close> register writes from register \<open>base\<close>, the values from position \<open>p\<close>, stopping at the end.\<close>

fun reg_writes :: "pm4_sink \<Rightarrow> u32 list \<Rightarrow> u32 \<Rightarrow> nat \<Rightarrow> nat \<Rightarrow> pm4_event list option" where
  "reg_writes sink dcb base p 0 = Some []"
| "reg_writes sink dcb base p (Suc n) =
     (if p < length dcb then do {
        ev \<leftarrow> (if has_write_reg sink then do { v \<leftarrow> dw dcb p; Some [WriteReg base v] } else Some []);
        evs \<leftarrow> reg_writes sink dcb (base + 1) (p + 1) n;
        Some (ev @ evs)
      } else Some [])"

text \<open>The effect of a type-3 packet with header \<open>h\<close> at \<open>i\<close> other than an indirect buffer.\<close>

definition type3_events :: "pm4_sink \<Rightarrow> u32 list \<Rightarrow> nat \<Rightarrow> u32 \<Rightarrow> pm4_event list option" where
  "type3_events sink dcb i h =
     (let op = hdr_type3_op h; cnt = unat (hdr_count h)
      in if op = Cp_Nop then Some []
         else if op = Cp_Wait_For_Idle then Some (if has_wait_idle sink then [WaitIdle] else [])
         else if op = Cp_DrawIndx then
           (if has_draw sink \<and> cnt > 1 \<and> i + 2 < length dcb
            then do { n \<leftarrow> dw dcb (i + 2); Some [Draw True n Triangles] } else Some [])
         else if op = Cp_DrawIndx2 then
           (if has_draw sink \<and> cnt > 0 \<and> i + 1 < length dcb
            then do { n \<leftarrow> dw dcb (i + 1); Some [Draw False n Triangles] } else Some [])
         else if op = Cp_Set_Constant then
           (if cnt \<ge> 1 \<and> i + 1 < length dcb
            then do {
              w \<leftarrow> dw dcb (i + 1);
              reg_writes sink dcb ((w AND 0xffff) + 0x2000) (i + 2) (cnt - 1)
            } else Some [])
         else Some [])"

text \<open>The indirect buffer that the type-3 packet asks for, [] for none.\<close>

definition ib_of :: "pm4_sink \<Rightarrow> u32 list \<Rightarrow> nat \<Rightarrow> u32 \<Rightarrow> u32 list option" where
  "ib_of sink dcb i h =
     (if hdr_type3_op h = Cp_Indirect_Buf \<and> unat (hdr_count h) \<ge> 2 \<and> i + 2 < length dcb
      then case resolve_ib sink of
             Some f \<Rightarrow> do { va \<leftarrow> dw dcb (i + 1); size_dw \<leftarrow> dw dcb (i + 2); Some (f va size_dw) }
           | None \<Rightarrow> Some []
      else Some [])"

text \<open>
  The loop. \<open>walk_turn\<close> is one turn of it, with \<open>walk\<close> for what follows and for the recursive call. The
  outer option is \<open>None\<close> for a walk that never returns, the inner one for a read outside the stream.
\<close>

abbreviation walk_turn ::
    "(pm4_sink \<Rightarrow> u32 list \<Rightarrow> nat \<Rightarrow> u32 \<Rightarrow> pm4_event list \<Rightarrow> (u32 \<times> pm4_event list) option option) \<Rightarrow>
     pm4_sink \<Rightarrow> u32 list \<Rightarrow> nat \<Rightarrow> u32 \<Rightarrow> pm4_event list \<Rightarrow> (u32 \<times> pm4_event list) option option" where
  "walk_turn walk sink dcb i packets tr \<equiv>
     (if i < length dcb then
        case dw dcb i of
          None \<Rightarrow> Some None
        | Some h \<Rightarrow>
            if hdr_type h = 2 then walk sink dcb (i + 1) packets tr
            else if hdr_type h = 0 then
              (case reg_writes sink dcb (hdr_type0_base h) (i + 1) (unat (hdr_count h)) of
                 None \<Rightarrow> Some None
               | Some ev \<Rightarrow> walk sink dcb (i + 1 + unat (hdr_count h)) (packets + 1) (tr @ ev))
            else if hdr_type h = 3 then
              (case ib_of sink dcb i h of
                 None \<Rightarrow> Some None
               | Some ib \<Rightarrow> do {
                   r \<leftarrow> (if ib \<noteq> [] then walk sink ib 0 0 []
                          else Some (map_option (Pair 0) (type3_events sink dcb i h)));
                   (case r of
                      None \<Rightarrow> Some None
                    | Some r \<Rightarrow> walk sink dcb (i + 1 + unat (hdr_count h)) (packets + fst r + 1) (tr @ snd r))
                 })
            else walk sink dcb (i + 1) packets tr
      else Some (Some (packets, tr)))"

partial_function (option) walk_from ::
    "pm4_sink \<Rightarrow> u32 list \<Rightarrow> nat \<Rightarrow> u32 \<Rightarrow> pm4_event list \<Rightarrow> (u32 \<times> pm4_event list) option option" where
  "walk_from sink dcb i packets tr = walk_turn walk_from sink dcb i packets tr"

definition pm4_walk :: "u32 list \<Rightarrow> pm4_sink \<Rightarrow> (u32 \<times> pm4_event list) option option" where
  "pm4_walk dcb sink = walk_from sink dcb 0 0 []"

section \<open>Streams of packets\<close>

text \<open>
  Well-formed packets: padding, register writes of 1 to \<open>2 ^ 14\<close> values, and type-3 commands with
  their body.
\<close>

datatype packet = Pad | Regs u32 "u32 list" | Cmd u32 "u32 list"

fun packet_ok :: "packet \<Rightarrow> bool" where
  "packet_ok Pad = True"
| "packet_ok (Regs base vs) \<longleftrightarrow> unat base < 2 ^ 16 \<and> 1 \<le> length vs \<and> length vs \<le> 2 ^ 14"
| "packet_ok (Cmd op body) \<longleftrightarrow> unat op < 2 ^ 8 \<and> 1 \<le> length body \<and> length body \<le> 2 ^ 14"

fun enc_packet :: "packet \<Rightarrow> u32 list" where
  "enc_packet Pad = [push_bit 31 1]"
| "enc_packet (Regs base vs) = (base OR push_bit 16 (of_nat (length vs - 1))) # vs"
| "enc_packet (Cmd op body) =
     (push_bit 30 3 OR push_bit 16 (of_nat (length body - 1)) OR push_bit 8 op) # body"

text \<open>What a packet asks the sink to do (with every callback set), apart from indirect buffers.\<close>

fun packet_events :: "packet \<Rightarrow> pm4_event list" where
  "packet_events Pad = []"
| "packet_events (Regs base vs) = map (\<lambda>k. WriteReg (base + of_nat k) (vs ! k)) [0..<length vs]"
| "packet_events (Cmd op body) =
     (if op = Cp_Wait_For_Idle then [WaitIdle]
      else if op = Cp_DrawIndx then (if length body > 1 then [Draw True (body ! 1) Triangles] else [])
      else if op = Cp_DrawIndx2 then [Draw False (body ! 0) Triangles]
      else if op = Cp_Set_Constant then
        map (\<lambda>k. WriteReg ((body ! 0 AND 0xffff) + 0x2000 + of_nat k) (body ! (k + 1))) [0..<length body - 1]
      else [])"

definition counted :: "packet \<Rightarrow> u32" where
  "counted p = (if p = Pad then 0 else 1)"

definition full_sink :: pm4_sink where
  "full_sink = \<lparr>has_write_reg = True, has_draw = True, has_wait_idle = True, resolve_ib = None\<rparr>"

lemma and_small:
  "(x::u32) AND 0xffff = take_bit 16 x" "(x::u32) AND 0x3fff = take_bit 14 x"
  "(x::u32) AND 0xff = take_bit 8 x" "(x::u32) AND 3 = take_bit 2 x"
proof -
  have "(0xffff::u32) = mask 16" "(0x3fff::u32) = mask 14" "(0xff::u32) = mask 8" "(3::u32) = mask 2"
    by (simp_all add: mask_eq_exp_minus_1)
  then show "x AND 0xffff = take_bit 16 x" "x AND 0x3fff = take_bit 14 x"
    "x AND 0xff = take_bit 8 x" "x AND 3 = take_bit 2 x"
    by (simp_all add: take_bit_eq_mask)
qed

lemma bit_small: "unat (x::u32) < 2 ^ n \<Longrightarrow> bit x k \<Longrightarrow> k < n"
  using word_less_exp_iff [of x n] by (meson not_le)

lemma regs_header:
  assumes "unat base < 2 ^ 16" "n < 2 ^ 14"
  shows "hdr_type (base OR push_bit 16 (of_nat n)) = 0"
    "hdr_type0_base (base OR push_bit 16 (of_nat n)) = base"
    "unat (hdr_count (base OR push_bit 16 (of_nat n))) = Suc n"
proof -
  let ?c = "of_nat n :: u32"
  define h where "h = base OR push_bit 16 ?c"
  let ?h = h
  have c: "unat ?c = n" "unat ?c < 2 ^ 14" using assms(2) by (simp_all add: unat_of_nat)
  have b: "bit ?h k \<longleftrightarrow> bit base k \<or> 16 \<le> k \<and> bit ?c (k - 16)" for k
    unfolding h_def by (auto simp: bit_or_iff bit_push_bit_iff dest: bit_imp_le_length bit_small [OF c(2)])
  have 1: "hdr_type ?h = 0"
    unfolding hdr_type_def and_small
    by (rule bit_word_eqI) (auto simp: bit_take_bit_iff bit_drop_bit_eq b dest: bit_small [OF assms(1)] bit_small [OF c(2)])
  have 2: "hdr_type0_base ?h = base"
    unfolding hdr_type0_base_def and_small
    by (rule bit_word_eqI) (auto simp: bit_take_bit_iff b dest: bit_small [OF assms(1)])
  have "drop_bit 16 ?h AND 0x3fff = ?c"
    unfolding and_small
    by (rule bit_word_eqI) (auto simp: bit_take_bit_iff bit_drop_bit_eq b dest: bit_small [OF assms(1)] bit_small [OF c(2)])
  then have 3: "unat (hdr_count ?h) = Suc n" using c by (simp add: hdr_count_def unat_word_ariths)
  show "hdr_type (base OR push_bit 16 (of_nat n)) = 0"
    "hdr_type0_base (base OR push_bit 16 (of_nat n)) = base"
    "unat (hdr_count (base OR push_bit 16 (of_nat n))) = Suc n"
    using 1 2 3 unfolding h_def .
qed

lemma cmd_header:
  assumes "unat op < 2 ^ 8" "n < 2 ^ 14"
  shows "hdr_type (push_bit 30 3 OR push_bit 16 (of_nat n) OR push_bit 8 op) = 3"
    "hdr_type3_op (push_bit 30 3 OR push_bit 16 (of_nat n) OR push_bit 8 op) = op"
    "unat (hdr_count (push_bit 30 3 OR push_bit 16 (of_nat n) OR push_bit 8 op)) = Suc n"
proof -
  let ?c = "of_nat n :: u32"
  define h where "h = push_bit 30 3 OR push_bit 16 ?c OR push_bit 8 op"
  let ?h = h
  have c: "unat ?c = n" "unat ?c < 2 ^ 14" using assms(2) by (simp_all add: unat_of_nat)
  have three: "bit (push_bit 30 3 :: u32) k \<longleftrightarrow> k = 30 \<or> k = 31" for k
    using bit_push_bit_iff [of 30 "3::u32" k] bit_imp_le_length [of "3::u32"]
    by (auto simp: bit_push_bit_iff)
  have b: "bit ?h k \<longleftrightarrow> k = 30 \<or> k = 31 \<or> 16 \<le> k \<and> bit ?c (k - 16) \<or> 8 \<le> k \<and> bit op (k - 8)" for k
    unfolding h_def bit_or_iff three
    by (auto simp: bit_push_bit_iff dest: bit_imp_le_length bit_small [OF c(2)] bit_small [OF assms(1)])
  have "take_bit 2 (drop_bit 30 ?h) = drop_bit 30 (push_bit 30 3)"
  proof (rule bit_word_eqI)
    fix k assume "k < LENGTH(32)"
    show "bit (take_bit 2 (drop_bit 30 h)) k = bit (drop_bit 30 (push_bit 30 3 :: u32)) k"
      unfolding bit_take_bit_iff bit_drop_bit_eq comp_def b three
      by (auto dest: bit_small [OF assms(1)] bit_small [OF c(2)])
  qed
  then have 1: "hdr_type ?h = 3" unfolding hdr_type_def and_small by simp
  have 2: "hdr_type3_op ?h = op"
    unfolding hdr_type3_op_def and_small
    by (rule bit_word_eqI) (auto simp: bit_take_bit_iff bit_drop_bit_eq b dest: bit_small [OF assms(1)])
  have "drop_bit 16 ?h AND 0x3fff = ?c"
    unfolding and_small
    by (rule bit_word_eqI) (auto simp: bit_take_bit_iff bit_drop_bit_eq b dest: bit_small [OF assms(1)] bit_small [OF c(2)])
  then have 3: "unat (hdr_count ?h) = Suc n" using c by (simp add: hdr_count_def unat_word_ariths)
  show "hdr_type (push_bit 30 3 OR push_bit 16 (of_nat n) OR push_bit 8 op) = 3"
    "hdr_type3_op (push_bit 30 3 OR push_bit 16 (of_nat n) OR push_bit 8 op) = op"
    "unat (hdr_count (push_bit 30 3 OR push_bit 16 (of_nat n) OR push_bit 8 op)) = Suc n"
    using 1 2 3 unfolding h_def .
qed

text \<open>The reads of a turn are inside the stream.\<close>

lemma dw_nth [simp]: "i < length dcb \<Longrightarrow> dw dcb i = Some (dcb ! i)"
  by (simp add: dw_def)

lemma reg_writes_all:
  "reg_writes sink dcb base p n =
     Some (if has_write_reg sink then map (\<lambda>k. WriteReg (base + of_nat k) (dcb ! (p + k))) [0..<min n (length dcb - p)] else [])"
proof (induction n arbitrary: base p)
  case (Suc n)
  show ?case
  proof (cases "p < length dcb")
    case True
    have "min (Suc n) (length dcb - p) = Suc (min n (length dcb - (p + 1)))" using True by simp
    moreover have "[0..<Suc m] = 0 # map Suc [0..<m]" for m by (simp add: map_Suc_upt upt_conv_Cons del: upt_Suc)
    ultimately show ?thesis using True Suc.IH [of "base + 1" "p + 1"] by (simp add: comp_def add.assoc del: upt_Suc)
  qed simp
qed simp

lemma type3_events_returns: "\<exists>ev. type3_events sink dcb i h = Some ev"
  by (simp add: type3_events_def Let_def reg_writes_all)

text \<open>The walk over one packet, and over a stream of them.\<close>

lemma drop_cons_nth: "drop i xs = y # ys \<Longrightarrow> i < length xs \<and> xs ! i = y \<and> drop (Suc i) xs = ys"
  by (metis Cons_nth_drop_Suc drop_eq_Nil2 list.distinct(1) list.inject not_le)

lemma walk_packet:
  assumes "packet_ok p" "drop i dcb = enc_packet p @ rest"
  shows "walk_from full_sink dcb i n tr =
    walk_from full_sink dcb (i + length (enc_packet p)) (n + counted p) (tr @ packet_events p)"
proof (cases p)
  case Pad
  have "i < length dcb" "dcb ! i = push_bit 31 1" using assms(2) Pad drop_cons_nth [of i dcb] by auto
  moreover have "hdr_type (push_bit 31 1) = 2" by code_simp
  ultimately show ?thesis using Pad by (subst walk_from.simps) (simp add: counted_def)
next
  case (Regs base vs)
  let ?h = "base OR push_bit 16 (of_nat (length vs - 1))"
  have d: "drop i dcb = ?h # vs @ rest" using assms(2) Regs by simp
  note h = drop_cons_nth [OF d]
  have ok: "unat base < 2 ^ 16" "length vs - 1 < 2 ^ 14" "vs \<noteq> []" using assms(1) Regs by auto
  note f = regs_header [OF ok(1,2)]
  have len: "Suc (length vs - 1) = length vs" using ok(3) by (cases vs) auto
  have nth: "dcb ! (i + 1 + k) = vs ! k" if "k < length vs" for k
    using h that nth_drop [of "Suc i" dcb k] by (simp add: nth_append)
  have fit: "length vs \<le> length dcb - (i + 1)" using h by (metis Suc_eq_plus1 le_add1 length_append length_drop)
  have ev: "reg_writes full_sink dcb base (i + 1) (length vs) = Some (packet_events p)"
    using nth fit by (simp add: Regs reg_writes_all full_sink_def)
  show ?thesis
    using h f len ev Regs by (subst walk_from.simps) (simp add: counted_def Let_def)
next
  case (Cmd op body)
  let ?h = "push_bit 30 3 OR push_bit 16 (of_nat (length body - 1)) OR push_bit 8 op"
  have d: "drop i dcb = ?h # body @ rest" using assms(2) Cmd by simp
  note h = drop_cons_nth [OF d]
  have ok: "unat op < 2 ^ 8" "length body - 1 < 2 ^ 14" "body \<noteq> []" using assms(1) Cmd by auto
  note f = cmd_header [OF ok(1,2)]
  have len: "Suc (length body - 1) = length body" using ok(3) by (cases body) auto
  have nth: "dcb ! (i + 1 + k) = body ! k" if "k < length body" for k
    using h that nth_drop [of "Suc i" dcb k] by (simp add: nth_append)
  have fit: "length body \<le> length dcb - (i + 1)" using h by (metis Suc_eq_plus1 le_add1 length_append length_drop)
  have ib: "ib_of full_sink dcb i (dcb ! i) = Some []" by (simp add: ib_of_def full_sink_def)
  have in1: "i + 1 < length dcb" using fit ok(3) by (cases body) auto
  have b0: "dcb ! (i + 1) = body ! 0" using nth [of 0] ok(3) by simp
  have fields: "hdr_type3_op (dcb ! i) = op" "unat (hdr_count (dcb ! i)) = length body"
    using h f(2,3) len by simp_all
  have ev: "type3_events full_sink dcb i (dcb ! i) = Some (packet_events p)"
  proof (cases "op = Cp_Set_Constant")
    case True
    have "dcb ! (i + 2 + k) = body ! (k + 1)" if "k < length body - 1" for k
      using nth [of "k + 1"] that by simp
    moreover have "min (length body - 1) (length dcb - (i + 2)) = length body - 1" using fit by simp
    ultimately show ?thesis
      using True in1 b0 ok(3)
      by (simp add: Cmd type3_events_def reg_writes_all full_sink_def fields Let_def Suc_le_eq
          Cp_Nop_def Cp_Wait_For_Idle_def Cp_DrawIndx_def Cp_DrawIndx2_def Cp_Set_Constant_def)
  next
    case False
    have "i + 2 < length dcb \<and> dcb ! (i + 2) = body ! 1" if "1 < length body"
      using nth [of 1] fit that by simp
    then show ?thesis
      using False in1 b0 ok(3)
      by (simp add: Cmd type3_events_def full_sink_def fields Let_def Cp_Nop_def Cp_Wait_For_Idle_def Cp_DrawIndx_def
          Cp_DrawIndx2_def Cp_Set_Constant_def)
  qed
  show ?thesis
    using h f len ev ib Cmd by (subst walk_from.simps) (simp add: counted_def Let_def)
qed

lemma walk_stream:
  assumes "list_all packet_ok ps" "drop i dcb = concat (map enc_packet ps)"
  shows "walk_from full_sink dcb i n tr =
    Some (Some (n + sum_list (map counted ps), tr @ concat (map packet_events ps)))"
  using assms
proof (induction ps arbitrary: i n tr)
  case Nil
  then show ?case by (subst walk_from.simps) simp
next
  case (Cons p ps)
  have d: "drop i dcb = enc_packet p @ concat (map enc_packet ps)" using Cons.prems by simp
  have "drop (i + length (enc_packet p)) dcb = drop (length (enc_packet p)) (drop i dcb)" by (simp add: add.commute)
  then have "drop (i + length (enc_packet p)) dcb = concat (map enc_packet ps)" unfolding d by simp
  then show ?case using Cons walk_packet [OF _ d] by (simp add: add.assoc)
qed

text \<open>
  C27: the walk over a command stream returns and does what the packets say. For a stream that is a
  concatenation of well-formed packets (padding, register writes, type-3 commands) and a sink with
  every callback but the indirect-buffer resolver, the walk ends, counts every packet but the
  padding, and calls the sink with exactly the register writes, draws and waits of the packets, in
  stream order.
\<close>

theorem pm4_walk_stream:
  assumes "list_all packet_ok ps"
  shows "pm4_walk (concat (map enc_packet ps)) full_sink =
    Some (Some (sum_list (map counted ps), concat (map packet_events ps)))"
  using walk_stream [OF assms, of 0 _ 0 "[]"] by (simp add: pm4_walk_def)

theorem pm4_walk_stream_witness:
  "pm4_walk (concat (map enc_packet [Pad, Regs 0x2000 [7, 8], Cmd Cp_DrawIndx2 [3]])) full_sink =
     Some (Some (2, [WriteReg 0x2000 7, WriteReg 0x2001 8, Draw False 3 Triangles]))"
  using pm4_walk_stream [of "[Pad, Regs 0x2000 [7, 8], Cmd Cp_DrawIndx2 [3]]"]
  by (simp add: Cp_DrawIndx2_def Cp_Wait_For_Idle_def Cp_DrawIndx_def counted_def)

section \<open>Arbitrary streams\<close>

text \<open>
  The positions where the walk of a stream reads a header, from \<open>i\<close> on, and the buffer a header asks for.
\<close>

definition next_head :: "u32 list \<Rightarrow> nat \<Rightarrow> nat" where
  "next_head dcb i =
     (if hdr_type (dcb ! i) \<in> {0, 3} then i + 1 + unat (hdr_count (dcb ! i)) else i + 1)"

inductive head_from :: "u32 list \<Rightarrow> nat \<Rightarrow> nat \<Rightarrow> bool" for dcb where
  here: "i < length dcb \<Longrightarrow> head_from dcb i i"
| later: "i < length dcb \<Longrightarrow> head_from dcb (next_head dcb i) j \<Longrightarrow> head_from dcb i j"

definition ib_request :: "pm4_sink \<Rightarrow> u32 list \<Rightarrow> nat \<Rightarrow> u32 list" where
  "ib_request sink dcb i =
     (if hdr_type (dcb ! i) = 3 \<and> hdr_type3_op (dcb ! i) = 0x3f \<and> unat (hdr_count (dcb ! i)) \<ge> 2 \<and> i + 2 < length dcb
      then case resolve_ib sink of Some f \<Rightarrow> f (dcb ! (i + 1)) (dcb ! (i + 2)) | None \<Rightarrow> []
      else [])"

text \<open>A stream is nested when every buffer its packets ask for is: no chain of buffers goes on forever.\<close>

inductive nested_ib :: "pm4_sink \<Rightarrow> u32 list \<Rightarrow> bool" for sink where
  nested: "(\<And>i. head_from dcb 0 i \<Longrightarrow> ib_request sink dcb i \<noteq> [] \<Longrightarrow> nested_ib sink (ib_request sink dcb i)) \<Longrightarrow>
    nested_ib sink dcb"

lemma ib_of_request: "i < length dcb \<Longrightarrow> hdr_type (dcb ! i) = 3 \<Longrightarrow> ib_of sink dcb i (dcb ! i) = Some (ib_request sink dcb i)"
  by (auto simp: ib_of_def ib_request_def Cp_Indirect_Buf_def split: option.split)

lemma head_trans: "head_from dcb i j \<Longrightarrow> head_from dcb j k \<Longrightarrow> head_from dcb i k"
  by (induction rule: head_from.induct) (auto intro: head_from.intros)

text \<open>One turn, for any continuation: a packet without a buffer moves on, a buffer is walked first.\<close>

lemma turn_plain:
  assumes "i < length dcb" "ib_request sink dcb i = []"
  shows "\<exists>m ev. walk_turn walk sink dcb i n tr = walk sink dcb (next_head dcb i) m ev"
proof -
  obtain ev where "type3_events sink dcb i (dcb ! i) = Some ev" using type3_events_returns by blast
  then show ?thesis
    using assms ib_of_request [OF assms(1), of sink] by (auto simp: next_head_def reg_writes_all)
qed

lemma turn_buffer:
  assumes "i < length dcb" "ib_request sink dcb i \<noteq> []"
  shows "walk_turn walk sink dcb i n tr =
    do { r \<leftarrow> walk sink (ib_request sink dcb i) 0 0 [];
         (case r of None \<Rightarrow> Some None
          | Some r \<Rightarrow> walk sink dcb (next_head dcb i) (n + fst r + 1) (tr @ snd r)) }"
proof -
  have "hdr_type (dcb ! i) = 3" using assms(2) by (simp add: ib_request_def split: if_splits)
  then show ?thesis
    using assms ib_of_request [OF assms(1), of sink]
    by (cases "walk sink (ib_request sink dcb i) 0 0 []") (simp_all add: next_head_def split: option.split)
qed

lemma turn_end: "\<not> i < length dcb \<Longrightarrow> walk_turn walk sink dcb i n tr = Some (Some (n, tr))"
  by simp

text \<open>A walk that returns has read only the stream, and every buffer it met is nested.\<close>

definition met_nested :: "pm4_sink \<Rightarrow> u32 list \<Rightarrow> nat \<Rightarrow> bool" where
  "met_nested sink dcb i \<longleftrightarrow>
     (\<forall>j. head_from dcb i j \<longrightarrow> ib_request sink dcb j \<noteq> [] \<longrightarrow> nested_ib sink (ib_request sink dcb j))"

lemma met_nested_step:
  "i < length dcb \<Longrightarrow> met_nested sink dcb (next_head dcb i) \<Longrightarrow>
   ib_request sink dcb i = [] \<or> nested_ib sink (ib_request sink dcb i) \<Longrightarrow> met_nested sink dcb i"
  by (auto simp: met_nested_def elim: head_from.cases)

lemma met_nested_start: "met_nested sink dcb 0 \<longleftrightarrow> nested_ib sink dcb"
  by (auto simp: met_nested_def intro: nested elim: nested_ib.cases)

lemma walk_returned:
  assumes "walk_from sink dcb i n tr = Some r"
  shows "r \<noteq> None \<and> met_nested sink dcb i"
  using _ assms
proof (rule walk_from.raw_induct [of "\<lambda>sink dcb i n tr r. r \<noteq> None \<and> met_nested sink dcb i"])
  fix walk sink dcb i n tr r
  assume IH: "\<And>sink dcb i n tr r. walk sink dcb i n tr = Some r \<Longrightarrow> r \<noteq> None \<and> met_nested sink dcb i"
    and turn: "walk_turn walk sink dcb i n tr = Some r"
  show "r \<noteq> None \<and> met_nested sink dcb i"
  proof (cases "i < length dcb")
    case in_stream: True
    show ?thesis
    proof (cases "ib_request sink dcb i = []")
      case True
      obtain m ev where "walk sink dcb (next_head dcb i) m ev = Some r"
        using turn_plain [OF in_stream True, of walk n tr] turn by auto
      then show ?thesis using IH met_nested_step [OF in_stream] True by blast
    next
      case False
      from turn obtain q where q: "walk sink (ib_request sink dcb i) 0 0 [] = Some q"
        "(case q of None \<Rightarrow> Some None | Some q \<Rightarrow> walk sink dcb (next_head dcb i) (n + fst q + 1) (tr @ snd q)) = Some r"
        unfolding turn_buffer [OF in_stream False] by (auto simp: bind_eq_Some_conv)
      then have "q \<noteq> None" "nested_ib sink (ib_request sink dcb i)" using IH met_nested_start by blast+
      then show ?thesis using q(2) IH met_nested_step [OF in_stream] by (auto split: option.splits)
    qed
  next
    case False
    then show ?thesis using turn by (auto simp: met_nested_def elim: head_from.cases)
  qed
qed

text \<open>A nested stream is walked to its end.\<close>

lemma walk_tail:
  assumes "\<And>j. head_from dcb 0 j \<Longrightarrow> ib_request sink dcb j \<noteq> [] \<Longrightarrow>
      \<exists>r. walk_from sink (ib_request sink dcb j) 0 0 [] = Some (Some r)"
    and "i = 0 \<or> head_from dcb 0 i \<or> length dcb \<le> i"
  shows "\<exists>r. walk_from sink dcb i n tr = Some (Some r)"
  using assms(2)
proof (induction "length dcb - i" arbitrary: i n tr rule: less_induct)
  case less
  show ?case
  proof (cases "i < length dcb")
    case True
    have at: "head_from dcb 0 i" using less.prems True by (auto intro: here)
    have "next_head dcb i = 0 \<or> head_from dcb 0 (next_head dcb i) \<or> length dcb \<le> next_head dcb i"
      using True head_trans [OF at] by (meson here later not_le)
    moreover have "length dcb - next_head dcb i < length dcb - i" using True by (auto simp: next_head_def)
    ultimately have go: "\<exists>r. walk_from sink dcb (next_head dcb i) m ev = Some (Some r)" for m ev
      using less.hyps by blast
    show ?thesis
    proof (cases "ib_request sink dcb i = []")
      case plain: True
      obtain m ev where "walk_from sink dcb i n tr = walk_from sink dcb (next_head dcb i) m ev"
        using turn_plain [OF True plain, of walk_from n tr] unfolding walk_from.simps [of sink dcb i n tr, symmetric] by blast
      then show ?thesis using go by simp
    next
      case False
      obtain q where "walk_from sink (ib_request sink dcb i) 0 0 [] = Some (Some q)" using assms(1) [OF at False] by blast
      then show ?thesis
        using go turn_buffer [OF True False, of walk_from n tr] unfolding walk_from.simps [of sink dcb i n tr, symmetric] by simp
    qed
  next
    case False
    then show ?thesis by (subst walk_from.simps) simp
  qed
qed

lemma nested_walk: "nested_ib sink dcb \<Longrightarrow> \<exists>r. walk_from sink dcb 0 n tr = Some (Some r)"
proof (induction arbitrary: n tr rule: nested_ib.induct)
  case (nested dcb)
  show ?case by (rule walk_tail) (use nested in auto)
qed

text \<open>
  C37: no walk reads outside a stream, and which walks return. On every stream, well-formed or not (headers
  whose counts run past the end, reserved packet types and truncated bodies included), the walk never reads
  past the end of the stream or of an indirect buffer; and it returns exactly when the indirect buffers it
  meets are nested to a finite depth, that is, when no chain of buffers that ask for one another goes on
  forever.
\<close>

theorem pm4_walk_returns:
  "pm4_walk dcb sink \<noteq> Some None \<and>
   ((\<exists>packets trace. pm4_walk dcb sink = Some (Some (packets, trace))) \<longleftrightarrow> nested_ib sink dcb)"
  using walk_returned [of sink dcb 0 0 "[]"] nested_walk [of sink dcb 0 "[]"] met_nested_start [of sink dcb]
  by (cases "pm4_walk dcb sink") (auto simp: pm4_walk_def)

text \<open>Without a resolver every stream is nested, and a resolver that answers with padding gives one level.\<close>

lemma no_resolver_nested: "resolve_ib sink = None \<Longrightarrow> nested_ib sink dcb"
  by (rule nested) (simp add: ib_request_def split: if_splits)

lemma padding_nested:
  assumes "resolve_ib sink = Some (\<lambda>_ _. [push_bit 31 1])"
  shows "nested_ib sink dcb"
proof (rule nested)
  fix i assume "ib_request sink dcb i \<noteq> []"
  then have "ib_request sink dcb i = [push_bit 31 1]" using assms by (simp add: ib_request_def split: if_splits)
  moreover have "nested_ib sink [push_bit 31 1]" by (rule nested) (simp add: ib_request_def)
  ultimately show "nested_ib sink (ib_request sink dcb i)" by simp
qed

text \<open>An indirect buffer that resolves to the stream it is in.\<close>

definition self_ring :: "u32 list" where
  "self_ring = enc_packet (Cmd Cp_Indirect_Buf [0x1000, 3])"

definition self_sink :: pm4_sink where
  "self_sink = full_sink\<lparr>resolve_ib := Some (\<lambda>_ _. self_ring)\<rparr>"

lemma self_not_nested: "nested_ib sink dcb \<Longrightarrow> \<not> (sink = self_sink \<and> dcb = self_ring)"
proof (induction rule: nested_ib.induct)
  case (nested dcb)
  have ib: "ib_request self_sink self_ring 0 = self_ring" "0 < length self_ring" by code_simp+
  then have "head_from self_ring 0 0" "ib_request self_sink self_ring 0 \<noteq> []" by (auto intro: here)
  then show ?case using nested.IH [of 0] ib by auto
qed

text \<open>
  A stream whose indirect buffer resolves to the stream itself is walked forever: the recursion
  into indirect buffers has no depth bound.
\<close>

theorem pm4_self_reference_diverges: "pm4_walk self_ring self_sink = None"
  using walk_returned [of self_sink self_ring 0 0 "[]"] self_not_nested [of self_sink self_ring] met_nested_start
  by (cases "pm4_walk self_ring self_sink") (auto simp: pm4_walk_def)

end
