(* ===== verification/Atitc_Decode.thy ===== *)
theory Atitc_Decode
  imports Zeebo_Prelude
begin

text \<open>
  \<open>tools/cpp/gpu/atitc_decode.h\<close>: the decoder of ATC/ATITC compressed textures to packed RGBA8. The
  input is the block data, or nothing for a null pointer; the output vector is the decoder's last
  argument and the second component of its result. The two block loops are one \<open>fold\<close> over the
  pairs in row-major order, the two texel loops another. Width and height are mathematical integers: for a
  side above \<open>INT_MAX - 3\<close> the source's rounding \<open>(w + 3) / 4\<close> overflows a signed \<open>int\<close>, which is
  undefined and outside this model.
\<close>

definition kATITC_RGB :: u32 where "kATITC_RGB = 0x8C92"
definition kATITC_RGBA_EXPLICIT :: u32 where "kATITC_RGBA_EXPLICIT = 0x8C93"
definition kATITC_RGBA_INTERP :: u32 where "kATITC_RGBA_INTERP = 0x87EE"

definition atitc_block_bytes :: "u32 \<Rightarrow> nat" where
  "atitc_block_bytes fmt =
     (if fmt = kATITC_RGB then 8
      else if fmt = kATITC_RGBA_EXPLICIT \<or> fmt = kATITC_RGBA_INTERP then 16 else 0)"

definition atitc_image_size :: "u32 \<Rightarrow> int \<Rightarrow> int \<Rightarrow> nat" where
  "atitc_image_size fmt w h =
     (let bb = atitc_block_bytes fmt
      in if bb = 0 \<or> w \<le> 0 \<or> h \<le> 0 then 0 else nat ((w + 3) div 4) * nat ((h + 3) div 4) * bb)"

definition e5 :: "u32 \<Rightarrow> u8" where "e5 v = ucast (push_bit 3 v OR drop_bit 2 v)"
definition e6 :: "u32 \<Rightarrow> u8" where "e6 v = ucast (push_bit 2 v OR drop_bit 4 v)"

record rgb =
  rgb_r :: u8
  rgb_g :: u8
  rgb_b :: u8

definition unpack_c0 :: "u16 \<Rightarrow> bool \<times> rgb" where
  "unpack_c0 w = (drop_bit 15 w AND 1 \<noteq> 0,
     \<lparr>rgb_r = e5 (ucast (drop_bit 10 w AND 0x1f)), rgb_g = e5 (ucast (drop_bit 5 w AND 0x1f)),
      rgb_b = e5 (ucast (w AND 0x1f))\<rparr>)"

definition unpack_c1 :: "u16 \<Rightarrow> rgb" where
  "unpack_c1 w = \<lparr>rgb_r = e5 (ucast (drop_bit 11 w AND 0x1f)), rgb_g = e6 (ucast (drop_bit 5 w AND 0x3f)),
     rgb_b = e5 (ucast (w AND 0x1f))\<rparr>"

definition mix :: "u8 \<Rightarrow> nat \<Rightarrow> u8 \<Rightarrow> nat \<Rightarrow> nat \<Rightarrow> u8" where
  "mix a wa b wb denom = of_nat ((wa * unat a + wb * unat b) div denom)"

definition sub_quarter :: "u8 \<Rightarrow> u8 \<Rightarrow> u8" where
  "sub_quarter a b = (let r = int (unat a) - int (unat b div 4) in if r < 0 then 0 else of_int r)"

definition rgb2 :: "(u8 \<Rightarrow> u8 \<Rightarrow> u8) \<Rightarrow> rgb \<Rightarrow> rgb \<Rightarrow> rgb" where
  "rgb2 f c0 c1 = \<lparr>rgb_r = f (rgb_r c0) (rgb_r c1), rgb_g = f (rgb_g c0) (rgb_g c1),
     rgb_b = f (rgb_b c0) (rgb_b c1)\<rparr>"

definition lerp :: "bool \<Rightarrow> nat \<Rightarrow> rgb \<Rightarrow> rgb \<Rightarrow> rgb" where
  "lerp method t c0 c1 =
     (if \<not> method then
        if t = 0 then c0
        else if t = 1 then rgb2 (\<lambda>a b. mix a 2 b 1 3) c0 c1
        else if t = 2 then rgb2 (\<lambda>a b. mix a 1 b 2 3) c0 c1
        else c1
      else
        if t = 0 then \<lparr>rgb_r = 0, rgb_g = 0, rgb_b = 0\<rparr>
        else if t = 1 then rgb2 sub_quarter c0 c1
        else if t = 2 then c0
        else c1)"

definition word16 :: "u8 \<Rightarrow> u8 \<Rightarrow> u16" where
  "word16 lo hi = ucast lo OR push_bit 8 (ucast hi)"

text \<open>The sixteen texels of a colour sub-block at position \<open>p\<close> of the data.\<close>

definition decode_colors :: "u8 list \<Rightarrow> nat \<Rightarrow> rgb list" where
  "decode_colors d p =
     (let w0 = word16 (d ! p) (d ! (p + 1)); w1 = word16 (d ! (p + 2)) (d ! (p + 3));
          (method, c0) = unpack_c0 w0; c1 = unpack_c1 w1;
          idx = rd32 d (p + 4)
      in map (\<lambda>i. lerp method (unat (drop_bit (2 * i) idx AND 3)) c0 c1) [0..<16])"

definition decode_alpha_explicit :: "u8 list \<Rightarrow> nat \<Rightarrow> u8 list" where
  "decode_alpha_explicit d p =
     concat (map (\<lambda>i. [(d ! (p + i) AND 0xf) * 17, (drop_bit 4 (d ! (p + i)) AND 0xf) * 17]) [0..<8])"

definition alpha_palette :: "nat \<Rightarrow> nat \<Rightarrow> u8 list" where
  "alpha_palette a0 a1 =
     (if a0 > a1
      then [of_nat a0, of_nat a1] @ map (\<lambda>j. of_nat (((6 - j) * a0 + (1 + j) * a1) div 7)) [0..<6]
      else [of_nat a0, of_nat a1] @ map (\<lambda>j. of_nat (((4 - j) * a0 + (1 + j) * a1) div 5)) [0..<4] @ [0, 255])"

definition alpha_bits :: "u8 list \<Rightarrow> nat \<Rightarrow> u64" where
  "alpha_bits d p = fold (\<lambda>k b. b OR push_bit (8 * k) (ucast (d ! (p + 2 + k)))) [0..<6] 0"

definition decode_alpha_interp :: "u8 list \<Rightarrow> nat \<Rightarrow> u8 list" where
  "decode_alpha_interp d p =
     (let pal = alpha_palette (unat (d ! p)) (unat (d ! (p + 1))); bits = alpha_bits d p
      in map (\<lambda>i. pal ! unat (drop_bit (3 * i) bits AND 7)) [0..<16])"

text \<open>A decoded block: its sixteen texels with their alpha.\<close>

definition decode_block :: "u32 \<Rightarrow> u8 list \<Rightarrow> nat \<Rightarrow> rgb list \<times> u8 list" where
  "decode_block fmt d off =
     (if fmt = kATITC_RGB then (decode_colors d off, replicate 16 255)
      else if fmt = kATITC_RGBA_EXPLICIT then (decode_colors d (off + 8), decode_alpha_explicit d off)
      else (decode_colors d (off + 8), decode_alpha_interp d off))"

definition put_pixel :: "nat \<Rightarrow> nat \<Rightarrow> nat \<Rightarrow> rgb \<Rightarrow> u8 \<Rightarrow> u8 list \<Rightarrow> u8 list" where
  "put_pixel w px py c a ps =
     (let o4 = (py * w + px) * 4
      in ps[o4 := rgb_r c, o4 + 1 := rgb_g c, o4 + 2 := rgb_b c, o4 + 3 := a])"

definition put_texel :: "nat \<Rightarrow> nat \<Rightarrow> rgb list \<times> u8 list \<Rightarrow> nat \<times> nat \<Rightarrow> nat \<times> nat \<Rightarrow> u8 list \<Rightarrow> u8 list" where
  "put_texel w h blk = (\<lambda>(by, bx) (ty, tx) ps.
     let py = by * 4 + ty; px = bx * 4 + tx
     in if py \<ge> h \<or> px \<ge> w then ps
        else put_pixel w px py (fst blk ! (ty * 4 + tx)) (snd blk ! (ty * 4 + tx)) ps)"

definition put_block :: "u32 \<Rightarrow> u8 list \<Rightarrow> nat \<Rightarrow> nat \<Rightarrow> nat \<times> nat \<Rightarrow> nat \<times> u8 list \<Rightarrow> nat \<times> u8 list" where
  "put_block fmt d w h byx st =
     (let (off, ps) = st
      in (off + atitc_block_bytes fmt,
          fold (put_texel w h (decode_block fmt d off) byx) (List.product [0..<4] [0..<4]) ps))"

definition decode_atitc :: "u32 \<Rightarrow> int \<Rightarrow> int \<Rightarrow> u8 list option \<Rightarrow> u8 list \<Rightarrow> bool \<times> u8 list" where
  "decode_atitc fmt w h data out =
     (if atitc_block_bytes fmt = 0 then (False, out)
      else if w \<le> 0 \<or> h \<le> 0 then (False, out)
      else case data of
        None \<Rightarrow> (False, out)
      | Some d \<Rightarrow>
          let need = atitc_image_size fmt w h
          in if need = 0 \<or> length d < need then (False, out)
             else
               let bw = nat ((w + 3) div 4); bh = nat ((h + 3) div 4);
                   pixels = replicate (nat w * nat h * 4) 0
               in (True, snd (fold (put_block fmt d (nat w) (nat h))
                                (List.product [0..<bh] [0..<bw]) (0, pixels))))"

section \<open>Pixels\<close>

definition pixel_at :: "nat \<Rightarrow> u8 list \<Rightarrow> nat \<Rightarrow> nat \<Rightarrow> u8 list" where
  "pixel_at w ps x y = map (\<lambda>k. ps ! ((y * w + x) * 4 + k)) [0..<4]"

lemma length_put_pixel [simp]: "length (put_pixel w px py c a ps) = length ps"
  by (simp add: put_pixel_def Let_def)

lemma length_put_texel [simp]: "length (put_texel w h blk b t ps) = length ps"
  by (simp add: put_texel_def Let_def split: prod.split)

lemma pixel_in_image:
  assumes "x < w" "y < h" "k < (4::nat)"
  shows "(y * w + x) * 4 + k < w * h * 4"
proof -
  have "y * w + x < Suc y * w" using assms(1) by simp
  also have "\<dots> \<le> h * w" using assms(2) by (intro mult_le_mono1) simp
  finally have "Suc (y * w + x) * 4 \<le> h * w * 4" by (intro mult_le_mono1) simp
  then show ?thesis using assms(3) by (simp add: mult.commute [of w])
qed

lemma pixel_index_eq:
  assumes "(x::nat) < w" "x' < w" "k < 4" "k' < 4"
  shows "(y * w + x) * 4 + k = (y' * w + x') * 4 + k' \<longleftrightarrow> x = x' \<and> y = y' \<and> k = k'"
proof
  assume e: "(y * w + x) * 4 + k = (y' * w + x') * 4 + k'"
  have m: "(a * 4 + j) mod 4 = j" if "j < 4" for a j :: nat using that by simp
  have k: "k = k'" using e m [OF assms(3), of "y * w + x"] m [OF assms(4), of "y' * w + x'"] by metis
  with e have "y * w + x = y' * w + x'" by simp
  moreover have "(y * w + x) div w = y" "(y * w + x) mod w = x"
      "(y' * w + x') div w = y'" "(y' * w + x') mod w = x'"
    using assms(1,2) by simp_all
  ultimately show "x = x' \<and> y = y' \<and> k = k'" using k by metis
qed simp

lemma put_pixel_at:
  assumes "length ps = w * h * 4" "x < w" "y < h" "px < w" "py < h"
  shows "pixel_at w (put_pixel w px py c a ps) x y =
    (if x = px \<and> y = py then [rgb_r c, rgb_g c, rgb_b c, a] else pixel_at w ps x y)"
proof -
  let ?o = "(py * w + px) * 4"
  have upd: "put_pixel w px py c a ps ! ((y * w + x) * 4 + k) =
      (if x = px \<and> y = py then [rgb_r c, rgb_g c, rgb_b c, a] ! k else ps ! ((y * w + x) * 4 + k))"
    if k: "k < 4" for k
  proof -
    have len: "?o + j < length ps" if "j < 4" for j
      using pixel_in_image [OF assms(4,5) that] assms(1) by simp
    have eq: "?o + j = (y * w + x) * 4 + k \<longleftrightarrow> px = x \<and> py = y \<and> j = k" if "j < 4" for j
      using pixel_index_eq [OF assms(4,2) that k] by simp
    have "k = 0 \<or> k = 1 \<or> k = 2 \<or> k = 3" using k by auto
    then show ?thesis
      using len [of 0] len [of 1] len [of 2] len [of 3] eq [of 0] eq [of 1] eq [of 2] eq [of 3]
      by (auto simp: put_pixel_def Let_def nth_list_update)
  qed
  have four: "[0..<4] = [0, 1, 2, 3::nat]" by code_simp
  show ?thesis using upd [of 0] upd [of 1] upd [of 2] upd [of 3] by (simp add: pixel_at_def four)
qed

section \<open>Blocks\<close>

text \<open>The four bytes of texel \<open>t\<close> of a decoded block.\<close>

definition texel :: "rgb list \<times> u8 list \<Rightarrow> nat \<Rightarrow> u8 list" where
  "texel blk t = [rgb_r (fst blk ! t), rgb_g (fst blk ! t), rgb_b (fst blk ! t), snd blk ! t]"

lemma put_texels_at:
  assumes "x < w" "y < h"
  shows "length ps = w * h * 4 \<Longrightarrow>
    pixel_at w (fold (put_texel w h blk (by, bx)) ts ps) x y =
      (if \<exists>(ty, tx) \<in> set ts. by * 4 + ty = y \<and> bx * 4 + tx = x
       then texel blk ((y - by * 4) * 4 + (x - bx * 4)) else pixel_at w ps x y)"
proof (induction ts arbitrary: ps)
  case (Cons t ts)
  obtain ty tx where t: "t = (ty, tx)" by (cases t)
  let ?ps = "put_texel w h blk (by, bx) (ty, tx) ps"
  have "pixel_at w ?ps x y = (if by * 4 + ty = y \<and> bx * 4 + tx = x
      then texel blk ((y - by * 4) * 4 + (x - bx * 4)) else pixel_at w ps x y)"
  proof (cases "by * 4 + ty \<ge> h \<or> bx * 4 + tx \<ge> w")
    case True
    then show ?thesis using assms by (auto simp: put_texel_def Let_def)
  next
    case False
    then show ?thesis
      using put_pixel_at [OF Cons.prems assms, of "bx * 4 + tx" "by * 4 + ty"]
      by (auto simp: put_texel_def Let_def texel_def)
  qed
  then show ?case using Cons.IH [of ?ps] Cons.prems by (auto simp: t)
qed simp

lemma length_put_texels [simp]: "length (fold (put_texel w h blk b) ts ps) = length ps"
  by (induction ts arbitrary: ps) auto

lemma put_block_at:
  assumes "x < w" "y < h" "length ps = w * h * 4"
  shows "pixel_at w (snd (put_block fmt d w h (by, bx) (off, ps))) x y =
    (if y div 4 = by \<and> x div 4 = bx
     then texel (decode_block fmt d off) ((y mod 4) * 4 + x mod 4) else pixel_at w ps x y)"
proof -
  have in_block: "(\<exists>(ty, tx) \<in> set (List.product [0..<4] [0..<4]). by * 4 + ty = y \<and> bx * 4 + tx = x) \<longleftrightarrow>
      y div 4 = by \<and> x div 4 = bx" (is "?l = ?r")
  proof
    assume ?l
    then show ?r by auto
  next
    assume ?r
    then have "by * 4 + y mod 4 = y \<and> bx * 4 + x mod 4 = x" by (metis div_mult_mod_eq)
    moreover have "(y mod 4, x mod 4) \<in> set (List.product [0..<4] [0..<4])" by simp
    ultimately show ?l by blast
  qed
  have "(y - by * 4) * 4 + (x - bx * 4) = (y mod 4) * 4 + x mod 4" if ?r
    using that by (metis minus_div_mult_eq_mod)
  then show ?thesis
    using put_texels_at [OF assms(1,2,3), of "decode_block fmt d off" "by" bx "List.product [0..<4] [0..<4]"]
    unfolding in_block by (simp add: put_block_def)
qed

lemma put_block_off:
  "fst (put_block fmt d w h b st) = fst st + atitc_block_bytes fmt"
  "length (snd (put_block fmt d w h b st)) = length (snd st)"
  by (simp_all add: put_block_def split: prod.split)

lemma put_block_surj:
  "put_block fmt d w h (by, bx) st = put_block fmt d w h (by, bx) (fst st, snd st)"
  by simp

text \<open>After the first \<open>n\<close> blocks in row-major order, the pixels of these blocks are final.\<close>

lemma block_order_nth:
  assumes "n < a * b"
  shows "List.product [0..<a] [0..<b] ! n = (n div b, n mod b)"
proof -
  have "b > 0" using assms by (cases b) auto
  then have "n div b < a" "n mod b < b" using assms by (simp_all add: less_mult_imp_div_less)
  then show ?thesis using assms by (simp add: product_nth)
qed

lemma blocks_at:
  assumes "x < w" "y < h" "length ps = w * h * 4" "n \<le> bh * bw" "x div 4 < bw"
  shows "case fold (put_block fmt d w h) (take n (List.product [0..<bh] [0..<bw])) (0, ps) of (off, ps') \<Rightarrow>
    off = n * atitc_block_bytes fmt \<and> length ps' = w * h * 4 \<and>
    pixel_at w ps' x y =
      (if (y div 4) * bw + x div 4 < n
       then texel (decode_block fmt d (((y div 4) * bw + x div 4) * atitc_block_bytes fmt)) ((y mod 4) * 4 + x mod 4)
       else pixel_at w ps x y)"
  using assms(4)
proof (induction n)
  case 0
  then show ?case using assms by simp
next
  case (Suc n)
  let ?L = "List.product [0..<bh] [0..<bw]" and ?b = "(y div 4) * bw + x div 4"
  obtain off ps' where f: "fold (put_block fmt d w h) (take n ?L) (0, ps) = (off, ps')" by fastforce
  have IH: "off = n * atitc_block_bytes fmt" "length ps' = w * h * 4"
    "pixel_at w ps' x y = (if ?b < n then texel (decode_block fmt d (?b * atitc_block_bytes fmt))
        ((y mod 4) * 4 + x mod 4) else pixel_at w ps x y)"
    using Suc f by auto
  have n: "n < bh * bw" using Suc.prems by simp
  then have tk: "take (Suc n) ?L = take n ?L @ [(n div bw, n mod bw)]"
    by (simp add: take_Suc_conv_app_nth block_order_nth)
  have hit: "y div 4 = n div bw \<and> x div 4 = n mod bw \<longleftrightarrow> ?b = n"
  proof
    assume "?b = n"
    moreover have "?b div bw = y div 4" "?b mod bw = x div 4" using assms(5) by simp_all
    ultimately show "y div 4 = n div bw \<and> x div 4 = n mod bw" by simp
  next
    assume "y div 4 = n div bw \<and> x div 4 = n mod bw"
    then show "?b = n" by (simp add: div_mult_mod_eq)
  qed
  obtain off2 ps2 where p: "put_block fmt d w h (n div bw, n mod bw) (off, ps') = (off2, ps2)" by fastforce
  then have "off2 = Suc n * atitc_block_bytes fmt" "length ps2 = w * h * 4"
    using put_block_off [of fmt d w h "(n div bw, n mod bw)" "(off, ps')"] IH by simp_all
  moreover have "pixel_at w ps2 x y = (if ?b < Suc n then texel (decode_block fmt d (?b * atitc_block_bytes fmt))
        ((y mod 4) * 4 + x mod 4) else pixel_at w ps x y)"
    using put_block_at [OF assms(1,2) IH(2), of fmt d "n div bw" "n mod bw" off] p hit IH
    by (auto simp: less_Suc_eq)
  ultimately show ?case using f tk p by simp
qed

text \<open>The dimensions and the data a decode accepts.\<close>

definition atitc_ok :: "u32 \<Rightarrow> int \<Rightarrow> int \<Rightarrow> u8 list option \<Rightarrow> bool" where
  "atitc_ok fmt w h data \<longleftrightarrow> fmt \<in> {kATITC_RGB, kATITC_RGBA_EXPLICIT, kATITC_RGBA_INTERP} \<and> 0 < w \<and> 0 < h \<and>
     (case data of None \<Rightarrow> False
      | Some d \<Rightarrow> nat ((w + 3) div 4) * nat ((h + 3) div 4) * (if fmt = kATITC_RGB then 8 else 16) \<le> length d)"

lemma block_bytes:
  "atitc_block_bytes fmt = 0 \<longleftrightarrow> fmt \<notin> {kATITC_RGB, kATITC_RGBA_EXPLICIT, kATITC_RGBA_INTERP}"
  "atitc_block_bytes fmt \<noteq> 0 \<Longrightarrow> atitc_block_bytes fmt = (if fmt = kATITC_RGB then 8 else 16)"
  by (auto simp: atitc_block_bytes_def split: if_splits)

lemma decode_atitc_ok: "fst (decode_atitc fmt w h data out) \<longleftrightarrow> atitc_ok fmt w h data"
proof (cases "atitc_block_bytes fmt = 0 \<or> w \<le> 0 \<or> h \<le> 0 \<or> data = None")
  case True
  then show ?thesis using block_bytes(1) [of fmt] by (auto simp: decode_atitc_def atitc_ok_def)
next
  case False
  then obtain d where d: "data = Some d" by auto
  have "nat ((w + 3) div 4) > 0" "nat ((h + 3) div 4) > 0" using False by (auto simp: pos_imp_zdiv_pos_iff)
  then have "atitc_image_size fmt w h \<noteq> 0" using False by (simp add: atitc_image_size_def Let_def)
  then show ?thesis using False d block_bytes [of fmt]
    by (auto simp: decode_atitc_def atitc_ok_def atitc_image_size_def Let_def)
qed

text \<open>C32: decoding an ATITC texture. The decoder accepts exactly a known format, positive dimensions
  and data with every block of the image, and then writes \<open>w * h\<close> pixels of four bytes in which pixel
  \<open>(x, y)\<close> is texel \<open>(y mod 4) * 4 + x mod 4\<close> of the block that covers it, blocks being stored row by
  row with partial blocks at the right and bottom edge; no pixel is left out, moved or overwritten.
  On anything else the caller's vector is untouched. (Sides up to \<open>INT_MAX - 3\<close>, beyond which the source's
  rounding overflows.)\<close>

theorem decode_atitc_pixels:
  "(if atitc_ok fmt w h (Some d)
    then fst (decode_atitc fmt w h (Some d) out) \<and>
      length (snd (decode_atitc fmt w h (Some d) out)) = nat w * nat h * 4 \<and>
      (x < nat w \<and> y < nat h \<longrightarrow>
        pixel_at (nat w) (snd (decode_atitc fmt w h (Some d) out)) x y =
        texel (decode_block fmt d (((y div 4) * nat ((w + 3) div 4) + x div 4) * atitc_block_bytes fmt))
          ((y mod 4) * 4 + x mod 4))
    else decode_atitc fmt w h (Some d) out = (False, out)) \<and>
   decode_atitc fmt w h None out = (False, out)"
proof -
  have none: "decode_atitc fmt w h None out = (False, out)" by (simp add: decode_atitc_def)
  show ?thesis
  proof (cases "atitc_ok fmt w h (Some d)")
    case False
    then have "\<not> fst (decode_atitc fmt w h (Some d) out)" by (simp add: decode_atitc_ok)
    then have "decode_atitc fmt w h (Some d) out = (False, out)"
      by (auto simp: decode_atitc_def Let_def split: if_splits)
    then show ?thesis using none False by simp
  next
    case True
    let ?L = "List.product [0..<nat ((h + 3) div 4)] [0..<nat ((w + 3) div 4)]"
    let ?ps = "replicate (nat w * nat h * 4) (0::u8)"
    have acc: "fst (decode_atitc fmt w h (Some d) out)" using True by (simp add: decode_atitc_ok)
    then have res: "decode_atitc fmt w h (Some d) out =
        (True, snd (fold (put_block fmt d (nat w) (nat h)) ?L (0, ?ps)))"
      by (auto simp: decode_atitc_def Let_def split: if_splits)
    have pos: "0 < w" "0 < h" using True by (auto simp: atitc_ok_def)
    have len: "length ?L = nat ((h + 3) div 4) * nat ((w + 3) div 4)" by simp
    have pix: "length (snd (decode_atitc fmt w h (Some d) out)) = nat w * nat h * 4 \<and>
        pixel_at (nat w) (snd (decode_atitc fmt w h (Some d) out)) x y =
        texel (decode_block fmt d (((y div 4) * nat ((w + 3) div 4) + x div 4) * atitc_block_bytes fmt))
          ((y mod 4) * 4 + x mod 4)" if x: "x < nat w" and y: "y < nat h" for x y
    proof -
      have bx: "x div 4 < nat ((w + 3) div 4)" and "by": "y div 4 < nat ((h + 3) div 4)"
        using x y by linarith+
      have "(y div 4) * nat ((w + 3) div 4) + x div 4 < Suc (y div 4) * nat ((w + 3) div 4)" using bx by simp
      also have "\<dots> \<le> length ?L" unfolding len using "by" by (intro mult_le_mono1) simp
      finally show ?thesis
        using blocks_at [OF x y, of ?ps "length ?L" "nat ((h + 3) div 4)" "nat ((w + 3) div 4)" fmt d] bx
        by (auto simp: res split: prod.splits)
    qed
    have "0 < nat w" "0 < nat h" using pos by auto
    then show ?thesis using none True acc pix pix [of 0 0] by simp
  qed
qed

text \<open>A 5 by 1 image in the plain format: two blocks, the second one cut to its first column. Pixel 4 is
  texel 0 of the second block, the pure green end point.\<close>

theorem decode_atitc_pixels_witness:
  "fst (decode_atitc kATITC_RGB 5 1 (Some (replicate 8 0 @ [0xe0, 0x03, 0, 0, 0, 0, 0, 0])) []) \<and>
   pixel_at 5 (snd (decode_atitc kATITC_RGB 5 1 (Some (replicate 8 0 @ [0xe0, 0x03, 0, 0, 0, 0, 0, 0])) [])) 4 0 =
     [0, 255, 0, 255]"
proof -
  let ?d = "replicate 8 0 @ [0xe0, 0x03, 0, 0, 0, 0, 0, 0::u8]"
  have ok: "atitc_ok kATITC_RGB 5 1 (Some ?d)" by code_simp
  have "texel (decode_block kATITC_RGB ?d 8) 0 = [0, 255, 0, 255]" by code_simp
  then show ?thesis
    using decode_atitc_pixels [of kATITC_RGB 5 1 ?d "[]" 4 0] ok
    by (simp add: atitc_block_bytes_def)
qed

end
