(* ===== verification/Save_State.thy ===== *)
theory Save_State
  imports Guest_Memory Byte_Reader
begin

text \<open>
  \<open>tools/cpp/zeebo_save_state.h\<close>: saving both cores to a file and loading them back. The file is its
  list of bytes; an output stream can hold \<open>room\<close> bytes and stays failed once a write does not fit, an
  input stream is the bytes not yet read. The engine's context calls are the record \<open>ctx_ops\<close>, beside
  the memory calls of \<open>uc_ops\<close>. The packed structs are encoded field by field, little endian.
\<close>

record 'u ctx_ops =
  context_size :: "'u \<Rightarrow> nat"
  context_alloc :: "'u \<Rightarrow> uc_err"
  context_save :: "'u \<Rightarrow> uc_err \<times> u8 list"
  context_restore :: "'u \<Rightarrow> u8 list \<Rightarrow> uc_err \<times> 'u"

definition STATE_MAGIC :: u32 where "STATE_MAGIC = 0x5453425A"
definition STATE_VERSION :: u32 where "STATE_VERSION = 2"
definition MAX_REGION_SIZE :: u64 where "MAX_REGION_SIZE = 0x40000000"
definition MAX_REGIONS :: nat where "MAX_REGIONS = 4096"
definition IO_CHUNK :: nat where "IO_CHUNK = 2 ^ 20"

definition le64_bytes :: "u64 \<Rightarrow> u8 list" where
  "le64_bytes w = le32_bytes (ucast w) @ le32_bytes (ucast (drop_bit 32 w))"

definition rd64 :: "u8 list \<Rightarrow> nat \<Rightarrow> u64" where
  "rd64 xs i = ucast (rd32 xs i) OR push_bit 32 (ucast (rd32 xs (i + 4)))"

record state_header =
  sh_magic :: u32
  sh_version :: u32
  sh_c0_insns :: u64
  sh_c0_entry :: u32
  sh_c1_insns :: u64
  sh_c1_entry :: u32
  sh_c0_context_size :: u32
  sh_c1_context_size :: u32
  sh_num_mem_regions :: u32

definition header_bytes :: "state_header \<Rightarrow> u8 list" where
  "header_bytes h = le32_bytes (sh_magic h) @ le32_bytes (sh_version h) @ le64_bytes (sh_c0_insns h) @
     le32_bytes (sh_c0_entry h) @ le64_bytes (sh_c1_insns h) @ le32_bytes (sh_c1_entry h) @
     le32_bytes (sh_c0_context_size h) @ le32_bytes (sh_c1_context_size h) @ le32_bytes (sh_num_mem_regions h)"

definition header_of :: "u8 list \<Rightarrow> state_header" where
  "header_of d = \<lparr>sh_magic = rd32 d 0, sh_version = rd32 d 4, sh_c0_insns = rd64 d 8, sh_c0_entry = rd32 d 16,
     sh_c1_insns = rd64 d 20, sh_c1_entry = rd32 d 28, sh_c0_context_size = rd32 d 32,
     sh_c1_context_size = rd32 d 36, sh_num_mem_regions = rd32 d 40\<rparr>"

record region_header =
  rh_begin :: u64
  rh_end :: u64
  rh_perms :: u32
  rh_core_id :: u32
  rh_data_size :: u64

definition region_header_bytes :: "region_header \<Rightarrow> u8 list" where
  "region_header_bytes r = le64_bytes (rh_begin r) @ le64_bytes (rh_end r) @ le32_bytes (rh_perms r) @
     le32_bytes (rh_core_id r) @ le64_bytes (rh_data_size r)"

definition region_header_of :: "u8 list \<Rightarrow> region_header" where
  "region_header_of d = \<lparr>rh_begin = rd64 d 0, rh_end = rd64 d 8, rh_perms = rd32 d 16, rh_core_id = rd32 d 20,
     rh_data_size = rd64 d 24\<rparr>"

section \<open>Saving\<close>

type_synonym ostream = "u8 list \<times> bool"

definition os_write :: "nat \<Rightarrow> u8 list \<Rightarrow> ostream \<Rightarrow> ostream" where
  "os_write room bs os =
     (case os of (d, good) \<Rightarrow> if good \<and> length d + length bs \<le> room then (d @ bs, True) else (d, False))"

text \<open>The bytes of one region, in chunks; \<open>left\<close> bytes from \<open>a\<close>.\<close>

function write_chunks :: "'u uc_ops \<Rightarrow> nat \<Rightarrow> 'u \<Rightarrow> u64 \<Rightarrow> nat \<Rightarrow> ostream \<Rightarrow> bool \<times> ostream" where
  "write_chunks ops room u a left os =
     (if left = 0 then (True, os)
      else
        let n = min IO_CHUNK left;
            (e, bs) = uc_mem_read ops u a (replicate n 0)
        in if e \<noteq> UC_ERR_OK then (False, os)
           else let os = os_write room bs os
                in if \<not> snd os then (False, os) else write_chunks ops room u (a + of_nat n) (left - n) os)"
  by pat_completeness auto
termination
  by (relation "measure (\<lambda>(ops, room, u, a, left, os). left)") (auto simp: IO_CHUNK_def)

declare write_chunks.simps [simp del]

fun write_regions ::
    "'u uc_ops \<Rightarrow> nat \<Rightarrow> 'u \<Rightarrow> u32 \<Rightarrow> (u64 \<times> u64 \<times> nat) list \<Rightarrow> ostream \<Rightarrow> bool \<times> ostream" where
  "write_regions ops room u core_id [] os = (True, os)"
| "write_regions ops room u core_id ((b, e, perms) # rs) os =
     (if e < b then (False, os)
      else
        let sz = e - b + 1
        in if sz = 0 \<or> sz > MAX_REGION_SIZE then (False, os)
           else
             let os = os_write room (region_header_bytes \<lparr>rh_begin = b, rh_end = e, rh_perms = of_nat perms,
                        rh_core_id = core_id, rh_data_size = sz\<rparr>) os;
                 (ok, os) = write_chunks ops room u b (unat sz) os
             in if \<not> ok then (False, os) else write_regions ops room u core_id rs os)"

text \<open>The stream part of a save: header, contexts, regions of both cores.\<close>

definition write_state ::
    "'u uc_ops \<Rightarrow> nat \<Rightarrow> state_header \<Rightarrow> u8 list \<Rightarrow> u8 list \<Rightarrow> 'u \<times> (u64 \<times> u64 \<times> nat) list \<Rightarrow> 'u \<times> (u64 \<times> u64 \<times> nat) list
       \<Rightarrow> bool \<times> u8 list" where
  "write_state ops room hdr ctx0 ctx1 core0 core1 =
     (let os = os_write room (header_bytes hdr) ([], True);
          os = os_write room ctx0 os;
          os = os_write room ctx1 os
      in if \<not> snd os then (False, fst os)
         else
           let (ok, os) = write_regions ops room (fst core0) 0 (snd core0) os
           in if \<not> ok then (False, fst os)
              else let (ok, os) = write_regions ops room (fst core1) 1 (snd core1) os in (ok \<and> snd os, fst os))"

definition save_header :: "nat \<Rightarrow> nat \<Rightarrow> u64 \<Rightarrow> u32 \<Rightarrow> u64 \<Rightarrow> u32 \<Rightarrow> nat \<Rightarrow> state_header" where
  "save_header sz0 sz1 c0_insns c0_entry c1_insns c1_entry count =
     \<lparr>sh_magic = STATE_MAGIC, sh_version = STATE_VERSION, sh_c0_insns = c0_insns, sh_c0_entry = c0_entry,
      sh_c1_insns = c1_insns, sh_c1_entry = c1_entry, sh_c0_context_size = of_nat sz0,
      sh_c1_context_size = of_nat sz1, sh_num_mem_regions = of_nat count\<rparr>"

text \<open>\<open>None\<close> for a null engine. The result is the flag and, once the file is open, what it contains.\<close>

definition save_state ::
    "'u uc_ops \<Rightarrow> 'u ctx_ops \<Rightarrow> bool \<Rightarrow> nat \<Rightarrow> 'u option \<Rightarrow> u64 \<Rightarrow> u32 \<Rightarrow> 'u option \<Rightarrow> u64 \<Rightarrow> u32
       \<Rightarrow> bool \<times> u8 list option" where
  "save_state ops ctx can_open room uc0 c0_insns c0_entry uc1 c1_insns c1_entry =
     (case (uc0, uc1) of
        (Some u0, Some u1) \<Rightarrow>
          let sz0 = context_size ctx u0; sz1 = context_size ctx u1
          in if sz0 > 0xffffffff \<or> sz1 > 0xffffffff then (False, None)
             else if context_alloc ctx u0 \<noteq> UC_ERR_OK \<or> context_alloc ctx u1 \<noteq> UC_ERR_OK then (False, None)
             else
               let (e0, ctx0) = context_save ctx u0; (e1, ctx1) = context_save ctx u1
               in if e0 \<noteq> UC_ERR_OK \<or> e1 \<noteq> UC_ERR_OK then (False, None)
                  else
                    let (g0, regions0) = uc_mem_regions ops u0; (g1, regions1) = uc_mem_regions ops u1;
                        count0 = length regions0; count1 = length regions1
                    in if g0 \<noteq> UC_ERR_OK \<or> g1 \<noteq> UC_ERR_OK \<or> count0 > MAX_REGIONS \<or>
                          count1 > MAX_REGIONS - count0 then (False, None)
                       else if \<not> can_open then (False, None)
                       else
                         let hdr = save_header sz0 sz1 c0_insns c0_entry c1_insns c1_entry (count0 + count1);
                             (ok, d) = write_state ops room hdr (take sz0 ctx0) (take sz1 ctx1)
                                         (u0, regions0) (u1, regions1)
                         in (ok, Some d)
      | _ \<Rightarrow> (False, None))"

section \<open>Loading\<close>

definition read_exact :: "nat \<Rightarrow> u8 list \<Rightarrow> (u8 list \<times> u8 list) option" where
  "read_exact n d = (if n \<le> length d then Some (take n d, drop n d) else None)"

function read_chunks :: "'u uc_ops \<Rightarrow> u64 \<Rightarrow> nat \<Rightarrow> u8 list \<Rightarrow> 'u \<Rightarrow> bool \<times> u8 list \<times> 'u" where
  "read_chunks ops a left d u =
     (if left = 0 then (True, d, u)
      else
        let n = min IO_CHUNK left
        in case read_exact n d of
             None \<Rightarrow> (False, d, u)
           | Some (bs, d) \<Rightarrow>
               let (e, u) = uc_mem_write ops u a bs
               in if e \<noteq> UC_ERR_OK then (False, d, u) else read_chunks ops (a + of_nat n) (left - n) d u)"
  by pat_completeness auto
termination
  by (relation "measure (\<lambda>(ops, a, left, d, u). left)") (auto simp: IO_CHUNK_def)

declare read_chunks.simps [simp del]

definition region_header_ok :: "region_header \<Rightarrow> bool" where
  "region_header_ok r \<longleftrightarrow> rh_core_id r \<le> 1 \<and> rh_end r \<ge> rh_begin r \<and>
     rh_data_size r = rh_end r - rh_begin r + 1 \<and> rh_data_size r \<noteq> 0 \<and> rh_data_size r \<le> MAX_REGION_SIZE \<and>
     rh_begin r + rh_data_size r - 1 = rh_end r"

definition load_region :: "'u uc_ops \<Rightarrow> region_header \<Rightarrow> u8 list \<Rightarrow> 'u \<Rightarrow> bool \<times> u8 list \<times> 'u" where
  "load_region ops r d u =
     (let (e, u) = uc_mem_map ops u (rh_begin r) (rh_data_size r) (unat (rh_perms r))
      in if e \<noteq> UC_ERR_OK \<and> e \<noteq> UC_ERR_MAP then (False, d, u)
         else read_chunks ops (rh_begin r) (unat (rh_data_size r)) d u)"

fun load_regions :: "'u uc_ops \<Rightarrow> nat \<Rightarrow> u8 list \<Rightarrow> 'u \<times> 'u \<Rightarrow> bool \<times> 'u \<times> 'u" where
  "load_regions ops 0 d us = (True, us)"
| "load_regions ops (Suc k) d (u0, u1) =
     (case read_exact 32 d of
        None \<Rightarrow> (False, u0, u1)
      | Some (hb, d) \<Rightarrow>
          let r = region_header_of hb
          in if \<not> region_header_ok r then (False, u0, u1)
             else
               let (ok, d, u) = load_region ops r d (if rh_core_id r = 0 then u0 else u1);
                   us = (if rh_core_id r = 0 then (u, u1) else (u0, u))
               in if \<not> ok then (False, us) else load_regions ops k d us)"

text \<open>
  The result: the flag, the two engines, and the counters and entries \<open>(c0_insns, c0_entry, c1_insns,
  c1_entry)\<close>, which are written only on success.
\<close>

type_synonym counters = "u64 \<times> u32 \<times> u64 \<times> u32"

definition load_state ::
    "'u uc_ops \<Rightarrow> 'u ctx_ops \<Rightarrow> u8 list option \<Rightarrow> 'u option \<times> 'u option \<Rightarrow> counters
       \<Rightarrow> bool \<times> ('u option \<times> 'u option) \<times> counters" where
  "load_state ops ctx file us cs =
     (case us of
        (Some u0, Some u1) \<Rightarrow>
          (case Option.bind file (read_exact 44) of
             None \<Rightarrow> (False, us, cs)
           | Some (hb, d) \<Rightarrow>
               let h = header_of hb
               in if sh_magic h \<noteq> STATE_MAGIC \<or> sh_version h \<noteq> STATE_VERSION \<or>
                     unat (sh_num_mem_regions h) > MAX_REGIONS then (False, us, cs)
                  else if unat (sh_c0_context_size h) \<noteq> context_size ctx u0 \<or>
                          unat (sh_c1_context_size h) \<noteq> context_size ctx u1 then (False, us, cs)
                  else if context_alloc ctx u0 \<noteq> UC_ERR_OK \<or> context_alloc ctx u1 \<noteq> UC_ERR_OK then (False, us, cs)
                  else
                    case read_exact (context_size ctx u0) d of
                      None \<Rightarrow> (False, us, cs)
                    | Some (ctx0, d) \<Rightarrow>
                        (case read_exact (context_size ctx u1) d of
                           None \<Rightarrow> (False, us, cs)
                         | Some (ctx1, d) \<Rightarrow>
                             let (ok, u0, u1) = load_regions ops (unat (sh_num_mem_regions h)) d (u0, u1)
                             in if \<not> ok then (False, (Some u0, Some u1), cs)
                                else
                                  let (e0, u0) = context_restore ctx u0 ctx0
                                  in if e0 \<noteq> UC_ERR_OK then (False, (Some u0, Some u1), cs)
                                     else
                                       let (e1, u1) = context_restore ctx u1 ctx1
                                       in if e1 \<noteq> UC_ERR_OK then (False, (Some u0, Some u1), cs)
                                          else (True, (Some u0, Some u1),
                                                sh_c0_insns h, sh_c0_entry h, sh_c1_insns h, sh_c1_entry h)))
      | _ \<Rightarrow> (False, us, cs))"

section \<open>Encoding\<close>

lemma rd64_le64 [simp]: "rd64 (le64_bytes w @ ys) 0 = w"
proof -
  have "rd32 (le64_bytes w @ ys) 0 = ucast w" "rd32 (le64_bytes w @ ys) 4 = ucast (drop_bit 32 w)"
    unfolding le64_bytes_def append_assoc
    using rd32_le32_bytes [of "ucast w" "le32_bytes (ucast (drop_bit 32 w)) @ ys"]
      rd32_drop [of 0 4 "le32_bytes (ucast w) @ le32_bytes (ucast (drop_bit 32 w)) @ ys"]
    by simp_all
  then have "rd64 (le64_bytes w @ ys) 0 = ucast (ucast w :: u32) OR push_bit 32 (ucast (ucast (drop_bit 32 w) :: u32))"
    by (simp add: rd64_def)
  also have "\<dots> = w"
    by (rule bit_word_eqI) (auto simp: bit_or_iff bit_ucast_iff bit_push_bit_iff bit_drop_bit_eq)
  finally show ?thesis .
qed

lemma length_le64 [simp]: "length (le64_bytes w) = 8"
  by (simp add: le64_bytes_def)

lemma rd64_skip: "length xs = k \<Longrightarrow> k \<le> i \<Longrightarrow> rd64 (xs @ ys) i = rd64 ys (i - k)"
  by (simp add: rd64_def rd32_skip)

lemma header_roundtrip [simp]:
  "length (header_bytes h) = 44" "header_of (header_bytes h) = h"
  unfolding header_bytes_def header_of_def
  by (simp_all add: rd32_skip [of _ 4] rd32_skip [of _ 8] rd64_skip [of _ 4] rd64_skip [of _ 8] rd32_le32_bytes [of _ "[]", simplified] rd64_le64 [of _ "[]", simplified])

lemma region_header_roundtrip [simp]:
  "length (region_header_bytes r) = 32" "region_header_of (region_header_bytes r) = r"
  unfolding region_header_bytes_def region_header_of_def
  by (simp_all add: rd32_skip [of _ 4] rd32_skip [of _ 8] rd64_skip [of _ 4] rd64_skip [of _ 8] rd32_le32_bytes [of _ "[]", simplified] rd64_le64 [of _ "[]", simplified])

section \<open>Chunks\<close>

lemma unat_step:
  assumes "unat (a::u64) + left \<le> 2 ^ 32" "n \<le> left"
  shows "unat (a + of_nat n) = unat a + n"
proof -
  have "n \<le> 2 ^ 32" "unat a + n \<le> 2 ^ 32" using assms by linarith+
  moreover have "(2::nat) ^ 32 < 2 ^ 64" by simp
  moreover have "unat (of_nat n :: u64) = n" unfolding unat_of_nat using \<open>n \<le> 2 ^ 32\<close> by (intro mod_less) simp
  ultimately show ?thesis using unat_add_lem [of a "of_nat n"] by simp
qed

lemma chunk_pos: "left \<noteq> 0 \<Longrightarrow> 0 < min IO_CHUNK left" "min IO_CHUNK left \<le> left"
  by (simp_all add: IO_CHUNK_def)

lemma write_chunks_ok:
  assumes "uc_mem_ok ops mem" "unat a + left \<le> 2 ^ 32" "write_chunks ops room u a left (d, g) = (True, os')"
  shows "left = 0 \<and> os' = (d, g) \<or>
    g \<and> (\<exists>bs. os' = (d @ bs, True) \<and> length bs = left \<and> holds (mem u) (unat a) bs)"
  using assms(2,3)
proof (induction left arbitrary: a d g rule: less_induct)
  case (less left)
  show ?case
  proof (cases "left = 0")
    case True
    then show ?thesis using less.prems(2) by (simp add: write_chunks.simps)
  next
    case False
    define n where "n = min IO_CHUNK left"
    obtain e bs where r: "uc_mem_read ops u a (replicate n 0) = (e, bs)" by fastforce
    have e: "e = UC_ERR_OK" and g: "snd (os_write room bs (d, g))"
      and rec: "write_chunks ops room u (a + of_nat n) (left - n) (os_write room bs (d, g)) = (True, os')"
      using less.prems(2) False r unfolding n_def
      by (subst (asm) write_chunks.simps, auto simp: Let_def split: if_splits)+
    have os: "g" "os_write room bs (d, g) = (d @ bs, True)" using g by (auto simp: os_write_def split: if_splits)
    have n: "0 < n" "n \<le> left" using chunk_pos [of left] False by (simp_all add: n_def)
    have len: "length bs = n" and h: "holds (mem u) (unat a) bs"
      using mem_read_ok(2,3) [OF assms(1) r e] by (simp_all add: holds_def)
    have st: "unat (a + of_nat n) = unat a + n" by (rule unat_step [OF less.prems(1) n(2)])
    have "left - n = 0 \<and> os' = (d @ bs, True) \<or>
        True \<and> (\<exists>cs. os' = ((d @ bs) @ cs, True) \<and> length cs = left - n \<and> holds (mem u) (unat a + n) cs)"
      unfolding st [symmetric]
      by (rule less.IH) (use n less.prems(1) rec os st in auto)
    then show ?thesis
    proof
      assume "left - n = 0 \<and> os' = (d @ bs, True)"
      then show ?thesis using os(1) len h n by auto
    next
      assume "True \<and> (\<exists>cs. os' = ((d @ bs) @ cs, True) \<and> length cs = left - n \<and> holds (mem u) (unat a + n) cs)"
      then obtain cs where "os' = (d @ bs @ cs, True)" "length cs = left - n" "holds (mem u) (unat a + n) cs" by auto
      then have "os' = (d @ (bs @ cs), True)" "length (bs @ cs) = left" "holds (mem u) (unat a) (bs @ cs)"
        using len h n by (simp_all add: holds_append)
      then show ?thesis using os(1) by blast
    qed
  qed
qed

lemma read_chunks_ok:
  assumes "uc_mem_ok ops mem" "unat a + length bs \<le> 2 ^ 32" "mapped (mem u) (unat a) (length bs)"
  shows "\<exists>u'. read_chunks ops a (length bs) (bs @ rest) u = (True, rest, u') \<and>
    mem u' = overlay (mem u) (unat a) bs"
  using assms(2,3)
proof (induction "length bs" arbitrary: a bs u rule: less_induct)
  case less
  show ?case
  proof (cases "bs = []")
    case True
    then show ?thesis by (auto simp: read_chunks.simps fun_eq_iff overlay_def)
  next
    case False
    define n where "n = min IO_CHUNK (length bs)"
    have n: "0 < n" "n \<le> length bs" using chunk_pos [of "length bs"] False by (simp_all add: n_def)
    obtain e u1 where w: "uc_mem_write ops u a (take n bs) = (e, u1)" by fastforce
    have m: "mapped (mem u) (unat a) n" by (rule mapped_sub [OF less.prems(2)]) (use n in simp_all)
    have e: "e = UC_ERR_OK" and w1: "mem u1 = overlay (mem u) (unat a) (take n bs)"
      using mem_write_ok [OF assms(1) w] m n by simp_all
    have st: "unat (a + of_nat n) = unat a + n" by (rule unat_step [OF less.prems(1) n(2)])
    have "mapped (mem u1) (unat a + n) (length (drop n bs))"
      unfolding w1 by (rule overlay_mapped, rule mapped_sub [OF less.prems(2)]) (use n in simp_all)
    moreover have "length (drop n bs) < length bs" using n by simp
    ultimately obtain u' where u': "read_chunks ops (a + of_nat n) (length (drop n bs)) (drop n bs @ rest) u1 = (True, rest, u')"
        "mem u' = overlay (mem u1) (unat a + n) (drop n bs)"
      using less.hyps [of "drop n bs" "a + of_nat n" u1] n less.prems(1) st by auto
    have "read_chunks ops a (length bs) (bs @ rest) u = (True, rest, u')"
      using False n u'(1) w e unfolding n_def
      by (subst read_chunks.simps) (simp add: read_exact_def Let_def)
    moreover have "mem u' = overlay (mem u) (unat a) bs"
      using overlay_append [of "mem u" "unat a" "take n bs" "drop n bs"] n
      by (simp add: u'(2) w1)
    ultimately show ?thesis by blast
  qed
qed

section \<open>Regions\<close>

text \<open>The region part of a file: headers, each followed by its data.\<close>

type_synonym entry = "region_header \<times> u8 list"

definition enc_entries :: "entry list \<Rightarrow> u8 list" where
  "enc_entries xs = concat (map (\<lambda>(r, bs). region_header_bytes r @ bs) xs)"

definition entry_ok :: "(u32 \<Rightarrow> nat \<Rightarrow> u8 option) \<Rightarrow> entry \<Rightarrow> bool" where
  "entry_ok m = (\<lambda>(r, bs). region_header_ok r \<and> length bs = unat (rh_data_size r) \<and>
     unat (rh_begin r) + length bs \<le> 2 ^ 32 \<and> holds (m (rh_core_id r)) (unat (rh_begin r)) bs \<and>
     4096 dvd unat (rh_begin r) \<and> 4096 dvd length bs \<and> unat (rh_perms r) \<le> 7)"

text \<open>A region that the engine can have: whole pages with a protection of its three bits.\<close>

definition region_aligned :: "u64 \<times> u64 \<times> nat \<Rightarrow> bool" where
  "region_aligned = (\<lambda>(b, e, p). 4096 dvd unat b \<and> 4096 dvd unat e + 1 \<and> p \<le> 7)"

definition covered :: "entry list \<Rightarrow> u32 \<Rightarrow> nat \<Rightarrow> bool" where
  "covered xs c k \<longleftrightarrow> (\<exists>(r, bs) \<in> set xs. rh_core_id r = c \<and> unat (rh_begin r) \<le> k \<and> k < unat (rh_begin r) + length bs)"

lemma region_size:
  assumes "(b::u64) \<le> e" "unat e < 2 ^ 32"
  shows "unat b + unat (e - b + 1) = unat e + 1"
proof -
  have "unat (e - b) = unat e - unat b" using assms(1) by (simp add: unat_sub)
  moreover have "unat e - unat b + 1 < 2 ^ 64" using assms(2) by simp
  ultimately have "unat (e - b + 1) = unat e - unat b + 1"
    using unat_add_lem [of "e - b" 1] by simp
  then show ?thesis using assms(1) by (simp add: word_le_nat_alt)
qed

lemma write_regions_ok:
  assumes "uc_mem_ok ops mem" "core \<le> 1"
  shows "\<forall>(b, e, p) \<in> set rs. unat e < 2 ^ 32 \<Longrightarrow> \<forall>r \<in> set rs. region_aligned r \<Longrightarrow>
    write_regions ops room u core rs (d, True) = (True, os') \<Longrightarrow>
    \<exists>xs. os' = (d @ enc_entries xs, True) \<and> length xs = length rs \<and>
      (\<forall>x \<in> set xs. entry_ok (\<lambda>_. mem u) x \<and> rh_core_id (fst x) = core) \<and>
      map (\<lambda>x. (rh_begin (fst x), rh_end (fst x))) xs = map (\<lambda>(b, e, p). (b, e)) rs"
proof (induction rs arbitrary: d)
  case Nil
  then show ?case by (simp add: enc_entries_def)
next
  case (Cons reg rs)
  obtain b e perms where reg: "reg = (b, e, perms)" by (cases reg)
  let ?r = "\<lparr>rh_begin = b, rh_end = e, rh_perms = of_nat perms, rh_core_id = core, rh_data_size = e - b + 1\<rparr>"
  have be: "b \<le> e" "e - b + 1 \<noteq> 0" "e - b + 1 \<le> MAX_REGION_SIZE"
    using Cons.prems(3) unfolding reg by (auto simp: Let_def not_less split: if_splits)
  obtain d1 g1 where os1: "os_write room (region_header_bytes ?r) (d, True) = (d1, g1)" by fastforce
  obtain os2 where wc: "write_chunks ops room u b (unat (e - b + 1)) (d1, g1) = (True, os2)"
    and rec: "write_regions ops room u core rs os2 = (True, os')"
    using Cons.prems(3) be os1 unfolding reg by (auto simp: Let_def split: if_splits prod.splits)
  have e32: "unat e < 2 ^ 32" using Cons.prems(1) reg by simp
  have sz: "unat b + unat (e - b + 1) = unat e + 1" by (rule region_size [OF be(1) e32])
  have "unat b + unat (e - b + 1) \<le> 2 ^ 32" using sz e32 by linarith
  from write_chunks_ok [OF assms(1) this wc] be(2) obtain bs where bs: "g1" "os2 = (d1 @ bs, True)"
      "length bs = unat (e - b + 1)" "holds (mem u) (unat b) bs"
    by (auto simp: unat_eq_zero)
  have d1: "d1 = d @ region_header_bytes ?r" using os1 bs(1) by (auto simp: os_write_def split: if_splits)
  have "region_header_ok ?r" using be assms(2) by (simp add: region_header_ok_def)
  moreover have al: "4096 dvd unat b" "4096 dvd unat e + 1" "perms \<le> 7"
    using Cons.prems(2) by (simp_all add: reg region_aligned_def)
  then have "4096 dvd unat (e - b + 1)" using sz by (metis dvd_add_right_iff)
  moreover have "unat (of_nat perms :: u32) \<le> 7" using al(3) by (simp add: unat_of_nat)
  ultimately have ok: "entry_ok (\<lambda>_. mem u) (?r, bs)"
    using bs(3,4) sz e32 al(1) by (simp add: entry_ok_def)
  have "\<forall>(b, e, p) \<in> set rs. unat e < 2 ^ 32" "\<forall>r \<in> set rs. region_aligned r" using Cons.prems(1,2) by simp_all
  from Cons.IH [OF this, of "d1 @ bs"] rec bs(2) obtain xs where
    "os' = ((d1 @ bs) @ enc_entries xs, True)" "length xs = length rs"
    "\<forall>x \<in> set xs. entry_ok (\<lambda>_. mem u) x \<and> rh_core_id (fst x) = core"
    "map (\<lambda>x. (rh_begin (fst x), rh_end (fst x))) xs = map (\<lambda>(b, e, p). (b, e)) rs"
    by auto
  then show ?case using ok
    by (intro exI [of _ "(?r, bs) # xs"]) (simp add: d1 enc_entries_def reg)
qed

text \<open>
  What the engine documents for \<open>uc_mem_map\<close> and \<open>uc_mem_regions\<close>: mapping whole pages, with valid protection
  bits, over existing memory is refused with \<open>UC_ERR_MAP\<close> and without effect; and the regions it reports are
  such pages. (A range that is not aligned, or invalid protection bits, give \<open>UC_ERR_ARG\<close>.)
\<close>

definition uc_overlap_ok :: "'u uc_ops \<Rightarrow> 'u mem_view \<Rightarrow> bool" where
  "uc_overlap_ok ops mem \<longleftrightarrow> (\<forall>u a s p. 4096 dvd unat a \<and> 4096 dvd unat s \<and> unat a + unat s \<le> 2 ^ 32 \<and> p \<le> 7 \<and>
       (\<exists>i < unat s. mem u (unat a + i) \<noteq> None) \<longrightarrow>
     fst (uc_mem_map ops u a s p) = UC_ERR_MAP \<and> mem (snd (uc_mem_map ops u a s p)) = mem u)"

definition uc_regions_ok :: "'u uc_ops \<Rightarrow> bool" where
  "uc_regions_ok ops \<longleftrightarrow> (\<forall>u. \<forall>r \<in> set (snd (uc_mem_regions ops u)). region_aligned r)"

lemma load_region_ok:
  assumes "uc_mem_ok ops mem" "uc_overlap_ok ops mem" "entry_ok m (r, bs)"
    "mapped (mem u) (unat (rh_begin r)) (length bs)"
  shows "\<exists>u'. load_region ops r (bs @ rest) u = (True, rest, u') \<and> mem u' = overlay (mem u) (unat (rh_begin r)) bs"
proof -
  have len: "length bs = unat (rh_data_size r)" "rh_data_size r \<noteq> 0" "unat (rh_begin r) + length bs \<le> 2 ^ 32"
      "4096 dvd unat (rh_begin r)" "4096 dvd length bs" "unat (rh_perms r) \<le> 7"
    using assms(3) by (auto simp: entry_ok_def region_header_ok_def)
  obtain e u1 where m: "uc_mem_map ops u (rh_begin r) (rh_data_size r) (unat (rh_perms r)) = (e, u1)" by fastforce
  have "0 < unat (rh_data_size r)" using len(2) by (simp add: unat_gt_0)
  then have "\<exists>i < unat (rh_data_size r). mem u (unat (rh_begin r) + i) \<noteq> None"
    using assms(4) len(1) unfolding mapped_def by metis
  then have "4096 dvd unat (rh_begin r) \<and> 4096 dvd unat (rh_data_size r) \<and>
      unat (rh_begin r) + unat (rh_data_size r) \<le> 2 ^ 32 \<and> unat (rh_perms r) \<le> 7 \<and>
      (\<exists>i < unat (rh_data_size r). mem u (unat (rh_begin r) + i) \<noteq> None)"
    using len by simp
  from assms(2) [unfolded uc_overlap_ok_def, rule_format, OF this]
  have "e = UC_ERR_MAP" "mem u1 = mem u" unfolding m by simp_all
  then show ?thesis
    using read_chunks_ok [OF assms(1) len(3), of u1 rest] assms(4) m len(1) by (simp add: load_region_def)
qed

lemma overlay_covered:
  assumes "holds m0 a bs"
  shows "(if c then m0 k else overlay m a bs k) = (if c \<or> a \<le> k \<and> k < a + length bs then m0 k else m k)"
proof (cases "a \<le> k \<and> k < a + length bs")
  case True
  then have "m0 (a + (k - a)) = Some (bs ! (k - a))" using assms unfolding holds_def by (metis less_diff_conv2 add.commute)
  then show ?thesis using True by (simp add: overlay_def)
next
  case False
  then show ?thesis by (auto simp: overlay_def)
qed

lemma load_regions_ok:
  assumes "uc_mem_ok ops mem" "uc_overlap_ok ops mem"
  shows "\<forall>x \<in> set xs. entry_ok m x \<Longrightarrow> \<forall>k. covered xs 0 k \<longrightarrow> mem v0 k \<noteq> None \<Longrightarrow>
    \<forall>k. covered xs 1 k \<longrightarrow> mem v1 k \<noteq> None \<Longrightarrow>
    \<exists>w0 w1. load_regions ops (length xs) (enc_entries xs @ rest) (v0, v1) = (True, w0, w1) \<and>
      mem w0 = (\<lambda>k. if covered xs 0 k then m 0 k else mem v0 k) \<and>
      mem w1 = (\<lambda>k. if covered xs 1 k then m 1 k else mem v1 k)"
proof (induction xs arbitrary: v0 v1)
  case Nil
  then show ?case by (simp add: enc_entries_def covered_def)
next
  case (Cons x xs)
  obtain r bs where x: "x = (r, bs)" by (cases x)
  let ?b = "unat (rh_begin r)"
  have ok: "entry_ok m (r, bs)" and ok': "\<forall>x \<in> set xs. entry_ok m x" using Cons.prems(1) x by simp_all
  then have hok: "region_header_ok r" and h: "holds (m (rh_core_id r)) ?b bs" by (auto simp: entry_ok_def)
  have cov: "covered (x # xs) c k \<longleftrightarrow> covered xs c k \<or> rh_core_id r = c \<and> ?b \<le> k \<and> k < ?b + length bs" for c k
    by (auto simp: covered_def x)
  have rd: "read_exact 32 (enc_entries (x # xs) @ rest) = Some (region_header_bytes r, bs @ enc_entries xs @ rest)"
    by (simp add: read_exact_def enc_entries_def x)
  have core: "rh_core_id r = 0 \<or> rh_core_id r = 1"
  proof -
    have "rh_core_id r \<le> 1" using hok by (simp add: region_header_ok_def)
    then show ?thesis by unat_arith
  qed
  show ?case
  proof (cases "rh_core_id r = 0")
    case True
    have "mapped (mem v0) ?b (length bs)" using Cons.prems(2) cov True by (auto simp: mapped_def)
    then obtain u where u: "load_region ops r (bs @ enc_entries xs @ rest) v0 = (True, enc_entries xs @ rest, u)"
        "mem u = overlay (mem v0) ?b bs"
      using load_region_ok [OF assms ok] by blast
    have c0: "\<forall>k. covered xs 0 k \<longrightarrow> mem u k \<noteq> None" using Cons.prems(2) cov by (auto simp: u(2) overlay_def)
    have c1: "\<forall>k. covered xs 1 k \<longrightarrow> mem v1 k \<noteq> None" using Cons.prems(3) cov by auto
    from Cons.IH [OF ok' c0 c1] obtain w0 w1 where w: "load_regions ops (length xs) (enc_entries xs @ rest) (u, v1) = (True, w0, w1)"
        "mem w0 = (\<lambda>k. if covered xs 0 k then m 0 k else mem u k)"
        "mem w1 = (\<lambda>k. if covered xs 1 k then m 1 k else mem v1 k)"
      by (elim exE conjE)
    have "mem w0 = (\<lambda>k. if covered (x # xs) 0 k then m 0 k else mem v0 k)"
      unfolding w(2) u(2) using h True by (simp add: overlay_covered cov)
    moreover have "mem w1 = (\<lambda>k. if covered (x # xs) 1 k then m 1 k else mem v1 k)"
      unfolding w(3) using True by (simp add: cov)
    ultimately show ?thesis using rd hok u(1) w(1) True by (simp add: Let_def)
  next
    case False
    then have one: "rh_core_id r = 1" using core by simp
    have "mapped (mem v1) ?b (length bs)" using Cons.prems(3) cov one by (auto simp: mapped_def)
    then obtain u where u: "load_region ops r (bs @ enc_entries xs @ rest) v1 = (True, enc_entries xs @ rest, u)"
        "mem u = overlay (mem v1) ?b bs"
      using load_region_ok [OF assms ok] by blast
    have c1: "\<forall>k. covered xs 1 k \<longrightarrow> mem u k \<noteq> None" using Cons.prems(3) cov by (auto simp: u(2) overlay_def)
    have c0: "\<forall>k. covered xs 0 k \<longrightarrow> mem v0 k \<noteq> None" using Cons.prems(2) cov by auto
    from Cons.IH [OF ok' c0 c1] obtain w0 w1 where w: "load_regions ops (length xs) (enc_entries xs @ rest) (v0, u) = (True, w0, w1)"
        "mem w0 = (\<lambda>k. if covered xs 0 k then m 0 k else mem v0 k)"
        "mem w1 = (\<lambda>k. if covered xs 1 k then m 1 k else mem u k)"
      by (elim exE conjE)
    have "mem w1 = (\<lambda>k. if covered (x # xs) 1 k then m 1 k else mem v1 k)"
      unfolding w(3) u(2) using h one by (simp add: overlay_covered cov)
    moreover have "mem w0 = (\<lambda>k. if covered (x # xs) 0 k then m 0 k else mem v0 k)"
      unfolding w(2) using one by (simp add: cov)
    ultimately show ?thesis using rd hok u(1) w(1) one by (simp add: Let_def)
  qed
qed

section \<open>Save and load\<close>

text \<open>
  What the engine's contexts promise: all engines of one architecture have contexts of one size,
  allocation succeeds, and restoring a saved context into any engine gives it the saver's CPU state
  \<open>cpu\<close> and leaves memory alone.
\<close>

definition uc_ctx_ok :: "'u ctx_ops \<Rightarrow> 'u mem_view \<Rightarrow> ('u \<Rightarrow> 'c) \<Rightarrow> bool" where
  "uc_ctx_ok ctx mem cpu \<longleftrightarrow>
     (\<forall>u v. context_size ctx u = context_size ctx v) \<and> (\<forall>u. context_alloc ctx u = UC_ERR_OK) \<and>
     (\<forall>u c. context_save ctx u = (UC_ERR_OK, c) \<longrightarrow> length c = context_size ctx u \<and>
        (\<forall>v. fst (context_restore ctx v c) = UC_ERR_OK \<and> cpu (snd (context_restore ctx v c)) = cpu u \<and>
             mem (snd (context_restore ctx v c)) = mem v))"

definition in_regions :: "(u64 \<times> u64 \<times> nat) list \<Rightarrow> nat \<Rightarrow> bool" where
  "in_regions rs k \<longleftrightarrow> (\<exists>(b, e, p) \<in> set rs. unat b \<le> k \<and> k \<le> unat e)"

lemma covered_regions:
  assumes "\<forall>x \<in> set xs. entry_ok m x \<and> rh_core_id (fst x) = c"
    "map (\<lambda>x. (rh_begin (fst x), rh_end (fst x))) xs = map (\<lambda>(b, e, p). (b, e)) rs"
    "\<forall>(b, e, p) \<in> set rs. unat e < 2 ^ 32"
  shows "covered xs c k \<longleftrightarrow> in_regions rs k" "c' \<noteq> c \<Longrightarrow> \<not> covered xs c' k"
proof -
  have x: "unat (rh_begin (fst x)) \<le> k \<and> k < unat (rh_begin (fst x)) + length (snd x) \<longleftrightarrow>
      unat (rh_begin (fst x)) \<le> k \<and> k \<le> unat (rh_end (fst x))" if "x \<in> set xs" for x
  proof -
    have "(rh_begin (fst x), rh_end (fst x)) \<in> set (map (\<lambda>(b, e, p). (b, e)) rs)"
      using that assms(2) by (metis (mono_tags, lifting) image_eqI list.set_map)
    then have "unat (rh_end (fst x)) < 2 ^ 32" using assms(3) by auto
    moreover have "rh_begin (fst x) \<le> rh_end (fst x)" "length (snd x) = unat (rh_end (fst x) - rh_begin (fst x) + 1)"
      using assms(1) that by (cases x; force simp: entry_ok_def region_header_ok_def)+
    ultimately show ?thesis using region_size by auto
  qed
  have "covered xs c k \<longleftrightarrow> (\<exists>x \<in> set xs. unat (rh_begin (fst x)) \<le> k \<and> k \<le> unat (rh_end (fst x)))"
  proof -
    have "covered xs c k \<longleftrightarrow> (\<exists>x \<in> set xs. rh_core_id (fst x) = c \<and>
        unat (rh_begin (fst x)) \<le> k \<and> k < unat (rh_begin (fst x)) + length (snd x))"
      unfolding covered_def by (rule bex_cong) (auto split: prod.split)
    then show ?thesis using x assms(1) by blast
  qed
  also have "\<dots> \<longleftrightarrow> (\<exists>y \<in> set (map (\<lambda>x. (rh_begin (fst x), rh_end (fst x))) xs). unat (fst y) \<le> k \<and> k \<le> unat (snd y))"
    by simp
  also have "\<dots> \<longleftrightarrow> in_regions rs k" unfolding assms(2) in_regions_def set_map bex_simps(7)
    by (rule bex_cong) (auto split: prod.split)
  finally show "covered xs c k \<longleftrightarrow> in_regions rs k" .
  show "c' \<noteq> c \<Longrightarrow> \<not> covered xs c' k" using assms(1) by (auto simp: covered_def)
qed

text \<open>What a successful save has written.\<close>

lemma write_state_file:
  assumes "uc_mem_ok ops mem" "\<forall>(b, e, p) \<in> set (rs0 @ rs1). unat e < 2 ^ 32" "\<forall>r \<in> set (rs0 @ rs1). region_aligned r"
    "write_state ops room h c0 c1 (u0, rs0) (u1, rs1) = (True, file)"
  shows "\<exists>xs0 xs1. file = header_bytes h @ c0 @ c1 @ enc_entries (xs0 @ xs1) \<and>
    length xs0 = length rs0 \<and> length xs1 = length rs1 \<and>
    (\<forall>x \<in> set xs0. entry_ok (\<lambda>_. mem u0) x \<and> rh_core_id (fst x) = 0) \<and>
    (\<forall>x \<in> set xs1. entry_ok (\<lambda>_. mem u1) x \<and> rh_core_id (fst x) = 1) \<and>
    map (\<lambda>x. (rh_begin (fst x), rh_end (fst x))) xs0 = map (\<lambda>(b, e, p). (b, e)) rs0 \<and>
    map (\<lambda>x. (rh_begin (fst x), rh_end (fst x))) xs1 = map (\<lambda>(b, e, p). (b, e)) rs1"
proof -
  obtain d g where os: "os_write room c1 (os_write room c0 (os_write room (header_bytes h) ([], True))) = (d, g)"
    by fastforce
  have g: "g" using assms(4) os by (auto simp: write_state_def Let_def split: if_splits)
  have d: "d = header_bytes h @ c0 @ c1" using os g by (auto simp: os_write_def split: if_splits)
  obtain ok1 os1 where w0: "write_regions ops room u0 0 rs0 (d, True) = (ok1, os1)" by (metis surj_pair)
  obtain ok2 os2 where w1: "write_regions ops room u1 1 rs1 os1 = (ok2, os2)" by (metis surj_pair)
  have ok: "ok1" "ok2" "file = fst os2" using assms(4) os g w0 w1 by (auto simp: write_state_def Let_def split: if_splits)
  have s0: "\<forall>(b, e, p) \<in> set rs0. unat e < 2 ^ 32" and s1: "\<forall>(b, e, p) \<in> set rs1. unat e < 2 ^ 32"
    using assms(2) by auto
  have a0: "\<forall>r \<in> set rs0. region_aligned r" and a1: "\<forall>r \<in> set rs1. region_aligned r" using assms(3) by auto
  obtain xs0 where x0: "os1 = (d @ enc_entries xs0, True)" "length xs0 = length rs0"
      "\<forall>x \<in> set xs0. entry_ok (\<lambda>_. mem u0) x \<and> rh_core_id (fst x) = 0"
      "map (\<lambda>x. (rh_begin (fst x), rh_end (fst x))) xs0 = map (\<lambda>(b, e, p). (b, e)) rs0"
    using write_regions_ok [OF assms(1) _ s0 a0, of 0 room u0 d os1] w0 ok by auto
  obtain xs1 where x1: "os2 = ((d @ enc_entries xs0) @ enc_entries xs1, True)" "length xs1 = length rs1"
      "\<forall>x \<in> set xs1. entry_ok (\<lambda>_. mem u1) x \<and> rh_core_id (fst x) = 1"
      "map (\<lambda>x. (rh_begin (fst x), rh_end (fst x))) xs1 = map (\<lambda>(b, e, p). (b, e)) rs1"
    using write_regions_ok [OF assms(1) _ s1 a1, of 1 room u1 "d @ enc_entries xs0" os2] w1 ok unfolding x0(1) by auto
  show ?thesis
    by (intro exI [of _ xs0] exI [of _ xs1]) (use x0 x1 ok d in \<open>simp add: enc_entries_def\<close>)
qed

lemma save_state_parts:
  assumes "save_state ops ctx can_open room (Some u0) i0 e0 (Some u1) i1 e1 = (True, Some file)"
    "context_save ctx u0 = (f0, c0)" "context_save ctx u1 = (f1, c1)"
    "uc_mem_regions ops u0 = (g0, rs0)" "uc_mem_regions ops u1 = (g1, rs1)"
  shows "f0 = UC_ERR_OK \<and> f1 = UC_ERR_OK \<and> length rs0 + length rs1 \<le> MAX_REGIONS \<and>
    context_size ctx u0 \<le> 0xffffffff \<and> context_size ctx u1 \<le> 0xffffffff \<and>
    write_state ops room (save_header (context_size ctx u0) (context_size ctx u1) i0 e0 i1 e1 (length rs0 + length rs1))
      (take (context_size ctx u0) c0) (take (context_size ctx u1) c1) (u0, rs0) (u1, rs1) = (True, file)"
  using assms(1) unfolding save_state_def
  by (simp add: assms(2-) Let_def split: if_splits prod.splits)

lemma covered_two_cores:
  assumes "\<forall>x \<in> set xs0. entry_ok (\<lambda>_. m0) x \<and> rh_core_id (fst x) = 0"
    and "\<forall>x \<in> set xs1. entry_ok (\<lambda>_. m1) x \<and> rh_core_id (fst x) = 1"
    and "map (\<lambda>x. (rh_begin (fst x), rh_end (fst x))) xs0 = map (\<lambda>(b, e, p). (b, e)) rs0"
    and "map (\<lambda>x. (rh_begin (fst x), rh_end (fst x))) xs1 = map (\<lambda>(b, e, p). (b, e)) rs1"
    and "\<forall>(b, e, p) \<in> set (rs0 @ rs1). unat e < 2 ^ 32"
  shows "covered (xs0 @ xs1) 0 k = in_regions rs0 k" "covered (xs0 @ xs1) 1 k = in_regions rs1 k"
proof -
  have "covered (xs0 @ xs1) q k \<longleftrightarrow> covered xs0 q k \<or> covered xs1 q k" for q by (auto simp: covered_def)
  then show "covered (xs0 @ xs1) 0 k = in_regions rs0 k" "covered (xs0 @ xs1) 1 k = in_regions rs1 k"
    using covered_regions(1) [OF assms(1,3), of k] covered_regions(1) [OF assms(2,4), of k]
      covered_regions(2) [OF assms(1,3), of 1 k] covered_regions(2) [OF assms(2,4), of 0 k] assms(5) by auto
qed

text \<open>Loading a file with the header of a save, the two contexts and \<open>n\<close> regions that load.\<close>

lemma load_state_saved:
  assumes "length c0 = context_size ctx v0" "length c1 = context_size ctx v1" "length c0 \<le> 0xffffffff" "length c1 \<le> 0xffffffff"
    and "n \<le> MAX_REGIONS" "\<And>u. context_alloc ctx u = UC_ERR_OK" "load_regions ops n rest (v0, v1) = (True, w0, w1)"
    and "context_restore ctx w0 c0 = (UC_ERR_OK, z0)" "context_restore ctx w1 c1 = (UC_ERR_OK, z1)"
  shows "load_state ops ctx (Some (header_bytes (save_header (length c0) (length c1) i0 e0 i1 e1 n) @ c0 @ c1 @ rest))
      (Some v0, Some v1) cs = (True, (Some z0, Some z1), i0, e0, i1, e1)"
proof -
  define h where "h = save_header (length c0) (length c1) i0 e0 i1 e1 n"
  have u: "unat (of_nat k :: u32) = k" if "k \<le> 0xffffffff" for k
    unfolding unat_of_nat using that by (intro mod_less) simp
  have "n \<le> 0xffffffff" using assms(5) by (simp add: MAX_REGIONS_def)
  then have h: "sh_magic h = STATE_MAGIC" "sh_version h = STATE_VERSION" "sh_c0_insns h = i0" "sh_c0_entry h = e0"
      "sh_c1_insns h = i1" "sh_c1_entry h = e1" "unat (sh_c0_context_size h) = context_size ctx v0"
      "unat (sh_c1_context_size h) = context_size ctx v1" "unat (sh_num_mem_regions h) = n"
    using u assms(1-4) by (simp_all add: h_def save_header_def)
  have "read_exact 44 (header_bytes h @ c0 @ c1 @ rest) = Some (header_bytes h, c0 @ c1 @ rest)"
      "read_exact (context_size ctx v0) (c0 @ c1 @ rest) = Some (c0, c1 @ rest)"
      "read_exact (context_size ctx v1) (c1 @ rest) = Some (c1, rest)"
    using assms(1,2) by (simp_all add: read_exact_def)
  then show ?thesis using h assms(5-9) unfolding h_def [symmetric] by (simp add: load_state_def Let_def)
qed

text \<open>
  C4: a save is a faithful snapshot. For engines with the documented behaviour of memory, regions and
  contexts, and regions in the 32-bit space, loading the file that a successful save produced, into any two engines that have
  these regions mapped, succeeds and gives each core the saved CPU state, the saved counter and entry
  point, and in every region the saved memory, whatever the engines held before; memory outside the
  saved regions is left as it was.
\<close>

theorem save_load_roundtrip:
  assumes "uc_mem_ok ops mem" "uc_overlap_ok ops mem" "uc_regions_ok ops" "uc_ctx_ok ctx mem cpu"
    and save: "save_state ops ctx can_open room (Some u0) i0 e0 (Some u1) i1 e1 = (True, Some file)"
    and small: "\<forall>(b, e, p) \<in> set (snd (uc_mem_regions ops u0) @ snd (uc_mem_regions ops u1)). unat e < 2 ^ 32"
    and mapped0: "\<forall>k. in_regions (snd (uc_mem_regions ops u0)) k \<longrightarrow> mem v0 k \<noteq> None"
    and mapped1: "\<forall>k. in_regions (snd (uc_mem_regions ops u1)) k \<longrightarrow> mem v1 k \<noteq> None"
  shows "\<exists>w0 w1. load_state ops ctx (Some file) (Some v0, Some v1) cs =
      (True, (Some w0, Some w1), i0, e0, i1, e1) \<and> cpu w0 = cpu u0 \<and> cpu w1 = cpu u1 \<and>
    mem w0 = (\<lambda>k. if in_regions (snd (uc_mem_regions ops u0)) k then mem u0 k else mem v0 k) \<and>
    mem w1 = (\<lambda>k. if in_regions (snd (uc_mem_regions ops u1)) k then mem u1 k else mem v1 k)"
proof -
  obtain f0 c0 f1 c1 g0 rs0 g1 rs1 where c: "context_save ctx u0 = (f0, c0)" "context_save ctx u1 = (f1, c1)"
    and rg: "uc_mem_regions ops u0 = (g0, rs0)" "uc_mem_regions ops u1 = (g1, rs1)"
    by (metis surj_pair)
  let ?h = "save_header (context_size ctx u0) (context_size ctx u1) i0 e0 i1 e1 (length rs0 + length rs1)"
  have parts: "f0 = UC_ERR_OK" "f1 = UC_ERR_OK" "length rs0 + length rs1 \<le> MAX_REGIONS"
      "context_size ctx u0 \<le> 0xffffffff" "context_size ctx u1 \<le> 0xffffffff"
      "write_state ops room ?h (take (context_size ctx u0) c0) (take (context_size ctx u1) c1) (u0, rs0) (u1, rs1) = (True, file)"
    using save_state_parts [OF save c rg] by simp_all
  have sz: "context_size ctx u = context_size ctx v" and al: "context_alloc ctx u = UC_ERR_OK" for u v
    using assms(4) unfolding uc_ctx_ok_def by blast+
  have r0: "length c0 = context_size ctx u0 \<and> (\<forall>v. fst (context_restore ctx v c0) = UC_ERR_OK \<and>
      cpu (snd (context_restore ctx v c0)) = cpu u0 \<and> mem (snd (context_restore ctx v c0)) = mem v)"
    and r1: "length c1 = context_size ctx u1 \<and> (\<forall>v. fst (context_restore ctx v c1) = UC_ERR_OK \<and>
      cpu (snd (context_restore ctx v c1)) = cpu u1 \<and> mem (snd (context_restore ctx v c1)) = mem v)"
    using assms(4) c parts(1,2) unfolding uc_ctx_ok_def by blast+
  have s: "\<forall>(b, e, p) \<in> set (rs0 @ rs1). unat e < 2 ^ 32" using small rg by simp
  have pages: "\<forall>r \<in> set (rs0 @ rs1). region_aligned r"
    using assms(3) rg unfolding uc_regions_ok_def by (metis Un_iff set_append snd_conv)
  obtain xs0 xs1 where f: "file = header_bytes ?h @ c0 @ c1 @ enc_entries (xs0 @ xs1)"
    and len: "length (xs0 @ xs1) = length rs0 + length rs1"
    and ok0: "\<forall>x \<in> set xs0. entry_ok (\<lambda>_. mem u0) x \<and> rh_core_id (fst x) = 0"
    and ok1: "\<forall>x \<in> set xs1. entry_ok (\<lambda>_. mem u1) x \<and> rh_core_id (fst x) = 1"
    and mp0: "map (\<lambda>x. (rh_begin (fst x), rh_end (fst x))) xs0 = map (\<lambda>(b, e, p). (b, e)) rs0"
    and mp1: "map (\<lambda>x. (rh_begin (fst x), rh_end (fst x))) xs1 = map (\<lambda>(b, e, p). (b, e)) rs1"
    using write_state_file [OF assms(1) s pages parts(6)] r0 r1 by auto
  note cov = covered_two_cores [OF ok0 ok1 mp0 mp1 s]
  have ok: "\<forall>x \<in> set (xs0 @ xs1). entry_ok (\<lambda>q. if q = 0 then mem u0 else mem u1) x"
    using ok0 ok1 by (auto simp: entry_ok_def)
  from load_regions_ok [OF assms(1,2) ok, of v0 v1 "[]", unfolded cov len] mapped0 mapped1
  obtain w0 w1 where w: "load_regions ops (length rs0 + length rs1) (enc_entries (xs0 @ xs1)) (v0, v1) = (True, w0, w1)"
      "mem w0 = (\<lambda>k. if in_regions rs0 k then mem u0 k else mem v0 k)"
      "mem w1 = (\<lambda>k. if in_regions rs1 k then mem u1 k else mem v1 k)"
    by (auto simp: rg)
  obtain z0 z1 where cr: "context_restore ctx w0 c0 = (UC_ERR_OK, z0)" "context_restore ctx w1 c1 = (UC_ERR_OK, z1)"
    and z: "cpu z0 = cpu u0" "mem z0 = mem w0" "cpu z1 = cpu u1" "mem z1 = mem w1"
    using r0 r1 by (metis prod.collapse)
  have "load_state ops ctx (Some file) (Some v0, Some v1) cs = (True, (Some z0, Some z1), i0, e0, i1, e1)"
    using load_state_saved [OF _ _ _ _ parts(3) al w(1) cr, of i0 e0 i1 e1 cs] r0 r1 parts(4,5) sz [of v0 u0] sz [of v1 u1]
    by (simp add: f)
  then show ?thesis using z w(2,3) rg by simp
qed

text \<open>A machine of two engines with one page each; the context is the engine's register.\<close>

definition one_page_ops :: "paged uc_ops" where
  "one_page_ops = flat_ops\<lparr>uc_mem_regions := (\<lambda>u. (UC_ERR_OK,
     map (\<lambda>q. (of_nat (q * 4096), of_nat (q * 4096 + 0xfff), 7)) (filter (\<lambda>q. q < 2 ^ 20) (fst u))))\<rparr>"

definition reg_ctx :: "paged ctx_ops" where
  "reg_ctx = \<lparr>context_size = (\<lambda>u. 4), context_alloc = (\<lambda>u. UC_ERR_OK),
     context_save = (\<lambda>u. (UC_ERR_OK, le32_bytes (snd (snd u)))),
     context_restore = (\<lambda>u c. (UC_ERR_OK, (fst u, fst (snd u), rd32 c 0)))\<rparr>"

lemma one_page_laws:
  "uc_mem_ok one_page_ops paged_byte" "uc_overlap_ok one_page_ops paged_byte" "uc_regions_ok one_page_ops"
  "uc_ctx_ok reg_ctx paged_byte (\<lambda>u. snd (snd u))"
proof -
  show "uc_mem_ok one_page_ops paged_byte"
    using flat_mem_ok unfolding uc_mem_ok_def by (simp add: one_page_ops_def)
  show "uc_overlap_ok one_page_ops paged_byte"
    using any_page_iff(2) by (simp add: uc_overlap_ok_def one_page_ops_def flat_ops_def)
  have "4096 dvd unat (of_nat (q * 4096) :: u64) \<and> 4096 dvd unat (of_nat (q * 4096 + 0xfff) :: u64) + 1" if "q < 2 ^ 20" for q
  proof -
    have "unat (of_nat (q * 4096) :: u64) = q * 4096" "unat (of_nat (q * 4096 + 0xfff) :: u64) = q * 4096 + 0xfff"
      unfolding unat_of_nat using that by (simp_all del: of_nat_mult of_nat_add)
    moreover have "q * 4096 + 0xfff + 1 = (q + 1) * 4096" by simp
    ultimately show ?thesis by (metis dvd_triv_right)
  qed
  then show "uc_regions_ok one_page_ops"
    by (auto simp: uc_regions_ok_def one_page_ops_def region_aligned_def simp del: of_nat_mult of_nat_add)
  show "uc_ctx_ok reg_ctx paged_byte (\<lambda>u. snd (snd u))"
    using rd32_le32_bytes [of _ "[]"] by (auto simp: uc_ctx_ok_def reg_ctx_def paged_byte_def split: prod.split)
qed

lemma one_page_save:
  "\<exists>img. save_state one_page_ops reg_ctx True 10000 (Some ([3], \<lambda>_. 0xaa, 5)) 11 12 (Some ([], \<lambda>_. 0, 6)) 13 14 = (True, Some img)"
proof -
  let ?u = "([3], \<lambda>_. 0xaa, 5) :: paged"
  define page where "page = replicate 4096 (0xaa :: u8)"
  have "pages_in ?u 12288 4096" by (simp add: pages_in_def)
  moreover have "map (\<lambda>_. 0xaa) [12288..<12288 + 4096] = page"
    unfolding page_def by (simp only: map_replicate_const length_upt) simp
  ultimately have rd: "uc_mem_read one_page_ops ?u 0x3000 (replicate 4096 0) = (UC_ERR_OK, page)"
    by (simp add: one_page_ops_def flat_ops_def del: upt_rec_numeral)
  have len: "length page = 4096" by (simp add: page_def)
  have wc: "write_chunks one_page_ops 10000 ?u 0x3000 4096 (d, True) = (True, d @ page, True)" if "length d \<le> 200" for d
    using that by (subst write_chunks.simps, subst write_chunks.simps) (simp add: IO_CHUNK_def rd os_write_def Let_def len)
  have rg: "uc_mem_regions one_page_ops ?u = (UC_ERR_OK, [(0x3000, 0x3fff, 7)])"
      "uc_mem_regions one_page_ops ([], \<lambda>_. 0, 6) = (UC_ERR_OK, [])"
    by (simp_all add: one_page_ops_def)
  have "write_regions one_page_ops 10000 ?u 0 [(0x3000, 0x3fff, 7)] (d, True) =
      (True, d @ region_header_bytes \<lparr>rh_begin = 0x3000, rh_end = 0x3fff, rh_perms = 7, rh_core_id = 0, rh_data_size = 0x1000\<rparr> @ page, True)"
    if "length d \<le> 100" for d
    using that wc by (simp add: os_write_def MAX_REGION_SIZE_def Let_def)
  then show ?thesis
    by (simp add: save_state_def reg_ctx_def rg write_state_def os_write_def MAX_REGIONS_def Let_def)
qed

theorem save_load_roundtrip_witness:
  "\<exists>img w0 w1. save_state one_page_ops reg_ctx True 10000 (Some ([3], \<lambda>_. 0xaa, 5)) 11 12 (Some ([], \<lambda>_. 0, 6)) 13 14 = (True, Some img) \<and>
     load_state one_page_ops reg_ctx (Some img) (Some ([3], \<lambda>_. 0, 0), Some ([], \<lambda>_. 0, 0)) (0, 0, 0, 0) =
       (True, (Some w0, Some w1), 11, 12, 13, 14) \<and> snd (snd w0) = 5 \<and> paged_byte w0 0x3008 = Some 0xaa"
proof -
  let ?u0 = "([3], \<lambda>_. 0xaa, 5) :: paged" and ?u1 = "([], \<lambda>_. 0, 6) :: paged"
  have rg: "uc_mem_regions one_page_ops ?u0 = (UC_ERR_OK, [(0x3000, 0x3fff, 7)])"
      "uc_mem_regions one_page_ops ?u1 = (UC_ERR_OK, [])"
    by (simp_all add: one_page_ops_def)
  have reg: "in_regions [(0x3000, 0x3fff, 7)] k \<longleftrightarrow> 0x3000 \<le> k \<and> k \<le> 0x3fff" for k by (simp add: in_regions_def)
  have pg: "k div 4096 = 3" if "0x3000 \<le> k" "k \<le> 0x3fff" for k :: nat using that by linarith
  have m0: "\<forall>k. in_regions (snd (uc_mem_regions one_page_ops ?u0)) k \<longrightarrow> paged_byte ([3], \<lambda>_. 0, 0) k \<noteq> None"
    using pg by (auto simp: rg reg paged_byte_def)
  have m1: "\<forall>k. in_regions (snd (uc_mem_regions one_page_ops ?u1)) k \<longrightarrow> paged_byte ([], \<lambda>_. 0, 0) k \<noteq> None"
    by (simp add: rg in_regions_def)
  have sm: "\<forall>(b, e, p) \<in> set (snd (uc_mem_regions one_page_ops ?u0) @ snd (uc_mem_regions one_page_ops ?u1)). unat e < 2 ^ 32"
    by (simp add: rg)
  obtain img where f: "save_state one_page_ops reg_ctx True 10000 (Some ?u0) 11 12 (Some ?u1) 13 14 = (True, Some img)"
    using one_page_save by blast
  obtain w0 w1 where w: "load_state one_page_ops reg_ctx (Some img) (Some ([3], \<lambda>_. 0, 0), Some ([], \<lambda>_. 0, 0)) (0, 0, 0, 0) =
      (True, (Some w0, Some w1), 11, 12, 13, 14)" "snd (snd w0) = snd (snd ?u0)"
      "paged_byte w0 = (\<lambda>k. if in_regions (snd (uc_mem_regions one_page_ops ?u0)) k then paged_byte ?u0 k else paged_byte ([3], \<lambda>_. 0, 0) k)"
    using save_load_roundtrip [OF one_page_laws f sm m0 m1, of "(0, 0, 0, 0)"] by auto
  have "paged_byte w0 0x3008 = Some 0xaa" unfolding w(3) rg by (simp add: reg paged_byte_def)
  moreover have "snd (snd w0) = 5" using w(2) by simp
  ultimately show ?thesis using f w(1) by blast
qed

end
