(* ===== verification/Video_Mmio.thy ===== *)
theory Video_Mmio
  imports Zeebo_Prelude
begin

text \<open>
  \<open>tools/cpp/zeebo_video_mmio.h\<close>: the MDDI display engine, which consumes a linked list of video packets
  from guest memory when its list pointer is written, the RGB565 scan-out surface it draws on, and the
  register file of the Adreno 130. Guest memory is the word reader \<open>reader\<close> the runtime attaches; the
  copy loops run over 32-bit coordinates that wrap as in the source.
\<close>

definition MDDI_VIDEO_STREAM :: u32 where "MDDI_VIDEO_STREAM = 16"
definition MDDI_FMT_RGB565 :: u32 where "MDDI_FMT_RGB565 = 0x5565"
definition ZV_CHIP_ID_YAMATO :: u32 where "ZV_CHIP_ID_YAMATO = 0x01030000"

section \<open>The scan-out surface\<close>

definition SINK_W :: u32 where "SINK_W = 640"
definition SINK_H :: u32 where "SINK_H = 480"

record scanout_sink =
  ss_px :: "u16 list"
  regions_drawn :: u32

definition sink_init :: scanout_sink where
  "sink_init = \<lparr>ss_px = replicate (640 * 480) 0, regions_drawn = 0\<rparr>"

definition px_index :: "u32 \<Rightarrow> u32 \<Rightarrow> nat" where
  "px_index x y = unat (y * SINK_W + x)"

definition sink_at :: "u32 \<Rightarrow> u32 \<Rightarrow> scanout_sink \<Rightarrow> u16" where
  "sink_at x y s = (if x < SINK_W \<and> y < SINK_H then ss_px s ! px_index x y else 0)"

definition blit_pixel :: "u32 \<Rightarrow> u32 \<Rightarrow> u32 \<Rightarrow> (u32 \<Rightarrow> u16) \<Rightarrow> nat \<times> nat \<Rightarrow> u16 list \<Rightarrow> u16 list" where
  "blit_pixel x0 y0 w src = (\<lambda>(j, i) px.
     let x = x0 + of_nat i; y = y0 + of_nat j
     in if x < SINK_W \<and> y < SINK_H then px[px_index x y := src (of_nat j * w + of_nat i)] else px)"

definition blit :: "u32 \<Rightarrow> u32 \<Rightarrow> u32 \<Rightarrow> u32 \<Rightarrow> (u32 \<Rightarrow> u16) \<Rightarrow> scanout_sink \<Rightarrow> scanout_sink" where
  "blit x0 y0 w h src s =
     s\<lparr>ss_px := fold (blit_pixel x0 y0 w src) (List.product [0..<unat h] [0..<unat w]) (ss_px s),
       regions_drawn := regions_drawn s + 1\<rparr>"

section \<open>The MDDI engine\<close>

record mddi_llentry =
  ll_type :: u32
  ll_format :: u32
  ll_x :: u32
  ll_y :: u32
  ll_w :: u32
  ll_h :: u32
  ll_data_ptr :: u32
  ll_next :: u32

definition read_entry :: "(u32 \<Rightarrow> u32) \<Rightarrow> u32 \<Rightarrow> mddi_llentry" where
  "read_entry reader a = \<lparr>ll_type = reader a, ll_format = reader (a + 4), ll_x = reader (a + 8),
     ll_y = reader (a + 12), ll_w = reader (a + 16), ll_h = reader (a + 20), ll_data_ptr = reader (a + 24),
     ll_next = reader (a + 28)\<rparr>"

definition pixel_src :: "(u32 \<Rightarrow> u32) \<Rightarrow> u32 \<Rightarrow> u32 \<Rightarrow> u16" where
  "pixel_src reader base idx =
     (let a = base + idx * 2; word = reader (a AND NOT 3)
      in if a AND 2 \<noteq> 0 then ucast (drop_bit 16 word) else ucast (word AND 0xffff))"

definition is_video :: "mddi_llentry \<Rightarrow> bool" where
  "is_video e \<longleftrightarrow> ll_type e = MDDI_VIDEO_STREAM \<and> ll_format e = MDDI_FMT_RGB565 \<and> ll_data_ptr e \<noteq> 0"

definition draw_entry :: "(u32 \<Rightarrow> u32) \<Rightarrow> mddi_llentry \<Rightarrow> scanout_sink \<Rightarrow> scanout_sink" where
  "draw_entry reader e s =
     (if is_video e then blit (ll_x e) (ll_y e) (ll_w e) (ll_h e) (pixel_src reader (ll_data_ptr e)) s else s)"

text \<open>The list walk; \<open>n\<close> entries may still be taken.\<close>

fun scan_list :: "(u32 \<Rightarrow> u32) \<Rightarrow> nat \<Rightarrow> u32 \<Rightarrow> scanout_sink \<Rightarrow> scanout_sink" where
  "scan_list reader 0 a s = s"
| "scan_list reader (Suc n) a s =
     (if a = 0 then s
      else let e = read_entry reader a in scan_list reader n (ll_next e) (draw_entry reader e s))"

record mddi =
  md_status :: u32
  md_version :: u32
  md_pri_ptr :: u32
  md_frame_count :: u32
  md_regs :: "u32 \<Rightarrow> u32 option"
  md_reader :: "(u32 \<Rightarrow> u32) option"
  md_sink :: "scanout_sink option"

definition mddi_init :: mddi where
  "mddi_init = \<lparr>md_status = 0x21, md_version = 0x00000102, md_pri_ptr = 0, md_frame_count = 0,
     md_regs = Map.empty, md_reader = None, md_sink = None\<rparr>"

definition attach_scanout :: "(u32 \<Rightarrow> u32) \<Rightarrow> scanout_sink option \<Rightarrow> mddi \<Rightarrow> mddi" where
  "attach_scanout reader sink m = m\<lparr>md_reader := Some reader, md_sink := sink\<rparr>"

definition mddi_read :: "u32 \<Rightarrow> mddi \<Rightarrow> u32" where
  "mddi_read off m =
     (if off = 0x0004 then md_version m
      else if off = 0x0028 then md_status m
      else if off = 0x0008 then md_pri_ptr m
      else case md_regs m off of Some v \<Rightarrow> v | None \<Rightarrow> 0)"

definition scanout :: "u32 \<Rightarrow> mddi \<Rightarrow> mddi" where
  "scanout head m =
     (case (md_reader m, md_sink m) of
        (Some reader, Some s) \<Rightarrow> if head = 0 then m else m\<lparr>md_sink := Some (scan_list reader 4096 head s)\<rparr>
      | _ \<Rightarrow> m)"

definition mddi_write :: "u32 \<Rightarrow> u32 \<Rightarrow> mddi \<Rightarrow> mddi" where
  "mddi_write off val m =
     (let m = m\<lparr>md_regs := (md_regs m)(off \<mapsto> val)\<rparr>
      in if off = 0x0000 then
           (if val AND 0xff00 = 0x0200 then m\<lparr>md_status := md_status m OR 0x01\<rparr>
            else if val AND 0xff00 = 0x0400 then m\<lparr>md_status := 0x21\<rparr> else m)
         else if off = 0x0008 then
           scanout val (m\<lparr>md_pri_ptr := val, md_frame_count := md_frame_count m + 1, md_status := md_status m OR 0x20\<rparr>)
         else m)"

section \<open>The Adreno 130 registers\<close>

record adreno130 =
  gp_status :: u32
  rb_rptr :: u32
  rb_wptr :: u32
  int_status :: u32
  int_en :: u32
  draws :: u32
  fb_dirty :: bool
  gp_regs :: "u32 \<Rightarrow> u32 option"

definition adreno_init :: adreno130 where
  "adreno_init = \<lparr>gp_status = 1, rb_rptr = 0, rb_wptr = 0, int_status = 0, int_en = 0, draws = 0,
     fb_dirty = False, gp_regs = Map.empty\<rparr>"

definition adreno_read :: "u32 \<Rightarrow> adreno130 \<Rightarrow> u32" where
  "adreno_read off g =
     (if off = 0x0000 then ZV_CHIP_ID_YAMATO
      else if off = 0x0004 then 1
      else if off = 0x0110 then gp_status g
      else if off = 0x0108 then rb_rptr g
      else if off = 0x010c then rb_wptr g
      else if off = 0x0120 then int_status g
      else case gp_regs g off of Some v \<Rightarrow> v | None \<Rightarrow> 0)"

definition adreno_write :: "u32 \<Rightarrow> u32 \<Rightarrow> adreno130 \<Rightarrow> adreno130" where
  "adreno_write off val g =
     (let g = g\<lparr>gp_regs := (gp_regs g)(off \<mapsto> val)\<rparr>
      in if off = 0x010c then
           let g = g\<lparr>rb_wptr := val\<rparr>;
               g = g\<lparr>draws := draws g + (if rb_wptr g \<ge> rb_rptr g then rb_wptr g - rb_rptr g
                                        else 0x10000 - rb_rptr g + rb_wptr g)\<rparr>;
               g = g\<lparr>rb_rptr := rb_wptr g, fb_dirty := True\<rparr>
           in if int_en g AND 1 \<noteq> 0 then g\<lparr>int_status := int_status g OR 1\<rparr> else g
         else if off = 0x0124 then g\<lparr>int_en := val\<rparr>
         else if off = 0x0128 then g\<lparr>int_status := int_status g AND NOT val\<rparr>
         else g)"

definition clear_fb_dirty :: "adreno130 \<Rightarrow> adreno130" where "clear_fb_dirty g = g\<lparr>fb_dirty := False\<rparr>"
definition mark_dirty :: "adreno130 \<Rightarrow> adreno130" where "mark_dirty g = g\<lparr>fb_dirty := True\<rparr>"

section \<open>Pixels of a blit\<close>

definition sink_ok :: "scanout_sink \<Rightarrow> bool" where
  "sink_ok s \<longleftrightarrow> length (ss_px s) = 640 * 480"

lemma px_index_unat:
  assumes "x < SINK_W" "y < SINK_H"
  shows "px_index x y = unat y * 640 + unat x" "px_index x y < 640 * 480"
proof -
  have b: "unat x < 640" "unat y < 480" using assms by (simp_all add: SINK_W_def SINK_H_def word_less_nat_alt)
  have "unat (y * SINK_W) = unat y * 640"
    using b by (simp add: SINK_W_def unat_mult_lem [THEN iffD1])
  then have "unat (y * SINK_W + x) = unat y * 640 + unat x"
    using b unat_add_lem [of "y * SINK_W" x] by simp
  then show "px_index x y = unat y * 640 + unat x" by (simp add: px_index_def)
  then show "px_index x y < 640 * 480" using b by simp
qed

lemma px_index_inj:
  assumes "x < SINK_W" "y < SINK_H" "x' < SINK_W" "y' < SINK_H"
  shows "px_index x y = px_index x' y' \<longleftrightarrow> x = x' \<and> y = y'"
proof
  assume "px_index x y = px_index x' y'"
  then have e: "unat y * 640 + unat x = unat y' * 640 + unat x'" using px_index_unat assms by simp
  have b: "unat x < 640" "unat x' < 640" using assms by (simp_all add: SINK_W_def word_less_nat_alt)
  have "unat x = unat x'" using arg_cong [OF e, of "\<lambda>n. n mod 640"] b by simp
  moreover from this have "unat y = unat y'" using e by simp
  ultimately show "x = x' \<and> y = y'" by (blast intro: unsigned_word_eqI)
qed simp

text \<open>A blit in closed form: the pixel at \<open>(x, y)\<close> is source element \<open>(y - y0) * w + (x - x0)\<close> when it lies in
  the rectangle, counted with wrap-around from its corner, and otherwise unchanged.\<close>

lemma blit_fold:
  assumes "x < SINK_W" "y < SINK_H" "length px = 640 * 480"
  shows "length (fold (blit_pixel x0 y0 w src) ps px) = 640 * 480 \<and>
    fold (blit_pixel x0 y0 w src) ps px ! px_index x y =
      (if \<exists>(j, i) \<in> set ps. x0 + of_nat i = x \<and> y0 + of_nat j = y
       then src ((y - y0) * w + (x - x0)) else px ! px_index x y)"
  using assms(3)
proof (induction ps arbitrary: px)
  case (Cons p ps)
  obtain j i where p: "p = (j, i)" by (cases p)
  let ?px = "blit_pixel x0 y0 w src (j, i) px"
  have l: "length ?px = 640 * 480" using Cons.prems by (simp add: blit_pixel_def Let_def)
  have "?px ! px_index x y = (if x0 + of_nat i = x \<and> y0 + of_nat j = y
      then src ((y - y0) * w + (x - x0)) else px ! px_index x y)"
  proof (cases "x0 + of_nat i < SINK_W \<and> y0 + of_nat j < SINK_H")
    case True
    have "of_nat j * w + of_nat i = (y - y0) * w + (x - x0)" if "x0 + of_nat i = x" "y0 + of_nat j = y"
      using that by (auto simp: algebra_simps)
    then show ?thesis
      using True px_index_inj [of "x0 + of_nat i" "y0 + of_nat j" x y] px_index_unat(2) [OF assms(1,2)] assms(1,2) Cons.prems
      by (auto simp: blit_pixel_def Let_def nth_list_update)
  next
    case False
    then show ?thesis using assms(1,2) by (auto simp: blit_pixel_def Let_def)
  qed
  then show ?case using Cons.IH [OF l] by (auto simp: p)
qed simp

lemma blit_at:
  assumes "x < SINK_W" "y < SINK_H" "sink_ok s"
  shows "sink_ok (blit x0 y0 w h src s)"
    and "sink_at x y (blit x0 y0 w h src s) =
      (if x - x0 < w \<and> y - y0 < h then src ((y - y0) * w + (x - x0)) else sink_at x y s)"
proof -
  let ?ps = "List.product [0..<unat h] [0..<unat w]"
  have ex: "(\<exists>i < unat n. a0 + of_nat i = a) \<longleftrightarrow> a - a0 < n" for a a0 n :: u32
  proof
    assume "\<exists>i < unat n. a0 + of_nat i = a"
    then obtain i where "i < unat n" "a - a0 = of_nat i" by auto
    moreover have "unat (of_nat i :: u32) \<le> i" by (simp add: unat_of_nat)
    ultimately show "a - a0 < n" by (simp add: word_less_nat_alt)
  next
    assume "a - a0 < n"
    then have "unat (a - a0) < unat n" "a0 + of_nat (unat (a - a0)) = a" by (simp_all add: word_less_nat_alt)
    then show "\<exists>i < unat n. a0 + of_nat i = a" by blast
  qed
  have "(\<exists>(j, i) \<in> set ?ps. x0 + of_nat i = x \<and> y0 + of_nat j = y) \<longleftrightarrow>
      (\<exists>i < unat w. x0 + of_nat i = x) \<and> (\<exists>j < unat h. y0 + of_nat j = y)" by auto
  then have hit: "(\<exists>(j, i) \<in> set ?ps. x0 + of_nat i = x \<and> y0 + of_nat j = y) \<longleftrightarrow> x - x0 < w \<and> y - y0 < h"
    unfolding ex .
  show "sink_ok (blit x0 y0 w h src s)"
    and "sink_at x y (blit x0 y0 w h src s) =
      (if x - x0 < w \<and> y - y0 < h then src ((y - y0) * w + (x - x0)) else sink_at x y s)"
    using blit_fold [OF assms(1,2), of "ss_px s" x0 y0 w src ?ps] assms hit
    by (simp_all add: sink_ok_def blit_def sink_at_def)
qed

section \<open>Scan-out\<close>

text \<open>The entries a walk visits, and what one of them contributes to a pixel.\<close>

fun visited :: "(u32 \<Rightarrow> u32) \<Rightarrow> nat \<Rightarrow> u32 \<Rightarrow> mddi_llentry list" where
  "visited reader 0 a = []"
| "visited reader (Suc n) a =
     (if a = 0 then [] else let e = read_entry reader a in e # visited reader n (ll_next e))"

definition shade :: "(u32 \<Rightarrow> u32) \<Rightarrow> u32 \<Rightarrow> u32 \<Rightarrow> mddi_llentry \<Rightarrow> u16 \<Rightarrow> u16" where
  "shade reader x y e v =
     (if is_video e \<and> x - ll_x e < ll_w e \<and> y - ll_y e < ll_h e
      then pixel_src reader (ll_data_ptr e) ((y - ll_y e) * ll_w e + (x - ll_x e)) else v)"

lemma draw_entry_at:
  assumes "x < SINK_W" "y < SINK_H" "sink_ok s"
  shows "sink_ok (draw_entry reader e s)" "sink_at x y (draw_entry reader e s) = shade reader x y e (sink_at x y s)"
  using blit_at [OF assms] assms(3) by (auto simp: draw_entry_def shade_def)

lemma scan_list_at:
  assumes "x < SINK_W" "y < SINK_H"
  shows "sink_ok s \<Longrightarrow> sink_ok (scan_list reader n a s) \<and>
    sink_at x y (scan_list reader n a s) = fold (shade reader x y) (visited reader n a) (sink_at x y s)"
proof (induction n arbitrary: a s)
  case (Suc n)
  then show ?case using draw_entry_at [OF assms Suc.prems] by (simp add: Let_def)
qed simp

text \<open>
  C26: the display shows what the guest's packet list says. Writing the list pointer of an engine with a
  reader and a surface takes at most 4096 packets, so a cyclic list ends too, and leaves every pixel of
  the 640 by 480 surface with the colour of the last RGB565 video packet whose rectangle covers it, read
  from that packet's pixel data, or with its old colour when none does. Packets of another kind change
  no pixel, the surface keeps its size, a null pointer draws nothing, and the frame counter and the
  list-done bit record the write.
\<close>

theorem scanout_shows_list:
  assumes "md_reader m = Some reader" "md_sink m = Some s" "sink_ok s" "x < SINK_W" "y < SINK_H"
  shows "\<exists>s'. md_sink (mddi_write 8 head m) = Some s' \<and> sink_ok s' \<and>
    sink_at x y s' = fold (shade reader x y) (visited reader 4096 head) (sink_at x y s) \<and>
    (head = 0 \<longrightarrow> s' = s) \<and> length (visited reader 4096 head) \<le> 4096 \<and>
    md_frame_count (mddi_write 8 head m) = md_frame_count m + 1 \<and>
    bit (mddi_read 0x28 (mddi_write 8 head m)) 5 \<and> mddi_read 8 (mddi_write 8 head m) = head"
proof -
  have len: "length (visited reader n a) \<le> n" for n a
    by (induction n arbitrary: a) (auto simp: Let_def)
  have st: "bit (w OR 0x20 :: u32) 5" for w by (simp add: bit_or_iff)
  have zero: "visited reader 4096 0 = []" "scan_list reader 4096 0 s = s" by (simp_all add: numeral_eq_Suc)
  have w: "mddi_write 8 head m = scanout head (m\<lparr>md_regs := (md_regs m)(8 \<mapsto> head), md_pri_ptr := head,
      md_frame_count := md_frame_count m + 1, md_status := md_status m OR 0x20\<rparr>)"
    by (simp add: mddi_write_def Let_def)
  show ?thesis
    using scan_list_at [OF assms(4,5,3), of reader 4096 head] len [of 4096 head] st assms(1-3) zero
    unfolding w by (cases "head = 0") (simp_all add: scanout_def mddi_read_def)
qed

text \<open>One 1 by 1 packet at the origin whose pixel word is \<open>0xf800\<close> (red), in a three-word guest memory.\<close>

definition one_packet :: "u32 \<Rightarrow> u32" where
  "one_packet a = (if a = 0x100 then 16 else if a = 0x104 then 0x5565 else if a = 0x110 then 1 else if a = 0x114 then 1
     else if a = 0x118 then 0x200 else if a = 0x200 then 0xf800 else 0)"

theorem scanout_shows_list_witness:
  "\<exists>s'. md_sink (mddi_write 8 0x100 (attach_scanout one_packet (Some sink_init) mddi_init)) = Some s' \<and>
     sink_at 0 0 s' = 0xf800 \<and> sink_at 1 0 s' = 0"
proof -
  let ?m = "attach_scanout one_packet (Some sink_init) mddi_init"
  have m: "md_reader ?m = Some one_packet" "md_sink ?m = Some sink_init" by (simp_all add: attach_scanout_def)
  have ok: "sink_ok sink_init" by (simp add: sink_ok_def sink_init_def)
  have "visited one_packet (Suc (Suc n)) 0x100 = [read_entry one_packet 0x100]" for n
    by (simp add: read_entry_def one_packet_def)
  from this [of 4094] have v: "visited one_packet 4096 0x100 = [read_entry one_packet 0x100]" by simp
  have old: "sink_at 0 0 sink_init = 0" "sink_at 1 0 sink_init = 0"
    using px_index_unat [of 0 0] px_index_unat [of 1 0]
    by (simp_all add: sink_at_def sink_init_def SINK_W_def SINK_H_def)
  have sh: "shade one_packet 0 0 (read_entry one_packet 0x100) 0 = 0xf800"
      "shade one_packet 1 0 (read_entry one_packet 0x100) 0 = 0"
    by code_simp+
  show ?thesis
    using scanout_shows_list [OF m ok, of 0 0 "0x100"] scanout_shows_list [OF m ok, of 1 0 "0x100"] v old sh
    by (auto simp: SINK_W_def SINK_H_def)
qed

end
