(* ===== verification/Brew_Timer.thy ===== *)
theory Brew_Timer
  imports Zeebo_Prelude Machine_Runs "HOL-Library.Multiset"
begin

text \<open>
  \<open>tools/cpp/zeebo_brew_timer.h\<close>: the queue of one-shot shell timers. The queue is the vector of
  entries in registration order; \<open>tick\<close> returns the expired ones and the remaining queue.
\<close>

record timer_entry =
  te_remaining_ms :: u32
  te_callback :: u32
  te_user_data :: u32
  te_r0_override :: "u32 option"

record expired_timer =
  xt_callback :: u32
  xt_user_data :: u32
  xt_r0_override :: "u32 option"

definition timer_key :: "timer_entry \<Rightarrow> u32 \<times> u32" where
  "timer_key t = (te_callback t, te_user_data t)"

fun rearm :: "u32 \<Rightarrow> u32 \<Rightarrow> u32 \<Rightarrow> u32 option \<Rightarrow> timer_entry list \<Rightarrow> timer_entry list" where
  "rearm ms callback user_data r0 [] =
     [\<lparr>te_remaining_ms = ms, te_callback = callback, te_user_data = user_data, te_r0_override = r0\<rparr>]"
| "rearm ms callback user_data r0 (t # ts) =
     (if te_callback t = callback \<and> te_user_data t = user_data
      then t\<lparr>te_remaining_ms := ms, te_r0_override := r0\<rparr> # ts
      else t # rearm ms callback user_data r0 ts)"

definition schedule :: "u32 \<Rightarrow> u32 \<Rightarrow> u32 \<Rightarrow> u32 option \<Rightarrow> timer_entry list \<Rightarrow> timer_entry list" where
  "schedule ms callback user_data r0 ts = (if callback = 0 then ts else rearm ms callback user_data r0 ts)"

definition cancel :: "u32 \<Rightarrow> u32 \<Rightarrow> timer_entry list \<Rightarrow> bool \<times> timer_entry list" where
  "cancel callback user_data ts =
     (let kept = filter (\<lambda>t. \<not> (te_callback t = callback \<and> te_user_data t = user_data)) ts
      in if length kept \<noteq> length ts then (True, kept) else (False, ts))"

definition expire :: "timer_entry \<Rightarrow> expired_timer" where
  "expire t = \<lparr>xt_callback = te_callback t, xt_user_data = te_user_data t, xt_r0_override = te_r0_override t\<rparr>"

fun timer_tick :: "u32 \<Rightarrow> timer_entry list \<Rightarrow> expired_timer list \<times> timer_entry list" where
  "timer_tick ms [] = ([], [])"
| "timer_tick ms (t # ts) =
     (let (xs, live) = timer_tick ms ts
      in if te_remaining_ms t \<le> ms then (expire t # xs, live)
         else (xs, t\<lparr>te_remaining_ms := te_remaining_ms t - ms\<rparr> # live))"

definition clear_timers :: "timer_entry list \<Rightarrow> timer_entry list" where
  "clear_timers ts = []"

section \<open>The queue has one entry per timer\<close>

definition timers_ok :: "timer_entry list \<Rightarrow> bool" where
  "timers_ok ts \<longleftrightarrow> distinct (map timer_key ts) \<and> (\<forall>t \<in> set ts. te_callback t \<noteq> 0)"

datatype timer_event = Schedule u32 u32 u32 "u32 option" | Cancel u32 u32 | Tick u32 | Clear

fun timer_step :: "timer_event \<Rightarrow> timer_entry list \<Rightarrow> timer_entry list" where
  "timer_step (Schedule ms cb ud r0) ts = schedule ms cb ud r0 ts"
| "timer_step (Cancel cb ud) ts = snd (cancel cb ud ts)"
| "timer_step (Tick ms) ts = snd (timer_tick ms ts)"
| "timer_step Clear ts = clear_timers ts"

lemma rearm_keys:
  "set (map timer_key (rearm ms cb ud r0 ts)) = insert (cb, ud) (set (map timer_key ts))"
  "distinct (map timer_key ts) \<Longrightarrow> distinct (map timer_key (rearm ms cb ud r0 ts))"
proof (induction ts)
  case (Cons t ts)
  {
    case 1
    then show ?case using Cons.IH(1) by (auto simp: timer_key_def)
  next
    case 2
    then show ?case using Cons by (auto simp: timer_key_def)
  }
qed (simp_all add: timer_key_def)

lemma tick_live:
  "snd (timer_tick ms ts) =
     map (\<lambda>t. t\<lparr>te_remaining_ms := te_remaining_ms t - ms\<rparr>) (filter (\<lambda>t. ms < te_remaining_ms t) ts)"
  "fst (timer_tick ms ts) = map expire (filter (\<lambda>t. te_remaining_ms t \<le> ms) ts)"
  by (induction ts) (auto simp: Let_def not_le split: prod.splits)

lemma timers_ok_step: "timers_ok ts \<Longrightarrow> timers_ok (timer_step e ts)"
proof (cases e)
  case (Schedule ms cb ud r0)
  assume ok: "timers_ok ts"
  have nz: "\<forall>t \<in> set (rearm ms cb ud r0 ts). te_callback t \<noteq> 0" if "cb \<noteq> 0" "\<forall>t \<in> set ts. te_callback t \<noteq> 0"
    using that by (induction ts) auto
  show ?thesis using ok Schedule rearm_keys(2) [of ts] nz by (auto simp: timers_ok_def schedule_def)
next
  case (Cancel cb ud)
  assume "timers_ok ts"
  then show ?thesis using Cancel by (auto simp: timers_ok_def cancel_def Let_def distinct_map_filter)
next
  case (Tick ms)
  assume "timers_ok ts"
  moreover have "map timer_key (map (\<lambda>t. t\<lparr>te_remaining_ms := te_remaining_ms t - ms\<rparr>) xs) = map timer_key xs" for xs
    by (simp add: timer_key_def)
  ultimately show ?thesis
    using Tick by (auto simp: timers_ok_def tick_live distinct_map_filter simp del: map_map)
qed (simp add: timers_ok_def clear_timers_def)

interpretation timers: machine_inv timer_step timers_ok
  by unfold_locales (rule timers_ok_step)

text \<open>
  The timer queue never holds two entries for the same callback and argument, nor one with a null
  callback, whatever sequence of schedule, cancel, tick and clear calls led to it; so re-arming moves
  the deadline of the one pending timer.
\<close>

theorem timer_queue_invariant:
  "let ts = fold timer_step es [] in
     timers_ok ts \<and> (cb \<noteq> 0 \<longrightarrow>
       filter (\<lambda>t. timer_key t = (cb, ud)) (schedule ms cb ud r0 ts) =
         [\<lparr>te_remaining_ms = ms, te_callback = cb, te_user_data = ud, te_r0_override = r0\<rparr>])"
proof -
  have ok: "timers_ok (fold timer_step es [])" by (rule timers.inv_run) (simp add: timers_ok_def)
  have none: "filter (\<lambda>t. timer_key t = (cb, ud)) ts = []" if "(cb, ud) \<notin> set (map timer_key ts)" for ts
    using that unfolding filter_empty_conv by (metis (mono_tags) image_eqI list.set_map)
  have "filter (\<lambda>t. timer_key t = (cb, ud)) (rearm ms cb ud r0 ts) =
      [\<lparr>te_remaining_ms = ms, te_callback = cb, te_user_data = ud, te_r0_override = r0\<rparr>]"
    if "distinct (map timer_key ts)" for ts
    using that
  proof (induction ts)
    case (Cons t ts)
    then show ?case using none [of ts] by (auto simp: timer_key_def)
  qed (simp add: timer_key_def)
  then show ?thesis using ok by (simp add: schedule_def timers_ok_def Let_def)
qed

section \<open>Deadlines\<close>

text \<open>A sequence of ticks: everything that expired on the way, and the queue left.\<close>

fun ticks :: "u32 list \<Rightarrow> timer_entry list \<Rightarrow> expired_timer list \<times> timer_entry list" where
  "ticks [] ts = ([], ts)"
| "ticks (ms # mss) ts =
     (let (xs, ts) = timer_tick ms ts; (ys, ts) = ticks mss ts in (xs @ ys, ts))"

definition elapsed :: "u32 list \<Rightarrow> nat" where
  "elapsed mss = sum_list (map unat mss)"

lemma mset_filter_split:
  "(\<And>x. x \<in> set xs \<Longrightarrow> P x \<Longrightarrow> Q x) \<Longrightarrow>
   mset (filter Q xs) = mset (filter P xs) + mset (filter (\<lambda>x. Q x \<and> \<not> P x) xs)"
  by (induction xs) auto

text \<open>A deadline \<open>T\<close> after a tick of \<open>ms\<close> is the deadline \<open>ms + T\<close> before it, for the timers that survive the tick.\<close>

lemma survivors_deadline:
  fixes ms :: u32
  defines "after \<equiv> \<lambda>ts. map (\<lambda>t. t\<lparr>te_remaining_ms := te_remaining_ms t - ms\<rparr>) (filter (\<lambda>t. ms < te_remaining_ms t) ts)"
  shows "filter (\<lambda>t. T < unat (te_remaining_ms t)) (after ts) =
      map (\<lambda>t. t\<lparr>te_remaining_ms := te_remaining_ms t - ms\<rparr>) (filter (\<lambda>t. unat ms + T < unat (te_remaining_ms t)) ts)"
    and "map expire (filter (\<lambda>t. unat (te_remaining_ms t) \<le> T) (after ts)) =
      map expire (filter (\<lambda>t. unat (te_remaining_ms t) \<le> unat ms + T \<and> \<not> te_remaining_ms t \<le> ms) ts)"
proof -
  have sub: "unat (r - ms) = unat r - unat ms" if "ms < r" for r using that by (simp add: unat_sub)
  have "filter (\<lambda>t. ms < te_remaining_ms t \<and> T < unat (te_remaining_ms t - ms)) ts =
      filter (\<lambda>t. unat ms + T < unat (te_remaining_ms t)) ts"
    by (rule filter_cong) (auto simp: sub word_less_nat_alt)
  then show "filter (\<lambda>t. T < unat (te_remaining_ms t)) (after ts) =
      map (\<lambda>t. t\<lparr>te_remaining_ms := te_remaining_ms t - ms\<rparr>) (filter (\<lambda>t. unat ms + T < unat (te_remaining_ms t)) ts)"
    by (simp add: after_def filter_map comp_def)
  have "filter (\<lambda>t. ms < te_remaining_ms t \<and> unat (te_remaining_ms t - ms) \<le> T) ts =
      filter (\<lambda>t. unat (te_remaining_ms t) \<le> unat ms + T \<and> \<not> te_remaining_ms t \<le> ms) ts"
    by (rule filter_cong) (auto simp: sub not_le)
  then show "map expire (filter (\<lambda>t. unat (te_remaining_ms t) \<le> T) (after ts)) =
      map expire (filter (\<lambda>t. unat (te_remaining_ms t) \<le> unat ms + T \<and> \<not> te_remaining_ms t \<le> ms) ts)"
    by (simp add: after_def filter_map comp_def expire_def)
qed

text \<open>
  Every timer expires exactly once, at the tick that reaches its deadline. After any non-empty
  sequence of ticks, the timers still pending are exactly those whose time is longer than the sum of
  the elapsed times, in their old order and with that sum taken off, and the callbacks reported on the
  way are exactly the others, each once; the split of the elapsed time into ticks makes no difference
  to either.
\<close>

theorem timers_expire_at_deadline:
  assumes "mss \<noteq> []" "elapsed mss < 2 ^ 32"
  shows "snd (ticks mss ts) = map (\<lambda>t. t\<lparr>te_remaining_ms := te_remaining_ms t - of_nat (elapsed mss)\<rparr>)
      (filter (\<lambda>t. elapsed mss < unat (te_remaining_ms t)) ts) \<and>
    mset (fst (ticks mss ts)) = mset (map expire (filter (\<lambda>t. unat (te_remaining_ms t) \<le> elapsed mss) ts)) \<and>
    snd (ticks mss ts) = snd (timer_tick (of_nat (elapsed mss)) ts)"
  using assms
proof (induction mss arbitrary: ts)
  case (Cons ms mss)
  show ?case
  proof (cases "mss = []")
    case True
    then show ?thesis
      by (simp add: elapsed_def tick_live word_less_nat_alt word_le_nat_alt split: prod.split)
  next
    case False
    define T where "T = elapsed mss"
    have e: "elapsed (ms # mss) = unat ms + T" by (simp add: elapsed_def T_def)
    have T: "T < 2 ^ 32" "unat ms + T < 2 ^ 32" using Cons.prems(2) unfolding e by simp_all
    have uT: "unat (of_nat T :: u32) = T" "unat (of_nat (unat ms + T) :: u32) = unat ms + T"
      unfolding unat_of_nat using T by (intro mod_less; simp)+
    let ?dec = "\<lambda>m t. t\<lparr>te_remaining_ms := te_remaining_ms t - m\<rparr> :: timer_entry"
    let ?live = "map (?dec ms) (filter (\<lambda>t. ms < te_remaining_ms t) ts)"
    have IH: "snd (ticks mss ?live) = map (?dec (of_nat T)) (filter (\<lambda>t. T < unat (te_remaining_ms t)) ?live)"
        "mset (fst (ticks mss ?live)) = mset (map expire (filter (\<lambda>t. unat (te_remaining_ms t) \<le> T) ?live))"
      using Cons.IH [OF False, of ?live] T(1) unfolding T_def by simp_all
    have tk: "ticks (ms # mss) ts = (fst (timer_tick ms ts) @ fst (ticks mss ?live), snd (ticks mss ?live))"
      by (simp add: case_prod_beta tick_live(1))
    have pend: "snd (ticks (ms # mss) ts) =
        map (?dec (of_nat (unat ms + T))) (filter (\<lambda>t. unat ms + T < unat (te_remaining_ms t)) ts)"
      unfolding tk snd_conv IH(1) survivors_deadline(1) by (simp add: comp_def diff_diff_eq)
    have "mset (filter (\<lambda>t. unat (te_remaining_ms t) \<le> unat ms + T) ts) =
        mset (filter (\<lambda>t. te_remaining_ms t \<le> ms) ts) +
        mset (filter (\<lambda>t. unat (te_remaining_ms t) \<le> unat ms + T \<and> \<not> te_remaining_ms t \<le> ms) ts)"
      by (rule mset_filter_split) (simp add: word_le_nat_alt)
    then have "mset (fst (ticks (ms # mss) ts)) =
        mset (map expire (filter (\<lambda>t. unat (te_remaining_ms t) \<le> unat ms + T) ts))"
      unfolding tk fst_conv mset_append IH(2) survivors_deadline(2) tick_live by (simp only: mset_map image_mset_union)
    then show ?thesis unfolding e using pend uT(2) by (simp add: tick_live word_less_nat_alt)
  qed
qed simp

theorem timers_expire_at_deadline_witness:
  "case ticks [10, 25] (schedule 30 0x1000 1 None (schedule 40 0x2000 2 None [])) of (xs, ts) \<Rightarrow>
     xs = [\<lparr>xt_callback = 0x1000, xt_user_data = 1, xt_r0_override = None\<rparr>] \<and> length ts = 1"
proof -
  let ?ts = "schedule 30 0x1000 1 None (schedule 40 0x2000 2 None [])"
  have e: "elapsed [10, 25] = 35" by (simp add: elapsed_def)
  have "mset (fst (ticks [10, 25] ?ts)) = {#\<lparr>xt_callback = 0x1000, xt_user_data = 1, xt_r0_override = None\<rparr>#}"
      "length (snd (ticks [10, 25] ?ts)) = 1"
    using timers_expire_at_deadline [of "[10, 25]" ?ts] by (simp_all add: e schedule_def expire_def)
  then show ?thesis by (auto split: prod.split)
qed

end
