(* ===== verification/Efs2_Guard.thy ===== *)
theory Efs2_Guard
  imports Byte_Reader
begin

text \<open>
  \<open>tools/cpp/zeebo_efs2_module_guard.h\<close>: the gate that decides whether a raw EFS2 payload may be
  launched as a module: an ELF whose entry lies in the payload, or a raw module whose first word is
  an unconditional branch into it. The optional out-parameter is the second component of the result.
\<close>

datatype module_verdict = MOD_REJECT | MOD_ELF | MOD_ARM_BRANCH

definition guard_rd32 :: "u8 list \<Rightarrow> nat \<Rightarrow> u32" where
  "guard_rd32 d off = (if off + 4 \<le> length d then rd32 d off else 0)"

text \<open>
  \<open>(int64_t)insn_va + 8 + ((int64_t)imm24 << 2)\<close>, with \<open>imm24\<close> sign-extended to 32 bits. The
  64-bit sum can not overflow, so it is an integer here.
\<close>

definition decode_arm_branch :: "u32 \<Rightarrow> u32 \<Rightarrow> u32 option" where
  "decode_arm_branch insn insn_va =
     (let cond = drop_bit 28 insn;
          opc = drop_bit 24 insn AND 0xf
      in if cond \<noteq> 0xe then None
         else if opc \<noteq> 0xa \<and> opc \<noteq> 0xb then None
         else
           let imm24 = insn AND 0x00ffffff;
               imm24 = (if imm24 AND 0x00800000 \<noteq> 0 then imm24 OR 0xff000000 else imm24);
               tgt = uint insn_va + 8 + sint imm24 * 4
           in if tgt < 0 \<or> tgt > 0xffffffff then None else Some (of_int tgt))"

definition elf_magic :: "u8 list" where
  "elf_magic = [0x7f, 0x45, 0x4c, 0x46]"

definition classify_payload :: "u8 list \<Rightarrow> u32 \<Rightarrow> module_verdict \<times> u32" where
  "classify_payload d load_va =
     (if length d < 4 then (MOD_REJECT, 0)
      else
        let module_end = unat load_va + length d
        in if length d \<ge> 0x20 \<and> take 4 d = elf_magic then
             let e_entry = guard_rd32 d 24
             in if e_entry \<ge> load_va \<and> unat e_entry < module_end then (MOD_ELF, e_entry)
                else if unat e_entry < length d then
                  let rel = unat load_va + unat e_entry
                  in if rel < module_end \<and> rel \<le> 0xffffffff then (MOD_ELF, of_nat rel)
                     else (MOD_REJECT, 0)
                else (MOD_REJECT, 0)
           else
             case decode_arm_branch (guard_rd32 d 0) load_va of
               Some tgt \<Rightarrow>
                 if tgt \<ge> load_va \<and> unat tgt < module_end then (MOD_ARM_BRANCH, tgt)
                 else (MOD_REJECT, 0)
             | None \<Rightarrow> (MOD_REJECT, 0))"

definition is_launchable_module :: "u8 list \<Rightarrow> u32 \<Rightarrow> bool" where
  "is_launchable_module d load_va \<longleftrightarrow> fst (classify_payload d load_va) \<noteq> MOD_REJECT"

section \<open>The gate fails closed\<close>

lemma classify_entry_inside:
  "case classify_payload d load_va of
     (MOD_REJECT, e) \<Rightarrow> e = 0
   | (_, e) \<Rightarrow> unat load_va \<le> unat e \<and> unat e < unat load_va + length d"
proof -
  have rel: "unat (of_nat n :: u32) = n" if "n \<le> 0xffffffff" for n
    using that by (simp add: unat_of_nat)
  show ?thesis
    by (auto simp: classify_payload_def Let_def rel word_le_nat_alt simp del: of_nat_add split: option.split)
qed

text \<open>
  Nothing is launched at an address outside its payload. Whatever the bytes and the load address,
  an accepted payload has its entry inside \<open>[load_va, load_va + size)\<close> and is either an ELF or starts
  with an unconditional ARM branch to that entry; a rejected one reports entry 0. In particular no
  payload is accepted merely because its base is plausible.
\<close>

theorem accepted_entry_inside:
  "case classify_payload d load_va of (v, e) \<Rightarrow>
     (v = MOD_REJECT \<and> e = 0) \<or>
     (unat load_va \<le> unat e \<and> unat e < unat load_va + length d \<and>
      (v = MOD_ELF \<and> take 4 d = elf_magic \<or>
       v = MOD_ARM_BRANCH \<and> decode_arm_branch (rd32 d 0) load_va = Some e))"
proof -
  obtain v e where c: "classify_payload d load_va = (v, e)" by fastforce
  have "(v = MOD_ELF \<longrightarrow> take 4 d = elf_magic) \<and>
      (v = MOD_ARM_BRANCH \<longrightarrow> decode_arm_branch (rd32 d 0) load_va = Some e)"
    using c by (auto simp: classify_payload_def guard_rd32_def Let_def split: if_splits option.splits)
  then show ?thesis using classify_entry_inside [of load_va d] c by (cases v) auto
qed

section \<open>Decoding a branch\<close>

text \<open>The encoding of \<open>B\<close> to a word-aligned distance of \<open>4 * k\<close> from the instruction's PC.\<close>

definition arm_b :: "int \<Rightarrow> u32" where
  "arm_b k = 0xea000000 OR (of_int k AND 0x00ffffff)"

lemma arm_b_fields:
  assumes "- (2 ^ 23) \<le> k" "k < 2 ^ 23"
  shows "drop_bit 28 (arm_b k) = 0xe" "drop_bit 24 (arm_b k) AND 0xf = 0xa"
    "arm_b k AND 0x00ffffff = of_int k AND 0x00ffffff"
  unfolding arm_b_def
  by (simp_all add: drop_bit_and bit.conj_disj_distrib2 and.assoc)

lemma sign_extend_24:
  assumes "- (2 ^ 23) \<le> k" "k < 2 ^ 23"
  shows "sint (let i = (of_int k :: u32) AND 0x00ffffff in
    if i AND 0x00800000 \<noteq> 0 then i OR 0xff000000 else i) = k"
proof -
  let ?w = "of_int k :: u32"
  have m: "(0x00ffffff::u32) = mask 24" "(0x00800000::u32) = 2 ^ 23" "(0xff000000::u32) = NOT (mask 24)"
    by (simp_all add: mask_eq_exp_minus_1)
  have kd: "k div 2 ^ n = (if 0 \<le> k then 0 else - 1)" if "23 \<le> n" for n
  proof -
    have p: "(2::int) ^ 23 \<le> 2 ^ n" using that by (rule power_increasing) simp
    show ?thesis
    proof (cases "0 \<le> k")
      case True
      then show ?thesis using assms(2) p by (simp add: div_pos_pos_trivial)
    next
      case False
      then have "(k + 2 ^ n) div 2 ^ n = 0" using assms(1) p by (intro div_pos_pos_trivial) auto
      then show ?thesis using False div_add_self2 [of "2 ^ n" k] by simp
    qed
  qed
  have kb: "bit k n = bit k 23" if "23 \<le> n" for n
    unfolding bit_iff_odd kd [OF that] kd [OF order_refl] ..
  have wb: "bit ?w n \<longleftrightarrow> n < 32 \<and> bit k n" for n by (simp add: bit_of_int_iff bit_simps possible_bit_def)
  have "(let i = ?w AND 0x00ffffff in if i AND 0x00800000 \<noteq> 0 then i OR 0xff000000 else i) = ?w"
    unfolding m Let_def and_exp_eq_0
  proof (rule bit_word_eqI)
    fix n assume "n < LENGTH(32)"
    then show "bit (if \<not> \<not> bit (?w AND mask 24) 23 then ?w AND mask 24 OR NOT (mask 24) else ?w AND mask 24) n = bit ?w n"
      using kb [of n] by (cases "24 \<le> n") (auto simp: bit_and_iff bit_or_iff bit_not_iff bit_mask_iff wb)
  qed
  moreover have "sint ?w = k" using assms by (simp add: signed_of_int signed_take_bit_int_eq_self)
  ultimately show ?thesis by simp
qed

text \<open>
  A branch is decoded to its target. For every distance that the 24-bit field can hold and whose
  target stays in the 32-bit space, decoding the unconditional branch encoded with it at an address
  gives that address plus 8 plus the distance; and with a target inside the payload, a raw module
  that starts with it is accepted with that entry.
\<close>

theorem branch_decodes:
  assumes "- (2 ^ 23) \<le> k" "k < 2 ^ 23" "0 \<le> uint va + 8 + 4 * k" "uint va + 8 + 4 * k < 2 ^ 32"
  shows "decode_arm_branch (arm_b k) va = Some (of_int (uint va + 8 + 4 * k)) \<and>
    (uint va \<le> uint va + 8 + 4 * k \<and> uint va + 8 + 4 * k < uint va + int (length body) + 4 \<longrightarrow>
     classify_payload (le32_bytes (arm_b k) @ body) va = (MOD_ARM_BRANCH, of_int (uint va + 8 + 4 * k)))"
proof -
  define t where "t = uint va + 8 + 4 * k"
  let ?t = t and ?d = "le32_bytes (arm_b k) @ body"
  have dec: "decode_arm_branch (arm_b k) va = Some (of_int ?t)"
    unfolding t_def using assms(3,4) sign_extend_24 [OF assms(1,2)] arm_b_fields [OF assms(1,2)]
    by (simp add: decode_arm_branch_def Let_def mult.commute)
  have ut: "uint (of_int ?t :: u32) = ?t"
    using assms(3,4) unfolding t_def [symmetric] by (simp add: unsigned_of_int take_bit_int_eq_self)
  have "classify_payload ?d va = (MOD_ARM_BRANCH, of_int ?t)"
    if r: "uint va \<le> ?t" "?t < uint va + int (length body) + 4"
  proof -
    have "take 4 ?d \<noteq> elf_magic"
    proof
      assume "take 4 ?d = elf_magic"
      then have "le32_bytes (arm_b k) = elf_magic" by simp
      then have "rd32 (le32_bytes (arm_b k) @ []) 0 = rd32 (elf_magic @ []) 0" by (simp only:)
      then have "arm_b k = le32 0x7f 0x45 0x4c 0x46"
        unfolding rd32_le32_bytes by (simp add: rd32_def elf_magic_def)
      moreover have "drop_bit 28 (le32 0x7f 0x45 0x4c 0x46) = 4" by code_simp
      ultimately show False using arm_b_fields(1) [OF assms(1,2)] by simp
    qed
    moreover have "va \<le> of_int ?t" using r(1) ut by (simp add: word_le_def)
    moreover have "unat (of_int ?t :: u32) < unat va + length ?d"
    proof -
      have "int (unat (of_int ?t :: u32)) = ?t" using ut by (simp only: of_nat_unat)
      moreover have "int (unat va) = uint va" by (simp only: of_nat_unat)
      moreover have "length ?d = length body + 4" by simp
      ultimately show ?thesis using r(2) by linarith
    qed
    ultimately show ?thesis using dec by (simp add: classify_payload_def guard_rd32_def Let_def)
  qed
  with dec show ?thesis unfolding t_def by blast
qed

theorem branch_decodes_witness:
  "classify_payload (le32_bytes (arm_b 2) @ replicate 28 0) 0x10000000 = (MOD_ARM_BRANCH, 0x10000010)"
  using branch_decodes [of 2 "0x10000000" "replicate 28 0"] by simp

end
