(* ===== verification/Brew_Loader.thy ===== *)
theory Brew_Loader
  imports Guest_Memory L4_Mmu Efs2_Guard
begin

text \<open>
  \<open>tools/cpp/zeebo_brew_loader.h\<close>: the loader of BREW modules. It maps pages for a module, writes its
  bytes into the guest and into the host mirror behind the lookup table, resolves the module's entry,
  reserves the two words below the load address, follows the dispatch sites of the shell, and runs an
  applet's event handler. The engine is the argument \<open>ops\<close>, its state part of the loader; \<open>emu\<close> stands
  for \<open>uc_emu_start\<close>. Host memory, which the lookup table points into, is \<open>bl_hm\<close>.
\<close>

datatype entry_kind = ENTRY_NONE | ENTRY_ELF | ENTRY_RAW_BRANCH | ENTRY_RAW_START

record applet_module =
  am_host_path :: string
  am_load_va :: u32
  am_size :: u32
  am_clsid :: u32
  am_entry_va :: u32
  am_entry_kind :: entry_kind
  am_injected :: bool
  am_loaded :: bool
  am_prefix_ready :: bool
  am_reserved_lo_va :: u32
  am_reserved_hi_va :: u32

definition module_init :: applet_module where
  "module_init = \<lparr>am_host_path = '''', am_load_va = 0, am_size = 0, am_clsid = 0, am_entry_va = 0,
     am_entry_kind = ENTRY_NONE, am_injected = False, am_loaded = False, am_prefix_ready = False,
     am_reserved_lo_va = 0, am_reserved_hi_va = 0\<rparr>"

record brew_symbols =
  aeecshell_dispatch_va :: u32
  ishell_create_va :: u32
  aeemod_load_va :: u32
  aeeclscreate_va :: u32
  aeeappletnew_va :: u32

definition brew_symbols_init :: brew_symbols where
  "brew_symbols_init = \<lparr>aeecshell_dispatch_va = 0, ishell_create_va = 0, aeemod_load_va = 0,
     aeeclscreate_va = 0, aeeappletnew_va = 0x105322f2\<rparr>"

section \<open>Keys\<close>

definition AVK_0 :: u32 where "AVK_0 = 0xE021"
definition AVK_9 :: u32 where "AVK_9 = 0xE02A"
definition AVK_CLR :: u32 where "AVK_CLR = 0xE030"
definition AVK_UP :: u32 where "AVK_UP = 0xE031"
definition AVK_DOWN :: u32 where "AVK_DOWN = 0xE032"
definition AVK_LEFT :: u32 where "AVK_LEFT = 0xE033"
definition AVK_RIGHT :: u32 where "AVK_RIGHT = 0xE034"
definition AVK_SELECT :: u32 where "AVK_SELECT = 0xE035"
definition AVK_SOFT1 :: u32 where "AVK_SOFT1 = 0xE036"
definition AVK_SOFT2 :: u32 where "AVK_SOFT2 = 0xE037"
definition AVK_INFO :: u32 where "AVK_INFO = 0xE038"
definition AVK_SPACE :: u32 where "AVK_SPACE = 0xE039"
definition AVK_FUNC :: u32 where "AVK_FUNC = 0xE03A"

datatype zpad_button =
  ZP_NONE | ZP_UP | ZP_DOWN | ZP_LEFT | ZP_RIGHT | ZP_A | ZP_B | ZP_1 | ZP_2 | ZP_3 | ZP_4 | ZP_HOME

fun avk_for_zpad :: "zpad_button \<Rightarrow> u32" where
  "avk_for_zpad ZP_UP = AVK_UP"
| "avk_for_zpad ZP_DOWN = AVK_DOWN"
| "avk_for_zpad ZP_LEFT = AVK_LEFT"
| "avk_for_zpad ZP_RIGHT = AVK_RIGHT"
| "avk_for_zpad ZP_A = AVK_SELECT"
| "avk_for_zpad ZP_B = AVK_CLR"
| "avk_for_zpad ZP_1 = AVK_SOFT1"
| "avk_for_zpad ZP_2 = AVK_SOFT2"
| "avk_for_zpad ZP_3 = AVK_INFO"
| "avk_for_zpad ZP_4 = AVK_SPACE"
| "avk_for_zpad ZP_HOME = AVK_FUNC"
| "avk_for_zpad ZP_NONE = 0"

definition avk_for_digit :: "int \<Rightarrow> u32" where
  "avk_for_digit d = (if d \<ge> 0 \<and> d \<le> 9 then 0x30 + of_int d else 0)"

section \<open>Entry resolution\<close>

definition loader_rd32 :: "u8 list \<Rightarrow> nat \<Rightarrow> u32" where
  "loader_rd32 d off = (if length d < 4 \<or> off > length d - 4 then 0 else rd32 d off)"

text \<open>The loader has its own copy of the branch decoder of the module gate.\<close>

definition loader_decode_arm_branch :: "u32 \<Rightarrow> u32 \<Rightarrow> u32 option" where
  "loader_decode_arm_branch insn insn_va =
     (let cond = drop_bit 28 insn; opc = drop_bit 24 insn AND 0xf
      in if cond \<noteq> 0xe then None
         else if opc \<noteq> 0xa \<and> opc \<noteq> 0xb then None
         else
           let imm24 = insn AND 0x00ffffff;
               imm24 = (if imm24 AND 0x00800000 \<noteq> 0 then imm24 OR 0xff000000 else imm24);
               tgt = uint insn_va + 8 + sint imm24 * 4
           in if tgt < 0 \<or> tgt > 0xffffffff then None else Some (of_int tgt))"

definition resolve_mod_entry :: "u8 list \<Rightarrow> u32 \<Rightarrow> u32 \<times> entry_kind" where
  "resolve_mod_entry d load_va =
     (if length d < 4 then (0, ENTRY_NONE)
      else
        let module_end = unat load_va + length d
        in if length d \<ge> 0x20 \<and> take 4 d = elf_magic then
             let e_entry = loader_rd32 d 24
             in if e_entry \<ge> load_va \<and> unat e_entry < module_end then (e_entry, ENTRY_ELF)
                else if unat e_entry < length d then
                  let rel = unat load_va + unat e_entry
                  in if rel < module_end \<and> rel \<le> 0xffffffff then (of_nat rel, ENTRY_ELF)
                     else (0, ENTRY_NONE)
                else (0, ENTRY_NONE)
           else
             case loader_decode_arm_branch (loader_rd32 d 0) load_va of
               Some tgt \<Rightarrow>
                 if tgt \<ge> load_va \<and> unat tgt < module_end then (tgt, ENTRY_RAW_BRANCH)
                 else (0, ENTRY_NONE)
             | None \<Rightarrow> if load_va > 0x1000 then (load_va, ENTRY_RAW_START) else (0, ENTRY_NONE))"

section \<open>Injection\<close>

record 'u brew_loader =
  bl_uc :: "'u option"
  bl_lut :: "lut option"
  bl_hm :: "u64 \<Rightarrow> u8"
  bl_sym :: brew_symbols
  bl_mod :: applet_module

definition loader_init :: "'u option \<Rightarrow> (u64 \<Rightarrow> u8) \<Rightarrow> 'u brew_loader" where
  "loader_init u hm = \<lparr>bl_uc = u, bl_lut = None, bl_hm = hm, bl_sym = brew_symbols_init, bl_mod = module_init\<rparr>"

definition bind_uc :: "'u option \<Rightarrow> 'u brew_loader \<Rightarrow> 'u brew_loader" where
  "bind_uc u b = b\<lparr>bl_uc := u\<rparr>"

definition bind_lut :: "lut option \<Rightarrow> 'u brew_loader \<Rightarrow> 'u brew_loader" where
  "bind_lut l b = b\<lparr>bl_lut := l\<rparr>"

definition set_symbols :: "brew_symbols \<Rightarrow> 'u brew_loader \<Rightarrow> 'u brew_loader" where
  "set_symbols s b = b\<lparr>bl_sym := s\<rparr>"

definition UC_PROT_ALL :: nat where "UC_PROT_ALL = 7"

text \<open>The loop that maps every page of \<open>[page, pend)\<close>; a page that is already mapped is fine.\<close>

function map_pages :: "'u uc_ops \<Rightarrow> nat \<Rightarrow> nat \<Rightarrow> 'u \<Rightarrow> bool \<times> 'u" where
  "map_pages ops page pend u =
     (if page < pend then
        let (me, u) = uc_mem_map ops u (of_nat page) 0x1000 UC_PROT_ALL
        in if me \<noteq> UC_ERR_OK \<and> me \<noteq> UC_ERR_MAP then (False, u) else map_pages ops (page + 0x1000) pend u
      else (True, u))"
  by pat_completeness auto
termination
  by (relation "measure (\<lambda>(ops, page, pend, u). pend - page)") auto

declare map_pages.simps [simp del]

definition page_down :: "nat \<Rightarrow> nat" where "page_down a = a div 4096 * 4096"
definition page_up :: "nat \<Rightarrow> nat" where "page_up a = (a + 0xfff) div 4096 * 4096"

definition prepare_elf2mod_prefix ::
    "'u uc_ops \<Rightarrow> u32 \<Rightarrow> u32 \<Rightarrow> u32 \<Rightarrow> 'u brew_loader \<Rightarrow> bool \<times> 'u brew_loader" where
  "prepare_elf2mod_prefix ops load_va lo hi b =
     (case bl_uc b of
        None \<Rightarrow> (False, b)
      | Some u \<Rightarrow>
          if load_va < 8 then (False, b)
          else
            let lo_va = load_va - 8; hi_va = load_va - 4;
                (ok, u) = map_pages ops (page_down (unat lo_va)) (page_up (unat load_va)) u
            in if \<not> ok then (False, b\<lparr>bl_uc := Some u\<rparr>)
               else
                 let (e1, u) = uc_mem_write ops u (ucast lo_va) (le32_bytes lo)
                 in if e1 \<noteq> UC_ERR_OK then (False, b\<lparr>bl_uc := Some u\<rparr>)
                    else
                      let (e2, u) = uc_mem_write ops u (ucast hi_va) (le32_bytes hi)
                      in if e2 \<noteq> UC_ERR_OK then (False, b\<lparr>bl_uc := Some u\<rparr>)
                         else (True,
                           if am_injected (bl_mod b) \<and> am_load_va (bl_mod b) = load_va
                           then b\<lparr>bl_uc := Some u, bl_mod := (bl_mod b)\<lparr>am_prefix_ready := True,
                                  am_reserved_lo_va := lo_va, am_reserved_hi_va := hi_va\<rparr>\<rparr>
                           else b\<lparr>bl_uc := Some u\<rparr>))"

text \<open>The mirror in host memory: written only when the table covers every page of the module.\<close>

definition mirror :: "lut option \<Rightarrow> u32 \<Rightarrow> u8 list \<Rightarrow> (u64 \<Rightarrow> u8) \<Rightarrow> (u64 \<Rightarrow> u8)" where
  "mirror l load_va d hm =
     (case l of
        None \<Rightarrow> hm
      | Some l \<Rightarrow>
          let last_page = (unat load_va + length d - 1) div 4096; first_page = unat load_va div 4096;
              cov = list_all (\<lambda>pg. lut_is_mapped (push_bit 12 (of_nat pg)) l) [first_page..<Suc last_page]
          in if cov then snd (lut_write l (ucast load_va) d hm) else hm)"

definition fresh_module :: "u8 list \<Rightarrow> u32 \<Rightarrow> u32 \<Rightarrow> string \<Rightarrow> applet_module" where
  "fresh_module d load_va clsid origin =
     (let (entry, kind) = resolve_mod_entry d load_va
      in module_init\<lparr>am_host_path := origin, am_load_va := load_va, am_size := of_nat (length d),
           am_clsid := clsid, am_injected := True, am_entry_va := entry, am_entry_kind := kind\<rparr>)"

definition inject_bytes ::
    "'u uc_ops \<Rightarrow> u8 list \<Rightarrow> u32 \<Rightarrow> u32 \<Rightarrow> string \<Rightarrow> 'u brew_loader \<Rightarrow> bool \<times> 'u brew_loader" where
  "inject_bytes ops d load_va clsid origin b =
     (case bl_uc b of
        None \<Rightarrow> (False, b)
      | Some u \<Rightarrow>
          if d = [] then (False, b)
          else if length d > 0xffffffff \<or> unat load_va + length d > 0x100000000 then (False, b)
          else
            let (ok, u) = map_pages ops (page_down (unat load_va)) (page_up (unat load_va + length d)) u
            in if \<not> ok then (False, b\<lparr>bl_uc := Some u\<rparr>)
               else
                 let (e, u) = uc_mem_write ops u (ucast load_va) d
                 in if e \<noteq> UC_ERR_OK then (False, b\<lparr>bl_uc := Some u\<rparr>)
                    else
                      let b = b\<lparr>bl_uc := Some u, bl_hm := mirror (bl_lut b) load_va d (bl_hm b),
                                bl_mod := fresh_module d load_va clsid origin\<rparr>
                      in (True, snd (prepare_elf2mod_prefix ops load_va 0 0 b)))"

text \<open>
  A host file: \<open>None\<close> when it cannot be opened, else the position \<open>tellg\<close> reports at its end and the
  bytes that can be read from it.
\<close>

definition inject_mod ::
    "'u uc_ops \<Rightarrow> (string \<Rightarrow> (int \<times> u8 list) option) \<Rightarrow> string \<Rightarrow> u32 \<Rightarrow> u32 \<Rightarrow> 'u brew_loader
       \<Rightarrow> bool \<times> 'u brew_loader" where
  "inject_mod ops files host_path load_va clsid b =
     (case bl_uc b of
        None \<Rightarrow> (False, b)
      | Some _ \<Rightarrow>
          (case files host_path of
             None \<Rightarrow> (False, b)
           | Some (st, content) \<Rightarrow>
               if st < 0 then (False, b)
               else
                 let sz = unat (of_int st :: u32); d = take sz content
                 in if length d \<noteq> sz then (False, b)
                    else inject_bytes ops d load_va clsid host_path b))"

section \<open>Dispatch\<close>

definition on_aeecshell_dispatch :: "'u brew_loader \<Rightarrow> 'u brew_loader" where
  "on_aeecshell_dispatch b =
     (if \<not> am_injected (bl_mod b) then b else b\<lparr>bl_mod := (bl_mod b)\<lparr>am_loaded := True\<rparr>\<rparr>)"

definition on_aeemod_load :: "'u brew_loader \<Rightarrow> 'u brew_loader" where
  "on_aeemod_load b = b\<lparr>bl_mod := (bl_mod b)\<lparr>am_loaded := True\<rparr>\<rparr>"

text \<open>The other two sites only report; they read a register and leave the loader as it is.\<close>

definition on_code :: "u32 \<Rightarrow> 'u brew_loader \<Rightarrow> bool \<times> 'u brew_loader" where
  "on_code pc b =
     (let s = bl_sym b
      in if aeecshell_dispatch_va s \<noteq> 0 \<and> pc = aeecshell_dispatch_va s then (True, on_aeecshell_dispatch b)
         else if ishell_create_va s \<noteq> 0 \<and> pc = ishell_create_va s then (True, b)
         else if aeemod_load_va s \<noteq> 0 \<and> pc = aeemod_load_va s then (True, on_aeemod_load b)
         else if aeeclscreate_va s \<noteq> 0 \<and> pc = aeeclscreate_va s then (True, b)
         else (False, b))"

text \<open>The result: the handler's r0, whether it ran to the sentinel, and the loader.\<close>

definition dispatch_event ::
    "'u uc_ops \<Rightarrow> ('u \<Rightarrow> u64 \<Rightarrow> u64 \<Rightarrow> uc_err \<times> 'u) \<Rightarrow> u32 \<Rightarrow> u32 \<Rightarrow> u32 \<Rightarrow> u32 \<Rightarrow> u32 \<Rightarrow> u32 \<Rightarrow> u32
       \<Rightarrow> 'u brew_loader \<Rightarrow> u32 \<times> bool \<times> 'u brew_loader" where
  "dispatch_event ops emu handler_va applet_va evt keycode stack_top ret_magic dwparam b =
     (case bl_uc b of
        None \<Rightarrow> (0, False, b)
      | Some u \<Rightarrow>
          if handler_va = 0 then (0, False, b)
          else
            let u = uc_reg_write ops u (UC_R 0) applet_va;
                u = uc_reg_write ops u (UC_R 1) evt;
                u = uc_reg_write ops u (UC_R 2) keycode;
                u = uc_reg_write ops u (UC_R 3) dwparam;
                u = uc_reg_write ops u UC_SP stack_top;
                u = uc_reg_write ops u UC_LR (ret_magic OR 1);
                (e, u) = emu u (ucast (handler_va OR 1)) (ucast (ret_magic AND NOT 1));
                ret = uc_reg_read ops u (UC_R 0);
                endp = uc_reg_read ops u UC_PC;
                clean = (e = UC_ERR_OK \<and> endp AND NOT 1 = ret_magic AND NOT 1)
            in (ret, clean, b\<lparr>bl_uc := Some u\<rparr>))"

section \<open>The loader and the gate\<close>

lemma loader_copies: "loader_decode_arm_branch = decode_arm_branch" "loader_rd32 = guard_rd32"
  by (auto simp: fun_eq_iff loader_decode_arm_branch_def decode_arm_branch_def loader_rd32_def guard_rd32_def)

text \<open>
  The architecture's view of the first word: an unconditional \<open>B\<close> or \<open>BL\<close> has the top byte 0xEA or 0xEB, and
  its target is the address plus 8 plus four times the signed 24-bit field.
\<close>

definition al_branch :: "u32 \<Rightarrow> bool" where
  "al_branch w \<longleftrightarrow> unat w div 2 ^ 24 \<in> {0xea, 0xeb}"

definition branch_dest :: "u32 \<Rightarrow> u32 \<Rightarrow> int" where
  "branch_dest w va = (let i = uint w mod 2 ^ 24 in uint va + 8 + 4 * (if i < 2 ^ 23 then i else i - 2 ^ 24))"

lemma al_branch_iff: "al_branch w \<longleftrightarrow> drop_bit 28 w = 0xe \<and> (drop_bit 24 w AND 0xf = 0xa \<or> drop_bit 24 w AND 0xf = 0xb)"
proof -
  let ?t = "unat w div 2 ^ 24"
  have m: "(0xf::u32) = mask 4" by (simp add: mask_eq_exp_minus_1)
  have "unat w div 2 ^ 28 = ?t div 16" by (simp add: div_mult2_eq [symmetric])
  then have hi: "unat (drop_bit 28 w) = ?t div 16" by (simp add: drop_bit_eq_div unat_div)
  have lo: "unat (drop_bit 24 w AND 0xf) = ?t mod 16"
    by (simp add: m take_bit_eq_mask [symmetric] take_bit_eq_mod drop_bit_eq_div unat_div unat_mod)
  have "t div 16 = 14 \<and> (t mod 16 = 10 \<or> t mod 16 = 11) \<longleftrightarrow> t = 0xea \<or> t = 0xeb" for t :: nat by presburger
  from this [of ?t] show ?thesis unfolding al_branch_def word_unat_eq_iff hi lo by simp
qed

lemma branch_distance:
  "sint (let i = w AND 0x00ffffff in if i AND 0x00800000 \<noteq> 0 then i OR 0xff000000 else i) =
     (let i = uint (w::u32) mod 2 ^ 24 in if i < 2 ^ 23 then i else i - 2 ^ 24)"
proof -
  let ?i = "uint w mod 2 ^ 24"
  define k where "k = (if ?i < 2 ^ 23 then ?i else ?i - 2 ^ 24)"
  have r: "- (2 ^ 23) \<le> k" "k < 2 ^ 23" by (auto simp: k_def)
  have m: "(0x00ffffff::u32) = mask 24" by (simp add: mask_eq_exp_minus_1)
  have t: "take_bit 24 k = ?i" unfolding k_def take_bit_eq_mod by simp
  have "(of_int k :: u32) AND 0x00ffffff = of_int ?i"
    unfolding m take_bit_eq_mask [symmetric] take_bit_of_int t ..
  also have "\<dots> = w AND 0x00ffffff"
    unfolding m take_bit_eq_mask [symmetric] by (metis take_bit_eq_mod take_bit_of_int word_of_int_uint)
  finally have e: "(of_int k :: u32) AND 0x00ffffff = w AND 0x00ffffff" .
  show ?thesis using sign_extend_24 [OF r] unfolding e unfolding Let_def k_def [symmetric] .
qed

lemma decode_arm_branch_spec:
  "decode_arm_branch w va =
     (if al_branch w \<and> 0 \<le> branch_dest w va \<and> branch_dest w va < 2 ^ 32 then Some (of_int (branch_dest w va)) else None)"
  using branch_distance [of w] unfolding decode_arm_branch_def al_branch_iff branch_dest_def Let_def by auto

text \<open>
  C34: the loader resolves a module exactly as the launch gate classifies it, where the gate accepts: both
  copies of the resolution agree on every payload and load address, and an accepted ELF or branch gets the
  same entry and the matching kind. They differ only where the gate rejects: a payload of at least a word
  that is not an ELF, and whose first word is no unconditional branch or is one whose target leaves the
  32-bit address space, is above 0x1000 still given its own load address as entry, marked as a raw start;
  everything else, a branch to an address outside the payload included, resolves to no entry.
\<close>

theorem loader_agrees_with_gate:
  "resolve_mod_entry d load_va =
     (case classify_payload d load_va of
        (MOD_ELF, e) \<Rightarrow> (e, ENTRY_ELF)
      | (MOD_ARM_BRANCH, e) \<Rightarrow> (e, ENTRY_RAW_BRANCH)
      | (MOD_REJECT, _) \<Rightarrow>
          if 4 \<le> length d \<and> \<not> (0x20 \<le> length d \<and> take 4 d = elf_magic) \<and> 0x1000 < load_va \<and>
             (al_branch (rd32 d 0) \<longrightarrow> branch_dest (rd32 d 0) load_va < 0 \<or> 2 ^ 32 \<le> branch_dest (rd32 d 0) load_va)
          then (load_va, ENTRY_RAW_START) else (0, ENTRY_NONE))"
proof -
  have none: "decode_arm_branch (rd32 d 0) load_va = None \<longleftrightarrow>
      (al_branch (rd32 d 0) \<longrightarrow> branch_dest (rd32 d 0) load_va < 0 \<or> 2 ^ 32 \<le> branch_dest (rd32 d 0) load_va)"
    by (auto simp: decode_arm_branch_spec)
  show ?thesis
    unfolding resolve_mod_entry_def classify_payload_def loader_copies Let_def none [symmetric]
    by (auto simp: guard_rd32_def split: option.split)
qed

text \<open>A branch backwards beyond address 0: rejected by the gate, a raw start for the loader.\<close>

theorem loader_agrees_with_gate_witness:
  "classify_payload (le32_bytes 0xea800000) 0x2000 = (MOD_REJECT, 0) \<and>
   resolve_mod_entry (le32_bytes 0xea800000) 0x2000 = (0x2000, ENTRY_RAW_START)"
proof -
  have w: "rd32 (le32_bytes 0xea800000) 0 = 0xea800000" using rd32_le32_bytes [of "0xea800000" "[]"] by simp
  have b: "branch_dest 0xea800000 0x2000 < 0" by (simp add: branch_dest_def)
  have c: "classify_payload (le32_bytes 0xea800000) 0x2000 = (MOD_REJECT, 0)"
    using b by (simp add: classify_payload_def guard_rd32_def w decode_arm_branch_spec)
  then show ?thesis using loader_agrees_with_gate [of "le32_bytes 0xea800000" "0x2000"] b by (simp add: w)
qed

section \<open>Injection places the bytes\<close>

definition keeps :: "(nat \<Rightarrow> u8 option) \<Rightarrow> (nat \<Rightarrow> u8 option) \<Rightarrow> (nat \<Rightarrow> bool) \<Rightarrow> bool" where
  "keeps m m' skip \<longleftrightarrow> (\<forall>k. \<not> skip k \<and> m k \<noteq> None \<longrightarrow> m' k = m k)"

lemma keeps_trans: "keeps m m' skip \<Longrightarrow> keeps m' m'' skip \<Longrightarrow> keeps m m'' skip"
  unfolding keeps_def by metis

lemma keeps_weaken: "keeps m m' skip \<Longrightarrow> (\<And>k. skip k \<Longrightarrow> skip' k) \<Longrightarrow> keeps m m' skip'"
  unfolding keeps_def by blast

lemma keeps_overlay: "(\<And>k. a \<le> k \<Longrightarrow> k < a + length bs \<Longrightarrow> skip k) \<Longrightarrow> keeps m (overlay m a bs) skip"
  by (auto simp: keeps_def overlay_def)

lemma map_page_keeps:
  assumes "uc_mem_ok ops mem" "uc_mem_map ops u a 0x1000 p = (e, u')" "page_addr a"
  shows "keeps (mem u) (mem u') (\<lambda>_. False)"
proof (cases "e = UC_ERR_OK")
  case True
  have free: "mem u (unat a + i) = None \<or> \<not> i < 4096" for i using mem_map_ok(1) [OF assms True] .
  have "mem u' k = mem u k" if "mem u k \<noteq> None" for k
  proof -
    have "\<not> (unat a \<le> k \<and> k < unat a + 4096)" using free [of "k - unat a"] that by auto
    then show ?thesis using mem_map_ok(2) [OF assms] True by (auto simp: overlay_def)
  qed
  then show ?thesis by (auto simp: keeps_def)
next
  case False
  then show ?thesis using mem_map_ok(2) [OF assms] by (simp add: keeps_def)
qed

lemma map_pages_ok:
  assumes "uc_mem_ok ops mem" "4096 dvd page" "4096 dvd pend" "pend \<le> 2 ^ 32"
    "map_pages ops page pend u = (ok, u')"
  shows "keeps (mem u) (mem u') (\<lambda>_. False) \<and> (ok \<longrightarrow> mapped (mem u') page (pend - page))"
  using assms(2-)
proof (induction "pend - page" arbitrary: page u rule: less_induct)
  case less
  show ?case
  proof (cases "page < pend")
    case True
    obtain e u1 where m: "uc_mem_map ops u (of_nat page) 0x1000 UC_PROT_ALL = (e, u1)" by fastforce
    have lt: "page < 2 ^ 32" using True less.prems by linarith
    then have ua: "unat (of_nat page :: u64) = page"
      unfolding unat_of_nat by (intro mod_less) simp
    have pa: "page_addr (of_nat page)" unfolding page_addr_def ua using less.prems lt by blast
    have le: "page + 4096 \<le> pend"
    proof -
      obtain i j where "page = 4096 * i" "pend = 4096 * j" using less.prems by (elim dvdE)
      then show ?thesis using True by auto
    qed
    have k1: "keeps (mem u) (mem u1) (\<lambda>_. False)" by (rule map_page_keeps [OF assms(1) m pa])
    show ?thesis
    proof (cases "e = UC_ERR_OK \<or> e = UC_ERR_MAP")
      case False
      then have "ok = False \<and> u' = u1" using less.prems(4) True m by (subst (asm) map_pages.simps) auto
      then show ?thesis using k1 by simp
    next
      case ok1: True
      then have r: "map_pages ops (page + 4096) pend u1 = (ok, u')"
        using less.prems(4) True m by (subst (asm) map_pages.simps) auto
      have IH: "keeps (mem u1) (mem u') (\<lambda>_. False) \<and> (ok \<longrightarrow> mapped (mem u') (page + 4096) (pend - (page + 4096)))"
        using less.hyps [OF _ _ less.prems(2,3) r] True less.prems(1) by (simp add: diff_less_mono2)
      have "mapped (mem u1) page 4096" using mem_map_ok(3) [OF assms(1) m pa ok1] unfolding ua .
      then have "mapped (mem u') page 4096" using IH unfolding keeps_def mapped_def by metis
      then have "ok \<longrightarrow> mapped (mem u') page (4096 + (pend - (page + 4096)))" using IH mapped_append by blast
      moreover have "4096 + (pend - (page + 4096)) = pend - page" using le by simp
      ultimately show ?thesis using keeps_trans [OF k1] IH by metis
    qed
  next
    case False
    then have "u' = u" using less.prems(4) by (subst (asm) map_pages.simps) simp
    then show ?thesis using False by (simp add: keeps_def mapped_def)
  qed
qed

lemma page_round:
  "4096 dvd page_down a" "4096 dvd page_up a" "page_down a \<le> a" "a \<le> page_up a"
  "a \<le> 2 ^ 32 \<Longrightarrow> page_up a \<le> 2 ^ 32"
proof -
  have "a = a div 4096 * 4096 + a mod 4096" by simp
  then show "page_down a \<le> a" unfolding page_down_def by linarith
  have "a + 0xfff = (a + 0xfff) div 4096 * 4096 + (a + 0xfff) mod 4096" by simp
  moreover have "(a + 0xfff) mod 4096 < 4096" by simp
  ultimately show "a \<le> page_up a" unfolding page_up_def by linarith
  show "page_up a \<le> 2 ^ 32" if "a \<le> 2 ^ 32"
  proof -
    have "(a + 0xfff) div 4096 \<le> (2 ^ 32 + 0xfff) div 4096" using that by (intro div_le_mono) simp
    then show ?thesis unfolding page_up_def by simp
  qed
qed (simp_all add: page_down_def page_up_def)

lemma prefix_ok:
  assumes "uc_mem_ok ops mem" "prepare_elf2mod_prefix ops va lo hi b = (ok, b')" "bl_uc b = Some u"
  shows "\<exists>u'. bl_uc b' = Some u' \<and>
    keeps (mem u) (mem u') (\<lambda>k. k + 8 \<ge> unat va \<and> k < unat va) \<and> bl_hm b' = bl_hm b \<and>
    (ok \<longrightarrow> 8 \<le> unat va \<and> (\<forall>i < 4. mem u' (unat va - 8 + i) = Some (le32_bytes lo ! i) \<and>
                                     mem u' (unat va - 4 + i) = Some (le32_bytes hi ! i))) \<and>
    bl_mod b' = (if ok \<and> am_injected (bl_mod b) \<and> am_load_va (bl_mod b) = va
      then (bl_mod b)\<lparr>am_prefix_ready := True, am_reserved_lo_va := va - 8, am_reserved_hi_va := va - 4\<rparr>
      else bl_mod b)"
proof (cases "va < 8")
  case True
  then have "ok = False \<and> b' = b" using assms(2,3) by (simp add: prepare_elf2mod_prefix_def)
  then show ?thesis using assms(3) by (simp add: keeps_def)
next
  case False
  let ?sk = "\<lambda>k. k + 8 \<ge> unat va \<and> k < unat va"
  have va: "8 \<le> unat va" using False by (simp add: word_less_nat_alt)
  have lo: "unat (va - 8) = unat va - 8" and hi: "unat (va - 4) = unat va - 4"
    using va by (simp_all add: unat_sub word_le_nat_alt)
  obtain ok1 u1 where m: "map_pages ops (page_down (unat (va - 8))) (page_up (unat va)) u = (ok1, u1)" by fastforce
  have mp: "keeps (mem u) (mem u1) (\<lambda>_. False)"
    using map_pages_ok [OF assms(1) page_round(1,2) page_round(5) m] unat_less_u32 [of va] by simp
  then have k1: "keeps (mem u) (mem u1) ?sk" by (rule keeps_weaken) simp
  obtain e1 u2 where w1: "uc_mem_write ops u1 (ucast (va - 8)) (le32_bytes lo) = (e1, u2)" by fastforce
  note w1' = mem_write_ok [OF assms(1) w1, unfolded unat_ucast_u32 lo]
  have k2: "keeps (mem u) (mem u2) ?sk"
    using k1 w1'(2) va by (cases "e1 = UC_ERR_OK") (auto intro!: keeps_trans [OF k1] keeps_overlay)
  obtain e2 u3 where w2: "uc_mem_write ops u2 (ucast (va - 4)) (le32_bytes hi) = (e2, u3)" by fastforce
  note w2' = mem_write_ok [OF assms(1) w2, unfolded unat_ucast_u32 hi]
  have k3: "keeps (mem u) (mem u3) ?sk"
    using k2 w2'(2) va by (cases "e2 = UC_ERR_OK") (auto intro!: keeps_trans [OF k2] keeps_overlay)
  show ?thesis
  proof (cases "ok1 \<and> e1 = UC_ERR_OK \<and> e2 = UC_ERR_OK")
    case True
    have "mem u3 = overlay (overlay (mem u1) (unat va - 8) (le32_bytes lo)) (unat va - 4) (le32_bytes hi)"
      using w1'(2) w2'(2) True by simp
    then have "\<forall>i < 4. mem u3 (unat va - 8 + i) = Some (le32_bytes lo ! i) \<and>
        mem u3 (unat va - 4 + i) = Some (le32_bytes hi ! i)"
      using va by (auto simp: overlay_def)
    then show ?thesis using assms(2,3) False True m w1 w2 k3 va
      by (auto simp: prepare_elf2mod_prefix_def Let_def)
  next
    case failed: False
    then show ?thesis using assms(2,3) False m w1 w2 k1 k2 k3
      by (auto simp: prepare_elf2mod_prefix_def Let_def split: if_splits)
  qed
qed

text \<open>The condition under which an injection is attempted at all.\<close>

definition fits :: "u8 list \<Rightarrow> u32 \<Rightarrow> bool" where
  "fits d va \<longleftrightarrow> d \<noteq> [] \<and> length d \<le> 0xffffffff \<and> unat va + length d \<le> 2 ^ 32"

lemma inject_write:
  assumes "uc_mem_ok ops mem" "inject_bytes ops d va clsid origin b = (ok, b')" "bl_uc b = Some u" "fits d va"
  obtains u1 where "keeps (mem u) (mem u1) (\<lambda>k. unat va \<le> k \<and> k < unat va + length d)"
    and "ok \<longrightarrow> (\<forall>i < length d. mem u1 (unat va + i) = Some (d ! i))"
    and "if ok then b' = snd (prepare_elf2mod_prefix ops va 0 0 (b\<lparr>bl_uc := Some u1,
              bl_hm := mirror (bl_lut b) va d (bl_hm b), bl_mod := fresh_module d va clsid origin\<rparr>))
         else b' = b\<lparr>bl_uc := Some u1\<rparr>"
proof -
  let ?sk = "\<lambda>k. unat va \<le> k \<and> k < unat va + length d"
  have small: "\<not> (length d > 0xffffffff \<or> unat va + length d > 0x100000000)" and ne: "d \<noteq> []"
    using assms(4) by (auto simp: fits_def)
  obtain ok1 u1 where m: "map_pages ops (page_down (unat va)) (page_up (unat va + length d)) u = (ok1, u1)"
    by fastforce
  have "unat va + length d \<le> 2 ^ 32" using assms(4) by (simp add: fits_def)
  then have "keeps (mem u) (mem u1) (\<lambda>_. False)"
    using map_pages_ok [OF assms(1) page_round(1,2) page_round(5) m] by simp
  then have k1: "keeps (mem u) (mem u1) ?sk" by (rule keeps_weaken) simp
  show thesis
  proof (cases ok1)
    case False
    then have "ok = False \<and> b' = b\<lparr>bl_uc := Some u1\<rparr>"
      using assms(2,3) m ne small by (simp add: inject_bytes_def)
    then show thesis using that [OF k1] by simp
  next
    case True
    obtain e u2 where w: "uc_mem_write ops u1 (ucast va) d = (e, u2)" by fastforce
    note w' = mem_write_ok [OF assms(1) w, unfolded unat_ucast_u32]
    have k2: "keeps (mem u) (mem u2) ?sk"
      using k1 w'(2) by (cases "e = UC_ERR_OK") (auto intro!: keeps_trans [OF k1] keeps_overlay)
    have bytes: "\<forall>i < length d. mem u2 (unat va + i) = Some (d ! i)" if "e = UC_ERR_OK"
      using w'(2) that by (auto simp: overlay_def)
    have ok: "ok \<longleftrightarrow> e = UC_ERR_OK"
      and b: "b' = (if e = UC_ERR_OK then snd (prepare_elf2mod_prefix ops va 0 0 (b\<lparr>bl_uc := Some u2,
              bl_hm := mirror (bl_lut b) va d (bl_hm b), bl_mod := fresh_module d va clsid origin\<rparr>))
         else b\<lparr>bl_uc := Some u2\<rparr>)"
      using assms(2,3) m ne small True w by (auto simp: inject_bytes_def Let_def split: if_splits)
    show thesis using that [OF k2] bytes ok b by simp
  qed
qed

text \<open>The module record of an injection, with the prefix words reserved or not.\<close>

definition fresh_record :: "u8 list \<Rightarrow> u32 \<Rightarrow> u32 \<Rightarrow> string \<Rightarrow> bool \<Rightarrow> applet_module" where
  "fresh_record d va clsid origin ready = \<lparr>am_host_path = origin, am_load_va = va, am_size = of_nat (length d),
     am_clsid = clsid, am_entry_va = fst (resolve_mod_entry d va), am_entry_kind = snd (resolve_mod_entry d va),
     am_injected = True, am_loaded = False, am_prefix_ready = ready,
     am_reserved_lo_va = (if ready then va - 8 else 0), am_reserved_hi_va = (if ready then va - 4 else 0)\<rparr>"

lemma fresh_module_record: "fresh_module d va clsid origin = fresh_record d va clsid origin False"
  by (simp add: fresh_module_def module_init_def fresh_record_def split: prod.split)

text \<open>Two zero words next to each other are eight zero bytes.\<close>

lemma two_zero_words:
  assumes "8 \<le> a" "\<forall>i < 4. m (a - 8 + i) = Some (le32_bytes 0 ! i) \<and> m (a - 4 + i) = Some (le32_bytes 0 ! i)"
  shows "\<forall>i < 8. m (a - 8 + i) = Some (0 :: u8)"
proof (intro allI impI)
  fix i :: nat assume i: "i < 8"
  have le0: "le32_bytes 0 ! j = 0" if "j < 4" for j using that by (auto simp: le32_bytes_def nth_Cons')
  have "a - 8 + i = a - 4 + (i - 4) \<and> i - 4 < 4" if "\<not> i < 4" using that i assms(1) by auto
  then show "m (a - 8 + i) = Some 0" using assms(2) le0 by (cases "i < 4") metis+
qed

text \<open>
  C9: a successful injection puts the module into the guest. For an engine with ordinary memory
  behaviour, \<open>inject_bytes\<close> returning true means that every byte of the payload is at its address, that
  no other mapped byte changed except the eight reserved below the load address, that the host mirror was
  written if the table covers the module, and that the module record is exactly the one for this payload:
  its origin, address, size, class id, the entry and kind the resolver found, injected and not yet loaded; a
  module marked prefix-ready has zeros in these eight bytes and their addresses in the record. When it
  returns false the record and the mirror are the old ones and no mapped byte outside the target range
  changed; an unsuitable payload or an unbound engine is refused with the loader untouched.
\<close>

theorem inject_bytes_places_module:
  assumes "uc_mem_ok ops mem" "inject_bytes ops d va clsid origin b = (ok, b')"
  shows "case bl_uc b of
      None \<Rightarrow> \<not> ok \<and> b' = b
    | Some u \<Rightarrow> \<exists>u'. bl_uc b' = Some u' \<and>
        (if ok then
           fits d va \<and> (\<forall>i < length d. mem u' (unat va + i) = Some (d ! i)) \<and>
           keeps (mem u) (mem u') (\<lambda>k. k + 8 \<ge> unat va \<and> k < unat va + length d) \<and>
           bl_hm b' = mirror (bl_lut b) va d (bl_hm b) \<and> unat (am_size (bl_mod b')) = length d \<and>
           (\<exists>ready. bl_mod b' = fresh_record d va clsid origin ready \<and>
             (ready \<longrightarrow> 8 \<le> unat va \<and> (\<forall>i < 8. mem u' (unat va - 8 + i) = Some 0)))
         else
           keeps (mem u) (mem u') (\<lambda>k. unat va \<le> k \<and> k < unat va + length d) \<and>
           bl_mod b' = bl_mod b \<and> bl_hm b' = bl_hm b \<and> (\<not> fits d va \<longrightarrow> b' = b))"
proof (cases "bl_uc b")
  case None
  then show ?thesis using assms(2) by (simp add: inject_bytes_def)
next
  case (Some u)
  show ?thesis
  proof (cases "fits d va")
    case False
    then have "ok = False \<and> b' = b" using assms(2) Some by (auto simp: inject_bytes_def fits_def split: if_splits)
    then show ?thesis using Some by (auto simp: keeps_def)
  next
    case True
    let ?sk = "\<lambda>k. k + 8 \<ge> unat va \<and> k < unat va + length d"
    obtain u1 where k1: "keeps (mem u) (mem u1) (\<lambda>k. unat va \<le> k \<and> k < unat va + length d)"
      and bytes: "ok \<longrightarrow> (\<forall>i < length d. mem u1 (unat va + i) = Some (d ! i))"
      and b': "if ok then b' = snd (prepare_elf2mod_prefix ops va 0 0 (b\<lparr>bl_uc := Some u1,
                bl_hm := mirror (bl_lut b) va d (bl_hm b), bl_mod := fresh_module d va clsid origin\<rparr>))
           else b' = b\<lparr>bl_uc := Some u1\<rparr>"
      by (rule inject_write [OF assms Some True]) (rule that)
    show ?thesis
    proof (cases ok)
      case False
      then show ?thesis using b' k1 True Some by simp
    next
      case ok: True
      let ?b = "b\<lparr>bl_uc := Some u1, bl_hm := mirror (bl_lut b) va d (bl_hm b), bl_mod := fresh_module d va clsid origin\<rparr>"
      obtain okp where p: "prepare_elf2mod_prefix ops va 0 0 ?b = (okp, b')"
        using b' ok by (metis prod.collapse)
      obtain u2 where u2: "bl_uc b' = Some u2" "bl_hm b' = bl_hm ?b"
        and k2: "keeps (mem u1) (mem u2) (\<lambda>k. k + 8 \<ge> unat va \<and> k < unat va)"
        and z: "okp \<longrightarrow> 8 \<le> unat va \<and> (\<forall>i < 4. mem u2 (unat va - 8 + i) = Some (le32_bytes 0 ! i) \<and>
                                       mem u2 (unat va - 4 + i) = Some (le32_bytes 0 ! i))"
        and md: "bl_mod b' = (if okp \<and> am_injected (bl_mod ?b) \<and> am_load_va (bl_mod ?b) = va
          then (bl_mod ?b)\<lparr>am_prefix_ready := True, am_reserved_lo_va := va - 8, am_reserved_hi_va := va - 4\<rparr>
          else bl_mod ?b)"
        using prefix_ok [OF assms(1) p, of u1] by auto
      have k: "keeps (mem u) (mem u2) ?sk"
        by (rule keeps_trans [OF keeps_weaken [OF k1] keeps_weaken [OF k2]]) simp_all
      have placed: "\<forall>i < length d. mem u2 (unat va + i) = Some (d ! i)"
        using bytes ok k2 unfolding keeps_def by (metis add_leD1 leD le_add1 option.distinct(1))
      have sz: "unat (of_nat (length d) :: u32) = length d"
        unfolding unat_of_nat using True by (intro mod_less) (simp add: fits_def)
      have zeros: "okp \<longrightarrow> 8 \<le> unat va \<and> (\<forall>i < 8. mem u2 (unat va - 8 + i) = Some 0)"
        using z two_zero_words [of "unat va" "mem u2"] by blast
      have rec: "bl_mod b' = fresh_record d va clsid origin okp"
        unfolding md by (simp add: fresh_module_record fresh_record_def)
      have size: "unat (am_size (bl_mod b')) = length d" unfolding rec by (simp add: fresh_record_def sz)
      have "\<exists>ready. bl_mod b' = fresh_record d va clsid origin ready \<and>
          (ready \<longrightarrow> 8 \<le> unat va \<and> (\<forall>i < 8. mem u2 (unat va - 8 + i) = Some 0))"
        using rec zeros by blast
      then show ?thesis using Some ok True u2 k placed size by simp
    qed
  qed
qed

text \<open>A twelve-byte module whose first word branches to its third word, on a guest with nothing mapped yet.\<close>

definition demo_mod :: "u8 list" where
  "demo_mod = le32_bytes 0xea000000 @ le32_bytes 0 @ le32_bytes 0xe12fff1e"

definition bare_loader :: "paged brew_loader" where
  "bare_loader = loader_init (Some ([], \<lambda>_. 0, 0)) (\<lambda>_. 0)"

lemma demo_inject: "fst (inject_bytes flat_ops demo_mod 0x3000 7 ''demo'' bare_loader)"
proof -
  have len: "length demo_mod = 12" "demo_mod \<noteq> []" by (simp_all add: demo_mod_def le32_bytes_def)
  have pages: "page_down 0x3000 = 0x3000" "page_up 0x300c = 0x4000" by (simp_all add: page_down_def page_up_def)
  let ?u = "paged_put 0x3000 (replicate 4096 0) ([3], \<lambda>_. 0, 0)"
  have m: "map_pages flat_ops 0x3000 0x4000 ([], \<lambda>_. 0, 0) = (True, ?u)"
    by (subst map_pages.simps, subst map_pages.simps) (simp add: flat_ops_def any_page_def)
  have "[3..<Suc (12299 div 4096)] = [3::nat]" by simp
  then have "pages_in ?u 0x3000 12" by (simp add: pages_in_def paged_put_def)
  then have "fst (uc_mem_write flat_ops ?u 0x3000 demo_mod) = UC_ERR_OK" by (simp add: flat_ops_def len)
  then show ?thesis using len m pages
    by (auto simp: inject_bytes_def bare_loader_def loader_init_def Let_def split: prod.split)
qed

theorem inject_bytes_places_module_witness:
  "\<exists>b' u'. inject_bytes flat_ops demo_mod 0x3000 7 ''demo'' bare_loader = (True, b') \<and>
     bl_uc b' = Some u' \<and> paged_byte u' 0x3008 = Some 0x1e"
proof -
  obtain b' where i: "inject_bytes flat_ops demo_mod 0x3000 7 ''demo'' bare_loader = (True, b')"
    using demo_inject by (metis prod.collapse)
  have d: "length demo_mod = 12" "demo_mod ! 8 = 0x1e" by (simp_all add: demo_mod_def le32_bytes_def)
  have u: "bl_uc bare_loader = Some ([], \<lambda>_. 0, 0)" by (simp add: bare_loader_def loader_init_def)
  obtain u' where u': "bl_uc b' = Some u'"
    and p: "\<forall>i < length demo_mod. paged_byte u' (unat (0x3000 :: u32) + i) = Some (demo_mod ! i)"
    using inject_bytes_places_module [OF flat_mem_ok i] unfolding u by auto
  have "paged_byte u' (unat (0x3000 :: u32) + 8) = Some (demo_mod ! 8)"
    by (rule p [rule_format]) (simp add: d(1))
  then have "paged_byte u' 0x3008 = Some 0x1e" unfolding d(2) by simp
  then show ?thesis using i u' by blast
qed

section \<open>Running a handler\<close>

text \<open>
  An event reaches the handler with the calling convention of BREW. When the engine has ordinary
  registers, the emulator is started at the handler's Thumb address with the applet, the event, the key
  and the parameter in r0 to r3, the scratch stack in SP and the Thumb sentinel in LR; the result is the
  r0 the emulator left, and it is reported clean exactly when the run ended without error at the
  sentinel. Without an engine or a handler nothing runs.
\<close>

theorem dispatch_event_call:
  assumes "uc_regs_ok ops" "bl_uc b = Some u" "handler_va \<noteq> 0"
    "dispatch_event ops emu handler_va applet_va evt key sp magic dw b = (r, ok, b')"
  shows "\<exists>u0 e u1. emu u0 (ucast (handler_va OR 1)) (ucast (magic AND NOT 1)) = (e, u1) \<and>
    uc_reg_read ops u0 (UC_R 0) = applet_va \<and> uc_reg_read ops u0 (UC_R 1) = evt \<and>
    uc_reg_read ops u0 (UC_R 2) = key \<and> uc_reg_read ops u0 (UC_R 3) = dw \<and>
    uc_reg_read ops u0 UC_SP = sp \<and> uc_reg_read ops u0 UC_LR = magic OR 1 \<and>
    uc_reg_read ops u0 UC_PC = uc_reg_read ops u UC_PC \<and>
    r = uc_reg_read ops u1 (UC_R 0) \<and>
    (ok \<longleftrightarrow> e = UC_ERR_OK \<and> uc_reg_read ops u1 UC_PC AND NOT 1 = magic AND NOT 1) \<and>
    bl_uc b' = Some u1 \<and> bl_mod b' = bl_mod b"
proof -
  let ?w = "\<lambda>r v u. uc_reg_write ops u r v"
  let ?u0 = "?w UC_LR (magic OR 1) (?w UC_SP sp (?w (UC_R 3) dw (?w (UC_R 2) key (?w (UC_R 1) evt (?w (UC_R 0) applet_va u)))))"
  obtain e u1 where e: "emu ?u0 (ucast (handler_va OR 1)) (ucast (magic AND NOT 1)) = (e, u1)" by fastforce
  have res: "r = uc_reg_read ops u1 (UC_R 0)"
      "ok \<longleftrightarrow> e = UC_ERR_OK \<and> uc_reg_read ops u1 UC_PC AND NOT 1 = magic AND NOT 1"
      "bl_uc b' = Some u1" "bl_mod b' = bl_mod b"
    using assms(2-4) e by (auto simp: dispatch_event_def Let_def)
  have regs: "uc_reg_read ops ?u0 (UC_R 0) = applet_va" "uc_reg_read ops ?u0 (UC_R 1) = evt"
      "uc_reg_read ops ?u0 (UC_R 2) = key" "uc_reg_read ops ?u0 (UC_R 3) = dw"
      "uc_reg_read ops ?u0 UC_SP = sp" "uc_reg_read ops ?u0 UC_LR = magic OR 1"
      "uc_reg_read ops ?u0 UC_PC = uc_reg_read ops u UC_PC"
    by (simp_all add: uc_plain_write [OF assms(1)])
  show ?thesis
    by (rule exI [of _ ?u0], rule exI [of _ e], rule exI [of _ u1], intro conjI)
       (fact e regs res)+
qed

text \<open>A handler that consumes every event: the emulator sets r0 to 1 and lands on the sentinel.\<close>

theorem dispatch_event_call_witness:
  "case dispatch_event arm_ops
      (\<lambda>u _ stop. (UC_ERR_OK, arm_write (arm_write u (UC_R 0) 1) UC_PC (ucast stop)))
      0x10001 0x20000 0x100 AVK_SELECT 0x30000 0xfffffff0 0 (loader_init (Some arm_init) (\<lambda>_. 0)) of
    (r, ok, _) \<Rightarrow> r = 1 \<and> ok"
proof -
  let ?emu = "\<lambda>u (_::u64) (stop::u64). (UC_ERR_OK, arm_write (arm_write u (UC_R 0) 1) UC_PC (ucast stop :: u32))"
  obtain r ok b' where d: "dispatch_event arm_ops ?emu 0x10001 0x20000 0x100 AVK_SELECT 0x30000 0xfffffff0 0
      (loader_init (Some arm_init) (\<lambda>_. 0)) = (r, ok, b')" by (metis prod_cases3)
  have b: "bl_uc (loader_init (Some arm_init) (\<lambda>_. 0)) = Some arm_init" by (simp add: loader_init_def)
  show ?thesis
    using dispatch_event_call [OF arm_regs_ok b _ d] unfolding d by (auto simp: arm_ops_def)
qed

end
