(* ===== verification/Module_Gate.thy ===== *)
theory Module_Gate
  imports Brew_Loader Brew_Mif
begin

text \<open>
  The gates that decide what may be claimed of a loaded module: \<open>tools/cpp/zeebo_module_gate.h\<close> (has the
  module been executed), \<open>zeebo_applet_dispatch.h\<close> (which handler may run), \<open>zeebo_zeetris_lifecycle.h\<close>
  (class and calling convention read off the bytes) and \<open>zeebo_slide_detector.h\<close> (has the modem core
  derailed into straight-line execution).
\<close>

section \<open>Execution gate\<close>

datatype game_state = GAME_INVALID | GAME_LOADED_ONLY | GAME_EXECUTED

record module_identity =
  id_injected :: bool
  id_load_va :: u32
  id_size :: u32
  id_entry_va :: u32
  id_entry_kind :: entry_kind

definition module_is_valid :: "module_identity \<Rightarrow> bool" where
  "module_is_valid m \<longleftrightarrow> id_injected m \<and> id_size m > 0 \<and> id_entry_va m \<noteq> 0 \<and> id_entry_kind m \<noteq> ENTRY_NONE"

definition pc_in_module_range :: "u32 \<Rightarrow> u32 \<Rightarrow> u32 \<Rightarrow> bool" where
  "pc_in_module_range load_va sz pc =
     (if sz = 0 then False
      else let addr = pc AND NOT 1; lo = unat load_va; hi = lo + unat sz in unat addr \<ge> lo \<and> unat addr < hi)"

definition classify_game :: "module_identity \<Rightarrow> bool \<Rightarrow> bool \<Rightarrow> game_state" where
  "classify_game m clean_dispatch pc_entered_module =
     (if \<not> module_is_valid m then GAME_INVALID
      else if clean_dispatch \<and> pc_entered_module then GAME_EXECUTED
      else GAME_LOADED_ONLY)"

section \<open>Handler selection\<close>

definition ZWHEEL_HANDLER_VA :: u32 where "ZWHEEL_HANDLER_VA = 0x10532344"

datatype dispatch_mode = DISPATCH_REJECT | DISPATCH_ZWHEEL | DISPATCH_MODULE

definition select_lifecycle_handler :: "bool \<Rightarrow> u32 \<Rightarrow> bool \<Rightarrow> dispatch_mode \<times> u32" where
  "select_lifecycle_handler is_zwheel requested_handler_va handler_mapped =
     (if is_zwheel then (DISPATCH_ZWHEEL, ZWHEEL_HANDLER_VA)
      else if requested_handler_va = 0 then (DISPATCH_REJECT, 0)
      else if requested_handler_va = ZWHEEL_HANDLER_VA then (DISPATCH_REJECT, 0)
      else if \<not> handler_mapped then (DISPATCH_REJECT, 0)
      else (DISPATCH_MODULE, requested_handler_va))"

section \<open>Entry analysis\<close>

text \<open>The class id of a MIF, \<open>None\<close> for \<open>ok = false\<close>.\<close>

definition derive_mif_clsid :: "u8 list \<Rightarrow> u32 option option" where
  "derive_mif_clsid mif =
     map_option (\<lambda>mi. if mif_valid mi then Some (mif_clsid mi) else None) (mif_parse (Some mif))"

definition decode_arm_push :: "u32 \<Rightarrow> u32 option" where
  "decode_arm_push insn =
     (if drop_bit 28 insn \<noteq> 0xe then None
      else if drop_bit 25 insn AND 7 \<noteq> 4 then None
      else
        let P = drop_bit 24 insn AND 1; U = drop_bit 23 insn AND 1; W = drop_bit 21 insn AND 1;
            L = drop_bit 20 insn AND 1; Rn = drop_bit 16 insn AND 0xf
        in if \<not> (P = 1 \<and> U = 0 \<and> W = 1 \<and> L = 0 \<and> Rn = 13) then None else Some (insn AND 0xffff))"

fun count_from :: "u32 \<Rightarrow> nat \<Rightarrow> nat \<Rightarrow> nat" where
  "count_from m i 0 = 0"
| "count_from m i (Suc n) = (if m AND bit_mask i \<noteq> 0 then Suc (count_from m (Suc i) n) else 0)"

definition count_arg_regs :: "u32 \<Rightarrow> nat" where
  "count_arg_regs m = count_from m 0 4"

definition mask_has_lr :: "u32 \<Rightarrow> bool" where
  "mask_has_lr m \<longleftrightarrow> m AND bit_mask 14 \<noteq> 0"

record entry_abi =
  ea_resolved :: bool
  ea_entry_va :: u32
  ea_entry_kind :: entry_kind
  ea_first_insn :: u32
  ea_first_va :: u32
  ea_prologue_insn :: u32
  ea_is_push :: bool
  ea_push_mask :: u32
  ea_arg_regs :: nat
  ea_preserves_lr :: bool
  ea_mode_arm :: bool

definition zeetris_rd32 :: "u8 list \<Rightarrow> nat \<Rightarrow> u32" where
  "zeetris_rd32 d off = (if length d < 4 \<or> off > length d - 4 then 0 else rd32 d off)"

definition analyze_entry_abi :: "u8 list \<Rightarrow> u32 \<Rightarrow> entry_abi" where
  "analyze_entry_abi d load_va =
     (let a = \<lparr>ea_resolved = False, ea_entry_va = 0, ea_entry_kind = ENTRY_NONE, ea_first_insn = zeetris_rd32 d 0,
               ea_first_va = load_va, ea_prologue_insn = 0, ea_is_push = False, ea_push_mask = 0, ea_arg_regs = 0,
               ea_preserves_lr = False, ea_mode_arm = True\<rparr>;
          (entry, kind) = resolve_mod_entry d load_va
      in if entry = 0 then a
         else
           let a = a\<lparr>ea_resolved := True, ea_entry_va := entry, ea_entry_kind := kind,
                     ea_prologue_insn := zeetris_rd32 d (unat (entry - load_va))\<rparr>
           in case decode_arm_push (ea_prologue_insn a) of
                None \<Rightarrow> a
              | Some m \<Rightarrow> a\<lparr>ea_is_push := True, ea_push_mask := m, ea_arg_regs := count_arg_regs m,
                            ea_preserves_lr := mask_has_lr m\<rparr>)"

section \<open>Derailment\<close>

record slide_detector =
  slide_limit :: u32
  linear_run :: u32
  prev_end :: u32
  tripped :: bool

definition slide_init :: slide_detector where
  "slide_init = \<lparr>slide_limit = 256, linear_run = 0, prev_end = 0, tripped = False\<rparr>"

definition on_block :: "u32 \<Rightarrow> u32 \<Rightarrow> slide_detector \<Rightarrow> bool \<times> slide_detector" where
  "on_block start insn_count s =
     (if tripped s then (False, s)
      else
        let insn_count = (if insn_count = 0 then 1 else insn_count);
            run = (if prev_end s \<noteq> 0 \<and> start = prev_end s then linear_run s + insn_count else insn_count);
            s = s\<lparr>linear_run := run, prev_end := start + insn_count * 4\<rparr>
        in if run \<ge> slide_limit s then (True, s\<lparr>tripped := True\<rparr>) else (False, s))"

section \<open>From injection to execution\<close>

text \<open>The identity the orchestrator fills in from the loader.\<close>

definition identity_of :: "'u brew_loader \<Rightarrow> module_identity" where
  "identity_of b = (let m = bl_mod b in
     \<lparr>id_injected = am_injected m, id_load_va = am_load_va m, id_size = am_size m, id_entry_va = am_entry_va m,
      id_entry_kind = am_entry_kind m\<rparr>)"

lemma resolve_inside:
  assumes "resolve_mod_entry d va = (e, k)" "k \<noteq> ENTRY_NONE"
  shows "unat va \<le> unat e \<and> unat e < unat va + length d \<and> 4 \<le> length d"
proof -
  have rel: "unat (of_nat n :: u32) = n" if "n \<le> 0xffffffff" for n
    using that by (simp add: unat_of_nat)
  show ?thesis
    using assms
    by (auto simp: resolve_mod_entry_def Let_def rel word_le_nat_alt simp del: of_nat_add
        split: option.splits if_splits)
qed

lemma prefix_keeps_identity:
  "identity_of (snd (prepare_elf2mod_prefix ops va lo hi b)) = identity_of b"
  by (auto simp: prepare_elf2mod_prefix_def identity_of_def Let_def split: option.split prod.split)

lemma inject_identity:
  assumes "inject_bytes ops d va clsid origin b = (True, b')"
  shows "identity_of b' = \<lparr>id_injected = True, id_load_va = va, id_size = of_nat (length d),
      id_entry_va = fst (resolve_mod_entry d va), id_entry_kind = snd (resolve_mod_entry d va)\<rparr>"
    and "fits d va"
proof -
  obtain u where b': "b' = snd (prepare_elf2mod_prefix ops va 0 0 (b\<lparr>bl_uc := Some u,
      bl_hm := mirror (bl_lut b) va d (bl_hm b), bl_mod := fresh_module d va clsid origin\<rparr>))"
    using assms by (auto simp: inject_bytes_def Let_def split: option.splits if_splits prod.splits)
  show "identity_of b' = \<lparr>id_injected = True, id_load_va = va, id_size = of_nat (length d),
      id_entry_va = fst (resolve_mod_entry d va), id_entry_kind = snd (resolve_mod_entry d va)\<rparr>"
    unfolding b' prefix_keeps_identity
    by (simp add: identity_of_def fresh_module_def module_init_def split: prod.split)
  show "fits d va"
    using assms by (auto simp: inject_bytes_def fits_def split: option.splits if_splits)
qed

lemma clear_bit0: "unat ((x::u32) AND NOT 1) = unat x div 2 * 2"
  using unat_clear_low [of x 1] by (simp add: mask_eq_exp_minus_1)

text \<open>
  C29: what the loader injects, the execution gate can confirm. A module injected at an even address is
  valid for the gate exactly when the loader resolved an entry for it; then its entry counts as a
  program counter of the module, so that a clean run that is observed at the entry is classified as
  executed, while without a clean dispatch or without an observed program counter it stays loaded only;
  a module without an entry is invalid however it ran.
\<close>

theorem injected_module_gate:
  assumes "inject_bytes ops d va clsid origin b = (True, b')" "even (unat va)"
  shows "(if fst (resolve_mod_entry d va) \<noteq> 0 then
      module_is_valid (identity_of b') \<and>
      pc_in_module_range (id_load_va (identity_of b')) (id_size (identity_of b')) (id_entry_va (identity_of b')) \<and>
      classify_game (identity_of b') True True = GAME_EXECUTED \<and>
      classify_game (identity_of b') clean False = GAME_LOADED_ONLY \<and>
      classify_game (identity_of b') False entered = GAME_LOADED_ONLY
    else classify_game (identity_of b') clean entered = GAME_INVALID)"
proof -
  obtain e k where r: "resolve_mod_entry d va = (e, k)" by fastforce
  note i = inject_identity(1) [OF assms(1), unfolded r]
  have f: "fits d va" by (rule inject_identity(2) [OF assms(1)])
  then have sz: "unat (of_nat (length d) :: u32) = length d" "length d \<noteq> 0"
    unfolding unat_of_nat by (auto simp: fits_def)
  show ?thesis
  proof (cases "e = 0")
    case True
    then show ?thesis unfolding i by (simp add: r classify_game_def module_is_valid_def)
  next
    case False
    have k: "k \<noteq> ENTRY_NONE"
      using r False by (auto simp: resolve_mod_entry_def Let_def split: option.splits if_splits)
    have ins: "unat va \<le> unat e" "unat e < unat va + length d" using resolve_inside [OF r k] by auto
    have z: "(of_nat (length d) :: u32) > 0" "(of_nat (length d) :: u32) \<noteq> 0"
      using sz by (metis unat_0 word_gt_0)+
    have "unat va \<le> unat e div 2 * 2" using ins(1) assms(2)
      by (metis div_le_mono dvd_div_mult_self mult_le_mono1)
    moreover have "unat e div 2 * 2 < unat va + length d" using ins(2) by linarith
    ultimately have "pc_in_module_range va (of_nat (length d)) e"
      using sz z unfolding pc_in_module_range_def Let_def clear_bit0 by simp
    then show ?thesis unfolding i using False k z by (simp add: r classify_game_def module_is_valid_def)
  qed
qed

theorem injected_module_gate_witness:
  "\<exists>b'. inject_bytes flat_ops demo_mod 0x3000 7 ''demo'' bare_loader = (True, b') \<and>
     classify_game (identity_of b') True True = GAME_EXECUTED"
proof -
  obtain b' where i: "inject_bytes flat_ops demo_mod 0x3000 7 ''demo'' bare_loader = (True, b')"
    using demo_inject by (metis prod.collapse)
  have "fst (resolve_mod_entry demo_mod 0x3000) = 0x3008" by code_simp
  then show ?thesis using injected_module_gate [OF i, of True True] i by auto
qed

section \<open>Straight-line runs\<close>

text \<open>Blocks as (start, count); the length of the contiguous run that ends a history, newest block first.\<close>

definition block_len :: "u32 \<Rightarrow> u32" where "block_len c = (if c = 0 then 1 else c)"

definition block_end :: "u32 \<times> u32 \<Rightarrow> u32" where "block_end b = fst b + block_len (snd b) * 4"

fun run_length :: "(u32 \<times> u32) list \<Rightarrow> nat" where
  "run_length [] = 0"
| "run_length [b] = unat (block_len (snd b))"
| "run_length (b # p # bs) =
     unat (block_len (snd b)) + (if block_end p \<noteq> 0 \<and> fst b = block_end p then run_length (p # bs) else 0)"

definition feed :: "u32 \<times> u32 \<Rightarrow> slide_detector \<Rightarrow> slide_detector" where
  "feed b s = snd (on_block (fst b) (snd b) s)"

definition sane_block :: "u32 \<times> u32 \<Rightarrow> bool" where
  "sane_block b \<longleftrightarrow> unat (snd b) < 2 ^ 30"

lemma feed_run:
  "\<forall>b \<in> set bs. sane_block b \<Longrightarrow>
   (let s = foldr feed bs slide_init in
     slide_limit s = 256 \<and> (tripped s \<longleftrightarrow> (\<exists>k < length bs. 256 \<le> run_length (drop k bs))) \<and>
     (\<not> tripped s \<longrightarrow> unat (linear_run s) = run_length bs \<and> prev_end s = (case bs of [] \<Rightarrow> 0 | b # _ \<Rightarrow> block_end b)))"
proof (induction bs)
  case Nil
  then show ?case by (simp add: slide_init_def)
next
  case (Cons b bs)
  define s where "s = foldr feed bs slide_init"
  have IH: "slide_limit s = 256" "tripped s \<longleftrightarrow> (\<exists>k < length bs. 256 \<le> run_length (drop k bs))"
      "\<not> tripped s \<Longrightarrow> unat (linear_run s) = run_length bs" "\<not> tripped s \<Longrightarrow> prev_end s = (case bs of [] \<Rightarrow> 0 | b # _ \<Rightarrow> block_end b)"
    using Cons unfolding s_def by (simp_all add: Let_def)
  have ex: "(\<exists>k < length (b # bs). 256 \<le> run_length (drop k (b # bs))) \<longleftrightarrow>
      256 \<le> run_length (b # bs) \<or> (\<exists>k < length bs. 256 \<le> run_length (drop k bs))"
    by (auto simp: less_Suc_eq_0_disj)
  show ?case
  proof (cases "tripped s")
    case True
    then have "foldr feed (b # bs) slide_init = s" by (simp add: s_def [symmetric] feed_def on_block_def)
    then show ?thesis using True IH ex by (simp add: Let_def)
  next
    case False
    have small: "run_length bs < 256"
    proof (cases bs)
      case (Cons c cs)
      then show ?thesis using IH(2) False by (metis drop_0 length_greater_0_conv list.distinct(1) not_le)
    qed simp
    have bl: "unat (block_len (snd b)) \<le> 2 ^ 30" using Cons.prems by (simp add: sane_block_def block_len_def)
    have sum: "unat (linear_run s + block_len (snd b)) = run_length bs + unat (block_len (snd b))"
      using IH(3) [OF False] small bl by (subst unat_add_lem [THEN iffD1]) simp_all
    define run where "run = (if prev_end s \<noteq> 0 \<and> fst b = prev_end s then linear_run s + block_len (snd b) else block_len (snd b))"
    have run: "unat run = run_length (b # bs)"
      unfolding run_def using sum IH(4) [OF False] by (cases bs) (auto simp: Let_def)
    have step: "foldr feed (b # bs) slide_init =
        s\<lparr>linear_run := run, prev_end := block_end b, tripped := (run \<ge> 256)\<rparr>"
      using False IH(1)
      by (simp add: s_def [symmetric] feed_def on_block_def Let_def run_def block_len_def block_end_def)
    have "run \<ge> 256 \<longleftrightarrow> 256 \<le> run_length (b # bs)" using run by (simp add: word_le_nat_alt)
    then show ?thesis unfolding step Let_def ex using IH False run by auto
  qed
qed

text \<open>
  The slide detector fires exactly on straight-line execution. After any history of basic blocks of
  plausible size, the detector has tripped if and only if at some point the blocks executed without a
  jump in between, each starting where the previous one ended, together held at least 256 instructions.
\<close>

theorem slide_detector_exact:
  assumes "\<forall>b \<in> set bs. sane_block b"
  shows "tripped (foldr feed bs slide_init) \<longleftrightarrow> (\<exists>k < length bs. 256 \<le> run_length (drop k bs))"
  using feed_run [OF assms] by (simp add: Let_def)

theorem slide_detector_exact_witness:
  "tripped (foldr feed [(0x1200, 128), (0x1000, 128)] slide_init)"
proof -
  have "256 \<le> run_length (drop 0 [(0x1200, 128), (0x1000, 128)])" by code_simp
  then show ?thesis
    using slide_detector_exact [of "[(0x1200, 128), (0x1000, 128)]"] by (auto simp: sane_block_def)
qed

end
