(* ===== verification/Smd_Bridge.thy ===== *)
theory Smd_Bridge
  imports Guest_Memory Byte_Reader
begin

text \<open>
  \<open>tools/cpp/zeebo_smd_bridge_unified.h\<close> and \<open>tools/cpp/zeebo_smd_bridge.cpp\<close>: injection of ONCRPC
  packets into the modem's queue in guest memory. A packet slot holds the header at \<open>+0\<close>, the payload
  at \<open>+0x80\<close> and the queue node at \<open>+0x400\<close>; nodes form a doubly linked list behind the head, tail and
  count words. Both bridges write the same sequence; the standalone one refuses a payload that would
  reach the node, the unified one has no such check. The packed structs are their bytes in order.
\<close>

definition AMSS_SMD_CHANNEL_ADDR :: u32 where "AMSS_SMD_CHANNEL_ADDR = 0x1755d1dc"
definition AMSS_RPC_QUEUE_HEAD :: u32 where "AMSS_RPC_QUEUE_HEAD = 0x17571748"
definition AMSS_RPC_PACKET_BUFFER :: u32 where "AMSS_RPC_PACKET_BUFFER = 0x177f2000"
definition PAYLOAD_OFFSET :: u32 where "PAYLOAD_OFFSET = 0x80"
definition NODE_OFFSET :: u32 where "NODE_OFFSET = 0x400"
definition PAYLOAD_MAX :: u32 where "PAYLOAD_MAX = NODE_OFFSET - PAYLOAD_OFFSET"

text \<open>\<open>oncrpc_packet_header\<close>: xid, CALL, RPC version 2, program, version 1, procedure, no credentials.\<close>

definition oncrpc_packet_header :: "u32 \<Rightarrow> u32 \<Rightarrow> u32 \<Rightarrow> u8 list" where
  "oncrpc_packet_header xid prog procedure =
     concat (map le32_bytes [xid, 0, 2, prog, 1, procedure, 0, 0, 0, 0])"

text \<open>\<open>oncrpc_queue_node\<close>: next, prev, packet address, packet length, status.\<close>

definition oncrpc_queue_node :: "u32 \<Rightarrow> u32 \<Rightarrow> u32 \<Rightarrow> u32 \<Rightarrow> u32 \<Rightarrow> u8 list" where
  "oncrpc_queue_node nxt prv addr len status = le32_bytes nxt @ concat (map le32_bytes [prv, addr, len, status])"

definition smd_write :: "'u uc_ops \<Rightarrow> u32 \<Rightarrow> u8 list \<Rightarrow> 'u \<Rightarrow> 'u" where
  "smd_write ops a bs u = snd (uc_mem_write ops u (ucast a) bs)"

definition smd_read32 :: "'u uc_ops \<Rightarrow> 'u \<Rightarrow> u32 \<Rightarrow> u32" where
  "smd_read32 ops u a = rd32 (snd (uc_mem_read ops u (ucast a) [0, 0, 0, 0])) 0"

text \<open>\<open>smd_half_channel\<close> set to OPENED and FLUSHING, idle and without error, its pointers kept.\<close>

definition flush_channel :: "'u uc_ops \<Rightarrow> 'u \<Rightarrow> 'u" where
  "flush_channel ops u =
     (let ch = snd (uc_mem_read ops u (ucast AMSS_SMD_CHANNEL_ADDR) (replicate 12 0))
      in smd_write ops AMSS_SMD_CHANNEL_ADDR ([2, 0, 0, 3] @ drop 4 ch) u)"

text \<open>The queue linking: the node goes behind the tail, or becomes the whole queue.\<close>

definition link_node :: "'u uc_ops \<Rightarrow> u32 \<Rightarrow> u32 \<Rightarrow> u32 \<Rightarrow> 'u \<Rightarrow> 'u" where
  "link_node ops packet_target packet_len node_target u =
     (let u = smd_write ops node_target (oncrpc_queue_node 0 0 packet_target packet_len 1) u;
          head = smd_read32 ops u AMSS_RPC_QUEUE_HEAD;
          tail = smd_read32 ops u (AMSS_RPC_QUEUE_HEAD + 4);
          count = smd_read32 ops u (AMSS_RPC_QUEUE_HEAD + 8);
          (head, u) =
            (if count = 0 then (node_target, u)
             else
               let u = smd_write ops tail (le32_bytes node_target) u
               in (head, smd_write ops node_target (oncrpc_queue_node 0 tail packet_target packet_len 1) u));
          u = smd_write ops AMSS_RPC_QUEUE_HEAD (le32_bytes head) u;
          u = smd_write ops (AMSS_RPC_QUEUE_HEAD + 4) (le32_bytes node_target) u
      in smd_write ops (AMSS_RPC_QUEUE_HEAD + 8) (le32_bytes (count + 1)) u)"

definition write_packet :: "'u uc_ops \<Rightarrow> u32 \<Rightarrow> u32 \<Rightarrow> u32 \<Rightarrow> u8 list \<Rightarrow> 'u \<Rightarrow> 'u" where
  "write_packet ops injected prog procedure payload u =
     (let packet_target = AMSS_RPC_PACKET_BUFFER + injected * 0x500;
          u = smd_write ops packet_target (oncrpc_packet_header (0x12345678 + injected) prog procedure) u;
          u = (if payload \<noteq> [] then smd_write ops (packet_target + PAYLOAD_OFFSET) payload u else u);
          u = link_node ops packet_target (40 + 0x80 + of_nat (length payload)) (packet_target + NODE_OFFSET) u
      in flush_channel ops u)"

text \<open>The unified bridge: the engine, absent for a null pointer, and the number of packets injected.\<close>

definition inject_packet ::
    "'u uc_ops \<Rightarrow> u32 \<Rightarrow> u32 \<Rightarrow> u8 list \<Rightarrow> 'u option \<times> u32 \<Rightarrow> 'u option \<times> u32" where
  "inject_packet ops prog proc_id payload st =
     (case st of
        (None, n) \<Rightarrow> (None, n)
      | (Some u, n) \<Rightarrow> (Some (write_packet ops n prog proc_id payload u), n + 1))"

section \<open>The standalone bridge\<close>

definition SMEM_BASE :: u32 where "SMEM_BASE = 0x01f00000"
definition SMEM_SIZE :: nat where "SMEM_SIZE = 0x00200000"
definition MDM_STATUS :: u32 where "MDM_STATUS = 0x14"
definition PCOM_READY :: u32 where "PCOM_READY = 1"

record 'u smd_bridge =
  sb_uc :: 'u
  apps_smsm_state :: u32
  modem_smsm_state :: u32
  packets_injected :: u32

definition smd_bridge_new :: "'u \<Rightarrow> 'u smd_bridge" where
  "smd_bridge_new u = \<lparr>sb_uc = u, apps_smsm_state = 0x1 OR 0x2 OR 0x8 OR 0x20, modem_smsm_state = 0,
     packets_injected = 0\<rparr>"

definition init_smem :: "'u uc_ops \<Rightarrow> 'u smd_bridge \<Rightarrow> 'u smd_bridge" where
  "init_smem ops b =
     b\<lparr>sb_uc := smd_write ops (SMEM_BASE + MDM_STATUS) (le32_bytes PCOM_READY)
                 (smd_write ops SMEM_BASE (replicate SMEM_SIZE 0) (sb_uc b))\<rparr>"

definition inject_oncrpc_packet ::
    "'u uc_ops \<Rightarrow> u32 \<Rightarrow> u8 list \<Rightarrow> 'u smd_bridge \<Rightarrow> bool \<times> 'u smd_bridge" where
  "inject_oncrpc_packet ops procedure_id payload b =
     (if length payload > unat PAYLOAD_MAX then (False, b)
      else (True, b\<lparr>sb_uc := write_packet ops (packets_injected b) 0x30000060 procedure_id payload (sb_uc b),
                    packets_injected := packets_injected b + 1\<rparr>))"

section \<open>Accesses\<close>

lemma write_bytes:
  "uc_mem_ok ops mem \<Longrightarrow> mapped (mem u) (unat a) (length bs) \<Longrightarrow> mem (smd_write ops a bs u) = overlay (mem u) (unat a) bs"
  by (simp add: smd_write_def uc_put_bytes)

lemma read_word: "uc_mem_ok ops mem \<Longrightarrow> holds (mem u) (unat a) (le32_bytes w) \<Longrightarrow> smd_read32 ops u a = w"
  by (simp add: smd_read32_def get_word)

section \<open>The queue in memory\<close>

text \<open>A packet as the caller gave it; \<open>slot i\<close> and \<open>node i\<close> are the addresses of the \<open>i\<close>-th injection.\<close>

type_synonym packet = "u32 \<times> u32 \<times> u8 list"

definition slot :: "nat \<Rightarrow> nat" where "slot i = 0x177f2000 + i * 0x500"

definition node :: "nat \<Rightarrow> u32" where "node i = of_nat (slot i + 0x400)"

definition node_of :: "nat \<Rightarrow> nat \<Rightarrow> nat \<Rightarrow> u8 list" where
  "node_of n i len = oncrpc_queue_node (if Suc i < n then node (Suc i) else 0) (if i = 0 then 0 else node (i - 1))
     (of_nat (slot i)) (40 + 0x80 + of_nat len) 1"

definition packet_at :: "(nat \<Rightarrow> u8 option) \<Rightarrow> nat \<Rightarrow> nat \<Rightarrow> packet \<Rightarrow> bool" where
  "packet_at m n i = (\<lambda>(prog, procedure, payload).
     holds m (slot i) (oncrpc_packet_header (0x12345678 + of_nat i) prog procedure) \<and>
     holds m (slot i + 0x80) payload \<and>
     holds m (slot i + 0x400) (node_of n i (length payload)) \<and>
     length payload \<le> 0x380)"

definition queue_holds :: "(nat \<Rightarrow> u8 option) \<Rightarrow> packet list \<Rightarrow> bool" where
  "queue_holds m ps \<longleftrightarrow>
     holds m 0x17571750 (le32_bytes (of_nat (length ps))) \<and>
     (ps \<noteq> [] \<longrightarrow> holds m 0x17571748 (le32_bytes (node 0)) \<and>
                   holds m 0x1757174c (le32_bytes (node (length ps - 1)))) \<and>
     (\<forall>i < length ps. packet_at m (length ps) i (ps ! i))"

lemma packet_sizes [simp]:
  "length (oncrpc_packet_header x p q) = 40" "length (oncrpc_queue_node a b c d e) = 20"
  "length (node_of n i l) = 20"
  by (simp_all add: oncrpc_packet_header_def oncrpc_queue_node_def node_of_def)

text \<open>The addresses the model computes, for as many slots as the modem's data area holds.\<close>

lemma slot_words:
  assumes "n < 800"
  shows "unat (AMSS_RPC_PACKET_BUFFER + of_nat n * 0x500) = slot n"
    "unat (AMSS_RPC_PACKET_BUFFER + of_nat n * 0x500 + PAYLOAD_OFFSET) = slot n + 0x80"
    "AMSS_RPC_PACKET_BUFFER + of_nat n * 0x500 + NODE_OFFSET = node n"
    "AMSS_RPC_PACKET_BUFFER + of_nat n * 0x500 = of_nat (slot n)"
    "unat (node n) = slot n + 0x400" "slot n + 0x500 \<le> 0x17900000" "0x177f2000 \<le> slot n"
proof -
  have s: "slot n + 0x500 \<le> 0x17900000" using assms by (simp add: slot_def)
  have of: "AMSS_RPC_PACKET_BUFFER + of_nat n * 0x500 = of_nat (slot n)"
    by (simp add: AMSS_RPC_PACKET_BUFFER_def slot_def)
  have un: "unat (of_nat (slot n + k) :: u32) = slot n + k" if "k < 0x500" for k
    unfolding unat_of_nat using s that by (intro mod_less) simp
  show "unat (AMSS_RPC_PACKET_BUFFER + of_nat n * 0x500) = slot n" unfolding of using un [of 0] by simp
  have "AMSS_RPC_PACKET_BUFFER + of_nat n * 0x500 + PAYLOAD_OFFSET = of_nat (slot n + 0x80)"
    unfolding of by (simp add: PAYLOAD_OFFSET_def)
  then show "unat (AMSS_RPC_PACKET_BUFFER + of_nat n * 0x500 + PAYLOAD_OFFSET) = slot n + 0x80"
    using un [of "0x80"] by simp
  show "AMSS_RPC_PACKET_BUFFER + of_nat n * 0x500 + NODE_OFFSET = node n"
    unfolding of by (simp add: NODE_OFFSET_def node_def)
  show "unat (node n) = slot n + 0x400" unfolding node_def by (rule un) simp
  show "0x177f2000 \<le> slot n" by (simp add: slot_def)
qed (use assms in \<open>simp_all add: slot_def AMSS_RPC_PACKET_BUFFER_def\<close>)

lemma slot_before: "i < n \<Longrightarrow> slot i + 0x500 \<le> slot n"
  by (simp add: slot_def)

definition modem_mapped :: "(nat \<Rightarrow> u8 option) \<Rightarrow> bool" where
  "modem_mapped m \<longleftrightarrow> mapped m 0x17500000 0x400000"

lemma modem_write:
  assumes "uc_mem_ok ops mem" "modem_mapped (mem u)" "0x17500000 \<le> unat a" "unat a + length bs \<le> 0x17900000"
  shows "mem (smd_write ops a bs u) = overlay (mem u) (unat a) bs" "modem_mapped (mem (smd_write ops a bs u))"
proof -
  have "mapped (mem u) (unat a) (length bs)"
    using assms(2) unfolding modem_mapped_def by (rule mapped_sub) (use assms(3,4) in simp_all)
  then show w: "mem (smd_write ops a bs u) = overlay (mem u) (unat a) bs" by (rule write_bytes [OF assms(1)])
  show "modem_mapped (mem (smd_write ops a bs u))"
    unfolding w modem_mapped_def by (rule overlay_mapped) (use assms(2) in \<open>simp add: modem_mapped_def\<close>)
qed

lemma packet_frame:
  assumes "a + length bs \<le> slot i \<or> slot i + 0x500 \<le> a"
  shows "packet_at (overlay m a bs) n i p = packet_at m n i p"
proof -
  obtain prog procedure payload where p: "p = (prog, procedure, payload)" by (cases p)
  have "holds (overlay m a bs) (slot i) (oncrpc_packet_header x prog procedure) =
        holds m (slot i) (oncrpc_packet_header x prog procedure)" for x
    by (rule holds_frame) (use assms in auto)
  moreover have "holds (overlay m a bs) (slot i + 0x80) payload = holds m (slot i + 0x80) payload"
    if "length payload \<le> 0x380" by (rule holds_frame) (use assms that in auto)
  moreover have "holds (overlay m a bs) (slot i + 0x400) (node_of n i (length payload)) =
        holds m (slot i + 0x400) (node_of n i (length payload))"
    by (rule holds_frame) (use assms in auto)
  ultimately show ?thesis unfolding packet_at_def p by auto
qed

lemma queue_frame:
  assumes "slot (length ps) \<le> a \<or> a + length bs \<le> 0x17571748 \<or> 0x17571754 \<le> a \<and> a + length bs \<le> 0x177f2000"
  shows "queue_holds (overlay m a bs) ps = queue_holds m ps"
proof -
  have pk: "packet_at (overlay m a bs) (length ps) i (ps ! i) = packet_at m (length ps) i (ps ! i)"
    if "i < length ps" for i
    using assms slot_before [OF that] by (intro packet_frame) (auto simp: slot_def)
  have "0x177f2000 \<le> slot (length ps)" by (simp add: slot_def)
  then have "holds (overlay m a bs) b (le32_bytes w) = holds m b (le32_bytes w)"
    if "b \<in> {0x17571748, 0x1757174c, 0x17571750}" for b w
    using assms that by (intro holds_frame) auto
  then show ?thesis using pk unfolding queue_holds_def by auto
qed

text \<open>Adding a packet behind a queue: only the previous last node changes, in its first word.\<close>

lemma node_of_split:
  "node_of n i l = le32_bytes (if Suc i < n then node (Suc i) else 0) @ drop 4 (node_of n i l)"
  "Suc i < n \<Longrightarrow> node_of (Suc n) i l = node_of n i l"
  "drop 4 (node_of n i l) = drop 4 (node_of k i l)"
  by (simp_all add: node_of_def oncrpc_queue_node_def)

lemma relink_last:
  assumes "packet_at m n i p" "n = Suc i"
  shows "packet_at (overlay m (slot i + 0x400) (le32_bytes (node n))) (Suc n) i p"
proof -
  have at: "packet_at m (Suc i) i p" using assms by simp
  let ?m = "overlay m (slot i + 0x400) (le32_bytes (node (Suc i)))"
  obtain prog procedure payload where p: "p = (prog, procedure, payload)" by (cases p)
  have h: "holds m (slot i) (oncrpc_packet_header (0x12345678 + of_nat i) prog procedure)"
      "holds m (slot i + 0x80) payload" "holds m (slot i + 0x400) (node_of (Suc i) i (length payload))"
      "length payload \<le> 0x380"
    using at by (auto simp: packet_at_def p)
  have "holds m (slot i + 0x400 + 4) (drop 4 (node_of (Suc i) i (length payload)))"
    using h(3) by (subst (asm) node_of_split(1)) (simp add: holds_append)
  then have "holds ?m (slot i + 0x400 + 4) (drop 4 (node_of (Suc (Suc i)) i (length payload)))"
    unfolding node_of_split(3) [of "Suc (Suc i)" i _ "Suc i"] by (subst holds_frame) simp_all
  then have "holds ?m (slot i + 0x400) (node_of (Suc (Suc i)) i (length payload))"
    by (subst node_of_split(1)) (simp add: holds_append)
  moreover have "holds ?m (slot i) (oncrpc_packet_header (0x12345678 + of_nat i) prog procedure)"
      "holds ?m (slot i + 0x80) payload"
    using h by (simp_all add: holds_frame)
  ultimately show ?thesis using h(4) by (simp add: packet_at_def p assms(2))
qed

text \<open>The three queue words, written last.\<close>

definition queue_words :: "(nat \<Rightarrow> u8 option) \<Rightarrow> u32 \<Rightarrow> u32 \<Rightarrow> u32 \<Rightarrow> nat \<Rightarrow> u8 option" where
  "queue_words m h t c =
     overlay (overlay (overlay m 0x17571748 (le32_bytes h)) 0x1757174c (le32_bytes t)) 0x17571750 (le32_bytes c)"

lemma queue_words_holds:
  "holds (queue_words m h t c) 0x17571748 (le32_bytes h)"
  "holds (queue_words m h t c) 0x1757174c (le32_bytes t)"
  "holds (queue_words m h t c) 0x17571750 (le32_bytes c)"
  "packet_at (queue_words m h t c) n i p = packet_at m n i p"
  unfolding queue_words_def
  by (simp_all add: holds_frame packet_frame slot_def)

lemma queue_append:
  assumes "packet_at m (Suc (length ps)) (length ps) p"
    "\<And>i. i < length ps \<Longrightarrow> packet_at m (Suc (length ps)) i (ps ! i)"
  shows "queue_holds (queue_words m (node 0) (node (length ps)) (of_nat (Suc (length ps)))) (ps @ [p])"
  using assms by (auto simp: queue_holds_def queue_words_holds nth_append less_Suc_eq)

section \<open>Injection refines appending\<close>

lemma write_words:
  assumes "uc_mem_ok ops mem" "modem_mapped (mem u)"
  shows "mem (smd_write ops (AMSS_RPC_QUEUE_HEAD + 8) (le32_bytes c)
      (smd_write ops (AMSS_RPC_QUEUE_HEAD + 4) (le32_bytes t)
        (smd_write ops AMSS_RPC_QUEUE_HEAD (le32_bytes h) u))) = queue_words (mem u) h t c"
    and "modem_mapped (queue_words (mem u) h t c)"
proof -
  let ?u1 = "smd_write ops AMSS_RPC_QUEUE_HEAD (le32_bytes h) u"
  let ?u2 = "smd_write ops (AMSS_RPC_QUEUE_HEAD + 4) (le32_bytes t) ?u1"
  have a: "unat AMSS_RPC_QUEUE_HEAD = 0x17571748" "unat (AMSS_RPC_QUEUE_HEAD + 4) = 0x1757174c"
      "unat (AMSS_RPC_QUEUE_HEAD + 8) = 0x17571750"
    by (simp_all add: AMSS_RPC_QUEUE_HEAD_def)
  have w1: "mem ?u1 = overlay (mem u) 0x17571748 (le32_bytes h)" "modem_mapped (mem ?u1)"
    using modem_write [OF assms, of AMSS_RPC_QUEUE_HEAD] by (simp_all add: a)
  have w2: "mem ?u2 = overlay (mem ?u1) 0x1757174c (le32_bytes t)" "modem_mapped (mem ?u2)"
    using modem_write [OF assms(1) w1(2), of "AMSS_RPC_QUEUE_HEAD + 4"] by (simp_all add: a)
  show w3: "mem (smd_write ops (AMSS_RPC_QUEUE_HEAD + 8) (le32_bytes c) ?u2) = queue_words (mem u) h t c"
    using modem_write [OF assms(1) w2(2), of "AMSS_RPC_QUEUE_HEAD + 8"]
    by (simp add: a w1(1) w2(1) queue_words_def)
  show "modem_mapped (queue_words (mem u) h t c)"
    unfolding w3 [symmetric] by (rule modem_write(2) [OF assms(1) w2(2)]) (simp_all add: a)
qed

lemma link_node_appends:
  assumes "uc_mem_ok ops mem" "modem_mapped (mem u)" "length ps < 800" "queue_holds (mem u) ps"
    and hdr: "holds (mem u) (slot (length ps)) (oncrpc_packet_header (0x12345678 + of_nat (length ps)) prog procedure)"
    and pl: "holds (mem u) (slot (length ps) + 0x80) payload" "length payload \<le> 0x380"
  defines "u' \<equiv> link_node ops (of_nat (slot (length ps))) (40 + 0x80 + of_nat (length payload)) (node (length ps)) u"
  shows "queue_holds (mem u') (ps @ [(prog, procedure, payload)]) \<and> modem_mapped (mem u')"
proof -
  let ?n = "length ps" and ?p = "(prog, procedure, payload)"
  let ?nd = "\<lambda>prv. oncrpc_queue_node 0 prv (of_nat (slot ?n)) (40 + 0x80 + of_nat (length payload)) 1"
  let ?u1 = "smd_write ops (node ?n) (?nd 0) u"
  note sw = slot_words [OF assms(3)]
  have w1: "mem ?u1 = overlay (mem u) (slot ?n + 0x400) (?nd 0)" and m1: "modem_mapped (mem ?u1)"
    using modem_write [OF assms(1,2), of "node ?n"] sw by simp_all
  have q1: "queue_holds (mem ?u1) ps" unfolding w1 using assms(4) by (subst queue_frame) simp_all
  have hp: "holds (overlay (mem v) (slot ?n + 0x400) (?nd prv)) (slot ?n) (oncrpc_packet_header (0x12345678 + of_nat ?n) prog procedure) \<and>
      holds (overlay (mem v) (slot ?n + 0x400) (?nd prv)) (slot ?n + 0x80) payload"
    if "holds (mem v) (slot ?n) (oncrpc_packet_header (0x12345678 + of_nat ?n) prog procedure)"
      "holds (mem v) (slot ?n + 0x80) payload" for v prv
    using that pl(2) by (simp add: holds_frame)
  have count: "smd_read32 ops ?u1 (AMSS_RPC_QUEUE_HEAD + 8) = of_nat ?n"
    by (rule read_word [OF assms(1)]) (use q1 in \<open>simp add: queue_holds_def AMSS_RPC_QUEUE_HEAD_def\<close>)
  have cnt0: "(of_nat ?n :: u32) = 0 \<longleftrightarrow> ps = []"
  proof -
    have "unat (of_nat ?n :: u32) = ?n" unfolding unat_of_nat using assms(3) by (intro mod_less) simp
    then show ?thesis by (metis length_0_conv unat_eq_zero of_nat_0)
  qed
  show ?thesis
  proof (cases "ps = []")
    case True
    then have u': "mem u' = queue_words (mem ?u1) (node 0) (node 0) 1"
      unfolding u'_def link_node_def Let_def count using cnt0 write_words(1) [OF assms(1) m1] by simp
    have "packet_at (mem ?u1) (Suc ?n) ?n ?p"
      unfolding w1 using hp [OF hdr pl(1), of 0] pl(2) True by (simp add: packet_at_def node_of_def)
    then have "queue_holds (mem u') (ps @ [?p])" unfolding u' using queue_append [of "mem ?u1" ps ?p] True by simp
    then show ?thesis using u' write_words(2) [OF assms(1) m1] True by simp
  next
    case False
    then obtain k where k: "?n = Suc k" by (cases ps) auto
    have head: "smd_read32 ops ?u1 AMSS_RPC_QUEUE_HEAD = node 0"
      and tail: "smd_read32 ops ?u1 (AMSS_RPC_QUEUE_HEAD + 4) = node k"
      by (rule read_word [OF assms(1)]; use q1 False k in \<open>simp add: queue_holds_def AMSS_RPC_QUEUE_HEAD_def\<close>)+
    have nk: "unat (node k) = slot k + 0x400" "0x177f2000 \<le> slot k" using slot_words(5,7) [of k] assms(3) k by simp_all
    have skn: "slot k + 0x500 \<le> slot ?n" by (rule slot_before) (simp add: k)
    let ?u2 = "smd_write ops (node k) (le32_bytes (node ?n)) ?u1"
    let ?u3 = "smd_write ops (node ?n) (?nd (node k)) ?u2"
    have w2: "mem ?u2 = overlay (mem ?u1) (slot k + 0x400) (le32_bytes (node ?n))" and m2: "modem_mapped (mem ?u2)"
      using modem_write [OF assms(1) m1, of "node k"] nk skn sw by simp_all
    have w3: "mem ?u3 = overlay (mem ?u2) (slot ?n + 0x400) (?nd (node k))" and m3: "modem_mapped (mem ?u3)"
      using modem_write [OF assms(1) m2, of "node ?n"] sw by simp_all
    have u': "mem u' = queue_words (mem ?u3) (node 0) (node ?n) (of_nat (Suc ?n))"
      unfolding u'_def link_node_def Let_def count head tail
      using cnt0 False write_words(1) [OF assms(1) m3] by (simp add: add.commute)
    have "holds (mem ?u2) (slot ?n) (oncrpc_packet_header (0x12345678 + of_nat ?n) prog procedure)"
        "holds (mem ?u2) (slot ?n + 0x80) payload"
      unfolding w2 w1 using hp [OF hdr pl(1), of 0] skn by (simp_all add: holds_frame)
    note hp3 = hp [OF this, of "node k"]
    have new: "packet_at (mem ?u3) (Suc ?n) ?n ?p"
      unfolding w3 using hp3 pl(2) k by (simp add: packet_at_def node_of_def)
    have old: "packet_at (mem ?u3) (Suc ?n) i (ps ! i)" if i: "i < ?n" for i
    proof -
      have p1: "packet_at (mem ?u1) ?n i (ps ! i)" using q1 i by (simp add: queue_holds_def)
      have "packet_at (mem ?u2) (Suc ?n) i (ps ! i)"
      proof (cases "i = k")
        case True
        show ?thesis unfolding w2 True by (rule relink_last [OF _ k]) (use p1 True in simp)
      next
        case False
        then have lt: "i < k" using i k by simp
        then have "packet_at (mem ?u1) (Suc ?n) i (ps ! i)"
          using p1 node_of_split(2) [of i ?n] k by (auto simp: packet_at_def)
        then show ?thesis unfolding w2 using slot_before [OF lt] by (subst packet_frame) simp_all
      qed
      then show ?thesis unfolding w3 using slot_before [OF i] by (subst packet_frame) simp_all
    qed
    have "queue_holds (mem u') (ps @ [?p])" unfolding u' by (rule queue_append [OF new old])
    then show ?thesis using u' write_words(2) [OF assms(1) m3] by simp
  qed
qed

lemma write_packet_appends:
  fixes prog procedure :: u32
  assumes "uc_mem_ok ops mem" "modem_mapped (mem u)" "length ps < 800" "queue_holds (mem u) ps"
    "length payload \<le> 0x380"
  defines "v \<equiv> write_packet ops (of_nat (length ps)) prog procedure payload u"
  shows "modem_mapped (mem v)" "queue_holds (mem v) (ps @ [(prog, procedure, payload)])"
    "holds (mem v) 0x1755d1dc [2, 0, 0, 3]"
proof -
  let ?n = "length ps" and ?p = "(prog, procedure, payload)"
  let ?h = "oncrpc_packet_header (0x12345678 + of_nat ?n) prog procedure"
  let ?u1 = "smd_write ops (of_nat (slot ?n)) ?h u"
  let ?u2 = "if payload \<noteq> [] then smd_write ops (of_nat (slot ?n) + PAYLOAD_OFFSET) payload ?u1 else ?u1"
  note sw = slot_words [OF assms(3)] and sw' = slot_words(1,2) [OF assms(3), unfolded slot_words(4) [OF assms(3)]]
  have w1: "mem ?u1 = overlay (mem u) (slot ?n) ?h" and m1: "modem_mapped (mem ?u1)"
    using modem_write [OF assms(1,2), of "of_nat (slot ?n)" ?h] sw sw' by simp_all
  have w2: "mem ?u2 = overlay (mem ?u1) (slot ?n + 0x80) payload" and m2: "modem_mapped (mem ?u2)"
    using modem_write [OF assms(1) m1, of "of_nat (slot ?n) + PAYLOAD_OFFSET" payload] m1 sw sw' assms(5) by simp_all
  have q2: "queue_holds (mem ?u2) ps"
    unfolding w2 w1 using assms(4) by (simp add: queue_frame)
  have h2: "holds (mem ?u2) (slot ?n) ?h" "holds (mem ?u2) (slot ?n + 0x80) payload"
    unfolding w2 w1 by (simp_all add: holds_frame)
  let ?u3 = "link_node ops (of_nat (slot ?n)) (40 + 0x80 + of_nat (length payload)) (node ?n) ?u2"
  have q3: "queue_holds (mem ?u3) (ps @ [?p])" and m3: "modem_mapped (mem ?u3)"
    using link_node_appends [OF assms(1) m2 assms(3) q2 h2 assms(5)] by simp_all
  define ch where "ch = snd (uc_mem_read ops ?u3 (ucast AMSS_SMD_CHANNEL_ADDR) (replicate 12 0))"
  let ?u4 = "smd_write ops AMSS_SMD_CHANNEL_ADDR ([2, 0, 0, 3] @ drop 4 ch) ?u3"
  have len: "length ch = 12"
  proof -
    obtain e bs where r: "uc_mem_read ops ?u3 (ucast AMSS_SMD_CHANNEL_ADDR) (replicate 12 0) = (e, bs)" by fastforce
    have "mapped (mem ?u3) 0x1755d1dc 12"
      using m3 unfolding modem_mapped_def by (rule mapped_sub) simp_all
    then have "e = UC_ERR_OK" using mem_read_ok(1) [OF assms(1) r] by (simp add: AMSS_SMD_CHANNEL_ADDR_def)
    then show ?thesis unfolding ch_def using mem_read_ok(2) [OF assms(1) r] r by simp
  qed
  have w4: "mem ?u4 = overlay (mem ?u3) 0x1755d1dc ([2, 0, 0, 3] @ drop 4 ch)" and m4: "modem_mapped (mem ?u4)"
    using modem_write [OF assms(1) m3, of AMSS_SMD_CHANNEL_ADDR "[2, 0, 0, 3] @ drop 4 ch"] len
    by (simp_all add: AMSS_SMD_CHANNEL_ADDR_def)
  have q4: "queue_holds (mem ?u4) (ps @ [?p])" unfolding w4 using q3 len by (subst queue_frame) simp_all
  have c4: "holds (mem ?u4) 0x1755d1dc [2, 0, 0, 3]"
    using holds_overlay [of "mem ?u3" "0x1755d1dc" "[2, 0, 0, 3] @ drop 4 ch"] unfolding w4 holds_append by simp
  have "v = ?u4"
    unfolding v_def write_packet_def Let_def flush_channel_def ch_def unfolding sw(3) unfolding sw(4) ..
  then show "modem_mapped (mem v)" "queue_holds (mem v) (ps @ [?p])" "holds (mem v) 0x1755d1dc [2, 0, 0, 3]"
    using m4 q4 c4 by simp_all
qed

text \<open>
  C7: injecting a packet appends it to the modem's queue. With the modem's data area mapped and its
  queue holding the packets \<open>ps\<close> as a linked list in slot order, a packet whose payload stays below the
  queue node is written so that afterwards the queue holds \<open>ps\<close> followed by it: count, head, tail, the
  forward and backward links, every header with its transaction number and every payload are as a list
  of packets prescribes, and the channel is left opened and flushing. The bounded bridge refuses a
  longer payload with nothing written.
\<close>

theorem inject_packet_appends:
  assumes "uc_mem_ok ops mem" "modem_mapped (mem u)" "length ps < 800" "queue_holds (mem u) ps"
    "length payload \<le> 0x380"
  shows "case inject_packet ops prog procedure payload (Some u, of_nat (length ps)) of (u', n') \<Rightarrow>
      n' = of_nat (length ps) + 1 \<and>
      (\<exists>v. u' = Some v \<and> modem_mapped (mem v) \<and> queue_holds (mem v) (ps @ [(prog, procedure, payload)]) \<and>
        holds (mem v) 0x1755d1dc [2, 0, 0, 3]) \<and>
      (\<forall>long b. length long > 0x380 \<longrightarrow> inject_oncrpc_packet ops procedure long b = (False, b))"
  using write_packet_appends [OF assms]
  by (simp add: inject_packet_def inject_oncrpc_packet_def PAYLOAD_MAX_def NODE_OFFSET_def PAYLOAD_OFFSET_def)

text \<open>An empty queue in a freshly mapped area: pages 0x17500 to 0x178ff, all zero.\<close>

definition modem_area :: paged where "modem_area = ([0x17500..<0x17900], \<lambda>_. 0, 0)"

lemma modem_area_byte:
  assumes "0x17500000 \<le> k" "k < 0x17900000"
  shows "paged_byte modem_area k = Some 0"
proof -
  have "0x17500 \<le> k div 4096" "k div 4096 < 0x17900" using assms by linarith+
  then have "k div 4096 \<in> set [0x17500..<0x17900]" unfolding set_upt atLeastLessThan_iff ..
  then show ?thesis unfolding paged_byte_def modem_area_def by (simp only: prod.case if_True)
qed

lemma modem_area_ok: "modem_mapped (paged_byte modem_area)" "queue_holds (paged_byte modem_area) []"
proof -
  show "modem_mapped (paged_byte modem_area)"
    unfolding modem_mapped_def mapped_def by (simp add: modem_area_byte)
  show "queue_holds (paged_byte modem_area) []"
    by (auto simp: queue_holds_def holds_def modem_area_byte le32_bytes_def nth_Cons')
qed

theorem inject_packet_appends_witness:
  "\<exists>v. inject_packet flat_ops 0x30000060 0x1b59 [1, 2, 3, 4] (Some modem_area, 0) = (Some v, 1) \<and>
     queue_holds (paged_byte v) [(0x30000060, 0x1b59, [1, 2, 3, 4])]"
  using inject_packet_appends [OF flat_mem_ok modem_area_ok(1) _ modem_area_ok(2), of "[1, 2, 3, 4]" "0x30000060" "0x1b59"]
  by (auto split: prod.splits)

end
