(* ===== verification/Qdsp5.thy ===== *)
theory Qdsp5
  imports Smd_Bridge
begin

text \<open>
  \<open>tools/cpp/qdsp5\<close>: the command plane of the audio DSP. \<open>qdsp5_dispatcher.cpp\<close> decodes an ONCRPC packet
  and routes it to an engine, \<open>audpp_engine.cpp\<close> plays PCM buffers from guest memory through the mixer of
  \<open>zeebo_audio_sink.h\<close>, and the engines of \<open>stub_engines.cpp\<close> acknowledge. The guest is a reader that
  fills \<open>n\<close> bytes from an address or fails. Volumes are floating-point numbers in the source; here they
  are values of a type parameter with the three operations in \<open>vol_ops\<close>; the play position, a double, is its
  64 bits, all zero for 0.0. The floating-point mixing loop is not modelled.
\<close>

datatype engine = Audmgr | Audplay | Audpp | Audrec | Jpeg | Vfe | Voice | UnknownEngine

datatype queue_id = UnknownQueue | UpAudPlay0BitstreamCtrl | UpAudPlay1BitstreamCtrl | UpAudPlay2BitstreamCtrl |
  UpAudPlay3BitstreamCtrl | UpAudPlay4BitstreamCtrl | UpAudPpCmd1 | UpAudPpCmd2 | UpAudPpCmd3 |
  UpAudRecBitstream | UpAudRecCmd | UpJpegActionCmd | UpJpegCfgCmd | VfeCommand | VfeCommandScale |
  VfeCommandTable | UpVocProc

definition kMaxPayload :: nat where "kMaxPayload = 0x500"
definition kPayloadOff :: nat where "kPayloadOff = 0x80"
definition kRpcSuccess :: u32 where "kRpcSuccess = 0x1b59"
definition AUDMGR :: u32 where "AUDMGR = 0x30000013"
definition ADSPRTOSATOM :: u32 where "ADSPRTOSATOM = 0x3000000a"

record command =
  cmd_engine :: engine
  cmd_program :: u32
  cmd_proc_id :: u32
  cmd_payload :: "u8 list"

record reply =
  r_handled :: bool
  r_status :: u32
  r_completion_sig :: u32
  r_body :: "u8 list"

definition reply_init :: reply where
  "reply_init = \<lparr>r_handled = False, r_status = kRpcSuccess, r_completion_sig = 0, r_body = []\<rparr>"

type_synonym guest = "u32 \<Rightarrow> nat \<Rightarrow> u8 list option"

section \<open>The mixer's voices\<close>

record 'v vol_ops =
  vol_finite :: "'v \<Rightarrow> bool"
  vol_one :: 'v
  vol_q16 :: "u32 \<Rightarrow> 'v"

record 'v voice =
  v_id :: u32
  v_active :: bool
  v_sample_rate :: u32
  v_channels :: u32
  v_volume :: 'v
  v_pcm :: "u16 list"
  v_playback_pos :: u64

definition fresh_voice :: "u32 \<Rightarrow> u32 \<Rightarrow> u32 \<Rightarrow> 'v \<Rightarrow> 'v voice" where
  "fresh_voice ident rate channels vol = \<lparr>v_id = ident, v_active = True, v_sample_rate = rate,
     v_channels = channels, v_volume = vol, v_pcm = [], v_playback_pos = 0\<rparr>"

text \<open>The first inactive slot is reused, else one is added; \<open>i\<close> is the index of the first slot given.\<close>

fun take_slot :: "nat \<Rightarrow> u32 \<Rightarrow> u32 \<Rightarrow> 'v \<Rightarrow> 'v voice list \<Rightarrow> u32 \<times> 'v voice list" where
  "take_slot i rate channels vol [] = (of_nat (i + 1), [fresh_voice (of_nat (i + 1)) rate channels vol])"
| "take_slot i rate channels vol (v # vs) =
     (if \<not> v_active v then (of_nat (i + 1), fresh_voice (of_nat (i + 1)) rate channels vol # vs)
      else let (ident, vs) = take_slot (Suc i) rate channels vol vs in (ident, v # vs))"

definition allocate_voice :: "'v vol_ops \<Rightarrow> u32 \<Rightarrow> u32 \<Rightarrow> 'v \<Rightarrow> 'v voice list \<Rightarrow> u32 \<times> 'v voice list" where
  "allocate_voice vo rate channels vol vs =
     (if rate = 0 \<or> channels \<noteq> 1 \<and> channels \<noteq> 2 \<or> \<not> vol_finite vo vol then (0, vs)
      else take_slot 0 rate channels vol vs)"

text \<open>An update of the first voice with the given id, as \<open>find_voice\<close> returns it.\<close>

fun upd_voice :: "u32 \<Rightarrow> ('v voice \<Rightarrow> 'v voice) \<Rightarrow> 'v voice list \<Rightarrow> 'v voice list" where
  "upd_voice ident f [] = []"
| "upd_voice ident f (v # vs) = (if v_id v = ident then f v # vs else v # upd_voice ident f vs)"

definition submit_pcm :: "u32 \<Rightarrow> u16 list \<Rightarrow> 'v voice list \<Rightarrow> 'v voice list" where
  "submit_pcm ident samples vs =
     upd_voice ident (\<lambda>v. if \<not> v_active v \<or> samples = [] then v else v\<lparr>v_pcm := v_pcm v @ samples\<rparr>) vs"

definition release_voice :: "u32 \<Rightarrow> 'v voice list \<Rightarrow> 'v voice list" where
  "release_voice ident vs = upd_voice ident (\<lambda>v. v\<lparr>v_active := False, v_pcm := [], v_playback_pos := 0\<rparr>) vs"

section \<open>The post-processor engine\<close>

datatype host_pcm = UNCONFIGURED | AUDMGR_CONFIG | HPCM_ACTIVE | AUDPP_ACTIVE | RESET

definition AUDPP_PLAY :: u32 where "AUDPP_PLAY = 0x01"
definition AUDPP_STOP :: u32 where "AUDPP_STOP = 0x02"
definition AUDPP_SET_VOL :: u32 where "AUDPP_SET_VOL = 0x10"
definition kAudppDoneSig :: u32 where "kAudppDoneSig = 0x00080000"
definition kMaxPcmBytes :: u32 where "kMaxPcmBytes = 4 * 1024 * 1024"

record audpp_cmd_play =
  ap_opcode :: u32
  ap_pcm_ptr :: u32
  ap_pcm_bytes :: u32
  ap_sample_rate :: u32
  ap_channels :: u32
  ap_volume_q16 :: u32

definition play_of :: "u8 list \<Rightarrow> audpp_cmd_play" where
  "play_of p = \<lparr>ap_opcode = rd32 p 0, ap_pcm_ptr = rd32 p 4, ap_pcm_bytes = rd32 p 8, ap_sample_rate = rd32 p 12,
     ap_channels = rd32 p 16, ap_volume_q16 = rd32 p 20\<rparr>"

record 'v audpp =
  au_state :: host_pcm
  au_voices :: "'v voice list"
  au_sink_rate :: u32
  au_out_rate :: u32

text \<open>The rate that a new sink takes, and the engine at its start.\<close>

definition sink_rate :: "u32 \<Rightarrow> u32" where
  "sink_rate r = (if r \<noteq> 0 then r else 44100)"

definition audpp_init :: "'v audpp" where
  "audpp_init = \<lparr>au_state = UNCONFIGURED, au_voices = [], au_sink_rate = sink_rate 44100, au_out_rate = 44100\<rparr>"

fun samples_of :: "u8 list \<Rightarrow> u16 list" where
  "samples_of (lo # hi # bs) = (ucast lo OR push_bit 8 (ucast hi)) # samples_of bs"
| "samples_of _ = []"

definition ack_done :: reply where
  "ack_done = reply_init\<lparr>r_handled := True, r_completion_sig := kAudppDoneSig\<rparr>"

definition do_play :: "'v vol_ops \<Rightarrow> guest \<Rightarrow> audpp_cmd_play \<Rightarrow> 'v audpp \<Rightarrow> reply \<times> 'v audpp" where
  "do_play vo rd c a =
     (if ap_pcm_bytes c > kMaxPcmBytes then (reply_init, a)
      else
        let n_samples = ap_pcm_bytes c div 2; read_bytes = n_samples * 2;
            pcm = (if n_samples = 0 then Some [] else rd (ap_pcm_ptr c) (unat read_bytes))
        in case pcm of
             None \<Rightarrow> (reply_init, a)
           | Some bs \<Rightarrow>
               let vol = (if ap_volume_q16 c \<noteq> 0 then vol_q16 vo (ap_volume_q16 c) else vol_one vo);
                   ch = (if ap_channels c \<noteq> 0 then ap_channels c else 2);
                   sr = (if ap_sample_rate c \<noteq> 0 then ap_sample_rate c else 44100);
                   (vid, vs) = allocate_voice vo sr ch vol (au_voices a);
                   vs = submit_pcm vid (samples_of bs) vs;
                   st = au_state a;
                   st = (if st = UNCONFIGURED \<or> st = RESET then AUDMGR_CONFIG else st);
                   st = (if st = AUDMGR_CONFIG then HPCM_ACTIVE else st);
                   st = AUDPP_ACTIVE
               in (ack_done, a\<lparr>au_voices := vs, au_state := st\<rparr>))"

definition audpp_handle :: "'v vol_ops \<Rightarrow> guest \<Rightarrow> command \<Rightarrow> 'v audpp \<Rightarrow> reply \<times> 'v audpp" where
  "audpp_handle vo rd cmd a =
     (if length (cmd_payload cmd) < 24 then (reply_init, a)
      else
        let c = play_of (cmd_payload cmd)
        in if ap_opcode c = AUDPP_PLAY then do_play vo rd c a
           else if ap_opcode c = AUDPP_STOP then (ack_done, a\<lparr>au_voices := [], au_sink_rate := sink_rate (au_out_rate a), au_state := RESET\<rparr>)
           else if ap_opcode c = AUDPP_SET_VOL then (ack_done, a)
           else (reply_init, a))"

section \<open>The dispatcher\<close>

definition classify :: "u32 \<Rightarrow> engine" where
  "classify program =
     (if program = ADSPRTOSATOM then Audpp else if program = AUDMGR then Audpp else UnknownEngine)"

fun classify_queue :: "queue_id \<Rightarrow> engine" where
  "classify_queue UpAudPlay0BitstreamCtrl = Audplay"
| "classify_queue UpAudPlay1BitstreamCtrl = Audplay"
| "classify_queue UpAudPlay2BitstreamCtrl = Audplay"
| "classify_queue UpAudPlay3BitstreamCtrl = Audplay"
| "classify_queue UpAudPlay4BitstreamCtrl = Audplay"
| "classify_queue UpAudPpCmd1 = Audpp"
| "classify_queue UpAudPpCmd2 = Audpp"
| "classify_queue UpAudPpCmd3 = Audpp"
| "classify_queue UpAudRecBitstream = Audrec"
| "classify_queue UpAudRecCmd = Audrec"
| "classify_queue UpJpegActionCmd = Jpeg"
| "classify_queue UpJpegCfgCmd = Jpeg"
| "classify_queue VfeCommand = Vfe"
| "classify_queue VfeCommandScale = Vfe"
| "classify_queue VfeCommandTable = Vfe"
| "classify_queue UpVocProc = Voice"
| "classify_queue UnknownQueue = UnknownEngine"

text \<open>The stub engines hold no state and acknowledge without a completion signal.\<close>

definition stub_ack :: reply where
  "stub_ack = reply_init\<lparr>r_handled := True, r_status := kRpcSuccess, r_completion_sig := 0\<rparr>"

text \<open>
  The dispatcher: its one engine with state, whether a completion callback is connected, and the
  completions it has delivered, oldest first.
\<close>

record 'v qdsp5 =
  q_audpp :: "'v audpp"
  q_connected :: bool
  q_completions :: "(u32 \<times> u32) list"

definition qdsp5_init :: "bool \<Rightarrow> 'v qdsp5" where
  "qdsp5_init connected = \<lparr>q_audpp = audpp_init, q_connected = connected, q_completions = []\<rparr>"

definition run_engine :: "'v vol_ops \<Rightarrow> guest \<Rightarrow> command \<Rightarrow> 'v qdsp5 \<Rightarrow> (reply \<times> 'v qdsp5) option" where
  "run_engine vo rd cmd q =
     (case cmd_engine cmd of
        Audpp \<Rightarrow> let (r, a) = audpp_handle vo rd cmd (q_audpp q) in Some (r, q\<lparr>q_audpp := a\<rparr>)
      | Jpeg \<Rightarrow> Some (stub_ack, q)
      | Vfe \<Rightarrow> Some (stub_ack, q)
      | Voice \<Rightarrow> Some (stub_ack, q)
      | Audplay \<Rightarrow> Some (stub_ack, q)
      | Audrec \<Rightarrow> Some (stub_ack, q)
      | _ \<Rightarrow> None)"

definition dispatch :: "'v vol_ops \<Rightarrow> guest \<Rightarrow> command \<Rightarrow> u32 \<Rightarrow> 'v qdsp5 \<Rightarrow> reply \<times> 'v qdsp5" where
  "dispatch vo rd cmd caller_tcb q =
     (case run_engine vo rd cmd q of
        None \<Rightarrow> (reply_init, q)
      | Some (r, q) \<Rightarrow>
          (r, if r_handled r \<and> q_connected q \<and> r_completion_sig r \<noteq> 0
              then q\<lparr>q_completions := q_completions q @ [(caller_tcb, r_completion_sig r)]\<rparr> else q))"

definition dispatch_queue ::
    "'v vol_ops \<Rightarrow> guest \<Rightarrow> queue_id \<Rightarrow> command \<Rightarrow> u32 \<Rightarrow> 'v qdsp5 \<Rightarrow> reply \<times> 'v qdsp5" where
  "dispatch_queue vo rd queue cmd caller_tcb q =
     (if cmd_program cmd \<noteq> ADSPRTOSATOM \<or> cmd_payload cmd = [] then (reply_init, q)
      else let e = classify_queue queue
           in if e = UnknownEngine then (reply_init, q)
              else dispatch vo rd (cmd\<lparr>cmd_engine := e\<rparr>) caller_tcb q)"

text \<open>\<open>None\<close> for a null packet; the header's program and procedure are its fourth and sixth word.\<close>

definition feed_raw :: "'v vol_ops \<Rightarrow> guest \<Rightarrow> u8 list option \<Rightarrow> u32 \<Rightarrow> 'v qdsp5 \<Rightarrow> reply \<times> 'v qdsp5" where
  "feed_raw vo rd packet caller_tcb q =
     (case packet of
        None \<Rightarrow> (reply_init, q)
      | Some p \<Rightarrow>
          if length p < 40 then (reply_init, q)
          else
            let len = (if length p > kMaxPayload then kMaxPayload else length p);
                cmd = \<lparr>cmd_engine = classify (rd32 p 12), cmd_program = rd32 p 12, cmd_proc_id = rd32 p 20,
                       cmd_payload = (if len > kPayloadOff then drop kPayloadOff (take len p) else [])\<rparr>
            in dispatch vo rd cmd caller_tcb q)"

section \<open>Voices\<close>

definition voices_ok :: "'v voice list \<Rightarrow> bool" where
  "voices_ok vs \<longleftrightarrow> (\<forall>i < length vs. v_id (vs ! i) = of_nat (i + 1)) \<and> length vs < 2 ^ 31"

lemma take_slot_at:
  "take_slot i r c vol vs = (of_nat (i + k + 1),
     if k < length vs then vs[k := fresh_voice (of_nat (i + k + 1)) r c vol]
     else vs @ [fresh_voice (of_nat (i + k + 1)) r c vol])"
  if "k = length (takeWhile v_active vs)"
  using that
proof (induction vs arbitrary: i k)
  case (Cons v vs)
  show ?case
  proof (cases "v_active v")
    case True
    then obtain j where k: "k = Suc j" "j = length (takeWhile v_active vs)" using Cons.prems by auto
    show ?thesis using True Cons.IH [OF k(2), of "Suc i"] k(1) by simp
  next
    case False
    then show ?thesis using Cons.prems by simp
  qed
qed simp

lemma upd_voice_at:
  assumes "k < length vs" "v_id (vs ! k) = ident" "\<And>i. i < k \<Longrightarrow> v_id (vs ! i) \<noteq> ident"
  shows "upd_voice ident f vs = vs[k := f (vs ! k)]"
  using assms
proof (induction vs arbitrary: k)
  case (Cons v vs)
  show ?case
  proof (cases k)
    case 0
    then show ?thesis using Cons.prems by simp
  next
    case (Suc j)
    have "v_id v \<noteq> ident" using Cons.prems(3) [of 0] Suc by simp
    moreover have "upd_voice ident f vs = vs[j := f (vs ! j)]"
    proof (rule Cons.IH)
      show "v_id (vs ! i) \<noteq> ident" if "i < j" for i using Cons.prems(3) [of "Suc i"] Suc that by simp
    qed (use Cons.prems Suc in simp_all)
    ultimately show ?thesis using Suc by simp
  qed
qed simp

lemma ids_differ:
  assumes "i < j" "j < 2 ^ 31"
  shows "(of_nat (i + 1) :: u32) \<noteq> of_nat (j + 1)"
proof
  assume "(of_nat (i + 1) :: u32) = of_nat (j + 1)"
  then have "unat (of_nat (i + 1) :: u32) = unat (of_nat (j + 1) :: u32)" by simp
  then show False using assms unfolding unat_of_nat by (simp del: of_nat_add of_nat_Suc)
qed

text \<open>What playing PCM does to the voices: one of them, inactive before or new, now carries it.\<close>

lemma play_voice:
  assumes "voices_ok vs" "length vs < 2 ^ 31 - 1" "r \<noteq> 0" "c = 1 \<or> c = 2" "vol_finite vo vol"
    "allocate_voice vo r c vol vs = (ident, vs1)"
  defines "k \<equiv> length (takeWhile v_active vs)"
  shows "submit_pcm ident ss vs1 =
      (if k < length vs then vs[k := (fresh_voice (of_nat (k + 1)) r c vol)\<lparr>v_pcm := ss\<rparr>]
       else vs @ [(fresh_voice (of_nat (k + 1)) r c vol)\<lparr>v_pcm := ss\<rparr>])"
    and "voices_ok (submit_pcm ident ss vs1)"
proof -
  let ?f = "fresh_voice (of_nat (k + 1)) r c vol"
  have kle: "k \<le> length vs" unfolding k_def by (rule length_takeWhile_le)
  have a: "ident = of_nat (k + 1)" "vs1 = (if k < length vs then vs[k := ?f] else vs @ [?f])"
    using assms(3-6) take_slot_at [OF k_def [THEN meta_eq_to_obj_eq], of 0 r c vol] by (auto simp: allocate_voice_def)
  have k1: "k < length vs1" "vs1 ! k = ?f" using kle by (auto simp: a(2) nth_append)
  have ids: "v_id (vs1 ! i) = of_nat (i + 1)" if "i < length vs1" for i
    using that assms(1) kle by (auto simp: a(2) voices_ok_def nth_list_update nth_append fresh_voice_def)
  have "submit_pcm ident ss vs1 = vs1[k := (\<lambda>v. if \<not> v_active v \<or> ss = [] then v else v\<lparr>v_pcm := v_pcm v @ ss\<rparr>) (vs1 ! k)]"
    unfolding submit_pcm_def
  proof (rule upd_voice_at [OF k1(1)])
    show "v_id (vs1 ! k) = ident" using ids [OF k1(1)] a(1) by simp
    fix i assume "i < k"
    then show "v_id (vs1 ! i) \<noteq> ident"
      using ids [of i] ids_differ [of i k] k1(1) kle assms(2) a(1) by simp
  qed
  then have eq: "submit_pcm ident ss vs1 = vs1[k := ?f\<lparr>v_pcm := ss\<rparr>]"
    unfolding k1(2) by (simp add: fresh_voice_def)
  then show "submit_pcm ident ss vs1 = (if k < length vs then vs[k := ?f\<lparr>v_pcm := ss\<rparr>] else vs @ [?f\<lparr>v_pcm := ss\<rparr>])"
    using kle by (auto simp: a(2) list_update_append)
  show "voices_ok (submit_pcm ident ss vs1)"
    unfolding eq voices_ok_def
  proof (intro conjI allI impI)
    fix i assume "i < length (vs1[k := ?f\<lparr>v_pcm := ss\<rparr>])"
    then show "v_id (vs1[k := ?f\<lparr>v_pcm := ss\<rparr>] ! i) = of_nat (i + 1)"
      using ids [of i] by (cases "i = k") (simp_all add: fresh_voice_def)
  qed (use assms(2) in \<open>simp add: a(2)\<close>)
qed

section \<open>Playing a buffer\<close>

text \<open>A PLAY packet as a caller builds it.\<close>

definition play_payload :: "u32 \<Rightarrow> u32 \<Rightarrow> u32 \<Rightarrow> u32 \<Rightarrow> u32 \<Rightarrow> u8 list" where
  "play_payload ptr n rate ch vol = concat (map le32_bytes [AUDPP_PLAY, ptr, n, rate, ch, vol])"

lemma play_of_payload: "play_of (play_payload ptr n rate ch vol @ rest) =
    \<lparr>ap_opcode = AUDPP_PLAY, ap_pcm_ptr = ptr, ap_pcm_bytes = n, ap_sample_rate = rate, ap_channels = ch,
     ap_volume_q16 = vol\<rparr>"
  by (simp add: play_of_def play_payload_def rd32_skip [of _ 4])

lemma length_samples_of: "length (samples_of bs) = length bs div 2"
  by (induction bs rule: samples_of.induct) auto

text \<open>The bytes of a packet as the bridge lays them out: header, payload at \<open>+0x80\<close>.\<close>

definition packet_bytes :: "u8 list \<Rightarrow> u32 \<Rightarrow> u32 \<Rightarrow> u8 list \<Rightarrow> bool" where
  "packet_bytes p prog procedure payload \<longleftrightarrow>
     (\<exists>xid. take 40 p = oncrpc_packet_header xid prog procedure) \<and> drop 0x80 p = payload \<and> 0x80 \<le> length p"

lemma feed_raw_decodes:
  assumes "packet_bytes p prog procedure payload" "length payload \<le> 0x480"
  shows "feed_raw vo rd (Some p) tcb q =
    dispatch vo rd \<lparr>cmd_engine = classify prog, cmd_program = prog, cmd_proc_id = procedure, cmd_payload = payload\<rparr> tcb q"
proof -
  obtain xid where h: "take 40 p = oncrpc_packet_header xid prog procedure" and pl: "drop 0x80 p = payload"
    and len: "0x80 \<le> length p" using assms(1) by (auto simp: packet_bytes_def)
  have tk: "rd32 p i = rd32 (take 40 p) i" if "i + 4 \<le> 40" for i using that by (simp add: rd32_def)
  have w: "rd32 p 12 = prog" "rd32 p 20 = procedure"
    using tk [of 12] tk [of 20] unfolding h by (simp_all add: oncrpc_packet_header_def rd32_skip [of _ 4])
  have "length p = 0x80 + length payload" using pl len by auto
  then have "length p \<le> kMaxPayload" using assms(2) by (simp add: kMaxPayload_def)
  then show ?thesis using len pl w by (auto simp: feed_raw_def kPayloadOff_def Let_def)
qed

text \<open>
  What a played buffer looks like: exactly one voice changed, the first inactive one or a new one. It is
  active and carries the samples from the start, at the requested rate (44100 if none is given), on the
  requested channels (two if none are given) and with the requested volume (full if none is given); the
  command is acknowledged and its completion delivered once to the caller.
\<close>

definition plays :: "'v vol_ops \<Rightarrow> 'v qdsp5 \<Rightarrow> u32 \<Rightarrow> u32 \<Rightarrow> u32 \<Rightarrow> u32 \<Rightarrow> u16 list \<Rightarrow> reply \<times> 'v qdsp5 \<Rightarrow> bool" where
  "plays vo q tcb rate ch vol ss = (\<lambda>(r, q').
     let k = length (takeWhile v_active (au_voices (q_audpp q))); vs = au_voices (q_audpp q'); v = vs ! k in
     r_handled r \<and> q_completions q' = q_completions q @ [(tcb, kAudppDoneSig)] \<and>
     au_state (q_audpp q') = AUDPP_ACTIVE \<and> voices_ok vs \<and> k < length vs \<and>
     length vs = max (length (au_voices (q_audpp q))) (k + 1) \<and> au_sink_rate (q_audpp q') = au_sink_rate (q_audpp q) \<and>
     v_active v \<and> v_pcm v = ss \<and> v_playback_pos v = 0 \<and> v_volume v = (if vol = 0 then vol_one vo else vol_q16 vo vol) \<and> v_sample_rate v = (if rate = 0 then 44100 else rate) \<and>
     v_channels v = (if ch = 0 then 2 else ch) \<and>
     (\<forall>i < length (au_voices (q_audpp q)). i \<noteq> k \<longrightarrow> vs ! i = au_voices (q_audpp q) ! i))"

definition mixer_ok :: "'v vol_ops \<Rightarrow> 'v qdsp5 \<Rightarrow> bool" where
  "mixer_ok vo q \<longleftrightarrow> voices_ok (au_voices (q_audpp q)) \<and> length (au_voices (q_audpp q)) < 2 ^ 31 - 1 \<and>
     (\<forall>v. vol_finite vo (vol_q16 vo v)) \<and> vol_finite vo (vol_one vo) \<and> q_connected q"

lemma do_play_voice:
  assumes "ap_pcm_bytes c \<le> kMaxPcmBytes" "ap_pcm_bytes c div 2 \<noteq> 0"
    and "rd (ap_pcm_ptr c) (unat (ap_pcm_bytes c div 2 * 2)) = Some bs" "ap_channels c \<le> 2" "mixer_ok vo q"
  defines "a \<equiv> q_audpp q"
  defines "f \<equiv> (fresh_voice (of_nat (length (takeWhile v_active (au_voices a)) + 1))
      (if ap_sample_rate c \<noteq> 0 then ap_sample_rate c else 44100) (if ap_channels c \<noteq> 0 then ap_channels c else 2)
      (if ap_volume_q16 c \<noteq> 0 then vol_q16 vo (ap_volume_q16 c) else vol_one vo))\<lparr>v_pcm := samples_of bs\<rparr>"
  defines "vs \<equiv> (let k = length (takeWhile v_active (au_voices a))
      in if k < length (au_voices a) then (au_voices a)[k := f] else au_voices a @ [f])"
  shows "do_play vo rd c a = (ack_done, a\<lparr>au_voices := vs, au_state := AUDPP_ACTIVE\<rparr>)" "voices_ok vs"
proof -
  let ?sr = "if ap_sample_rate c \<noteq> 0 then ap_sample_rate c else 44100"
    and ?ch = "if ap_channels c \<noteq> 0 then ap_channels c else 2"
    and ?vl = "if ap_volume_q16 c \<noteq> 0 then vol_q16 vo (ap_volume_q16 c) else vol_one vo"
  obtain ident vs1 where al: "allocate_voice vo ?sr ?ch ?vl (au_voices a) = (ident, vs1)" by fastforce
  have "ap_channels c = 0 \<or> ap_channels c = 1 \<or> ap_channels c = 2" using assms(4) by unat_arith
  then have ch: "?ch = 1 \<or> ?ch = 2" by auto
  have "?sr \<noteq> 0" "vol_finite vo ?vl" "voices_ok (au_voices a)" "length (au_voices a) < 2 ^ 31 - 1"
    using assms(5) by (simp_all add: mixer_ok_def a_def)
  note pv = play_voice [OF this(3,4,1) ch this(2) al, of "samples_of bs"]
  have vs: "submit_pcm ident (samples_of bs) vs1 = vs" using pv(1) by (simp only: vs_def f_def Let_def)
  show "voices_ok vs" using pv(2) by (simp only: vs)
  show "do_play vo rd c a = (ack_done, a\<lparr>au_voices := vs, au_state := AUDPP_ACTIVE\<rparr>)"
    unfolding do_play_def Let_def al prod.case vs [symmetric] using assms(1-3) by simp
qed

lemma do_play_refused:
  "ap_pcm_bytes c > kMaxPcmBytes \<or> rd (ap_pcm_ptr c) (unat (ap_pcm_bytes c div 2 * 2)) = None \<and> ap_pcm_bytes c div 2 \<noteq> 0 \<Longrightarrow>
    do_play vo rd c a = (reply_init, a)"
  by (auto simp: do_play_def Let_def)

lemma feed_raw_play:
  assumes "packet_bytes p prog procedure (play_payload ptr n rate ch vol @ rest)" "length rest \<le> 0x400"
    and "prog \<in> {ADSPRTOSATOM, AUDMGR}" "q_connected q"
  shows "feed_raw vo rd (Some p) tcb q =
      (let (r, a) = do_play vo rd (play_of (play_payload ptr n rate ch vol)) (q_audpp q); q' = q\<lparr>q_audpp := a\<rparr>
       in (r, if r_handled r \<and> r_completion_sig r \<noteq> 0
              then q'\<lparr>q_completions := q_completions q @ [(tcb, r_completion_sig r)]\<rparr> else q'))"
proof -
  have len: "length (play_payload ptr n rate ch vol) = 24" by (simp add: play_payload_def)
  have eng: "classify prog = Audpp" using assms(3) by (auto simp: classify_def)
  show ?thesis
    using feed_raw_decodes [OF assms(1), of vo rd tcb q] len eng assms(2,4)
      play_of_payload [of ptr n rate ch vol rest] play_of_payload [of ptr n rate ch vol "[]"]
    by (simp add: dispatch_def run_engine_def audpp_handle_def Let_def case_prod_beta)
qed

lemma play_packet_plays:
  assumes "packet_bytes p prog procedure (play_payload ptr n rate ch vol @ rest)" "length rest \<le> 0x400"
    and "prog \<in> {ADSPRTOSATOM, AUDMGR}" "mixer_ok vo q" "ch \<le> 2"
  shows "n \<le> kMaxPcmBytes \<Longrightarrow> rd ptr (unat (n div 2 * 2)) = Some bs \<Longrightarrow> n div 2 \<noteq> 0 \<Longrightarrow>
      plays vo q tcb rate ch vol (samples_of bs) (feed_raw vo rd (Some p) tcb q)"
    and "n > kMaxPcmBytes \<or> rd ptr (unat (n div 2 * 2)) = None \<and> n div 2 \<noteq> 0 \<Longrightarrow>
      feed_raw vo rd (Some p) tcb q = (reply_init, q)"
proof -
  let ?c = "play_of (play_payload ptr n rate ch vol)" and ?k = "length (takeWhile v_active (au_voices (q_audpp q)))"
  have cf: "ap_pcm_ptr ?c = ptr" "ap_pcm_bytes ?c = n" "ap_sample_rate ?c = rate" "ap_channels ?c = ch" "ap_volume_q16 ?c = vol"
    using play_of_payload [of ptr n rate ch vol "[]"] by simp_all
  have "q_connected q" using assms(4) by (simp add: mixer_ok_def)
  note fr = feed_raw_play [OF assms(1-3) this, of vo rd tcb]
  have init: "\<not> r_handled reply_init" "r_handled ack_done" "r_completion_sig ack_done = kAudppDoneSig" "kAudppDoneSig \<noteq> 0"
    by (simp_all add: reply_init_def ack_done_def kAudppDoneSig_def)
  have kle: "?k \<le> length (au_voices (q_audpp q))" by (rule length_takeWhile_le)
  show "plays vo q tcb rate ch vol (samples_of bs) (feed_raw vo rd (Some p) tcb q)"
    if "n \<le> kMaxPcmBytes" "rd ptr (unat (n div 2 * 2)) = Some bs" "n div 2 \<noteq> 0"
    using do_play_voice [of ?c rd bs vo q] that assms(4,5) cf init kle
    unfolding fr plays_def by (simp add: Let_def fresh_voice_def nth_append split: if_splits)
  show "feed_raw vo rd (Some p) tcb q = (reply_init, q)"
    if "n > kMaxPcmBytes \<or> rd ptr (unat (n div 2 * 2)) = None \<and> n div 2 \<noteq> 0"
    using do_play_refused [of ?c rd vo "q_audpp q"] that cf init unfolding fr by simp
qed

text \<open>A mixer whose volumes are 16.16 fixed point.\<close>

definition fixed_vol :: "u32 vol_ops" where
  "fixed_vol = \<lparr>vol_finite = (\<lambda>_. True), vol_one = 0x10000, vol_q16 = id\<rparr>"

end
