(* ===== verification/Dsp_Feed.thy ===== *)
theory Dsp_Feed
  imports Qdsp5
begin

text \<open>
  Where the packet queue of the modem meets the audio DSP. \<open>tools/cpp/zeebo_lle_main.cpp\<close>, in its code hook
  of core 1, hands the packet that the modem's consumer is about to process to the dispatcher;
  \<open>qdsp5/qdsp5_capture_hook.h\<close> reports the same packet; \<open>qdsp5_doorbell_probe.h\<close> injects two packets at a
  doorbell when the operator asks for it. The end-to-end property follows a PLAY command from the bridge
  through guest memory and the hook to the mixer.
\<close>

section \<open>The capture hook\<close>

definition kDispatcherVA :: u32 where "kDispatcherVA = 0x16e8cba0"
definition kConsumerVA :: u32 where "kConsumerVA = 0x16e8cb96"
definition kAudmgrProg :: u32 where "kAudmgrProg = 0x30000013"
definition kAudmgrCb :: u32 where "kAudmgrCb = 0x31000013"
definition kAdspRtosAtom :: u32 where "kAdspRtosAtom = 0x3000000a"
definition kAdspRtosMtoa :: u32 where "kAdspRtosMtoa = 0x3000000b"
definition OFF_PROGRAM :: nat where "OFF_PROGRAM = 0x0C"
definition OFF_VERSION :: nat where "OFF_VERSION = 0x10"
definition OFF_PROCEDURE :: nat where "OFF_PROCEDURE = 0x14"
definition OFF_PAYLOAD :: nat where "OFF_PAYLOAD = 0x80"

record captured_rpc =
  cr_program :: u32
  cr_version :: u32
  cr_procedure :: u32
  cr_payload_off :: u32
  cr_is_audmgr :: bool

definition parse_packet :: "u8 list \<Rightarrow> captured_rpc" where
  "parse_packet pkt =
     (if length pkt < OFF_PAYLOAD
      then \<lparr>cr_program = 0, cr_version = 0, cr_procedure = 0, cr_payload_off = of_nat OFF_PAYLOAD, cr_is_audmgr = False\<rparr>
      else \<lparr>cr_program = rd32 pkt OFF_PROGRAM, cr_version = rd32 pkt OFF_VERSION, cr_procedure = rd32 pkt OFF_PROCEDURE,
            cr_payload_off = of_nat OFF_PAYLOAD, cr_is_audmgr = (rd32 pkt OFF_PROGRAM = kAudmgrProg)\<rparr>)"

definition audmgr_proc_name :: "u32 \<Rightarrow> string" where
  "audmgr_proc_name p =
     (if p = 0 then ''null''
      else if p = 1 then ''enable_client''
      else if p = 2 then ''disable_client''
      else if p = 3 then ''suspend_event_rsp''
      else if p = 4 then ''register_operation_listner''
      else if p = 5 then ''unregister_operation_listner''
      else if p = 6 then ''register_codec_listener''
      else if p = 7 then ''get_rx_sample_rate''
      else if p = 8 then ''get_tx_sample_rate''
      else if p = 9 then ''set_device_mode''
      else ''?'')"

definition svc_name :: "u32 \<Rightarrow> string" where
  "svc_name prog =
     (if prog = kAudmgrProg then ''AUDMGR''
      else if prog = kAudmgrCb then ''AUDMGRCB''
      else if prog = kAdspRtosAtom then ''ADSPRTOSATOM''
      else if prog = kAdspRtosMtoa then ''ADSPRTOSMTOA''
      else ''other'')"

text \<open>
  What a report prints: service, procedure name, the parsed fields, the length, and the first \<open>dump\<close> bytes
  of the payload.
\<close>

record capture_report =
  rp_rpc :: captured_rpc
  rp_svc :: string
  rp_name :: string
  rp_len :: nat
  rp_payload :: "u8 list"

definition report_capture :: "captured_rpc \<Rightarrow> u8 list \<Rightarrow> nat \<Rightarrow> capture_report" where
  "report_capture c pkt dump =
     \<lparr>rp_rpc = c, rp_svc = svc_name (cr_program c),
      rp_name = (if cr_is_audmgr c then audmgr_proc_name (cr_procedure c) else ''?''),
      rp_len = length pkt,
      rp_payload = (if length pkt > OFF_PAYLOAD then take dump (drop OFF_PAYLOAD pkt) else [])\<rparr>"

text \<open>The hook reads only; \<open>buf\<close> is what the uninitialised buffer on the stack held.\<close>

definition qdsp5_code_cb :: "'u uc_ops \<Rightarrow> 'u \<Rightarrow> u64 \<Rightarrow> u8 list \<Rightarrow> capture_report option" where
  "qdsp5_code_cb ops u address buf =
     (if address \<noteq> ucast kConsumerVA \<and> address \<noteq> ucast kDispatcherVA then None
      else
        let pkt_ptr = uc_reg_read ops u (UC_R 0)
        in if pkt_ptr = 0 then None
           else case uc_mem_read ops u (ucast pkt_ptr) buf of (e, buf) \<Rightarrow>
             if e \<noteq> UC_ERR_OK then None else Some (report_capture (parse_packet buf) buf 64))"

section \<open>The doorbell probe\<close>

text \<open>The value of the environment variable, if it is set.\<close>

definition rpc_probe_enabled :: "string option \<Rightarrow> bool" where
  "rpc_probe_enabled e = (e = Some ''1'')"

definition doorbell_maybe_inject :: "'u uc_ops \<Rightarrow> string option \<Rightarrow> 'u option \<times> u32 \<Rightarrow> 'u option \<times> u32" where
  "doorbell_maybe_inject ops env st =
     (if \<not> rpc_probe_enabled env then st
      else
        let dummy_payload = replicate 16 0x42;
            st = inject_packet ops 0x30000013 0x1b59 dummy_payload st
        in inject_packet ops 0x3000000a 0x02 dummy_payload st)"

section \<open>The feed of the dispatcher\<close>

text \<open>The reader of core 0 that the hook passes on; the pointer to the engine may be null.\<close>

definition core0_read :: "'u uc_ops \<Rightarrow> 'u option \<Rightarrow> guest" where
  "core0_read ops ctx va n =
     (case ctx of
        None \<Rightarrow> None
      | Some uc0 \<Rightarrow>
          (case uc_mem_read ops uc0 (ucast va) (replicate n 0) of (e, bs) \<Rightarrow> if e = UC_ERR_OK then Some bs else None))"

definition feed_dispatcher ::
    "'u uc_ops \<Rightarrow> 'v vol_ops \<Rightarrow> u64 \<Rightarrow> 'u \<Rightarrow> 'u option \<Rightarrow> 'v qdsp5 option \<Rightarrow> 'v qdsp5 option" where
  "feed_dispatcher ops vo ad u core0 disp =
     (case disp of
        None \<Rightarrow> None
      | Some q \<Rightarrow>
          if ad = 0x16e8cb96 \<or> ad = 0x16e8cba0 then
            let pkt_ptr = uc_reg_read ops u (UC_R 0)
            in if pkt_ptr = 0 then Some q
               else case uc_mem_read ops u (ucast pkt_ptr) (replicate 512 0) of (e, pkt_buf) \<Rightarrow>
                 if e \<noteq> UC_ERR_OK then Some q
                 else Some (snd (feed_raw vo (core0_read ops core0) (Some pkt_buf) (uc_reg_read ops u (UC_R 1)) q))
          else Some q)"

section \<open>Reading a queued packet\<close>

lemma core0_read_holds:
  assumes "uc_mem_ok ops mem" "holds (mem uc0) (unat ptr) bs"
  shows "core0_read ops (Some uc0) ptr (length bs) = Some bs"
proof -
  obtain e xs where r: "uc_mem_read ops uc0 (ucast ptr) (replicate (length bs) 0) = (e, xs)" by fastforce
  have "e = UC_ERR_OK" using mem_read_ok(1) [OF assms(1) r] holds_mapped [OF assms(2)] by simp
  moreover have "xs = bs" using read_bytes [OF assms, of "replicate (length bs) 0"] r by simp
  ultimately show ?thesis by (simp add: core0_read_def r)
qed

lemma core0_read_unmapped:
  assumes "uc_mem_ok ops mem" "\<not> mapped (mem uc0) (unat ptr) n"
  shows "core0_read ops (Some uc0) ptr n = None"
proof -
  obtain e xs where r: "uc_mem_read ops uc0 (ucast ptr) (replicate n 0) = (e, xs)" by fastforce
  show ?thesis using mem_read_ok(1) [OF assms(1) r] assms(2) by (simp add: core0_read_def r)
qed

text \<open>
  The first \<open>0x80 + n\<close> bytes of a slot are the packet: header, gap and payload, followed by whatever the slot
  holds behind it.
\<close>

lemma slot_read:
  assumes "uc_mem_ok ops mem" "modem_mapped (mem u)" "queue_holds (mem u) ps" "i < length ps" "length ps \<le> 800"
    and "ps ! i = (prog, procedure, payload)" "length buf = 0x80 + n" "length payload \<le> n" "n \<le> 0x380"
    and "uc_mem_read ops u (ucast (of_nat (slot i) :: u32)) buf = (e, p)"
  shows "e = UC_ERR_OK \<and> length p = 0x80 + n \<and> (\<exists>rest. packet_bytes p prog procedure (payload @ rest)) \<and> rd32 p 16 = 1"
proof -
  have i: "i < 800" using assms(4,5) by simp
  have un: "unat (ucast (of_nat (slot i) :: u32) :: u64) = slot i" using slot_words(1,4) [OF i] by simp
  have "mapped (mem u) (slot i) (0x80 + n)"
    using assms(2) unfolding modem_mapped_def
    by (rule mapped_sub) (use slot_words(6,7) [OF i] assms(9) in simp_all)
  then have e: "e = UC_ERR_OK" using mem_read_ok(1) [OF assms(1,10)] un assms(7) by simp
  have len: "length p = 0x80 + n" using mem_read_ok(2) [OF assms(1,10) e] assms(7) by simp
  have at: "mem u (slot i + j) = Some (p ! j)" if "j < 0x80 + n" for j
    using mem_read_ok(3) [OF assms(1,10) e, of j] that assms(7) un by simp
  let ?h = "oncrpc_packet_header (0x12345678 + of_nat i) prog procedure"
  have pk: "holds (mem u) (slot i) ?h" "holds (mem u) (slot i + 0x80) payload"
    using assms(3,4,6) by (auto simp: queue_holds_def packet_at_def)
  have h: "take 40 p = ?h"
  proof (rule nth_equalityI)
    fix j assume "j < length (take 40 p)"
    then have j: "j < 40" by simp
    then have "mem u (slot i + j) = Some (?h ! j)" using pk(1) by (simp add: holds_def)
    then show "take 40 p ! j = ?h ! j" using at [of j] j by simp
  qed (simp add: len)
  have "take (length payload) (drop 0x80 p) = payload"
  proof (rule nth_equalityI)
    fix j assume "j < length (take (length payload) (drop 0x80 p))"
    then have j: "j < length payload" by simp
    then have "mem u (slot i + 0x80 + j) = Some (payload ! j)" using pk(2) by (simp add: holds_def)
    then show "take (length payload) (drop 0x80 p) ! j = payload ! j" using at [of "0x80 + j"] j assms(8) len
      by (simp add: add.assoc)
  qed (use len assms(8) in simp)
  then have "drop 0x80 p = payload @ drop (length payload) (drop 0x80 p)" by (metis append_take_drop_id)
  then have pb: "packet_bytes p prog procedure (payload @ drop (length payload) (drop 0x80 p))"
    using h len unfolding packet_bytes_def by auto
  have "rd32 p 16 = rd32 (take 40 p) 16" by (simp add: rd32_def)
  then have "rd32 p 16 = 1" unfolding h by (simp add: oncrpc_packet_header_def rd32_skip [of _ 4])
  then show ?thesis using e len pb by blast
qed

lemma packet_fields:
  assumes "packet_bytes p prog procedure payload"
  shows "rd32 p 12 = prog" "rd32 p 20 = procedure"
proof -
  obtain xid where h: "take 40 p = oncrpc_packet_header xid prog procedure" using assms by (auto simp: packet_bytes_def)
  have tk: "rd32 p i = rd32 (take 40 p) i" if "i + 4 \<le> 40" for i using that by (simp add: rd32_def)
  show "rd32 p 12 = prog" "rd32 p 20 = procedure"
    using tk [of 12] tk [of 20] unfolding h by (simp_all add: oncrpc_packet_header_def rd32_skip [of _ 4])
qed

lemma slot_ptr: "i < 800 \<Longrightarrow> (of_nat (slot i) :: u32) \<noteq> 0"
  using slot_words(1,4,7) [of i] by (metis gr_implies_not0 le_zero_eq unat_0 zero_less_numeral)

text \<open>The report names the caller's program, version, procedure and payload.\<close>

lemma capture_reports_packet:
  assumes "uc_mem_ok ops mem" "modem_mapped (mem u)" "queue_holds (mem u) ps" "i < length ps" "length ps \<le> 800"
    and "ps ! i = (prog, procedure, payload)" "length buf = 0x80 + 64" "length payload \<le> 64"
    and "uc_reg_read ops u (UC_R 0) = of_nat (slot i)" "pc \<in> {ucast kConsumerVA, ucast kDispatcherVA}"
  shows "\<exists>r rest. qdsp5_code_cb ops u pc buf = Some r \<and> rp_svc r = svc_name prog \<and> rp_payload r = payload @ rest \<and>
    rp_rpc r = \<lparr>cr_program = prog, cr_version = 1, cr_procedure = procedure, cr_payload_off = 0x80, cr_is_audmgr = (prog = kAudmgrProg)\<rparr>"
proof -
  obtain e p where r: "uc_mem_read ops u (ucast (of_nat (slot i) :: u32)) buf = (e, p)" by fastforce
  obtain rest where s: "e = UC_ERR_OK" "length p = 0x80 + 64" "packet_bytes p prog procedure (payload @ rest)" "rd32 p 16 = 1"
    using slot_read [OF assms(1-8) _ r] by auto
  have "drop 0x80 p = payload @ rest" using s(3) by (simp add: packet_bytes_def)
  moreover have "(of_nat (slot i) :: u32) \<noteq> 0" using slot_ptr assms(4,5) by simp
  ultimately show ?thesis
    using assms(8-10) r s packet_fields [OF s(3)]
    by (auto simp: qdsp5_code_cb_def Let_def report_capture_def parse_packet_def OFF_PAYLOAD_def OFF_PROGRAM_def
        OFF_VERSION_def OFF_PROCEDURE_def)
qed

section \<open>The doorbell\<close>

text \<open>
  The doorbell leaves the modem's queue alone unless the operator opted in with exactly the documented
  value; then it appends the two liveness packets, in order, and counts them.
\<close>

theorem doorbell_probe_opt_in:
  assumes "uc_mem_ok ops mem" "modem_mapped (mem u)" "length ps < 799" "queue_holds (mem u) ps"
  shows "(env \<noteq> Some ''1'' \<longrightarrow> doorbell_maybe_inject ops env st = st) \<and>
    (\<exists>v. doorbell_maybe_inject ops (Some ''1'') (Some u, of_nat (length ps)) = (Some v, of_nat (length ps) + 2) \<and>
      queue_holds (mem v) (ps @ [(AUDMGR, kRpcSuccess, replicate 16 0x42), (ADSPRTOSATOM, 2, replicate 16 0x42)]))"
proof -
  let ?p = "replicate 16 (0x42 :: u8)"
  define v where "v = write_packet ops (of_nat (length ps)) 0x30000013 0x1b59 ?p u"
  have v: "modem_mapped (mem v)" "queue_holds (mem v) (ps @ [(0x30000013, 0x1b59, ?p)])"
    unfolding v_def using write_packet_appends(1,2) [OF assms(1,2) _ assms(4), of ?p] assms(3) by simp_all
  have n: "of_nat (length ps) + (1::u32) = of_nat (length (ps @ [(0x30000013::u32, 0x1b59::u32, ?p)]))" by simp
  define w where "w = write_packet ops (of_nat (length ps) + 1) 0x3000000a 2 ?p v"
  have "queue_holds (mem w) ((ps @ [(0x30000013, 0x1b59, ?p)]) @ [(0x3000000a, 2, ?p)])"
    unfolding w_def n by (rule write_packet_appends(2) [OF assms(1) v(1) _ v(2)]) (use assms(3) in simp_all)
  moreover have "doorbell_maybe_inject ops (Some ''1'') (Some u, of_nat (length ps)) = (Some w, of_nat (length ps) + 2)"
    by (simp add: doorbell_maybe_inject_def rpc_probe_enabled_def inject_packet_def v_def w_def Let_def add.commute)
  ultimately show ?thesis
    by (auto simp: doorbell_maybe_inject_def rpc_probe_enabled_def AUDMGR_def kRpcSuccess_def ADSPRTOSATOM_def)
qed

theorem doorbell_probe_opt_in_witness:
  "doorbell_maybe_inject flat_ops (Some ''off'') (Some modem_area, 0) = (Some modem_area, 0) \<and>
   (\<exists>v. doorbell_maybe_inject flat_ops (Some ''1'') (Some modem_area, 0) = (Some v, 2) \<and>
      queue_holds (paged_byte v) [(AUDMGR, kRpcSuccess, replicate 16 0x42), (ADSPRTOSATOM, 2, replicate 16 0x42)])"
  using doorbell_probe_opt_in [OF flat_mem_ok modem_area_ok(1) _ modem_area_ok(2), of "Some ''off''" "(Some modem_area, 0)"]
  by simp

section \<open>From the queue to the mixer\<close>

text \<open>
  C28: a PLAY command injected into the modem's queue is played. The queue has fewer than 800 packets, the
  command asks for at least one sample on at most two channels, the dispatcher has a completion callback and
  its mixer is well-formed (voices numbered in order, volumes finite). The bridge appends the packet; when the
  modem's consumer then runs with the slot of that packet in \<open>r0\<close>, the hook passes it to the dispatcher. If
  core 0 has a buffer of at most 4 MiB at the address in the command, exactly one voice changes: it is active
  and carries the samples of that buffer in order, from the start, at the requested rate, channels and volume,
  and the completion signal goes once to the caller in \<open>r1\<close>. This holds in every state of the host-PCM
  session, also before any configuration (the comment at \<open>audpp_engine.cpp:33\<close> says such a PLAY is refused;
  the code opens the session instead). If part of the buffer is not mapped, or the size is above the limit,
  the DSP does not change.
\<close>

theorem injected_play_is_heard:
  assumes "uc_mem_ok ops mem" "modem_mapped (mem u)" "length ps < 800" "queue_holds (mem u) ps"
    and "inject_packet ops prog procedure (play_payload ptr n rate ch vol) (Some u, of_nat (length ps)) = (Some v, m)"
    and "mem w = mem v" "uc_reg_read ops w (UC_R 0) = of_nat (slot (length ps))" "pc \<in> {0x16e8cb96, 0x16e8cba0}"
    and "prog \<in> {ADSPRTOSATOM, AUDMGR}" "mixer_ok vo q" "ch \<le> 2" "n div 2 \<noteq> 0"
  shows "(\<forall>bs. n \<le> kMaxPcmBytes \<and> length bs = unat (n div 2 * 2) \<and> holds (mem core0) (unat ptr) bs \<longrightarrow>
      (\<exists>r q'. feed_dispatcher ops vo pc w (Some core0) (Some q) = Some q' \<and>
        plays vo q (uc_reg_read ops w (UC_R 1)) rate ch vol (samples_of bs) (r, q'))) \<and>
    (n > kMaxPcmBytes \<or> \<not> mapped (mem core0) (unat ptr) (unat (n div 2 * 2)) \<longrightarrow>
      feed_dispatcher ops vo pc w (Some core0) (Some q) = Some q)"
proof -
  let ?pl = "play_payload ptr n rate ch vol" and ?i = "length ps" and ?tcb = "uc_reg_read ops w (UC_R 1)"
  let ?rd = "core0_read ops (Some core0)"
  have len: "length ?pl = 24" by (simp add: play_payload_def)
  have "v = write_packet ops (of_nat ?i) prog procedure ?pl u" using assms(5) by (simp add: inject_packet_def)
  then have q: "modem_mapped (mem w)" "queue_holds (mem w) (ps @ [(prog, procedure, ?pl)])"
    using write_packet_appends(1,2) [OF assms(1-4), of ?pl] len assms(6) by simp_all
  obtain e p where r: "uc_mem_read ops w (ucast (of_nat (slot ?i) :: u32)) (replicate 512 0) = (e, p)" by fastforce
  have "e = UC_ERR_OK \<and> length p = 0x80 + 384 \<and> (\<exists>rest. packet_bytes p prog procedure (?pl @ rest)) \<and> rd32 p 16 = 1"
    by (rule slot_read [OF assms(1) q _ _ _ _ _ _ r]) (use assms(3) len in simp_all)
  then obtain rest where p: "e = UC_ERR_OK" "length p = 512" "packet_bytes p prog procedure (?pl @ rest)" by auto
  have "length rest \<le> 0x400" using p(2,3) len by (auto simp: packet_bytes_def dest!: arg_cong [where f = length])
  note pp = play_packet_plays [OF p(3) this assms(9-11)]
  have f: "feed_dispatcher ops vo pc w (Some core0) (Some q) = Some (snd (feed_raw vo ?rd (Some p) ?tcb q))"
    using assms(7,8) r p(1) slot_ptr [OF assms(3)] by (auto simp: feed_dispatcher_def Let_def)
  show ?thesis
  proof (intro conjI allI impI)
    fix bs assume b: "n \<le> kMaxPcmBytes \<and> length bs = unat (n div 2 * 2) \<and> holds (mem core0) (unat ptr) bs"
    then have "?rd ptr (unat (n div 2 * 2)) = Some bs" using core0_read_holds [OF assms(1), of core0 ptr bs] by simp
    then have "plays vo q ?tcb rate ch vol (samples_of bs) (feed_raw vo ?rd (Some p) ?tcb q)" using pp(1) b assms(12) by blast
    then show "\<exists>r q'. feed_dispatcher ops vo pc w (Some core0) (Some q) = Some q' \<and> plays vo q ?tcb rate ch vol (samples_of bs) (r, q')"
      unfolding f by (metis prod.collapse)
  next
    assume "n > kMaxPcmBytes \<or> \<not> mapped (mem core0) (unat ptr) (unat (n div 2 * 2))"
    then have "n > kMaxPcmBytes \<or> ?rd ptr (unat (n div 2 * 2)) = None \<and> n div 2 \<noteq> 0"
      using core0_read_unmapped [OF assms(1)] assms(12) by blast
    then have "feed_raw vo ?rd (Some p) ?tcb q = (reply_init, q)" by (rule pp(2))
    then show "feed_dispatcher ops vo pc w (Some core0) (Some q) = Some q" unfolding f by simp
  qed
qed

text \<open>Core 0 with two samples at 0x5000; core 1 with the slot of the first packet in its registers.\<close>

definition two_samples :: paged where
  "two_samples = ([5], (\<lambda>k. if k = 0x5000 then 1 else if k = 0x5002 then 2 else 0), 0)"

lemma two_samples_hold: "holds (paged_byte two_samples) 0x5000 [1, 0, 2, 0]"
proof -
  have "paged_byte two_samples k = Some (if k = 0x5000 then 1 else if k = 0x5002 then 2 else 0)" if "k div 4096 = 5" for k
    using that by (simp add: two_samples_def paged_byte_def)
  then have "paged_byte two_samples 0x5000 = Some 1" "paged_byte two_samples 0x5001 = Some 0"
      "paged_byte two_samples 0x5002 = Some 2" "paged_byte two_samples 0x5003 = Some 0"
    by simp_all
  moreover have "(\<forall>i < 4. P i) \<longleftrightarrow> P 0 \<and> P 1 \<and> P 2 \<and> P (3::nat)" for P
    by (auto simp: numeral_eq_Suc less_Suc_eq)
  moreover have "length [1, 0, 2, 0 :: u8] = 4" by simp
  ultimately show ?thesis unfolding holds_def by (simp only: nth_Cons_0) simp
qed

theorem injected_play_is_heard_witness:
  "\<exists>v r q'. inject_packet flat_ops ADSPRTOSATOM 1 (play_payload 0x5000 4 22050 1 0) (Some modem_area, 0) = (Some v, 1) \<and>
     feed_dispatcher flat_ops fixed_vol 0x16e8cb96 (fst v, fst (snd v), 0x177f2000) (Some two_samples) (Some (qdsp5_init True)) = Some q' \<and>
     plays fixed_vol (qdsp5_init True) 0x177f2000 22050 1 0 [1, 2] (r, q')"
proof -
  let ?q = "qdsp5_init True :: u32 qdsp5"
  define v where "v = write_packet flat_ops 0 ADSPRTOSATOM 1 (play_payload 0x5000 4 22050 1 0) modem_area"
  have i: "inject_packet flat_ops ADSPRTOSATOM 1 (play_payload 0x5000 4 22050 1 0) (Some modem_area, 0) = (Some v, 1)"
    by (simp add: inject_packet_def v_def)
  have m: "mixer_ok fixed_vol ?q" by (simp add: mixer_ok_def fixed_vol_def qdsp5_init_def audpp_init_def voices_ok_def)
  have w: "paged_byte (fst v, fst (snd v), 0x177f2000) = paged_byte v" by (auto simp: paged_byte_def split: prod.split)
  have r: "uc_reg_read flat_ops (fst v, fst (snd v), 0x177f2000) x = 0x177f2000" for x by (simp add: flat_ops_def)
  have b: "(4::u32) \<le> kMaxPcmBytes \<and> length [1, 0, 2, 0 :: u8] = unat ((4::u32) div 2 * 2) \<and>
      holds (paged_byte two_samples) (unat (0x5000 :: u32)) [1, 0, 2, 0]"
    using two_samples_hold by (simp add: kMaxPcmBytes_def)
  note t = injected_play_is_heard [OF flat_mem_ok modem_area_ok(1) _ modem_area_ok(2), of ADSPRTOSATOM 1 "0x5000" 4 22050 1 0 v 1
      "(fst v, fst (snd v), 0x177f2000)" "0x16e8cb96" fixed_vol ?q two_samples]
  have i0: "inject_packet flat_ops ADSPRTOSATOM 1 (play_payload 0x5000 4 22050 1 0)
      (Some modem_area, of_nat (length ([] :: packet list))) = (Some v, 1)"
    using i by simp
  have r0: "uc_reg_read flat_ops (fst v, fst (snd v), 0x177f2000) (UC_R 0) = of_nat (slot (length ([] :: packet list)))"
    by (simp add: r slot_def)
  have d: "(4 :: u32) div 2 \<noteq> 0" by simp
  have c: "(0x16e8cb96 :: u64) \<in> {0x16e8cb96, 0x16e8cba0}" "ADSPRTOSATOM \<in> {ADSPRTOSATOM, AUDMGR}" "(1 :: u32) \<le> 2" "length ([] :: packet list) < 800"
    by simp_all
  have "\<exists>r q'. feed_dispatcher flat_ops fixed_vol 0x16e8cb96 (fst v, fst (snd v), 0x177f2000) (Some two_samples) (Some ?q) = Some q' \<and>
      plays fixed_vol ?q (uc_reg_read flat_ops (fst v, fst (snd v), 0x177f2000) (UC_R 1)) 22050 1 0 (samples_of [1, 0, 2, 0]) (r, q')"
    by (rule t [OF c(4) i0 w r0 c(1,2) m c(3) d, THEN conjunct1, rule_format, OF b])
  then show ?thesis using i r by auto
qed

end
