(* ===== verification/Elf_Loader.thy ===== *)
theory Elf_Loader
  imports Partition_Read
begin

text \<open>
  The two ELF readers. \<open>tools/cpp/zeebo_nand_relocator.cpp\<close> reads the first page of the modem image
  through the data mover and lists the loadable segments of its program header table;
  \<open>tools/cpp/zeebo_elf.cpp\<close> parses an ELF image and writes its loadable segments to guest memory, at
  their virtual addresses or at the physical addresses of the console's memory map. Both take every
  header field from the file, so the reads are partial (\<open>None\<close> for a read outside the buffer) and are
  proved never to leave it.
\<close>

definition ELF_MAGIC :: u32 where "ELF_MAGIC = 0x464C457F"

record phdr =
  p_type :: u32
  p_off :: u32
  p_vaddr :: u32
  p_paddr :: u32
  p_filesz :: u32
  p_memsz :: u32

definition phdr_at :: "u8 list \<Rightarrow> nat \<Rightarrow> phdr option" where
  "phdr_at d i = do {
     t \<leftarrow> at32 d i; off \<leftarrow> at32 d (i + 4); va \<leftarrow> at32 d (i + 8); pa \<leftarrow> at32 d (i + 12);
     fs \<leftarrow> at32 d (i + 16); ms \<leftarrow> at32 d (i + 20);
     Some \<lparr>p_type = t, p_off = off, p_vaddr = va, p_paddr = pa, p_filesz = fs, p_memsz = ms\<rparr> }"

section \<open>The relocator\<close>

definition kPhdrMin :: nat where "kPhdrMin = 32"
definition kPageBytes :: nat where "kPageBytes = 2048"

text \<open>The page read of the relocator has the statements of the one of the partition reader.\<close>

definition dmov_read_page :: "'u uc_ops \<Rightarrow> u32 \<Rightarrow> u32 \<Rightarrow> 'u dmov \<Rightarrow> 'u dmov" where
  "dmov_read_page = read_page"

datatype reloc_result = NotElf u32 | TableRefused u32 | LoadSegments u32 "phdr list"

text \<open>The loop over the table; \<open>left\<close> entries are left from entry \<open>i\<close> on.\<close>

fun list_segments :: "u8 list \<Rightarrow> nat \<Rightarrow> nat \<Rightarrow> nat \<Rightarrow> phdr list option" where
  "list_segments tab phent 0 i = Some []"
| "list_segments tab phent (Suc left) i =
     (let o' = i * phent
      in if o' + kPhdrMin > length tab then Some []
         else do { ph \<leftarrow> phdr_at tab o';
                   rest \<leftarrow> list_segments tab phent left (Suc i);
                   Some (if p_type ph = 1 then ph # rest else rest) })"

text \<open>\<open>hdr\<close> is what the uninitialised header buffer on the stack held; \<open>tab\<close> is zeroed by its constructor.\<close>

definition relocate :: "'u uc_ops \<Rightarrow> u8 list \<Rightarrow> 'u dmov \<Rightarrow> reloc_result option" where
  "relocate ops hdr s =
     (let start_page = 0x012 * 64;
          s = dmov_read_page ops start_page PR_DEST s;
          hdr = snd (uc_mem_read ops (dm_uc s) (ucast PR_DEST) hdr)
      in do {
        magic \<leftarrow> at32 hdr 0;
        if magic \<noteq> ELF_MAGIC then Some (NotElf magic)
        else do {
          entry \<leftarrow> at32 hdr 24; phoff \<leftarrow> at32 hdr 28; phent \<leftarrow> at16 hdr 42; phnum \<leftarrow> at16 hdr 44;
          let table_bytes = unat phent * unat phnum;
              phdr_ok = (unat phent \<ge> kPhdrMin);
              phdr_ok = (phdr_ok \<and> \<not> (unat phoff > kPageBytes \<or> table_bytes > kPageBytes - unat phoff))
          in if \<not> phdr_ok then Some (TableRefused entry)
             else let phtab = snd (uc_mem_read ops (dm_uc s) (ucast (PR_DEST + phoff)) (replicate table_bytes 0))
                  in map_option (LoadSegments entry) (list_segments phtab (unat phent) (unat phnum) 0) } })"

section \<open>The image loader\<close>

definition kMaxSegBytes :: nat where "kMaxSegBytes = 64 * 1024 * 1024"

definition arm11_sections :: "(u32 \<times> u32) list" where
  "arm11_sections =
     [(0xf0000000, 0x10000000), (0xf4000000, 0x10000000), (0xf0100000, 0x10100000),
      (0xc5300000, 0xc0000000), (0xc5400000, 0xc0100000), (0xc1d00000, 0xaa600000),
      (0xc2a00000, 0xa9700000), (0xc2f00000, 0xa9200000), (0xc3200000, 0xa8600000),
      (0x10200000, 0x10200000), (0x10300000, 0x10300000), (0x10400000, 0x10400000),
      (0x10500000, 0x10500000), (0x10600000, 0x10600000), (0x10700000, 0x10700000),
      (0x10a00000, 0x10a00000), (0x11000000, 0x11000000), (0x13000000, 0x13000000),
      (0x14000000, 0x14000000), (0x15600000, 0x15600000), (0x16a00000, 0x16a00000)]"

definition arm11_coarse :: "(u32 \<times> u32) list" where
  "arm11_coarse =
     [(0xb0100000, 0x100a3800), (0xb0400000, 0x100afc00), (0xb0d00000, 0x100a3400), (0xb0e00000, 0x100a3c00),
      (0x10100000, 0x100ad400), (0x11400000, 0x100adc00), (0xe0000000, 0x10090800), (0xff000000, 0x10090000),
      (0xfff00000, 0x10095800)]"

definition gSec :: "u32 \<rightharpoonup> u32" where
  "gSec = foldl (\<lambda>m (va, pa). m(drop_bit 20 va \<mapsto> drop_bit 20 pa * 0x100000)) Map.empty arm11_sections"

definition gCoa :: "u32 \<rightharpoonup> u32" where
  "gCoa = foldl (\<lambda>m (va, pa). m(drop_bit 12 va \<mapsto> pa)) Map.empty arm11_coarse"

definition va2pa :: "u32 \<Rightarrow> u32" where
  "va2pa va =
     (case gCoa (drop_bit 12 va) of
        Some p \<Rightarrow> p + (va AND 0xFFF)
      | None \<Rightarrow>
          (case gSec (drop_bit 20 va) of
             Some s \<Rightarrow> s + (va AND 0xFFFFF)
           | None \<Rightarrow> va))"

text \<open>
  One program header: \<open>None\<close> inside for a header that is skipped, otherwise the address and the bytes of
  the segment. The outer option is \<open>None\<close> for a read outside the file.
\<close>

definition segment_of :: "u8 list \<Rightarrow> bool \<Rightarrow> nat \<Rightarrow> (u32 \<times> u8 list) option option" where
  "segment_of d physical i =
     (if i + 32 > length d then Some None
      else do {
        ph \<leftarrow> phdr_at d i;
        if p_type ph \<noteq> 1 then Some None
        else
          let lmap = (if physical then va2pa (p_vaddr ph) else p_vaddr ph);
              nmem = unat (if p_memsz ph \<noteq> 0 then p_memsz ph else p_filesz ph)
          in if nmem = 0 then Some None
             else if nmem > kMaxSegBytes then Some None
             else if p_filesz ph = 0 then Some (Some (lmap, replicate nmem 0))
             else if unat (p_off ph) > length d then Some None
             else
               let avail = length d - unat (p_off ph);
                   cl = min (unat (p_filesz ph)) (min nmem avail)
               in do { bs \<leftarrow> bytes_at d (unat (p_off ph)) cl; Some (Some (lmap, bs @ replicate (nmem - cl) 0)) } })"

fun load_segments :: "'u uc_ops \<Rightarrow> u8 list \<Rightarrow> bool \<Rightarrow> nat \<Rightarrow> nat \<Rightarrow> nat \<Rightarrow> nat \<Rightarrow> 'u \<Rightarrow> (nat \<times> 'u) option" where
  "load_segments ops d physical phoff phent 0 i u = Some (0, u)"
| "load_segments ops d physical phoff phent (Suc left) i u =
     do {
       seg \<leftarrow> segment_of d physical (phoff + i * phent);
       case seg of
         None \<Rightarrow> load_segments ops d physical phoff phent left (Suc i) u
       | Some (lmap, bs) \<Rightarrow>
           do { (loads, u) \<leftarrow> load_segments ops d physical phoff phent left (Suc i)
                               (snd (uc_mem_write ops u (ucast lmap) bs));
                Some (Suc loads, u) } }"

text \<open>The guest memory the loader maps; the results of the calls are not looked at.\<close>

definition elf_ram :: "(u64 \<times> u64) list" where
  "elf_ram =
     [(0x00000000, 0x00800000), (0x00a00000, 0x00600000), (0x01000000, 0x01000000), (0x00c00000, 0x00400000),
      (0xff000000, 0x00400000), (0xb0000000, 0x10000), (0xc0000000, 0x10000), (0xa0a00000, 0x10000), (0xa9a00000, 0x10000)]"

definition map_ram :: "'u uc_ops \<Rightarrow> 'u \<Rightarrow> 'u" where
  "map_ram ops u = foldl (\<lambda>u (a, n). snd (uc_mem_map ops u a n 7)) u elf_ram"

text \<open>The result is \<open>Inl ()\<close> for a file that is not an ELF image, else the entry and the number of loaded segments.\<close>

definition load_elf :: "'u uc_ops \<Rightarrow> u8 list \<Rightarrow> bool \<Rightarrow> 'u \<Rightarrow> (unit + u32 \<times> nat \<times> 'u) option" where
  "load_elf ops d physical u =
     (if length d < 52 then Some (Inl ())
      else do {
        magic \<leftarrow> at32 d 0;
        if magic \<noteq> ELF_MAGIC then Some (Inl ())
        else do {
          entry \<leftarrow> at32 d 24; phoff \<leftarrow> at32 d 28; phent \<leftarrow> at16 d 42; phnum \<leftarrow> at16 d 44;
          (loads, u) \<leftarrow> load_segments ops d physical (unat phoff) (unat phent) (unat phnum) 0 (map_ram ops u);
          Some (Inr (entry, loads, u)) } })"

section \<open>Program headers\<close>

definition rd16 :: "u8 list \<Rightarrow> nat \<Rightarrow> u16" where
  "rd16 d i = ucast (d ! i) OR push_bit 8 (ucast (d ! (i + 1)))"

definition phdr_in :: "u8 list \<Rightarrow> nat \<Rightarrow> phdr" where
  "phdr_in d i = \<lparr>p_type = rd32 d i, p_off = rd32 d (i + 4), p_vaddr = rd32 d (i + 8), p_paddr = rd32 d (i + 12),
     p_filesz = rd32 d (i + 16), p_memsz = rd32 d (i + 20)\<rparr>"

lemma at16_Some [simp]: "i + 2 \<le> length d \<Longrightarrow> at16 d i = Some (rd16 d i)"
  by (simp add: at16_def rd16_def)

lemma phdr_at_Some [simp]: "i + 24 \<le> length d \<Longrightarrow> phdr_at d i = Some (phdr_in d i)"
  by (simp add: phdr_at_def phdr_in_def)

lemma slice_reads:
  assumes "k + n \<le> length d"
  shows "i + 4 \<le> n \<Longrightarrow> rd32 (take n (drop k d)) i = rd32 d (k + i)"
    "i + 2 \<le> n \<Longrightarrow> rd16 (take n (drop k d)) i = rd16 d (k + i)"
    "i + 24 \<le> n \<Longrightarrow> phdr_in (take n (drop k d)) i = phdr_in d (k + i)"
  using assms by (simp_all add: rd32_def rd16_def phdr_in_def ac_simps)

lemma holds_slice: "holds m a bs \<Longrightarrow> k + n \<le> length bs \<Longrightarrow> holds m (a + k) (take n (drop k bs))"
  by (auto simp: holds_def add.assoc)

lemma list_segments_all:
  assumes "length tab = phent * phnum" "kPhdrMin \<le> phent" "i + left \<le> phnum"
  shows "list_segments tab phent left i =
    Some (filter (\<lambda>ph. p_type ph = 1) (map (\<lambda>k. phdr_in tab (k * phent)) [i..<i + left]))"
  using assms(3)
proof (induction left arbitrary: i)
  case (Suc left)
  have "Suc i * phent \<le> phnum * phent" using Suc.prems by (intro mult_le_mono1) simp
  then have fits: "i * phent + 32 \<le> length tab" using assms(1,2) by (simp add: kPhdrMin_def mult.commute)
  have "[i..<i + Suc left] = i # [Suc i..<Suc i + left]" by (simp add: upt_conv_Cons)
  then show ?case using fits Suc by (simp add: kPhdrMin_def)
qed simp

section \<open>The segments of the modem image\<close>

text \<open>What a page says when it is read as the start of an ELF image.\<close>

definition elf_page :: "u8 list \<Rightarrow> reloc_result" where
  "elf_page pg =
     (let entry = rd32 pg 24; phoff = unat (rd32 pg 28); phent = unat (rd16 pg 42); phnum = unat (rd16 pg 44)
      in if rd32 pg 0 \<noteq> ELF_MAGIC then NotElf (rd32 pg 0)
         else if phent < 32 \<or> phoff + phent * phnum > 2048 then TableRefused entry
         else LoadSegments entry (filter (\<lambda>ph. p_type ph = 1) (map (\<lambda>k. phdr_in pg (phoff + k * phent)) [0..<phnum])))"

text \<open>
  The relocator lists the segments that the flash holds. On an engine and a controller as for the
  partition reader, over a dump that contains page 0x480, the result is what the bytes of that page say:
  the magic when it is not an ELF image, a refusal when the entries of the header table are too short or
  the table leaves the page, and otherwise the entry point and exactly the loadable entries of the table,
  in order. No read leaves the header buffer or the table, whatever the page contains.
\<close>

theorem relocator_lists_segments:
  assumes "uc_mem_ok ops mem" "reader_ok mem raw s" "length raw \<le> 2 ^ 32" "0x480 < length raw div PAGE_DATA"
    "length hdr = 52"
  shows "relocate ops hdr s = Some (elf_page (raw_page raw 0x480))"
proof -
  let ?pg = "raw_page raw 0x480" and ?s = "read_page ops 0x480 PR_DEST s"
  have len: "length ?pg = 2048" using assms(4) by (rule length_raw_page)
  have m: "holds (mem (dm_uc ?s)) 0x10000000 ?pg"
    using read_page_dest(1) [OF assms(1-3), of "0x480"] assms(4) by simp
  have rd: "snd (uc_mem_read ops (dm_uc ?s) (ucast (PR_DEST + off)) buf) = take n (drop (unat off) ?pg)"
    if "unat off + n \<le> 2048" "length buf = n" for off buf n
  proof -
    have "unat (PR_DEST + off) = 0x10000000 + unat off"
      using that(1) by (simp add: PR_DEST_def unat_word_ariths)
    then show ?thesis using holds_slice [OF m, of "unat off" n] that len
      by (intro read_bytes [OF assms(1)]) simp_all
  qed
  have hdr: "snd (uc_mem_read ops (dm_uc ?s) (ucast PR_DEST) hdr) = take 52 ?pg"
    using rd [of 0 52 hdr] assms(5) by simp
  note h = slice_reads [of 0 52 ?pg, simplified]
  let ?off = "rd32 ?pg 28" and ?ent = "unat (rd16 ?pg 42)" and ?num = "unat (rd16 ?pg 44)"
  have tab: "list_segments (snd (uc_mem_read ops (dm_uc ?s) (ucast (PR_DEST + ?off)) (replicate (?ent * ?num) 0))) ?ent ?num 0 =
      Some (filter (\<lambda>ph. p_type ph = 1) (map (\<lambda>k. phdr_in ?pg (unat ?off + k * ?ent)) [0..<?num]))"
    if "32 \<le> ?ent" "unat ?off + ?ent * ?num \<le> 2048"
  proof -
    have "phdr_in (take (?ent * ?num) (drop (unat ?off) ?pg)) (k * ?ent) = phdr_in ?pg (unat ?off + k * ?ent)"
      if "k < ?num" for k
    proof -
      have "Suc k * ?ent \<le> ?num * ?ent" using that by (intro mult_le_mono1) simp
      then have "k * ?ent + 24 \<le> ?ent * ?num" using \<open>32 \<le> ?ent\<close> by (simp add: mult.commute)
      then show ?thesis using that \<open>unat ?off + _ \<le> 2048\<close> len by (intro slice_reads(3)) simp_all
    qed
    then have mp: "map (\<lambda>k. phdr_in (take (?ent * ?num) (drop (unat ?off) ?pg)) (k * ?ent)) [0..<?num] =
        map (\<lambda>k. phdr_in ?pg (unat ?off + k * ?ent)) [0..<?num]"
      by (intro map_cong) simp_all
    have "list_segments (take (?ent * ?num) (drop (unat ?off) ?pg)) ?ent ?num 0 = Some (filter (\<lambda>ph. p_type ph = 1)
        (map (\<lambda>k. phdr_in (take (?ent * ?num) (drop (unat ?off) ?pg)) (k * ?ent)) [0..<0 + ?num]))"
      using that len by (intro list_segments_all [where phnum = ?num]) (simp_all add: kPhdrMin_def)
    moreover have "snd (uc_mem_read ops (dm_uc ?s) (ucast (PR_DEST + ?off)) (replicate (?ent * ?num) 0)) =
        take (?ent * ?num) (drop (unat ?off) ?pg)"
      using that(2) by (intro rd) simp_all
    ultimately show ?thesis by (simp only: add_0 mp)
  qed
  show ?thesis
    using tab len
    by (auto simp: relocate_def dmov_read_page_def elf_page_def hdr h Let_def kPhdrMin_def kPageBytes_def)
qed

definition demo_elf :: "u8 list" where
  "demo_elf = [0x7f, 0x45, 0x4c, 0x46] @ replicate 20 0 @ le32_bytes 0x8000 @ le32_bytes 52 @ replicate 10 0 @
     [32, 0, 1, 0] @ replicate 6 0 @ concat (map le32_bytes [1, 84, 0x3000, 0x3000, 4, 8, 0, 0]) @ [1, 2, 3, 4]"

theorem relocator_lists_segments_witness:
  "relocate flat_ops (replicate 52 0)
     (dmov_new reader_engine (nand_new (replicate 0x240000 0 @ demo_elf @ replicate 1960 0) None 0)) =
   Some (LoadSegments 0x8000 [\<lparr>p_type = 1, p_off = 84, p_vaddr = 0x3000, p_paddr = 0x3000, p_filesz = 4, p_memsz = 8\<rparr>])"
proof -
  let ?raw = "replicate 0x240000 0 @ demo_elf @ replicate 1960 0"
  have len: "length demo_elf = 88" by (simp add: demo_elf_def)
  then have pg: "raw_page ?raw 0x480 = demo_elf @ replicate 1960 0"
    by (simp add: raw_page_def PAGE_DATA_def)
  have rd: "elf_page (demo_elf @ replicate 1960 0) =
      LoadSegments 0x8000 [\<lparr>p_type = 1, p_off = 84, p_vaddr = 0x3000, p_paddr = 0x3000, p_filesz = 4, p_memsz = 8\<rparr>]"
    by code_simp
  show ?thesis
    using relocator_lists_segments [OF flat_mem_ok reader_engine_ok, of ?raw "replicate 52 0"] len
    unfolding pg rd by (simp add: PAGE_DATA_def)
qed

section \<open>Loading an image\<close>

text \<open>The address and the bytes a loadable header asks for.\<close>

definition target :: "bool \<Rightarrow> phdr \<Rightarrow> u32" where
  "target physical ph = (if physical then va2pa (p_vaddr ph) else p_vaddr ph)"

definition seg_image :: "u8 list \<Rightarrow> phdr \<Rightarrow> u8 list" where
  "seg_image d ph = take (unat (p_filesz ph)) (drop (unat (p_off ph)) d) @ replicate (unat (p_memsz ph) - unat (p_filesz ph)) 0"

text \<open>A header whose segment lies in the file and is of a size the loader accepts.\<close>

definition sound :: "u8 list \<Rightarrow> phdr \<Rightarrow> bool" where
  "sound d ph \<longleftrightarrow> 0 < unat (p_memsz ph) \<and> unat (p_memsz ph) \<le> kMaxSegBytes \<and> unat (p_filesz ph) \<le> unat (p_memsz ph) \<and>
     unat (p_off ph) + unat (p_filesz ph) \<le> length d"

lemma length_seg_image: "sound d ph \<Longrightarrow> length (seg_image d ph) = unat (p_memsz ph)"
  by (auto simp: sound_def seg_image_def min_def)

lemma segment_of_total: "segment_of d physical i \<noteq> None"
proof -
  have "bytes_at d (unat off) (min k (min n (length d - unat off))) \<noteq> None" if "\<not> unat off > length d" for off :: u32 and k n
    using that by (simp add: bytes_at_def)
  then show ?thesis
    by (auto simp: segment_of_def Let_def split: if_splits option.splits)
qed

lemma segment_of_header:
  assumes "i + 32 \<le> length d"
  shows "p_type (phdr_in d i) \<noteq> 1 \<Longrightarrow> segment_of d physical i = Some None"
    "p_type (phdr_in d i) = 1 \<Longrightarrow> sound d (phdr_in d i) \<Longrightarrow>
       segment_of d physical i = Some (Some (target physical (phdr_in d i), seg_image d (phdr_in d i)))"
  using assms by (auto simp: segment_of_def sound_def target_def seg_image_def Let_def bytes_at_def min_def unat_eq_zero)

lemma load_segments_total: "load_segments ops d physical phoff phent left i u \<noteq> None"
proof (induction left arbitrary: i u)
  case (Suc left)
  obtain seg where "segment_of d physical (phoff + i * phent) = Some seg" using segment_of_total by blast
  then show ?case
  proof (cases seg)
    case (Some p)
    let ?u = "snd (uc_mem_write ops u (ucast (fst p)) (snd p))"
    obtain n v where "load_segments ops d physical phoff phent left (Suc i) ?u = Some (n, v)"
      using Suc [of "Suc i" ?u] by auto
    then show ?thesis using \<open>segment_of d physical _ = _\<close> by (auto simp: Some split: prod.split)
  qed (use Suc in simp)
qed simp

text \<open>Writing chunks one after the other.\<close>

definition overlays :: "(nat \<Rightarrow> u8 option) \<Rightarrow> (nat \<times> u8 list) list \<Rightarrow> nat \<Rightarrow> u8 option" where
  "overlays m cs = foldl (\<lambda>m (a, bs). overlay m a bs) m cs"

definition apart :: "nat \<times> u8 list \<Rightarrow> nat \<times> u8 list \<Rightarrow> bool" where
  "apart c c' \<longleftrightarrow> fst c + length (snd c) \<le> fst c' \<or> fst c' + length (snd c') \<le> fst c"

lemma overlays_Cons: "overlays m ((a, bs) # cs) = overlays (overlay m a bs) cs"
  by (simp add: overlays_def)

lemma overlays_outside: "\<forall>c \<in> set cs. \<not> (fst c \<le> k \<and> k < fst c + length (snd c)) \<Longrightarrow> overlays m cs k = m k"
proof (induction cs arbitrary: m)
  case (Cons c cs)
  obtain a bs where c: "c = (a, bs)" by (cases c)
  show ?case using Cons unfolding c overlays_Cons by (auto simp: overlay_def)
qed (simp add: overlays_def)

lemma overlays_hold: "sorted_wrt apart cs \<Longrightarrow> (a, bs) \<in> set cs \<Longrightarrow> holds (overlays m cs) a bs"
proof (induction cs arbitrary: m)
  case (Cons c cs)
  obtain b xs where c: "c = (b, xs)" by (cases c)
  show ?case
  proof (cases "(a, bs) \<in> set cs")
    case True
    then show ?thesis using Cons unfolding c overlays_Cons by simp
  next
    case False
    then have e: "b = a" "xs = bs" using Cons.prems(2) c by auto
    have "overlays (overlay m a bs) cs (a + i) = overlay m a bs (a + i)" if "i < length bs" for i
      using Cons.prems(1) that unfolding c e by (intro overlays_outside) (auto simp: apart_def)
    then show ?thesis unfolding c e overlays_Cons holds_def by (simp add: overlay_def)
  qed
qed simp

definition loads :: "u8 list \<Rightarrow> nat \<Rightarrow> nat \<Rightarrow> nat \<Rightarrow> nat \<Rightarrow> phdr list" where
  "loads d phoff phent i n = filter (\<lambda>ph. p_type ph = 1) (map (\<lambda>k. phdr_in d (phoff + k * phent)) [i..<i + n])"

definition chunk :: "bool \<Rightarrow> u8 list \<Rightarrow> phdr \<Rightarrow> nat \<times> u8 list" where
  "chunk physical d ph = (unat (target physical ph), seg_image d ph)"

lemma loads_Suc:
  "loads d phoff phent i (Suc n) =
     (if p_type (phdr_in d (phoff + i * phent)) = 1 then phdr_in d (phoff + i * phent) # loads d phoff phent (Suc i) n
      else loads d phoff phent (Suc i) n)"
proof -
  have "[i..<i + Suc n] = i # [Suc i..<Suc i + n]" by (simp add: upt_conv_Cons)
  then show ?thesis by (simp add: loads_def)
qed

lemma load_segments_effect:
  assumes "uc_mem_ok ops mem"
    and "\<forall>k < i + n. phoff + k * phent + 32 \<le> length d"
    and "\<forall>ph \<in> set (loads d phoff phent i n). sound d ph \<and> mapped (mem u) (unat (target physical ph)) (unat (p_memsz ph))"
  shows "\<exists>u'. load_segments ops d physical phoff phent n i u = Some (length (loads d phoff phent i n), u') \<and>
    mem u' = overlays (mem u) (map (chunk physical d) (loads d phoff phent i n))"
  using assms(2-)
proof (induction n arbitrary: i u)
  case 0
  then show ?case by (simp add: loads_def overlays_def)
next
  case (Suc n)
  let ?ph = "phdr_in d (phoff + i * phent)"
  have fits: "phoff + i * phent + 32 \<le> length d" using Suc.prems(1) by simp
  show ?case
  proof (cases "p_type ?ph = 1")
    case True
    have ok: "sound d ?ph" "mapped (mem u) (unat (target physical ?ph)) (length (seg_image d ?ph))"
      using Suc.prems(2) True by (simp_all add: loads_Suc length_seg_image)
    let ?u = "snd (uc_mem_write ops u (ucast (target physical ?ph)) (seg_image d ?ph))"
    have m: "mem ?u = overlay (mem u) (unat (target physical ?ph)) (seg_image d ?ph)"
      by (rule uc_put_bytes [OF assms(1) ok(2)])
    have "\<forall>ph \<in> set (loads d phoff phent (Suc i) n). sound d ph \<and> mapped (mem ?u) (unat (target physical ph)) (unat (p_memsz ph))"
      using Suc.prems(2) True unfolding m by (simp add: loads_Suc overlay_mapped)
    then obtain u' where "load_segments ops d physical phoff phent n (Suc i) ?u = Some (length (loads d phoff phent (Suc i) n), u')"
        "mem u' = overlays (mem ?u) (map (chunk physical d) (loads d phoff phent (Suc i) n))"
      using Suc.IH [of "Suc i" ?u] Suc.prems(1) by auto
    then show ?thesis
      using True segment_of_header(2) [OF fits True ok(1), of physical] m
      by (simp add: loads_Suc overlays_Cons chunk_def [of physical d ?ph])
  next
    case False
    then show ?thesis
      using Suc.IH [of "Suc i" u] Suc.prems segment_of_header(1) [OF fits False, of physical] by (simp add: loads_Suc)
  qed
qed

definition elf_loads :: "u8 list \<Rightarrow> phdr list" where
  "elf_loads d = loads d (unat (rd32 d 28)) (unat (rd16 d 42)) 0 (unat (rd16 d 44))"

text \<open>
  C33: the ELF loader puts every segment in its place. The loader returns for every file, so it never
  reads outside of it. For an image whose headers are inside the file and whose loadable headers are
  sound, with targets (virtual, or physical through the memory map) that are mapped and do not overlap,
  it reports the entry point and the number of loadable headers, every segment has its file bytes at its
  target followed by zeros up to its size in memory, and no other byte of guest memory changes.
\<close>

theorem elf_image_loaded:
  assumes "uc_mem_ok ops mem" "52 \<le> length d" "rd32 d 0 = ELF_MAGIC"
    and "\<forall>k < unat (rd16 d 44). unat (rd32 d 28) + k * unat (rd16 d 42) + 32 \<le> length d"
    and "\<forall>ph \<in> set (elf_loads d). sound d ph \<and> mapped (mem (map_ram ops u)) (unat (target physical ph)) (unat (p_memsz ph))"
    and "sorted_wrt apart (map (chunk physical d) (elf_loads d))"
  shows "load_elf ops e physical u \<noteq> None \<and>
    (\<exists>u'. load_elf ops d physical u = Some (Inr (rd32 d 24, length (elf_loads d), u')) \<and>
      (\<forall>ph \<in> set (elf_loads d). holds (mem u') (unat (target physical ph)) (seg_image d ph)) \<and>
      (\<forall>k. (\<forall>ph \<in> set (elf_loads d). \<not> (unat (target physical ph) \<le> k \<and> k < unat (target physical ph) + unat (p_memsz ph))) \<longrightarrow>
         mem u' k = mem (map_ram ops u) k))"
proof -
  obtain n v where "load_segments ops e physical (unat (rd32 e 28)) (unat (rd16 e 42)) (unat (rd16 e 44)) 0 (map_ram ops u) = Some (n, v)"
    using load_segments_total by (metis not_None_eq surj_pair)
  then have total: "load_elf ops e physical u \<noteq> None" by (simp add: load_elf_def)
  obtain u' where u': "load_segments ops d physical (unat (rd32 d 28)) (unat (rd16 d 42)) (unat (rd16 d 44)) 0 (map_ram ops u) =
        Some (length (elf_loads d), u')" "mem u' = overlays (mem (map_ram ops u)) (map (chunk physical d) (elf_loads d))"
    using load_segments_effect [OF assms(1), of 0] assms(4,5) unfolding elf_loads_def by (metis add_0)
  have "load_elf ops d physical u = Some (Inr (rd32 d 24, length (elf_loads d), u'))"
    using assms(2,3) u'(1) by (simp add: load_elf_def)
  moreover have "holds (mem u') (unat (target physical ph)) (seg_image d ph)" if "ph \<in> set (elf_loads d)" for ph
    unfolding u'(2) using assms(6) that by (intro overlays_hold) (auto simp: chunk_def)
  moreover have "mem u' k = mem (map_ram ops u) k"
    if "\<forall>ph \<in> set (elf_loads d). \<not> (unat (target physical ph) \<le> k \<and> k < unat (target physical ph) + unat (p_memsz ph))" for k
    unfolding u'(2) using assms(5) that by (intro overlays_outside) (auto simp: chunk_def length_seg_image)
  ultimately show ?thesis using total by blast
qed

theorem elf_image_loaded_witness:
  "\<exists>u'. load_elf flat_ops demo_elf False ([3], \<lambda>_. 9, 0) = Some (Inr (0x8000, 1, u')) \<and>
     holds (paged_byte u') 0x3000 [1, 2, 3, 4, 0, 0, 0, 0] \<and> paged_byte u' 0x3008 = Some 9"
proof -
  let ?u = "([3], \<lambda>_. 9, 0) :: paged" and ?ph = "phdr_in demo_elf 52"
  have "snd (uc_mem_map flat_ops v a n 7) = v" if "n \<noteq> 0x1000" for v a n using that by (simp add: flat_ops_def)
  then have ram: "map_ram flat_ops ?u = ?u" by (simp add: map_ram_def elf_ram_def)
  have len: "length demo_elf = 88" by (simp add: demo_elf_def)
  have f: "rd32 demo_elf 0 = ELF_MAGIC" "rd32 demo_elf 24 = 0x8000" "rd32 demo_elf 28 = 52"
      "rd16 demo_elf 42 = 32" "rd16 demo_elf 44 = 1"
      "?ph = \<lparr>p_type = 1, p_off = 84, p_vaddr = 0x3000, p_paddr = 0x3000, p_filesz = 4, p_memsz = 8\<rparr>"
    by code_simp+
  have phs: "elf_loads demo_elf = [?ph]" by (simp add: elf_loads_def loads_def f)
  have m: "mapped (paged_byte ?u) 0x3000 8"
    by (simp add: pages_in_iff [symmetric] pages_in_def)
  have img: "seg_image demo_elf ?ph = [1, 2, 3, 4, 0, 0, 0, 0]"
    unfolding f by code_simp
  have "load_elf flat_ops demo_elf False ?u \<noteq> None \<and>
    (\<exists>u'. load_elf flat_ops demo_elf False ?u = Some (Inr (rd32 demo_elf 24, length (elf_loads demo_elf), u')) \<and>
      (\<forall>ph \<in> set (elf_loads demo_elf). holds (paged_byte u') (unat (target False ph)) (seg_image demo_elf ph)) \<and>
      (\<forall>k. (\<forall>ph \<in> set (elf_loads demo_elf). \<not> (unat (target False ph) \<le> k \<and> k < unat (target False ph) + unat (p_memsz ph))) \<longrightarrow>
         paged_byte u' k = paged_byte (map_ram flat_ops ?u) k))"
    by (rule elf_image_loaded [OF flat_mem_ok])
       (use m in \<open>simp_all add: phs len f ram sound_def target_def kMaxSegBytes_def\<close>)
  moreover have "paged_byte ?u 0x3008 = Some 9" by (simp add: paged_byte_def)
  ultimately show ?thesis
    unfolding phs by (auto simp: img) (auto simp: f target_def ram)
qed

end
