(* ===== verification/Host_Mappings.thy ===== *)
theory Host_Mappings
  imports Space_Switch
begin

text \<open>
  Two checks and set-up steps on the engine's mappings. \<open>tools/cpp/zeebo_uc_exec.h\<close> decides whether a
  range of guest addresses is executable by walking the engine's list of regions;
  \<open>tools/cpp/zeebo_shared_memory.h\<close> maps one host buffer into both cores at the same address, undoing
  the first mapping when the second fails.
\<close>

section \<open>Executable ranges\<close>

definition covers_addr :: "u64 \<Rightarrow> u64 \<times> u64 \<times> nat \<Rightarrow> bool" where
  "covers_addr k = (\<lambda>(b, e, p). b \<le> k \<and> k \<le> e)"

lemma unat_inc: "e \<noteq> -1 \<Longrightarrow> unat (e + 1) = Suc (unat (e::u64))"
proof -
  assume "e \<noteq> -1"
  then have "unat e \<noteq> unat (-1::u64)" by (metis unsigned_word_eqI)
  moreover have "unat (-1::u64) = 2 ^ 64 - 1" by (simp add: unsigned_minus_1_eq_mask mask_eq_exp_minus_1)
  ultimately have "unat e + 1 < 2 ^ 64" using unat_less_u64 [of e] by linarith
  then show ?thesis by (simp add: unat_word_ariths)
qed

text \<open>The walk from \<open>cur\<close>: jump behind the region that covers it, as long as it is executable.\<close>

function exec_walk :: "(u64 \<times> u64 \<times> nat) list \<Rightarrow> u64 \<Rightarrow> u64 \<Rightarrow> bool" where
  "exec_walk regions last_va cur =
     (if cur \<le> last_va then
        case find (covers_addr cur) regions of
          None \<Rightarrow> False
        | Some (b, e, p) \<Rightarrow>
            if p AND UC_PROT_EXEC = 0 then False
            else if e = -1 then True
            else exec_walk regions last_va (e + 1)
      else True)"
  by pat_completeness auto
termination
proof (relation "measure (\<lambda>(regions, last_va, cur). 2 ^ 64 - unat cur)")
  fix regions last_va cur r b ep e p
  assume "find (covers_addr cur) regions = Some r" "(b, ep) = r" "(e, p) = ep" "e \<noteq> (-1::u64)"
  then have "cur \<le> e" by (auto simp: find_Some_iff covers_addr_def)
  have "unat (e + 1) = Suc (unat e)" using \<open>e \<noteq> -1\<close> by (rule unat_inc)
  then show "((regions, last_va, e + 1), regions, last_va, cur) \<in> measure (\<lambda>(regions, last_va, cur). 2 ^ 64 - unat cur)"
    using \<open>cur \<le> e\<close> unat_less_u64 [of "e + 1"] by (simp add: word_le_nat_alt)
qed simp

declare exec_walk.simps [simp del]

definition uc_range_is_executable :: "'u uc_ops \<Rightarrow> 'u option \<Rightarrow> u64 \<Rightarrow> u64 \<Rightarrow> bool" where
  "uc_range_is_executable ops uc addr len =
     (case uc of
        None \<Rightarrow> False
      | Some u \<Rightarrow>
          if len = 0 then False
          else if addr + len < addr then False
          else
            let last_va = addr + len - 1
            in case uc_mem_regions ops u of
                 (UC_ERR_OK, regions) \<Rightarrow> exec_walk regions last_va addr
               | _ \<Rightarrow> False)"

definition executable :: "u64 \<times> u64 \<times> nat \<Rightarrow> bool" where
  "executable = (\<lambda>(b, e, p). p AND UC_PROT_EXEC \<noteq> 0)"

text \<open>The engine's regions do not overlap.\<close>

definition separate :: "(u64 \<times> u64 \<times> nat) list \<Rightarrow> bool" where
  "separate rs \<longleftrightarrow> (\<forall>r \<in> set rs. \<forall>r' \<in> set rs. \<forall>k. covers_addr k r \<and> covers_addr k r' \<longrightarrow> r = r')"

lemma exec_walk_exact:
  assumes "separate rs"
  shows "exec_walk rs last_va cur \<longleftrightarrow> (\<forall>k. cur \<le> k \<and> k \<le> last_va \<longrightarrow> (\<exists>r \<in> set rs. covers_addr k r \<and> executable r))"
  using assms
proof (induction rs last_va cur rule: exec_walk.induct)
  case (1 rs last_va cur)
  show ?case
  proof (cases "cur \<le> last_va")
    case True
    show ?thesis
    proof (cases "find (covers_addr cur) rs")
      case None
      then have "\<not> exec_walk rs last_va cur" using True by (subst exec_walk.simps) simp
      moreover have "\<not> (\<exists>r \<in> set rs. covers_addr cur r)" using None by (auto simp: find_None_iff)
      ultimately show ?thesis using True by auto
    next
      case (Some r)
      obtain b e p where r: "r = (b, e, p)" by (cases r)
      have in_r: "r \<in> set rs" "covers_addr cur r" using Some by (auto simp: find_Some_iff)
      have step: "exec_walk rs last_va cur = (executable r \<and> (e = -1 \<or> exec_walk rs last_va (e + 1)))"
        using True Some by (subst exec_walk.simps) (auto simp: r executable_def)
      have own: "\<forall>k. cur \<le> k \<and> k \<le> e \<longrightarrow> covers_addr k r" using in_r(2) by (auto simp: r covers_addr_def)
      show ?thesis
      proof (cases "executable r")
        case False
        have "r' = r" if "r' \<in> set rs" "covers_addr cur r'" for r'
          using "1.prems" [unfolded separate_def, rule_format, OF in_r(1) that(1), of cur] in_r(2) that(2) by simp
        then have "\<not> (\<exists>r' \<in> set rs. covers_addr cur r' \<and> executable r')" using False by auto
        then show ?thesis using step False True by blast
      next
        case exec: True
        show ?thesis
        proof (cases "e = -1")
          case True
          then show ?thesis using step exec own in_r(1) by (metis word_order.extremum)
        next
          case False
          have suc: "unat (e + 1) = Suc (unat e)" using False by (rule unat_inc)
          have split: "k \<le> e \<or> e + 1 \<le> k" "cur \<le> e" for k
            using in_r(2) suc by (auto simp: word_le_nat_alt r covers_addr_def)
          have "exec_walk rs last_va (e + 1) \<longleftrightarrow>
              (\<forall>k. e + 1 \<le> k \<and> k \<le> last_va \<longrightarrow> (\<exists>r \<in> set rs. covers_addr k r \<and> executable r))"
            using 1 True Some exec False by (simp add: r executable_def)
          moreover have "(\<forall>k. e + 1 \<le> k \<and> k \<le> last_va \<longrightarrow> Q k) = (\<forall>k. cur \<le> k \<and> k \<le> last_va \<longrightarrow> Q k)"
            if q: "\<And>k. cur \<le> k \<Longrightarrow> k \<le> e \<Longrightarrow> Q k" for Q
          proof (intro iffI allI impI)
            fix k assume "\<forall>k. e + 1 \<le> k \<and> k \<le> last_va \<longrightarrow> Q k" "cur \<le> k \<and> k \<le> last_va"
            then show "Q k" using q split(1) [of k] by auto
          next
            fix k assume "\<forall>k. cur \<le> k \<and> k \<le> last_va \<longrightarrow> Q k" and k: "e + 1 \<le> k \<and> k \<le> last_va"
            moreover have "cur \<le> k" using split(2) suc k by (simp add: word_le_nat_alt)
            ultimately show "Q k" by blast
          qed
          moreover have "\<exists>r \<in> set rs. covers_addr k r \<and> executable r" if "cur \<le> k" "k \<le> e" for k
            using own in_r(1) exec that by (intro bexI [of _ r]) simp_all
          ultimately show ?thesis using step exec False by simp
        qed
      qed
    qed
  qed (subst exec_walk.simps, auto)
qed

text \<open>
  The executable check is exact. With the engine's regions reported and not overlapping, a range is
  found executable exactly when it is not empty, does not reach past the end of the address space, and
  every byte of it lies in a region with the execute right; a hole, a region without the right anywhere
  in the range, a null engine or a failing query make it not executable.
\<close>

theorem executable_range_exact:
  assumes "uc_mem_regions ops u = (UC_ERR_OK, rs)" "separate rs"
  shows "uc_range_is_executable ops (Some u) addr len \<longleftrightarrow>
    len \<noteq> 0 \<and> unat addr + unat len < 2 ^ 64 \<and>
    (\<forall>i < unat len. \<exists>r \<in> set rs. covers_addr (addr + of_nat i) r \<and> executable r)"
proof (cases "len \<noteq> 0 \<and> unat addr + unat len < 2 ^ 64")
  case True
  have wrap: "\<not> addr + len < addr" using True by (simp add: word_less_nat_alt unat_word_ariths)
  have last: "unat (addr + len - 1) = unat addr + unat len - 1"
    using True by (simp add: unat_sub_if' unat_word_ariths unat_eq_zero [symmetric])
  have "(\<forall>k. addr \<le> k \<and> k \<le> addr + len - 1 \<longrightarrow> P k) \<longleftrightarrow> (\<forall>i < unat len. P (addr + of_nat i))" (is "?l = ?r") for P
  proof
    assume ?l
    have "addr \<le> addr + of_nat i \<and> addr + of_nat i \<le> addr + len - 1" if "i < unat len" for i
      using that True unfolding word_le_nat_alt last by (simp add: unat_word_ariths unat_of_nat)
    with \<open>?l\<close> show ?r by blast
  next
    assume ?r
    have "P k" if "addr \<le> k" "k \<le> addr + len - 1" for k
    proof -
      have "unat k - unat addr < unat len"
        using that True unfolding word_le_nat_alt last by (simp add: unat_gt_0 [symmetric] del: unat_gt_0) linarith
      moreover have "addr + of_nat (unat k - unat addr) = k" using that(1) by (simp add: word_le_nat_alt of_nat_diff)
      ultimately show ?thesis using \<open>?r\<close> by metis
    qed
    then show ?l by blast
  qed
  then show ?thesis
    using True wrap exec_walk_exact [OF assms(2), of "addr + len - 1" addr]
    by (simp add: uc_range_is_executable_def assms(1) Let_def)
next
  case False
  have "addr + len < addr" if "len \<noteq> 0" "\<not> unat addr + unat len < 2 ^ 64"
    using that unat_less_u64 [of addr] unat_less_u64 [of len]
    by (simp add: word_less_nat_alt unat_word_ariths mod_if) linarith
  then show ?thesis using False by (auto simp: uc_range_is_executable_def)
qed

theorem executable_range_exact_witness:
  "let ops = back_ops\<lparr>uc_mem_regions := (\<lambda>u. (UC_ERR_OK, [(0x1000, 0x1fff, 5), (0x2000, 0x2fff, 4), (0x3000, 0x3fff, 3)]))\<rparr>
   in uc_range_is_executable ops (Some []) 0x1fff 2 \<and> \<not> uc_range_is_executable ops (Some []) 0x2fff 2"
proof -
  let ?rs = "[(0x1000, 0x1fff, 5), (0x2000, 0x2fff, 4), (0x3000, 0x3fff, 3)] :: (u64 \<times> u64 \<times> nat) list"
  let ?ops = "back_ops\<lparr>uc_mem_regions := (\<lambda>u. (UC_ERR_OK, ?rs))\<rparr>"
  have r: "uc_mem_regions ?ops [] = (UC_ERR_OK, ?rs)" by simp
  have sep: "separate ?rs" by (auto simp: separate_def covers_addr_def word_le_nat_alt)
  have two: "(\<forall>i < 2. P i) \<longleftrightarrow> P 0 \<and> P (1::nat)" for P by (auto simp: less_2_cases_iff)
  show ?thesis
    unfolding Let_def executable_range_exact [OF r sep]
    by (simp add: two covers_addr_def executable_def UC_PROT_EXEC_def)
qed

section \<open>Memory shared by both cores\<close>

text \<open>
  \<open>h\<close> is the address of the backing buffer once it has been sized; the result is the error, the two
  engines and the contents of the buffer.
\<close>

definition map_shared_region_pair ::
    "'u uc_ops \<Rightarrow> 'u option \<Rightarrow> 'u option \<Rightarrow> u64 \<Rightarrow> u64 \<Rightarrow> u64 \<Rightarrow> nat \<Rightarrow> u8 list \<Rightarrow> uc_err \<times> 'u option \<times> 'u option \<times> u8 list" where
  "map_shared_region_pair ops fst_uc snd_uc base sz h perms backing =
     (case (fst_uc, snd_uc) of
        (Some u1, Some u2) \<Rightarrow>
          if sz = 0 \<or> base AND (0x1000 - 1) \<noteq> 0 \<or> sz AND (0x1000 - 1) \<noteq> 0
          then (UC_ERR_ARG, fst_uc, snd_uc, backing)
          else
            let backing = replicate (unat sz) 0;
                (err, u1) = uc_mem_map_ptr ops u1 base sz perms h
            in if err \<noteq> UC_ERR_OK then (err, Some u1, Some u2, [])
               else
                 let (err, u2) = uc_mem_map_ptr ops u2 base sz perms h
                 in if err \<noteq> UC_ERR_OK
                    then let u1 = snd (uc_mem_unmap ops u1 base sz) in (err, Some u1, Some u2, [])
                    else (UC_ERR_OK, Some u1, Some u2, backing)
      | _ \<Rightarrow> (UC_ERR_ARG, fst_uc, snd_uc, backing))"

lemma shared_refused:
  "x = 0 \<or> \<not> 4096 dvd unat x \<or> \<not> 4096 dvd unat a \<or> o1 = None \<or> o2 = None \<Longrightarrow>
    map_shared_region_pair ops o1 o2 a x h perms b0 = (UC_ERR_ARG, o1, o2, b0)"
  by (auto simp: map_shared_region_pair_def page_aligned_iff split: option.split)

lemma shared_mapped:
  assumes "uc_back_ok ops bk" "range_ok base sz" "h \<noteq> 0" "perms \<le> 7"
  shows "\<exists>e u1' u2' b. map_shared_region_pair ops (Some u1) (Some u2) base sz h perms b0 = (e, Some u1', Some u2', b) \<and>
      (if \<forall>q \<in> pages_of base sz. bk u1 q = None \<and> bk u2 q = None
       then e = UC_ERR_OK \<and> b = replicate (unat sz) 0 \<and>
         (\<forall>q. (bk u1' q, bk u2' q) = (if q \<in> pages_of base sz
            then (Some (host_page base h q, perms), Some (host_page base h q, perms)) else (bk u1 q, bk u2 q)))
       else e \<noteq> UC_ERR_OK \<and> b = [] \<and> bk u1' = bk u1 \<and> bk u2' = bk u2)"
proof -
  let ?r = "\<lparr>r_va = base, r_size = sz, r_prot = perms, r_host = h\<rparr>" and ?pages = "pages_of base sz"
  have r: "region_ok ?r" "rpages ?r = ?pages" using assms(2) by (simp_all add: region_ok_range rpages_def)
  have args: "\<not> (sz = 0 \<or> base AND (0x1000 - 1) \<noteq> 0 \<or> sz AND (0x1000 - 1) \<noteq> 0)"
    using assms(2) by (simp add: range_ok_def page_aligned_iff)
  obtain e1 v1 where m1: "uc_mem_map_ptr ops u1 base sz perms h = (e1, v1)" by fastforce
  obtain e2 v2 where m2: "uc_mem_map_ptr ops u2 base sz perms h = (e2, v2)" by fastforce
  obtain e3 w1 where un: "uc_mem_unmap ops v1 base sz = (e3, w1)" by fastforce
  note l1 = back_map_ptr [OF assms(1) r(1), unfolded r(2), simplified, OF assms(3) m1] assms(4)
  note l2 = back_map_ptr [OF assms(1) r(1), unfolded r(2), simplified, OF assms(3) m2] assms(4)
  note l3 = back_unmap [OF assms(1) r(1), unfolded r(2), simplified, OF un]
  have pair: "map_shared_region_pair ops (Some u1) (Some u2) base sz h perms b0 =
      (if e1 \<noteq> UC_ERR_OK then (e1, Some v1, Some u2, [])
       else if e2 \<noteq> UC_ERR_OK then (e2, Some w1, Some v2, []) else (UC_ERR_OK, Some v1, Some v2, replicate (unat sz) 0))"
    using args by (simp add: map_shared_region_pair_def m1 m2 un Let_def)
  show ?thesis
  proof (cases "\<forall>q \<in> ?pages. bk u1 q = None")
    case free1: True
    then have 1: "e1 = UC_ERR_OK" "bk v1 = (\<lambda>q. if q \<in> ?pages then Some (host_page base h q, perms) else bk u1 q)"
      using l1 by auto
    then have undone: "bk w1 = bk u1" using l3 free1 by (auto simp: fun_eq_iff)
    show ?thesis
    proof (cases "\<forall>q \<in> ?pages. bk u2 q = None")
      case True
      then have "e2 = UC_ERR_OK" "bk v2 = (\<lambda>q. if q \<in> ?pages then Some (host_page base h q, perms) else bk u2 q)"
        using l2 by auto
      then show ?thesis using 1 free1 True pair by auto
    next
      case False
      then have "e2 \<noteq> UC_ERR_OK" "bk v2 = bk u2" using l2 by auto
      moreover have "\<not> (\<forall>q \<in> ?pages. bk u1 q = None \<and> bk u2 q = None)" using False by blast
      ultimately show ?thesis using 1 undone pair by simp
    qed
  next
    case False
    then have "e1 \<noteq> UC_ERR_OK" "bk v1 = bk u1" using l1 by auto
    moreover have "\<not> (\<forall>q \<in> ?pages. bk u1 q = None \<and> bk u2 q = None)" using False by blast
    ultimately show ?thesis using pair by simp
  qed
qed

text \<open>
  The shared region is mapped into both cores or into none. For engines with ordinary mapping calls
  and a page-aligned region in the 32-bit space with valid permissions, the set-up succeeds exactly when the region is free in
  both cores; then the same zeroed host page is behind each of its pages in both, so a write by one core
  is seen by the other. When it fails, also after the first core was mapped already, the mappings of both
  cores are as before and the buffer is empty. A null core, or a size or base that is not page-aligned,
  is refused with nothing changed.
\<close>

theorem shared_region_all_or_nothing:
  assumes "uc_back_ok ops bk" "range_ok base sz" "h \<noteq> 0" "perms \<le> 7"
  shows "(\<exists>e u1' u2' b. map_shared_region_pair ops (Some u1) (Some u2) base sz h perms b0 = (e, Some u1', Some u2', b) \<and>
      (if \<forall>q \<in> pages_of base sz. bk u1 q = None \<and> bk u2 q = None
       then e = UC_ERR_OK \<and> b = replicate (unat sz) 0 \<and>
         (\<forall>q. (bk u1' q, bk u2' q) = (if q \<in> pages_of base sz
            then (Some (host_page base h q, perms), Some (host_page base h q, perms)) else (bk u1 q, bk u2 q)))
       else e \<noteq> UC_ERR_OK \<and> b = [] \<and> bk u1' = bk u1 \<and> bk u2' = bk u2)) \<and>
    (x = 0 \<or> \<not> 4096 dvd unat x \<or> \<not> 4096 dvd unat a \<or> o1 = None \<or> o2 = None \<longrightarrow>
      map_shared_region_pair ops o1 o2 a x h perms b0 = (UC_ERR_ARG, o1, o2, b0))"
  using shared_mapped [OF assms] shared_refused by blast

theorem shared_region_all_or_nothing_witness:
  "\<exists>e u1' u2'. map_shared_region_pair back_ops (Some []) (Some [(5, 77, 1)]) 0x4000 0x2000 0x900000 3 [9] = (e, Some u1', Some u2', []) \<and>
     e \<noteq> UC_ERR_OK \<and> map_of u1' = Map.empty \<and> map_of u2' = map_of [(5, 77, 1)]"
proof -
  have r: "range_ok 0x4000 0x2000" by (simp add: range_ok_def)
  have "5 \<in> pages_of 0x4000 0x2000" by (simp add: pages_of_def)
  then show ?thesis
    using shared_region_all_or_nothing [OF back_ops_ok r, of "0x900000" 3 "[]" "[(5, 77, 1)]" "[9]" 0 0 None None]
    by (auto split: if_splits)
qed

end
