(* ===== verification/Probe_Registry.thy ===== *)
theory Probe_Registry
  imports Machine_Runs Zeebo_Prelude
begin

text \<open>
  \<open>tools/cpp/zeebo_probe_registry.h\<close>: the read-only diagnostics that the control server offers. Probes
  are registered under a name and queried as JSON; unmapped guest accesses are kept in a ring of bounded
  size; an armed trap latches the first unknown one. A probe reads the state of the machine, which is a
  type parameter. Text is a list of characters; \<open>snprintf\<close> keeps at most 255 of them.
\<close>

section \<open>Page size\<close>

text \<open>The index of the lowest set bit, which \<open>__builtin_ctz\<close> gives for a nonzero word.\<close>

definition ctz :: "u32 \<Rightarrow> nat" where
  "ctz x = (case find (bit x) [0..<32] of Some n \<Rightarrow> n | None \<Rightarrow> 32)"

definition PageInfoMinPageLog2 :: "u32 \<Rightarrow> nat" where
  "PageInfoMinPageLog2 page_info =
     (let msk = page_info AND NOT 0x3ff
      in if msk = 0 then 0 else ctz msk)"

section \<open>The registry\<close>

record 'g probe_entry =
  pe_name :: string
  pe_desc :: string
  pe_fn :: "('g \<Rightarrow> string) option"

fun register_probe :: "string \<Rightarrow> string \<Rightarrow> ('g \<Rightarrow> string) option \<Rightarrow> 'g probe_entry list \<Rightarrow> 'g probe_entry list" where
  "register_probe name desc fn [] = [\<lparr>pe_name = name, pe_desc = desc, pe_fn = fn\<rparr>]"
| "register_probe name desc fn (p # ps) =
     (if pe_name p = name then p\<lparr>pe_desc := desc, pe_fn := fn\<rparr> # ps else p # register_probe name desc fn ps)"

definition escape_char :: "char \<Rightarrow> string" where
  "escape_char c =
     (if c = CHR 0x22 then [CHR 0x5C, CHR 0x22]
      else if c = CHR 0x5C then [CHR 0x5C, CHR 0x5C]
      else if c = CHR 0x0A then [CHR 0x5C, CHR ''n'']
      else if c = CHR 0x0D then [CHR 0x5C, CHR ''r'']
      else if c = CHR 0x09 then [CHR 0x5C, CHR ''t'']
      else [c])"

definition json_escape :: "string \<Rightarrow> string" where
  "json_escape s = concat (map escape_char s)"

text \<open>\<open>quo s\<close> is a string literal and \<open>key k v\<close> a member of an object.\<close>

definition quo :: "string \<Rightarrow> string" where
  "quo s = [CHR 0x22] @ s @ [CHR 0x22]"

definition key :: "string \<Rightarrow> string \<Rightarrow> string" where
  "key k v = quo k @ '':'' @ v"

fun commas :: "string list \<Rightarrow> string" where
  "commas [] = []"
| "commas [x] = x"
| "commas (x # xs) = x @ '','' @ commas xs"

definition list_json :: "'g probe_entry list \<Rightarrow> string" where
  "list_json ps =
     ''{'' @ key ''ok'' ''true'' @ '','' @ quo ''probes'' @ '':['' @
     commas (map (\<lambda>p. ''{'' @ key ''name'' (quo (json_escape (pe_name p))) @ '','' @
                       key ''desc'' (quo (json_escape (pe_desc p))) @ ''}'') ps) @ '']}''"

definition get_json :: "string \<Rightarrow> 'g \<Rightarrow> 'g probe_entry list \<Rightarrow> string" where
  "get_json name g ps =
     (case find (\<lambda>p. pe_name p = name) ps of
        Some p \<Rightarrow>
          let payload = (case pe_fn p of Some fn \<Rightarrow> fn g | None \<Rightarrow> ''null'')
          in ''{'' @ key ''ok'' ''true'' @ '','' @ key ''name'' (quo (json_escape name)) @ '','' @
             key ''value'' payload @ ''}''
      | None \<Rightarrow> ''{'' @ key ''ok'' ''false'' @ '','' @ key ''error'' (quo ''unknown_probe'') @ ''}'')"

section \<open>The log of unmapped accesses\<close>

record unmapped_event =
  ev_core :: u64
  ev_pc :: u64
  ev_addr :: u64
  ev_width :: u32
  ev_is_write :: bool
  ev_has_value :: bool
  ev_value :: u64

record access_log =
  lg_capacity :: nat
  lg_head :: nat
  lg_seen :: u64
  lg_ring :: "unmapped_event list"

definition log_new :: "nat \<Rightarrow> access_log" where
  "log_new capacity = \<lparr>lg_capacity = (if capacity \<noteq> 0 then capacity else 1), lg_head = 0, lg_seen = 0, lg_ring = []\<rparr>"

definition record_event :: "unmapped_event \<Rightarrow> access_log \<Rightarrow> access_log" where
  "record_event ev l =
     (let l = l\<lparr>lg_seen := lg_seen l + 1\<rparr>;
          l = (if length (lg_ring l) < lg_capacity l then l\<lparr>lg_ring := lg_ring l @ [ev]\<rparr>
               else l\<lparr>lg_ring := (lg_ring l)[lg_head l := ev]\<rparr>)
      in l\<lparr>lg_head := (lg_head l + 1) mod lg_capacity l\<rparr>)"

fun dec :: "nat \<Rightarrow> string" where
  "dec n = (if n < 10 then [char_of (48 + n)] else dec (n div 10) @ [char_of (48 + n mod 10)])"

declare dec.simps [simp del]

definition snprintf256 :: "string \<Rightarrow> string" where
  "snprintf256 s = take 255 s"

definition event_fields :: "unmapped_event \<Rightarrow> string" where
  "event_fields ev =
     ''{'' @ key ''core'' (dec (unat (ev_core ev))) @ '','' @ key ''pc'' (dec (unat (ev_pc ev))) @ '','' @
     key ''addr'' (dec (unat (ev_addr ev))) @ '','' @ key ''width'' (dec (unat (ev_width ev))) @ '','' @
     key ''dir'' (quo (if ev_is_write ev then ''write'' else ''read'')) @
     (if ev_has_value ev then '','' @ key ''value'' (dec (unat (ev_value ev))) else []) @ ''}''"

definition event_json :: "unmapped_event \<Rightarrow> string" where
  "event_json ev = snprintf256 (event_fields ev)"

definition latest :: "access_log \<Rightarrow> unmapped_event list" where
  "latest l = map (\<lambda>i. lg_ring l ! (if length (lg_ring l) < lg_capacity l then i else (lg_head l + i) mod lg_capacity l))
     [0..<length (lg_ring l)]"

definition latest_json :: "access_log \<Rightarrow> string" where
  "latest_json l = ''{'' @ key ''ok'' ''true'' @ '','' @ quo ''events'' @ '':['' @ commas (map event_json (latest l)) @ '']}''"

section \<open>The strict trap\<close>

datatype unmapped_kind = kRead | kWrite | kFetch

record strict_record =
  sr_core :: u64
  sr_pc :: u64
  sr_addr :: u64
  sr_width :: u32
  sr_kind :: unmapped_kind
  sr_has_value :: bool
  sr_value :: u64

text \<open>The record is \<open>None\<close> while its \<open>valid\<close> flag is false.\<close>

record strict_trap =
  tr_armed :: bool
  tr_rec :: "strict_record option"

definition trap_new :: strict_trap where
  "trap_new = \<lparr>tr_armed = False, tr_rec = None\<rparr>"

definition trap_arm :: "bool \<Rightarrow> strict_trap \<Rightarrow> strict_trap" where
  "trap_arm on t = t\<lparr>tr_armed := on\<rparr>"

definition consider_access :: "strict_record \<Rightarrow> bool \<Rightarrow> strict_trap \<Rightarrow> bool \<times> strict_trap" where
  "consider_access acc known_handled t =
     (if \<not> tr_armed t then (False, t)
      else if known_handled then (False, t)
      else if tr_rec t \<noteq> None then (True, t)
      else (True, t\<lparr>tr_rec := Some acc\<rparr>))"

fun UnmappedKindStr :: "unmapped_kind \<Rightarrow> string" where
  "UnmappedKindStr kWrite = ''write''"
| "UnmappedKindStr kFetch = ''fetch''"
| "UnmappedKindStr kRead = ''read''"

definition strict_fields :: "strict_record \<Rightarrow> string" where
  "strict_fields r =
     ''{'' @ key ''core'' (dec (unat (sr_core r))) @ '','' @ key ''pc'' (dec (unat (sr_pc r))) @ '','' @
     key ''addr'' (dec (unat (sr_addr r))) @ '','' @ key ''width'' (dec (unat (sr_width r))) @ '','' @
     key ''dir'' (quo (UnmappedKindStr (sr_kind r))) @ '','' @ key ''type'' (quo (UnmappedKindStr (sr_kind r))) @
     (if sr_has_value r then '','' @ key ''value'' (dec (unat (sr_value r))) else []) @ ''}''"

definition trap_json :: "strict_trap \<Rightarrow> string" where
  "trap_json t =
     ''{'' @ key ''armed'' (if tr_armed t then ''true'' else ''false'') @ '','' @
     key ''tripped'' (if tr_rec t \<noteq> None then ''true'' else ''false'') @ '','' @ quo ''event'' @ '':'' @
     (case tr_rec t of None \<Rightarrow> ''null}'' | Some r \<Rightarrow> snprintf256 (strict_fields r) @ ''}'')"

section \<open>The ring keeps the latest accesses\<close>

lemma of_char_digit: "n < 10 \<Longrightarrow> (of_char (char_of (48 + n)) :: nat) = 48 + n"
  by simp

lemma dec_digits: "set (dec n) \<subseteq> {c. of_char c \<ge> (48::nat) \<and> of_char c \<le> (57::nat)}"
  by (induction n rule: dec.induct) (subst dec.simps, auto)

lemma dec_nonempty: "dec n \<noteq> []"
  by (subst dec.simps) simp

lemma length_dec: "n < 10 ^ Suc k \<Longrightarrow> length (dec n) \<le> Suc k"
proof (induction k arbitrary: n)
  case 0
  then show ?case by (simp add: dec.simps [of n])
next
  case (Suc k)
  show ?case
  proof (cases "n < 10")
    case False
    have "n div 10 < 10 ^ Suc k" using Suc.prems by (simp add: less_mult_imp_div_less mult.commute)
    then show ?thesis using Suc.IH [of "n div 10"] False by (simp add: dec.simps [of n])
  qed (simp add: dec.simps [of n])
qed

lemma length_dec_word:
  "length (dec (unat (x::u64))) \<le> 20" "length (dec (unat (w::u32))) \<le> 10"
  using length_dec [of "unat x" 19] length_dec [of "unat w" 9] unat_less_u64 [of x] unat_less_u32 [of w] by simp_all

lemma event_json_whole: "event_json ev = event_fields ev"
proof -
  have "length (event_fields ev) \<le> 255"
    using length_dec_word(1) [of "ev_core ev"] length_dec_word(1) [of "ev_pc ev"] length_dec_word(1) [of "ev_addr ev"]
      length_dec_word(1) [of "ev_value ev"] length_dec_word(2) [of "ev_width ev"]
    by (simp add: event_fields_def key_def quo_def)
  then show ?thesis by (simp add: event_json_def snprintf256_def)
qed

definition ring_holds :: "nat \<Rightarrow> access_log \<Rightarrow> unmapped_event list \<Rightarrow> bool" where
  "ring_holds c l evs \<longleftrightarrow> 0 < c \<and> lg_capacity l = c \<and> length (lg_ring l) = min (length evs) c \<and>
     lg_head l = length evs mod c \<and> lg_seen l = of_nat (length evs) \<and>
     (\<forall>j < length evs. length evs \<le> j + c \<longrightarrow> lg_ring l ! (j mod c) = evs ! j)"

lemma ring_holds_new: "ring_holds (if cap \<noteq> 0 then cap else 1) (log_new cap) []"
  by (simp add: ring_holds_def log_new_def)

lemma ring_holds_step:
  assumes "ring_holds c l evs"
  shows "ring_holds c (record_event ev l) (evs @ [ev])"
proof -
  let ?n = "length evs" and ?l = "record_event ev l"
  note h = assms [unfolded ring_holds_def]
  have "lg_ring ?l ! (j mod c) = (evs @ [ev]) ! j" if j: "j \<le> ?n" "Suc ?n \<le> j + c" for j
  proof (cases "?n < c")
    case True
    then have "lg_ring ?l = lg_ring l @ [ev]" using h by (simp add: record_event_def Let_def)
    moreover have "j mod c = j" using j True by simp
    moreover have "j < ?n \<Longrightarrow> lg_ring l ! j = evs ! j" using h True \<open>j mod c = j\<close> by (metis le_add2 le_trans less_imp_le_nat)
    ultimately show ?thesis using j h True by (auto simp: nth_append)
  next
    case False
    then have r: "lg_ring ?l = (lg_ring l)[?n mod c := ev]" using h by (simp add: record_event_def Let_def)
    show ?thesis
    proof (cases "j = ?n")
      case True
      then show ?thesis using h False by (simp add: r)
    next
      case diff: False
      have "j mod c \<noteq> ?n mod c"
      proof
        assume "j mod c = ?n mod c"
        then have "c dvd ?n - j" using j(1) by (metis mod_eq_dvd_iff_nat)
        then show False using j diff by (auto dest: dvd_imp_le)
      qed
      then show ?thesis using h j diff by (simp add: r nth_append)
    qed
  qed
  moreover have "length (lg_ring ?l) = min (Suc ?n) c" "lg_capacity ?l = c" "lg_head ?l = Suc ?n mod c"
      "lg_seen ?l = of_nat (Suc ?n)" "0 < c"
    using h by (auto simp: record_event_def Let_def mod_Suc_eq min_def)
  ultimately show ?thesis unfolding ring_holds_def by (simp add: less_Suc_eq_le)
qed

lemma ring_holds_run: "ring_holds c l es \<Longrightarrow> ring_holds c (fold record_event evs l) (es @ evs)"
proof (induction evs arbitrary: l es)
  case (Cons ev evs)
  then show ?case using Cons.IH [OF ring_holds_step [OF Cons.prems], of ev] by simp
qed simp

lemma latest_ring:
  assumes "ring_holds c l evs"
  shows "latest l = drop (length evs - c) evs"
proof (rule nth_equalityI)
  note h = assms [unfolded ring_holds_def]
  show len: "length (latest l) = length (drop (length evs - c) evs)" using h by (simp add: latest_def min_def)
  fix i assume "i < length (latest l)"
  then have i: "i < min (length evs) c" using h by (simp add: latest_def)
  show "latest l ! i = drop (length evs - c) evs ! i"
  proof (cases "length evs < c")
    case True
    then have "lg_ring l ! (i mod c) = evs ! i" using h i by simp
    then show ?thesis using True h i by (simp add: latest_def)
  next
    case False
    let ?j = "length evs - c + i"
    have "(length evs mod c + i) mod c = (?j + c) mod c" using False by (simp add: mod_add_left_eq)
    then have "(lg_head l + i) mod c = ?j mod c" using h by simp
    moreover have "lg_ring l ! (?j mod c) = evs ! ?j" using h i False by simp
    ultimately show ?thesis using False h i by (simp add: latest_def)
  qed
qed

text \<open>
  The log of unmapped accesses keeps the most recent ones. After any sequence of accesses, the query
  lists exactly the last ones up to the capacity (one if the capacity given is zero), oldest first, each
  with all its fields in full (no text is cut off by the formatting buffer), and the count is the number
  of all accesses seen, modulo \<open>2 ^ 64\<close>.
\<close>

theorem log_keeps_latest:
  "let l = fold record_event evs (log_new cap); c = max cap 1
   in lg_seen l = of_nat (length evs) \<and>
      latest_json l = ''{'' @ key ''ok'' ''true'' @ '','' @ quo ''events'' @ '':['' @
        commas (map event_fields (drop (length evs - c) evs)) @ '']}''"
proof -
  have c: "max cap 1 = (if cap \<noteq> 0 then cap else 1)" by (simp add: max_def)
  have h: "ring_holds (max cap 1) (fold record_event evs (log_new cap)) evs"
    unfolding c using ring_holds_run [OF ring_holds_new [of cap], of evs] by simp
  have "event_json = event_fields" by (simp add: fun_eq_iff event_json_whole)
  then show ?thesis using h latest_ring [OF h] by (simp add: ring_holds_def Let_def latest_json_def)
qed

section \<open>The trap latches the first unknown access\<close>

lemma trap_json_whole:
  "trap_json t =
     ''{'' @ key ''armed'' (if tr_armed t then ''true'' else ''false'') @ '','' @
     key ''tripped'' (if tr_rec t \<noteq> None then ''true'' else ''false'') @ '','' @
     key ''event'' (case tr_rec t of None \<Rightarrow> ''null'' | Some r \<Rightarrow> strict_fields r) @ ''}''"
proof (cases "tr_rec t")
  case (Some r)
  have "length (UnmappedKindStr (sr_kind r)) \<le> 5" by (cases "sr_kind r") simp_all
  then have "length (strict_fields r) \<le> 255"
    using length_dec_word(1) [of "sr_core r"] length_dec_word(1) [of "sr_pc r"] length_dec_word(1) [of "sr_addr r"]
      length_dec_word(1) [of "sr_value r"] length_dec_word(2) [of "sr_width r"]
    by (simp add: strict_fields_def key_def quo_def)
  then show ?thesis using Some by (simp add: trap_json_def snprintf256_def key_def)
qed (simp add: trap_json_def key_def)

text \<open>A sequence of accesses, each with the flag that a known range served it: which ones stop the
  processor, and the trap that results.\<close>

fun consider_all :: "(strict_record \<times> bool) list \<Rightarrow> strict_trap \<Rightarrow> bool list \<times> strict_trap" where
  "consider_all [] t = ([], t)"
| "consider_all ((acc, known) # accs) t =
     (let (stop, t) = consider_access acc known t; (stops, t) = consider_all accs t in (stop # stops, t))"

lemma consider_all_armed:
  "tr_armed t \<Longrightarrow> consider_all accs t =
     (map (\<lambda>a. \<not> snd a) accs,
      t\<lparr>tr_rec := (case tr_rec t of Some r \<Rightarrow> Some r | None \<Rightarrow> map_option fst (find (\<lambda>a. \<not> snd a) accs))\<rparr>)"
proof (induction accs arbitrary: t)
  case (Cons a accs)
  then show ?case by (cases a) (auto simp: consider_access_def split: option.splits)
qed (simp split: option.splits)

lemma consider_all_disarmed: "\<not> tr_armed t \<Longrightarrow> consider_all accs t = (map (\<lambda>a. False) accs, t)"
proof (induction accs)
  case (Cons a accs)
  then show ?case by (cases a) (simp add: consider_access_def)
qed simp

text \<open>
  The strict trap. Disarmed, it stops nothing and reports no event. Armed, it stops the processor at
  every access that no known range served and at no other; what it reports, with every field in full, is
  the first such access, whatever follows and even when it is disarmed afterwards.
\<close>

theorem trap_latches_first:
  "fst (consider_all accs trap_new) = map (\<lambda>a. False) accs \<and>
   fst (consider_all accs (trap_arm True trap_new)) = map (\<lambda>a. \<not> snd a) accs \<and>
   trap_json (trap_arm on (snd (consider_all accs (trap_arm True trap_new)))) =
     (let first = find (\<lambda>a. \<not> snd a) accs
      in ''{'' @ key ''armed'' (if on then ''true'' else ''false'') @ '','' @
         key ''tripped'' (if first = None then ''false'' else ''true'') @ '','' @
         key ''event'' (case first of None \<Rightarrow> ''null'' | Some (r, known) \<Rightarrow> strict_fields r) @ ''}'')"
  by (auto simp: consider_all_armed consider_all_disarmed trap_json_whole trap_new_def trap_arm_def Let_def split: option.splits)

section \<open>The registry answers by name\<close>

lemma names_register:
  "map pe_name (register_probe n d f ps) = (if n \<in> set (map pe_name ps) then map pe_name ps else map pe_name ps @ [n])"
  by (induction ps) auto

interpretation probes: machine_inv "\<lambda>(n, d, f). register_probe n d f" "\<lambda>ps. distinct (map pe_name ps)"
  by unfold_locales (auto simp: names_register)

lemma find_register:
  "find (\<lambda>p. pe_name p = k) (register_probe n d f ps) =
     (if k = n then Some \<lparr>pe_name = n, pe_desc = d, pe_fn = f\<rparr> else find (\<lambda>p. pe_name p = k) ps)"
  by (induction ps) auto

text \<open>The reader of a JSON string, up to its closing quote.\<close>

fun json_string :: "string \<Rightarrow> (string \<times> string) option" where
  "json_string [] = None"
| "json_string (c # s) =
     (if c = CHR 0x22 then Some ([], s)
      else if c \<noteq> CHR 0x5C then map_option (apfst ((#) c)) (json_string s)
      else (case s of
              [] \<Rightarrow> None
            | e # s \<Rightarrow>
                map_option (apfst ((#) (if e = CHR ''n'' then CHR 0x0A else if e = CHR ''r'' then CHR 0x0D
                                        else if e = CHR ''t'' then CHR 0x09 else e))) (json_string s)))"

lemma json_string_escape: "json_string (json_escape s @ CHR 0x22 # rest) = Some (s, rest)"
  by (induction s) (auto simp: json_escape_def escape_char_def)

text \<open>
  Registered probes are answered by name. After any registrations, a query for a name replies with the
  payload of the last function registered under it (the text \<open>null\<close> when that one is empty) or says that
  the probe is unknown; the name is written so that a JSON reader gets exactly that name back, followed by
  the rest of the reply; and no name is listed twice.
\<close>

theorem probe_get_last_registered:
  "let ps = fold (\<lambda>(n, d, f). register_probe n d f) regs [];
       value = (\<lambda>f. case f of Some fn \<Rightarrow> fn g | None \<Rightarrow> ''null'')
   in distinct (map pe_name ps) \<and>
      (case find (\<lambda>r. fst r = n) (rev regs) of
         None \<Rightarrow> get_json n g ps = ''{'' @ key ''ok'' ''false'' @ '','' @ key ''error'' (quo ''unknown_probe'') @ ''}''
       | Some (k, d, f) \<Rightarrow>
           \<exists>reply. get_json n g ps = ''{'' @ key ''ok'' ''true'' @ '','' @ quo ''name'' @ '':'' @ [CHR 0x22] @ reply \<and>
             json_string reply = Some (n, '','' @ key ''value'' (value f) @ ''}''))"
proof -
  let ?ps = "fold (\<lambda>(n, d, f). register_probe n d f) regs []"
  have "find (\<lambda>p. pe_name p = n) ?ps =
      map_option (\<lambda>(k, d, f). \<lparr>pe_name = k, pe_desc = d, pe_fn = f\<rparr>) (find (\<lambda>r. fst r = n) (rev regs))"
    by (induction regs rule: rev_induct) (auto simp: find_register)
  moreover have "distinct (map pe_name ?ps)" by (rule probes.inv_run) simp
  ultimately show ?thesis
    by (auto simp: Let_def get_json_def key_def quo_def json_string_escape split: option.splits)
qed

section \<open>The smallest page\<close>

text \<open>The decoded page size is the smallest one the kernel offers, never a bit of the access rights.\<close>

lemma min_page_least:
  assumes "bit page_info n" "10 \<le> n" "n < 32"
  shows "bit page_info (PageInfoMinPageLog2 page_info)" "10 \<le> PageInfoMinPageLog2 page_info" "PageInfoMinPageLog2 page_info \<le> n"
proof -
  let ?m = "page_info AND NOT (0x3ff::u32)"
  have m: "bit ?m i \<longleftrightarrow> bit page_info i \<and> 10 \<le> i \<and> i < 32" for i
  proof -
    have "bit (0x3ff::u32) i \<longleftrightarrow> i < 10"
      using bit_mask_iff [of 10 i, where 'a = u32] by (auto simp: mask_numeral bit_simps)
    then have "bit (NOT (0x3ff::u32)) i \<longleftrightarrow> 10 \<le> i \<and> i < 32" unfolding bit_not_iff_eq by auto
    then show ?thesis unfolding bit_and_iff by simp
  qed
  then have "?m \<noteq> 0" using assms by (metis bit_0_eq bot_apply bot_bool_def)
  obtain k where k: "find (bit ?m) [0..<32] = Some k"
    using assms m by (cases "find (bit ?m) [0..<32]") (auto simp: find_None_iff)
  then have "bit ?m k" "\<forall>j < k. \<not> bit ?m j" by (auto simp: find_Some_iff)
  moreover have "PageInfoMinPageLog2 page_info = k" using k \<open>?m \<noteq> 0\<close> by (simp add: PageInfoMinPageLog2_def ctz_def Let_def)
  ultimately show "bit page_info (PageInfoMinPageLog2 page_info)" "10 \<le> PageInfoMinPageLog2 page_info"
      "PageInfoMinPageLog2 page_info \<le> n"
    using assms m by (auto simp: not_less [symmetric])
qed

end
