(* ===== verification/Std_String.thy ===== *)
theory Std_String
  imports Zeebo_Prelude "HOL-Library.Sublist"
begin

text \<open>
  The searches of \<open>std::string\<close> that the text parsers use, on lists of characters: \<open>find\<close> and \<open>rfind\<close> of a
  pattern and \<open>find\<close> of a character from a position on. \<open>None\<close> is \<open>npos\<close>.
\<close>

text \<open>\<open>std::string::find\<close> and \<open>rfind\<close>: the first and the last position of a pattern, which is not empty here.\<close>

fun find_sub :: "string \<Rightarrow> string \<Rightarrow> nat option" where
  "find_sub pat [] = None"
| "find_sub pat (c # s) = (if prefix pat (c # s) then Some 0 else map_option Suc (find_sub pat s))"

fun rfind_sub :: "string \<Rightarrow> string \<Rightarrow> nat option" where
  "rfind_sub pat [] = None"
| "rfind_sub pat (c # s) =
     (case rfind_sub pat s of Some i \<Rightarrow> Some (Suc i) | None \<Rightarrow> if prefix pat (c # s) then Some 0 else None)"

definition find_from :: "char \<Rightarrow> string \<Rightarrow> nat \<Rightarrow> nat option" where
  "find_from c s i =
     (let j = i + length (takeWhile (\<lambda>x. x \<noteq> c) (drop i s)) in if j < length s then Some j else None)"

lemma find_sub_first: "pat \<noteq> [] \<Longrightarrow> \<not> sublist pat (pre @ butlast pat) \<Longrightarrow> find_sub pat (pre @ pat @ rest) = Some (length pre)"
proof (induction pre)
  case Nil
  then show ?case by (cases pat) auto
next
  case (Cons c pre)
  have "\<not> prefix pat (c # pre @ pat @ rest)"
  proof
    assume "prefix pat (c # pre @ pat @ rest)"
    moreover have "prefix (c # pre @ butlast pat) (c # pre @ pat @ rest)"
      using Cons.prems(1) by (metis append_Cons append_assoc append_butlast_last_id prefixI)
    moreover have "length pat \<le> length (c # pre @ butlast pat)" using Cons.prems(1) by (cases pat) auto
    ultimately have "prefix pat (c # pre @ butlast pat)" by (rule prefix_length_prefix)
    then show False using Cons.prems(2) by simp
  qed
  moreover have "\<not> sublist pat (pre @ butlast pat)" using Cons.prems(2) by (auto simp: sublist_Cons_right)
  ultimately show ?case using Cons by simp
qed

lemma find_sub_None: "pat \<noteq> [] \<Longrightarrow> find_sub pat s = None \<longleftrightarrow> \<not> sublist pat s"
  by (induction s) (auto simp: sublist_Cons_right)

lemma rfind_sub_short: "length s < length pat \<Longrightarrow> rfind_sub pat s = None"
  by (induction s) (auto dest: prefix_length_le)

lemma rfind_sub_end: "pat \<noteq> [] \<Longrightarrow> rfind_sub pat (xs @ pat) = Some (length xs)"
proof (induction xs)
  case Nil
  then obtain c s where "pat = c # s" by (cases pat) auto
  then show ?case using rfind_sub_short [of s pat] by simp
qed simp

lemma takeWhile_stop: "c \<notin> set mid \<Longrightarrow> takeWhile (\<lambda>x. x \<noteq> c) (mid @ c # rest) = mid"
  by (induction mid) auto

lemma find_from_skip: "c \<notin> set mid \<Longrightarrow> length pre = i \<Longrightarrow> find_from c (pre @ mid @ c # rest) i = Some (i + length mid)"
  by (auto simp: find_from_def Let_def takeWhile_stop)

lemma find_from_None: "i \<le> length s \<Longrightarrow> find_from c s i = None \<longleftrightarrow> c \<notin> set (drop i s)"
proof -
  assume i: "i \<le> length s"
  have "length (takeWhile (\<lambda>x. x \<noteq> c) t) < length t \<longleftrightarrow> c \<in> set t" for t by (induction t) auto
  from this [of "drop i s"] show ?thesis using i by (auto simp: find_from_def Let_def)
qed

end
