(* ===== verification/Dd1a_Diag.thy ===== *)
theory Dd1a_Diag
  imports Brew_Mif Probe_Registry Uc_Engine Std_String
begin

text \<open>
  \<open>tools/cpp/zeebo_dd1a_diag.h\<close>: the assisted first-PC diagnosis of one game. It checks the identity of the
  package (application id from the path, class id from the MIF, module size), starts the module's entry
  under the interpreter and reports what happened: the first and last PC, whether the PC was inside the
  module, the number of instructions and the first fault. The callbacks that the CPU engine makes during a
  run are a parameter, as a list; the engine makes no further callback once one of them has asked it to stop.
\<close>

definition DD_APP_ID :: u32 where "DD_APP_ID = 274754"
definition DD_CLSID :: u32 where "DD_CLSID = 0x0102F789"
definition DD_MOD_SIZE :: nat where "DD_MOD_SIZE = 462748"

datatype fault_type = FAULT_NONE | FAULT_BUDGET | FAULT_FETCH_UNMAPPED | FAULT_READ_UNMAPPED | FAULT_WRITE_UNMAPPED | FAULT_OTHER

section \<open>The application id in a path\<close>

text \<open>The digits of \<open>s\<close> behind the value \<open>v\<close>; refused at the first one that exceeds 32 bits.\<close>

fun digits_from :: "nat \<Rightarrow> string \<Rightarrow> nat option" where
  "digits_from v [] = Some v"
| "digits_from v (c # s) =
     (if of_char c < (48::nat) \<or> of_char c > (57::nat) then None
      else let v = v * 10 + (of_char c - 48) in if v > 0xFFFFFFFF then None else digits_from v s)"

definition parse_u32_strict :: "string \<Rightarrow> u32 option" where
  "parse_u32_strict s = (if s = [] then None else map_option of_nat (digits_from 0 s))"

text \<open>\<open>None\<close> when \<open>ok\<close> is false.\<close>

definition parse_app_id_from_path :: "string \<Rightarrow> u32 option" where
  "parse_app_id_from_path path =
     (case find_sub ''/mod/'' path of
        Some pm \<Rightarrow> let start = pm + 5 in parse_u32_strict (takeWhile (\<lambda>c. c \<noteq> CHR ''/'') (drop start path))
      | None \<Rightarrow>
          (case find_sub ''/mif/'' path of
             Some pf \<Rightarrow>
               let fname = drop (pf + 5) path
               in (case rfind_sub ''.mif'' fname of
                     None \<Rightarrow> None
                   | Some dot \<Rightarrow> parse_u32_strict (take dot fname))
           | None \<Rightarrow> None))"

section \<open>The identity of the package\<close>

record package_identity =
  id_app_id_ok :: bool
  id_app_id :: u32
  id_clsid_ok :: bool
  id_clsid :: u32
  id_clsid_structural :: bool
  id_clsid_scan_corroborates :: bool
  id_mod_size_ok :: bool
  id_mod_size :: u32

definition identity_valid :: "package_identity \<Rightarrow> bool" where
  "identity_valid i \<longleftrightarrow> id_app_id_ok i \<and> id_clsid_ok i \<and> id_mod_size_ok i"

fun scan_word :: "u8 list \<Rightarrow> u8 list \<Rightarrow> bool" where
  "scan_word w [] = False"
| "scan_word w (b # bs) = (if length (b # bs) < 4 then False else take 4 (b # bs) = w \<or> scan_word w bs)"

text \<open>The outer option is that of the MIF parser.\<close>

definition validate_package :: "string \<Rightarrow> string \<Rightarrow> u8 list \<Rightarrow> u64 \<Rightarrow> package_identity option" where
  "validate_package mod_path mif_path mif_bytes mod_size =
     (let ap = parse_app_id_from_path mod_path;
          ap = (if ap = None then parse_app_id_from_path mif_path else ap);
          app_id = (case ap of None \<Rightarrow> 0 | Some a \<Rightarrow> a)
      in map_option (\<lambda>mi.
           let clsid_ok = (mif_valid mi \<and> mif_clsid mi = DD_CLSID)
           in \<lparr>id_app_id_ok = (ap \<noteq> None \<and> app_id = DD_APP_ID), id_app_id = app_id,
               id_clsid_ok = clsid_ok, id_clsid = (if mif_valid mi then mif_clsid mi else 0),
               id_clsid_structural = clsid_ok,
               id_clsid_scan_corroborates = scan_word (le32_bytes DD_CLSID) mif_bytes,
               id_mod_size_ok = (unat mod_size = DD_MOD_SIZE), id_mod_size = ucast mod_size\<rparr>)
         (mif_parse (Some mif_bytes)))"

section \<open>The hooks\<close>

datatype uc_mem_type = UC_MEM_FETCH_UNMAPPED | UC_MEM_FETCH_PROT | UC_MEM_READ_UNMAPPED | UC_MEM_READ_PROT |
  UC_MEM_WRITE_UNMAPPED | UC_MEM_WRITE_PROT | UC_MEM_OTHER

text \<open>The observer of a call site only looks at the engine; \<open>hs_seen\<close> counts its calls.\<close>

record hook_state =
  hs_mod_begin :: u32
  hs_mod_end :: u32
  hs_entered :: bool
  hs_first_pc :: u32
  hs_last_pc :: u32
  hs_count :: u64
  hs_budget :: u64
  hs_fault :: fault_type
  hs_fault_va :: u32
  hs_watch_va :: u32
  hs_watched :: bool
  hs_seen :: nat

text \<open>Each hook also says whether it asked the engine to stop.\<close>

definition code_hook :: "u64 \<Rightarrow> hook_state \<Rightarrow> bool \<times> hook_state" where
  "code_hook address st =
     (let st = (if hs_count st = 0 then st\<lparr>hs_first_pc := ucast address\<rparr> else st);
          st = st\<lparr>hs_last_pc := ucast address\<rparr>;
          st = (if ucast (hs_mod_begin st) \<le> address \<and> address < ucast (hs_mod_end st) then st\<lparr>hs_entered := True\<rparr> else st);
          st = (if hs_watched st \<and> hs_watch_va st \<noteq> 0 \<and> ucast address = hs_watch_va st
                then st\<lparr>hs_seen := Suc (hs_seen st)\<rparr> else st);
          st = st\<lparr>hs_count := hs_count st + 1\<rparr>
      in if hs_count st \<ge> hs_budget st then (True, st\<lparr>hs_fault := FAULT_BUDGET\<rparr>) else (False, st))"

fun fault_of :: "uc_mem_type \<Rightarrow> fault_type" where
  "fault_of UC_MEM_FETCH_UNMAPPED = FAULT_FETCH_UNMAPPED"
| "fault_of UC_MEM_FETCH_PROT = FAULT_FETCH_UNMAPPED"
| "fault_of UC_MEM_READ_UNMAPPED = FAULT_READ_UNMAPPED"
| "fault_of UC_MEM_READ_PROT = FAULT_READ_UNMAPPED"
| "fault_of UC_MEM_WRITE_UNMAPPED = FAULT_WRITE_UNMAPPED"
| "fault_of UC_MEM_WRITE_PROT = FAULT_WRITE_UNMAPPED"
| "fault_of UC_MEM_OTHER = FAULT_OTHER"

definition mem_hook :: "uc_mem_type \<Rightarrow> u64 \<Rightarrow> hook_state \<Rightarrow> bool \<times> hook_state" where
  "mem_hook type address st = (True, st\<lparr>hs_fault_va := ucast address, hs_fault := fault_of type\<rparr>)"

section \<open>The run\<close>

datatype hook_event = Code u64 | Mem uc_mem_type u64

fun deliver :: "hook_event list \<Rightarrow> hook_state \<Rightarrow> hook_state" where
  "deliver [] st = st"
| "deliver (ev # evs) st =
     (let (stop, st) = (case ev of Code a \<Rightarrow> code_hook a st | Mem t a \<Rightarrow> mem_hook t a st)
      in if stop then st else deliver evs st)"

record first_pc_result =
  fr_ran :: bool
  fr_load_va :: u32
  fr_entry_va :: u32
  fr_entered_module :: bool
  fr_first_pc :: u32
  fr_last_pc :: u32
  fr_instructions :: u64
  fr_fault :: fault_type
  fr_fault_va :: u32
  fr_uc_status :: uc_err

definition first_pc_init :: "u32 \<Rightarrow> u32 \<Rightarrow> first_pc_result" where
  "first_pc_init load_va entry_va =
     \<lparr>fr_ran = False, fr_load_va = load_va, fr_entry_va = entry_va, fr_entered_module = False, fr_first_pc = 0,
      fr_last_pc = 0, fr_instructions = 0, fr_fault = FAULT_NONE, fr_fault_va = 0, fr_uc_status = UC_ERR_OK\<rparr>"

definition sentinel :: u32 where "sentinel = 0xF0F0F0F0"

definition hook_state_new :: "u32 \<Rightarrow> u32 \<Rightarrow> u64 \<Rightarrow> u32 option \<Rightarrow> hook_state" where
  "hook_state_new mod_begin mod_size budget watch =
     \<lparr>hs_mod_begin = mod_begin, hs_mod_end = mod_begin + mod_size, hs_entered = False, hs_first_pc = 0, hs_last_pc = 0,
      hs_count = 0, hs_budget = (if budget \<noteq> 0 then budget else 1), hs_fault = FAULT_NONE, hs_fault_va = 0,
      hs_watch_va = (case watch of None \<Rightarrow> 0 | Some va \<Rightarrow> va), hs_watched = (watch \<noteq> None), hs_seen = 0\<rparr>"

text \<open>
  \<open>emu u entry stop\<close> is what \<open>uc_emu_start\<close> does from the engine state \<open>u\<close>: the callbacks in order and the
  status it returns. \<open>args\<close> are the initial values of \<open>r0\<close> to \<open>r3\<close>.
\<close>

definition run_first_pc ::
    "'u uc_ops \<Rightarrow> ('u \<Rightarrow> u32 \<Rightarrow> u32 \<Rightarrow> hook_event list \<times> uc_err) \<Rightarrow> 'u option \<Rightarrow> u32 \<Rightarrow> u32 \<Rightarrow> u32 \<Rightarrow> u32 \<Rightarrow> u64 \<Rightarrow> bool \<Rightarrow>
     u32 \<times> u32 \<times> u32 \<times> u32 \<Rightarrow> u32 option \<Rightarrow> first_pc_result" where
  "run_first_pc ops emu uc entry_va mod_begin mod_size stack_top budget force_success args watch =
     (let r = first_pc_init mod_begin entry_va; (r0, r1, r2, r3) = args
      in case uc of
           None \<Rightarrow> r
         | Some u \<Rightarrow>
             if entry_va = 0 \<or> mod_size = 0 then r
             else
               let u = uc_reg_write ops u (UC_R 0) r0;
                   u = uc_reg_write ops u (UC_R 1) r1;
                   u = uc_reg_write ops u (UC_R 2) r2;
                   u = uc_reg_write ops u (UC_R 3) r3;
                   u = uc_reg_write ops u UC_SP stack_top;
                   u = uc_reg_write ops u UC_LR sentinel;
                   (evs, e) = emu u entry_va sentinel;
                   st = deliver evs (hook_state_new mod_begin mod_size budget watch);
                   r = r\<lparr>fr_ran := True, fr_uc_status := e, fr_entered_module := hs_entered st, fr_first_pc := hs_first_pc st,
                         fr_last_pc := hs_last_pc st, fr_instructions := hs_count st, fr_fault := hs_fault st,
                         fr_fault_va := hs_fault_va st\<rparr>;
                   r = (if fr_fault r = FAULT_NONE \<and> e \<noteq> UC_ERR_OK then r\<lparr>fr_fault := FAULT_OTHER\<rparr> else r)
               in if force_success then r\<lparr>fr_entered_module := True, fr_fault := FAULT_NONE\<rparr> else r)"

section \<open>Numbers and paths\<close>

lemma digits_from_append: "digits_from v (xs @ ys) = Option.bind (digits_from v xs) (\<lambda>w. digits_from w ys)"
  by (induction v xs rule: digits_from.induct) (auto simp: Let_def)

lemma digits_from_dec: "n \<le> 0xFFFFFFFF \<Longrightarrow> digits_from 0 (dec n) = Some n"
proof (induction n rule: dec.induct)
  case (1 n)
  show ?case
  proof (cases "n < 10")
    case True
    then show ?thesis by (subst dec.simps) (simp add: Let_def)
  next
    case False
    then have "digits_from 0 (dec (n div 10)) = Some (n div 10)" using 1 by (simp add: div_le_dividend le_trans)
    moreover have "n div 10 * 10 + n mod 10 = n" by simp
    moreover have "(of_char (char_of (48 + n mod 10)) :: nat) = 48 + n mod 10" by (rule of_char_digit) simp
    ultimately show ?thesis using False 1(2) by (subst dec.simps) (simp add: digits_from_append Let_def)
  qed
qed

lemma parse_dec: "parse_u32_strict (dec (unat a)) = Some a"
  using digits_from_dec [of "unat a"] unat_less_u32 [of a] dec_nonempty [of "unat a"] by (simp add: parse_u32_strict_def)

lemma digits_no_slash: "takeWhile (\<lambda>c. c \<noteq> CHR ''/'') (dec n @ ''/'' @ rest) = dec n"
proof -
  have "CHR ''/'' \<notin> set (dec n)" using dec_digits [of n] by auto
  then have "\<And>c. c \<in> set (dec n) \<Longrightarrow> c \<noteq> CHR ''/''" by metis
  then show ?thesis by (simp add: takeWhile_append2)
qed

lemma mod_path_id:
  "\<not> sublist ''/mod/'' (pre @ ''/mod'') \<Longrightarrow> parse_app_id_from_path (pre @ ''/mod/'' @ dec (unat a) @ ''/'' @ rest) = Some a"
  using find_sub_first [of "''/mod/''" pre "dec (unat a) @ ''/'' @ rest"] digits_no_slash [of "unat a" rest]
  by (simp add: parse_app_id_from_path_def parse_dec)

lemma mif_path_id:
  assumes "\<not> sublist ''/mif/'' (pre @ ''/mif'')" "\<not> sublist ''/mod/'' (pre @ ''/mif/'' @ dec (unat a) @ ''.mif'')"
  shows "parse_app_id_from_path (pre @ ''/mif/'' @ dec (unat a) @ ''.mif'') = Some a"
proof -
  have m: "find_sub ''/mod/'' (pre @ ''/mif/'' @ dec (unat a) @ ''.mif'') = None"
    using assms(2) by (subst find_sub_None) simp_all
  have f: "find_sub ''/mif/'' (pre @ ''/mif/'' @ dec (unat a) @ ''.mif'') = Some (length pre)"
    by (rule find_sub_first) (use assms(1) in simp_all)
  have r: "rfind_sub ''.mif'' (dec (unat a) @ ''.mif'') = Some (length (dec (unat a)))" by (rule rfind_sub_end) simp
  have d: "drop (length pre + 5) (pre @ ''/mif/'' @ dec (unat a) @ ''.mif'') = dec (unat a) @ ''.mif''" by simp
  show ?thesis unfolding parse_app_id_from_path_def m f option.case Let_def d r by (simp add: parse_dec)
qed

section \<open>The identity is structural\<close>

lemma scan_word_at: "p + 4 \<le> length d \<Longrightarrow> take 4 (drop p d) = w \<Longrightarrow> scan_word w d"
proof (induction d arbitrary: p)
  case (Cons b d)
  then show ?case
  proof (cases p)
    case (Suc q)
    then have "scan_word w d" using Cons.prems by (intro Cons.IH [of q]) simp_all
    then show ?thesis using Suc Cons.prems(1) by simp
  qed auto
qed simp

lemma rd32_bytes: "p + 4 \<le> length d \<Longrightarrow> take 4 (drop p d) = le32_bytes (rd32 d p)"
  unfolding rd32_def le32_bytes_le32 by (rule nth_equalityI) (auto simp: nth_Cons' less_Suc_eq numeral_eq_Suc)

text \<open>
  The package is identified by its structure. For a module path with a decimal application id in its
  \<open>mod\<close> directory (the first directory of that name), the id reported is that number; the identity is valid
  exactly when it is the game's id, the MIF holds a record with the game's class id and the module has the
  game's size. A valid identity is always corroborated by the raw scan of the MIF, so the scan can never
  contradict it.
\<close>

theorem package_identity_exact:
  assumes "\<not> sublist ''/mod/'' (pre @ ''/mod'')"
  shows "\<exists>i mi. validate_package (pre @ ''/mod/'' @ dec (unat a) @ ''/'' @ rest) mif_path mif n = Some i \<and>
    mif_parse (Some mif) = Some mi \<and> id_app_id i = a \<and>
    (identity_valid i \<longleftrightarrow> a = 274754 \<and> mif_valid mi \<and> mif_clsid mi = 0x0102F789 \<and> n = 462748) \<and>
    (identity_valid i \<longrightarrow> (\<exists>p. applet_record_at mif p 0x0102F789) \<and> id_clsid_scan_corroborates i)"
proof -
  obtain mi where mi: "mif_parse (Some mif) = Some mi" "mif_valid mi \<longrightarrow> (\<exists>p. applet_record_at mif p (mif_clsid mi))"
    using mif_parse_found [of mif] by blast
  have "scan_word (le32_bytes c) mif" if "applet_record_at mif p c" for p c
    using that scan_word_at [of p mif] rd32_bytes [of p mif] by (auto simp: applet_record_at_def)
  moreover have "unat n = 462748 \<longleftrightarrow> n = 462748" by unat_arith
  ultimately show ?thesis
    unfolding validate_package_def mod_path_id [OF assms] using mi
    by (auto simp: Let_def identity_valid_def DD_APP_ID_def DD_CLSID_def DD_MOD_SIZE_def)
qed

definition dd_mif :: "u8 list" where
  "dd_mif = [0x11, 0] @ replicate 14 0 @ le32_bytes 0x20 @ le32_bytes 1 @ replicate 8 0 @
     le32_bytes 0x28 @ le32_bytes 0x3c @ le32_bytes 0x0102F789 @ replicate 16 0"

theorem package_identity_exact_witness:
  "\<exists>i. validate_package ''/efs/mod/274754/ddragonz.mod'' [] dd_mif 462748 = Some i \<and> id_app_id i = 274754 \<and> identity_valid i \<and>
     id_clsid_scan_corroborates i"
proof -
  have mi: "mif_parse (Some dd_mif) = Some \<lparr>mif_clsid = 0x0102F789, mif_name = [], mif_mod_file = [], mif_valid = True\<rparr>"
    by code_simp
  have "find_sub ''/mod/'' ''/efs/mod'' = None" by code_simp
  then have "\<not> sublist ''/mod/'' (''/efs'' @ ''/mod'')" by (subst find_sub_None [symmetric]) simp_all
  note t = package_identity_exact [OF this, of 274754 "''ddragonz.mod''" "[]" dd_mif 462748]
  have "''/efs'' @ ''/mod/'' @ dec (unat (274754::u32)) @ ''/'' @ ''ddragonz.mod'' = ''/efs/mod/274754/ddragonz.mod''"
    by (simp add: dec.simps char_of_def bit_0)
  then show ?thesis using t mi by auto
qed

section \<open>The report of a run\<close>

text \<open>The instructions before the first memory callback, and that callback.\<close>

fun pcs_of :: "hook_event list \<Rightarrow> u64 list" where
  "pcs_of (Code a # evs) = a # pcs_of evs"
| "pcs_of _ = []"

fun first_mem :: "hook_event list \<Rightarrow> (uc_mem_type \<times> u64) option" where
  "first_mem [] = None"
| "first_mem (Code a # evs) = first_mem evs"
| "first_mem (Mem t a # evs) = Some (t, a)"

definition in_module :: "hook_state \<Rightarrow> u64 \<Rightarrow> bool" where
  "in_module st a \<longleftrightarrow> unat (hs_mod_begin st) \<le> unat a \<and> unat a < unat (hs_mod_end st)"

lemma code_hook_fields:
  assumes "hs_count st = of_nat k" "k < b" "b < 2 ^ 64" "hs_budget st = of_nat b"
  shows "fst (code_hook a st) \<longleftrightarrow> b \<le> Suc k" "hs_count (snd (code_hook a st)) = of_nat (Suc k)"
    "hs_first_pc (snd (code_hook a st)) = (if k = 0 then ucast a else hs_first_pc st)"
    "hs_last_pc (snd (code_hook a st)) = ucast a" "hs_entered (snd (code_hook a st)) \<longleftrightarrow> hs_entered st \<or> in_module st a"
    "hs_fault (snd (code_hook a st)) = (if b \<le> Suc k then FAULT_BUDGET else hs_fault st)"
    "hs_fault_va (snd (code_hook a st)) = hs_fault_va st" "hs_budget (snd (code_hook a st)) = hs_budget st"
    "in_module (snd (code_hook a st)) = in_module st"
proof -
  have c: "hs_count st + 1 = of_nat (Suc k)" using assms(1) by simp
  then have "unat (hs_count st + 1) = Suc k" using assms(2,3) by (simp only: unat_of_nat) simp
  then have s: "hs_budget st \<le> hs_count st + 1 \<longleftrightarrow> b \<le> Suc k"
    using assms(3,4) by (simp add: word_le_nat_alt unat_of_nat)
  have z: "hs_count st = 0 \<longleftrightarrow> k = 0"
    using assms by (simp add: word_unat_eq_iff unat_of_nat)
  have m: "ucast (hs_mod_begin st) \<le> a \<and> a < ucast (hs_mod_end st) \<longleftrightarrow> in_module st a"
    by (simp add: in_module_def word_le_nat_alt word_less_nat_alt)
  have "code_hook a st = (b \<le> Suc k, st\<lparr>hs_first_pc := (if k = 0 then ucast a else hs_first_pc st),
      hs_last_pc := ucast a, hs_entered := (hs_entered st \<or> in_module st a),
      hs_seen := (if hs_watched st \<and> hs_watch_va st \<noteq> 0 \<and> ucast a = hs_watch_va st then Suc (hs_seen st) else hs_seen st),
      hs_count := hs_count st + 1, hs_fault := (if b \<le> Suc k then FAULT_BUDGET else hs_fault st)\<rparr>)"
    unfolding code_hook_def Let_def
    by (cases "k = 0"; cases "in_module st a"; cases "hs_watched st \<and> hs_watch_va st \<noteq> 0 \<and> ucast a = hs_watch_va st";
        cases "b \<le> Suc k"; simp add: s z m del: of_nat_Suc)
  then show "fst (code_hook a st) \<longleftrightarrow> b \<le> Suc k" "hs_count (snd (code_hook a st)) = of_nat (Suc k)"
    "hs_first_pc (snd (code_hook a st)) = (if k = 0 then ucast a else hs_first_pc st)"
    "hs_last_pc (snd (code_hook a st)) = ucast a" "hs_entered (snd (code_hook a st)) \<longleftrightarrow> hs_entered st \<or> in_module st a"
    "hs_fault (snd (code_hook a st)) = (if b \<le> Suc k then FAULT_BUDGET else hs_fault st)"
    "hs_fault_va (snd (code_hook a st)) = hs_fault_va st" "hs_budget (snd (code_hook a st)) = hs_budget st"
    "in_module (snd (code_hook a st)) = in_module st"
    using c by (simp_all add: in_module_def fun_eq_iff)
qed

text \<open>What a run from a state that has counted \<open>k\<close> instructions of a budget of \<open>b\<close> ends with.\<close>

lemma deliver_fields:
  fixes evs :: "hook_event list"
  assumes "hs_count st = of_nat k" "k < b" "b < 2 ^ 64" "hs_budget st = of_nat b" "hs_fault st = FAULT_NONE" "hs_fault_va st = 0"
  defines "ps \<equiv> take (b - k) (pcs_of evs)"
  shows "hs_count (deliver evs st) = of_nat (k + length ps) \<and>
    hs_first_pc (deliver evs st) = (if k = 0 \<and> ps \<noteq> [] then ucast (hd ps) else hs_first_pc st) \<and>
    hs_last_pc (deliver evs st) = (if ps = [] then hs_last_pc st else ucast (last ps)) \<and>
    (hs_entered (deliver evs st) \<longleftrightarrow> hs_entered st \<or> list_ex (in_module st) ps) \<and>
    (if b - k \<le> length (pcs_of evs) then hs_fault (deliver evs st) = FAULT_BUDGET \<and> hs_fault_va (deliver evs st) = 0
     else case first_mem evs of
            None \<Rightarrow> hs_fault (deliver evs st) = FAULT_NONE \<and> hs_fault_va (deliver evs st) = 0
          | Some (t, a) \<Rightarrow> hs_fault (deliver evs st) = fault_of t \<and> hs_fault_va (deliver evs st) = ucast a)"
  using assms(1-6) unfolding ps_def
proof (induction evs arbitrary: st k rule: pcs_of.induct)
  case (1 a evs)
  note f = code_hook_fields [OF "1.prems"(1-4), of a]
  let ?st = "snd (code_hook a st)"
  obtain j where j: "b - k = Suc j" "j = b - Suc k" using "1.prems"(2) by (metis Suc_diff_Suc)
  show ?case
  proof (cases "b \<le> Suc k")
    case True
    then have "deliver (Code a # evs) st = ?st" "j = 0" using f(1) j by (simp_all add: case_prod_beta Let_def)
    then show ?thesis using f True j "1.prems" by simp
  next
    case False
    then have d: "deliver (Code a # evs) st = deliver evs ?st" using f(1) by (simp add: case_prod_beta Let_def)
    have t: "take (b - k) (pcs_of (Code a # evs)) = a # take (b - Suc k) (pcs_of evs)" using j by simp
    have l: "b - k \<le> length (pcs_of (Code a # evs)) \<longleftrightarrow> b - Suc k \<le> length (pcs_of evs)" using j by simp
    show ?thesis
      using "1.IH" [of ?st "Suc k"] f False "1.prems" unfolding d t l by (simp split: if_splits)
  qed
qed (auto simp: mem_hook_def)

text \<open>
  The diagnosis reports exactly what the run did. With an engine that makes the callbacks \<open>evs\<close>, at most
  \<open>budget\<close> instructions (one, if it is zero) are counted; the first and the last PC and whether the module
  was entered are those of the counted instructions; the fault is the exhausted budget when the budget was
  used up, else the kind and address of the first memory fault, else an error of the engine; and only a
  clean stop is reported as no fault.
\<close>

theorem first_pc_report_exact:
  assumes "entry_va \<noteq> 0" "mod_size \<noteq> 0" "\<And>u. emu u entry_va sentinel = (evs, e)"
  shows "let r = run_first_pc ops emu (Some u) entry_va mod_begin mod_size stack_top budget False args watch;
      b = max 1 (unat budget); ps = take b (pcs_of evs) in
    fr_ran r \<and> fr_instructions r = of_nat (length ps) \<and>
    (ps \<noteq> [] \<longrightarrow> fr_first_pc r = ucast (hd ps) \<and> fr_last_pc r = ucast (last ps)) \<and>
    (fr_entered_module r \<longleftrightarrow> (\<exists>pc \<in> set ps. unat mod_begin \<le> unat pc \<and> unat pc < unat (mod_begin + mod_size))) \<and>
    (fr_fault r, fr_fault_va r) =
      (if b \<le> length (pcs_of evs) then (FAULT_BUDGET, 0)
       else case first_mem evs of
              Some (t, a) \<Rightarrow> (fault_of t, ucast a)
            | None \<Rightarrow> (if e = UC_ERR_OK then FAULT_NONE else FAULT_OTHER, 0))"
proof -
  let ?st = "hook_state_new mod_begin mod_size budget watch" and ?b = "max 1 (unat budget)"
  obtain r0 r1 r2 r3 where args: "args = (r0, r1, r2, r3)" by (cases args) auto
  have "(if budget \<noteq> 0 then budget else 1) = of_nat ?b"
    by (cases "budget = 0") (simp_all add: max_absorb2 unat_gt_0 Suc_leI)
  then have "hs_count ?st = of_nat 0" "0 < ?b" "?b < 2 ^ 64" "hs_budget ?st = of_nat ?b" "hs_fault ?st = FAULT_NONE" "hs_fault_va ?st = 0"
    using unat_less_u64 [of budget] by (simp_all add: hook_state_new_def)
  note d = deliver_fields [OF this, of evs]
  have m: "list_ex (in_module ?st) xs \<longleftrightarrow> (\<exists>pc \<in> set xs. unat mod_begin \<le> unat pc \<and> unat pc < unat (mod_begin + mod_size))" for xs
    by (simp add: list_ex_iff in_module_def hook_state_new_def)
  have nf: "fault_of t \<noteq> FAULT_NONE" "FAULT_NONE \<noteq> fault_of t" for t by (cases t; simp)+
  have z: "hs_entered ?st = False" by (simp add: hook_state_new_def)
  show ?thesis
    using d assms nf unfolding m z by (auto simp: run_first_pc_def args first_pc_init_def Let_def split: option.splits if_splits)
qed

theorem first_pc_report_exact_witness:
  "let r = run_first_pc arm_ops (\<lambda>u a b. ([Code 0x12000000, Code 0x12000004, Mem UC_MEM_READ_UNMAPPED 8], UC_ERR_OTHER))
       (Some arm_init) 0x12000000 0x12000000 0x1000 0x20000000 100 False (0, 0, 0, 0) None
   in fr_instructions r = 2 \<and> fr_first_pc r = 0x12000000 \<and> fr_last_pc r = 0x12000004 \<and> fr_entered_module r \<and>
      fr_fault r = FAULT_READ_UNMAPPED \<and> fr_fault_va r = 8"
  using first_pc_report_exact [of "0x12000000" "0x1000" "\<lambda>u a b. ([Code 0x12000000, Code 0x12000004, Mem UC_MEM_READ_UNMAPPED 8], UC_ERR_OTHER)"
      "[Code 0x12000000, Code 0x12000004, Mem UC_MEM_READ_UNMAPPED 8]" UC_ERR_OTHER arm_ops arm_init "0x12000000" "0x20000000" 100
      "(0, 0, 0, 0)" None]
  by (simp add: Let_def max_def take_Cons')

end
