(* ===== verification/Control_Server.thy ===== *)
theory Control_Server
  imports Probe_Registry Std_String "HOL-Library.Multiset"
begin

text \<open>
  \<open>tools/cpp/zeebo_control_server.h\<close>: the line-based control protocol. A connection collects received
  chunks in a buffer and answers complete lines; a line is parsed into a request by searching for quoted
  keys; requests pass through a queue between the connection thread and the main loop, which \<open>Stop\<close> closes.
  Sockets are parameters: the chunks that \<open>recv\<close> returned (the empty one for a closed connection), and
  which writes succeed. The threads interleave at the steps that hold the mutex or change the running flag.
\<close>

section \<open>Requests\<close>

text \<open>A number is \<open>None\<close> when its \<open>has\<close> flag is false.\<close>

record control_request =
  rq_cmd :: string
  rq_button :: string
  rq_path :: string
  rq_hex :: string
  rq_mode :: string
  rq_action :: string
  rq_probe :: string
  rq_core :: "u64 option"
  rq_i0 :: "u64 option"
  rq_i1 :: "u64 option"
  rq_i2 :: "u64 option"
  rq_val :: "u64 option"

definition ExtractString :: "string \<Rightarrow> string \<Rightarrow> string" where
  "ExtractString s k =
     (let pat = quo k
      in case find_sub pat s of
           None \<Rightarrow> []
         | Some i \<Rightarrow>
             (case find_from CHR '':'' s (i + length pat) of
                None \<Rightarrow> []
              | Some c \<Rightarrow>
                  (case find_from CHR 0x22 s (c + 1) of
                     None \<Rightarrow> []
                   | Some q \<Rightarrow>
                       (case find_from CHR 0x22 s (q + 1) of
                          None \<Rightarrow> []
                        | Some e \<Rightarrow> take (e - q - 1) (drop (q + 1) s)))))"

text \<open>
  \<open>strtoull\<close> in base 10 or 16: white space, a sign, the prefix of base 16 when a digit follows it, digits. A
  value above 64 bits gives the largest one; a minus sign negates modulo \<open>2 ^ 64\<close>. The second component
  is the number of characters consumed, 0 when there is no number.
\<close>

definition is_space :: "char \<Rightarrow> bool" where
  "is_space c = (c = CHR '' '' \<or> (9::nat) \<le> of_char c \<and> of_char c \<le> (13::nat))"

definition digit_val :: "char \<Rightarrow> nat option" where
  "digit_val c =
     (let n = (of_char c :: nat)
      in if 48 \<le> n \<and> n \<le> 57 then Some (n - 48)
         else if 97 \<le> n \<and> n \<le> 122 then Some (n - 87)
         else if 65 \<le> n \<and> n \<le> 90 then Some (n - 55)
         else None)"

definition is_digit :: "nat \<Rightarrow> char \<Rightarrow> bool" where
  "is_digit base c = (case digit_val c of Some d \<Rightarrow> d < base | None \<Rightarrow> False)"

definition digits_value :: "nat \<Rightarrow> string \<Rightarrow> nat" where
  "digits_value base s = foldl (\<lambda>v c. v * base + the (digit_val c)) 0 s"

definition strtoull :: "nat \<Rightarrow> string \<Rightarrow> u64 \<times> nat" where
  "strtoull base s =
     (let t = dropWhile is_space s;
          neg = (t \<noteq> [] \<and> hd t = CHR ''-'');
          t = (if t \<noteq> [] \<and> (hd t = CHR ''-'' \<or> hd t = CHR ''+'') then tl t else t);
          t = (if base = 16 \<and> length t > 2 \<and> t ! 0 = CHR ''0'' \<and> (t ! 1 = CHR ''x'' \<or> t ! 1 = CHR ''X'') \<and> is_digit 16 (t ! 2)
               then drop 2 t else t);
          ds = takeWhile (is_digit base) t;
          v = digits_value base ds
      in if ds = [] then (0, 0)
         else (if v \<ge> 2 ^ 64 then - 1 else if neg then - of_nat v else of_nat v, length s - length t + length ds))"

definition ExtractInt :: "string \<Rightarrow> string \<Rightarrow> u64 option" where
  "ExtractInt s k =
     (let pat = quo k
      in case find_sub pat s of
           None \<Rightarrow> None
         | Some i \<Rightarrow>
             (case find_from CHR '':'' s (i + length pat) of
                None \<Rightarrow> None
              | Some c \<Rightarrow>
                  let t = dropWhile (\<lambda>x. x = CHR '' '' \<or> x = CHR 0x09 \<or> x = CHR 0x22) (drop (c + 1) s)
                  in if t = [] then None
                     else if hd t = CHR ''-'' \<or> hd t = CHR ''+'' then None
                     else
                       let base = (if length t > 1 \<and> t ! 0 = CHR ''0'' \<and> (t ! 1 = CHR ''x'' \<or> t ! 1 = CHR ''X'') then 16 else 10);
                           (v, used) = strtoull base t
                       in if used = 0 then None else Some v))"

fun first_int :: "string \<Rightarrow> string list \<Rightarrow> u64 option" where
  "first_int s [] = None"
| "first_int s (k # ks) = (case ExtractInt s k of Some v \<Rightarrow> Some v | None \<Rightarrow> first_int s ks)"

definition ParseLine :: "string \<Rightarrow> control_request option" where
  "ParseLine s =
     (if ExtractString s ''cmd'' = [] then None
      else Some \<lparr>rq_cmd = ExtractString s ''cmd'', rq_button = ExtractString s ''button'', rq_path = ExtractString s ''path'',
        rq_hex = ExtractString s ''hex'', rq_mode = ExtractString s ''mode'', rq_action = ExtractString s ''action'',
        rq_probe = ExtractString s ''probe'', rq_core = ExtractInt s ''core'',
        rq_i0 = first_int s [''ticks'', ''n'', ''addr'', ''port''], rq_i1 = ExtractInt s ''len'', rq_i2 = ExtractInt s ''hi'',
        rq_val = first_int s [''value'', ''val'']\<rparr>)"

section \<open>The connection\<close>

definition strip_cr :: "string \<Rightarrow> string" where
  "strip_cr line = (if line \<noteq> [] \<and> last line = CHR 0x0D then butlast line else line)"

text \<open>
  The inner loop: the lines that are answered, and the rest of the buffer, or \<open>None\<close> when a reply could not be
  written; \<open>w n\<close> says whether the \<open>n\<close>-th reply is.
\<close>

function serve_buf :: "(nat \<Rightarrow> bool) \<Rightarrow> nat \<Rightarrow> string \<Rightarrow> string list \<times> string option" where
  "serve_buf w n buf =
     (case find_from CHR 0x0A buf 0 of
        None \<Rightarrow> ([], Some buf)
      | Some nl \<Rightarrow>
          let line = strip_cr (take nl buf); buf' = drop (nl + 1) buf
          in if line = [] then serve_buf w n buf'
             else if \<not> w n then ([line], None)
             else let (ls, r) = serve_buf w (n + 1) buf' in (line # ls, r))"
  by pat_completeness auto
termination
  by (relation "measure (\<lambda>(w, n, buf). length buf)") (auto simp: find_from_def Let_def split: if_splits)

declare serve_buf.simps [simp del]

datatype ending = Stopped | WriteFailed | PeerClosed | TooLarge

text \<open>The outer loop; \<open>running i\<close> is the flag at the start of iteration \<open>i\<close>.\<close>

fun HandleConnection ::
    "(nat \<Rightarrow> bool) \<Rightarrow> (nat \<Rightarrow> bool) \<Rightarrow> nat \<Rightarrow> nat \<Rightarrow> string \<Rightarrow> string list \<Rightarrow> string list \<times> ending" where
  "HandleConnection running w i n buf chunks =
     (if \<not> running i then ([], Stopped)
      else
        case serve_buf w n buf of
          (ls, None) \<Rightarrow> (ls, WriteFailed)
        | (ls, Some buf) \<Rightarrow>
            (case chunks of
               [] \<Rightarrow> (ls, PeerClosed)
             | c # cs \<Rightarrow>
                 if c = [] then (ls, PeerClosed)
                 else
                   let buf = buf @ c
                   in if length buf > 16384 then (ls, TooLarge)
                      else let (ls', e) = HandleConnection running w (i + 1) (n + length ls) buf cs in (ls @ ls', e)))"

declare HandleConnection.simps [simp del]

section \<open>The queue\<close>

text \<open>
  The running flag, the queue, how many calls of \<open>Stop\<close> are between clearing the flag and emptying the queue
  (the server may have been started again in between), and what became of the requests: handed to the main loop, answered by \<open>Stop\<close>, or refused by \<open>Enqueue\<close>.
\<close>

record 'r control_server =
  sv_running :: bool
  sv_queue :: "'r list"
  sv_stopping :: nat
  sv_drained :: "'r list"
  sv_shutdown :: "'r list"
  sv_refused :: "'r list"

definition server_init :: "'r control_server" where
  "server_init = \<lparr>sv_running = False, sv_queue = [], sv_stopping = 0, sv_drained = [], sv_shutdown = [], sv_refused = []\<rparr>"

datatype 'r server_event = Started | Enqueue 'r | Drain | StopFlag | StopDrain

fun server_step :: "'r server_event \<Rightarrow> 'r control_server \<Rightarrow> 'r control_server" where
  "server_step Started s = s\<lparr>sv_running := True\<rparr>"
| "server_step (Enqueue r) s =
     (if \<not> sv_running s then s\<lparr>sv_refused := sv_refused s @ [r]\<rparr> else s\<lparr>sv_queue := sv_queue s @ [r]\<rparr>)"
| "server_step Drain s = s\<lparr>sv_queue := [], sv_drained := sv_drained s @ sv_queue s\<rparr>"
| "server_step StopFlag s = (if \<not> sv_running s then s else s\<lparr>sv_running := False, sv_stopping := sv_stopping s + 1\<rparr>)"
| "server_step StopDrain s =
     (if sv_stopping s = 0 then s
      else s\<lparr>sv_queue := [], sv_shutdown := sv_shutdown s @ sv_queue s, sv_stopping := sv_stopping s - 1\<rparr>)"

section \<open>Lines do not depend on chunks\<close>

text \<open>The complete lines of a text, \<open>acc\<close> the characters of the current one in reverse.\<close>

fun complete_lines :: "string \<Rightarrow> string \<Rightarrow> string list" where
  "complete_lines acc [] = []"
| "complete_lines acc (c # s) = (if c = CHR 0x0A then rev acc # complete_lines [] s else complete_lines (c # acc) s)"

definition requests_in :: "string \<Rightarrow> string list" where
  "requests_in s = filter (\<lambda>l. l \<noteq> []) (map strip_cr (complete_lines [] s))"

abbreviation always :: "nat \<Rightarrow> bool" where
  "always \<equiv> \<lambda>_. True"

lemma complete_lines_split:
  "CHR 0x0A \<notin> set mid \<Longrightarrow> complete_lines acc (mid @ CHR 0x0A # rest) = (rev acc @ mid) # complete_lines [] rest"
  "CHR 0x0A \<notin> set mid \<Longrightarrow> complete_lines acc mid = []"
  by (induction mid arbitrary: acc) auto

lemma newline_cases:
  obtains "find_from CHR 0x0A buf 0 = None" "CHR 0x0A \<notin> set buf"
  | mid rest where "buf = mid @ CHR 0x0A # rest" "CHR 0x0A \<notin> set mid" "find_from CHR 0x0A buf 0 = Some (length mid)"
proof (cases "CHR 0x0A \<in> set buf")
  case True
  then obtain mid rest where "buf = mid @ CHR 0x0A # rest" "CHR 0x0A \<notin> set mid" by (metis split_list_first)
  then show ?thesis using that(2) find_from_skip [of "CHR 0x0A" mid "[]" 0 rest] by simp
next
  case False
  then show ?thesis using that(1) find_from_None [of 0 buf "CHR 0x0A"] by simp
qed

lemma serve_next:
  assumes "CHR 0x0A \<notin> set mid"
  shows "serve_buf always n (mid @ CHR 0x0A # rest) =
    (case serve_buf always (if strip_cr mid = [] then n else n + 1) rest of
       (ls, r) \<Rightarrow> (if strip_cr mid = [] then ls else strip_cr mid # ls, r))"
  using find_from_skip [OF assms, of "[]" 0 rest]
  by (subst serve_buf.simps) (simp split: prod.split)

lemma serve_none: "CHR 0x0A \<notin> set buf \<Longrightarrow> serve_buf w n buf = ([], Some buf)"
  using find_from_None [of 0 buf "CHR 0x0A"] by (subst serve_buf.simps) simp

lemma serve_index: "serve_buf always n buf = serve_buf always m buf"
proof (induction "length buf" arbitrary: n m buf rule: less_induct)
  case less
  show ?case
  proof (cases buf rule: newline_cases)
    case (2 mid rest)
    then show ?thesis using less [of rest] by (simp add: serve_next split: prod.split) (metis prod.inject)
  qed (simp add: serve_none)
qed

lemma requests_in_next:
  "CHR 0x0A \<notin> set mid \<Longrightarrow>
    requests_in (mid @ CHR 0x0A # rest) = (if strip_cr mid = [] then requests_in rest else strip_cr mid # requests_in rest)"
  "CHR 0x0A \<notin> set mid \<Longrightarrow> requests_in mid = []"
  by (simp_all add: requests_in_def complete_lines_split)

lemma serve_always:
  "\<exists>r. serve_buf always n buf = (requests_in buf, Some r) \<and> CHR 0x0A \<notin> set r \<and> suffix r buf \<and>
     (\<forall>c. requests_in (buf @ c) = requests_in buf @ requests_in (r @ c))"
proof (induction "length buf" arbitrary: n buf rule: less_induct)
  case less
  show ?case
  proof (cases buf rule: newline_cases)
    case 1
    then show ?thesis by (simp add: serve_none requests_in_next)
  next
    case (2 mid rest)
    let ?n = "if strip_cr mid = [] then n else n + 1"
    from less [of rest ?n] 2(1) obtain r where r: "serve_buf always ?n rest = (requests_in rest, Some r)" "CHR 0x0A \<notin> set r"
        "suffix r rest" "\<forall>c. requests_in (rest @ c) = requests_in rest @ requests_in (r @ c)"
      by auto
    then show ?thesis using 2 serve_next [OF 2(2), of n rest]
      by (intro exI [of _ r]) (auto simp: requests_in_next suffix_def)
  qed
qed

lemma connection_lines:
  assumes "[] \<notin> set chunks" "\<forall>c \<in> set chunks. length c \<le> 1024"
    and "\<forall>xs mid ys. buf @ concat chunks = xs @ mid @ ys \<and> CHR 0x0A \<notin> set mid \<longrightarrow> length mid \<le> 15360"
  shows "HandleConnection always always i n buf chunks = (requests_in (buf @ concat chunks), PeerClosed)"
  using assms
proof (induction chunks arbitrary: i n buf)
  case Nil
  obtain r where "serve_buf always n buf = (requests_in buf, Some r)" using serve_always by blast
  then show ?case by (simp add: HandleConnection.simps)
next
  case (Cons c cs)
  obtain r where r: "serve_buf always n buf = (requests_in buf, Some r)" "CHR 0x0A \<notin> set r" "suffix r buf"
      "\<forall>c. requests_in (buf @ c) = requests_in buf @ requests_in (r @ c)"
    using serve_always [of n buf] by blast
  obtain xs where xs: "buf = xs @ r" using r(3) by (auto simp: suffix_def)
  have "length r \<le> 15360" using Cons.prems(3) [rule_format, of xs r "concat (c # cs)"] r(2) by (simp add: xs)
  then have len: "length (r @ c) \<le> 16384" using Cons.prems(2) by simp
  have "length mid \<le> 15360" if "(r @ c) @ concat cs = as @ mid @ bs" "CHR 0x0A \<notin> set mid" for as mid bs
    using Cons.prems(3) [rule_format, of "xs @ as" mid bs] that by (simp add: xs)
  then have "HandleConnection always always (i + 1) (n + length (requests_in buf)) (r @ c) cs =
      (requests_in ((r @ c) @ concat cs), PeerClosed)"
    using Cons.prems(1,2) by (intro Cons.IH) auto
  then show ?case using r(1,4) len Cons.prems(1) by (subst HandleConnection.simps) (auto simp: Let_def)
qed

text \<open>
  C39: the answers do not depend on how the network cut the stream. When no line is longer than 15360
  characters, a connection whose chunks arrive in any sizes answers exactly the nonempty complete lines of
  the whole stream, in order and without their carriage returns, and ends when the peer closes it; the
  limit on the buffer never cuts such a stream.
\<close>

theorem lines_independent_of_chunks:
  assumes "[] \<notin> set chunks" "\<forall>c \<in> set chunks. length c \<le> 1024"
    and "\<forall>xs mid ys. concat chunks = xs @ mid @ ys \<and> CHR 0x0A \<notin> set mid \<longrightarrow> length mid \<le> 15360"
  shows "HandleConnection always always 0 0 [] chunks =
    (filter (\<lambda>l. l \<noteq> []) (map strip_cr (complete_lines [] (concat chunks))), PeerClosed)"
  using connection_lines [OF assms(1,2), of "[]"] assms(3) by (simp add: requests_in_def)

theorem lines_independent_of_chunks_witness:
  "HandleConnection always always 0 0 [] [''ru'', ''n'' @ [CHR 0x0D, CHR 0x0A] @ ''st'', ''op'' @ [CHR 0x0A]] =
     ([''run'', ''stop''], PeerClosed)"
proof -
  let ?cs = "[''ru'', ''n'' @ [CHR 0x0D, CHR 0x0A] @ ''st'', ''op'' @ [CHR 0x0A]]"
  have "length mid \<le> 15360" if "concat ?cs = xs @ mid @ ys" for xs mid ys
  proof -
    have "length (concat ?cs) = 10" by simp
    then have "length xs + length mid + length ys = 10" unfolding that by simp
    then show ?thesis by simp
  qed
  then show ?thesis using lines_independent_of_chunks [of ?cs] by (auto simp: strip_cr_def)
qed

section \<open>Every request is answered once\<close>

definition enqueued :: "'r server_event list \<Rightarrow> 'r list" where
  "enqueued evs = concat (map (\<lambda>e. case e of Enqueue r \<Rightarrow> [r] | _ \<Rightarrow> []) evs)"

lemma enqueued_simps [simp]: "enqueued [] = []" "enqueued (es @ [e]) = enqueued es @ (case e of Enqueue r \<Rightarrow> [r] | _ \<Rightarrow> [])"
  by (simp_all add: enqueued_def)

interpretation server: machine_inv server_step "\<lambda>s. sv_running s \<or> 0 < sv_stopping s \<or> sv_queue s = []"
proof unfold_locales
  fix s :: "'r control_server" and e :: "'r server_event"
  assume "sv_running s \<or> 0 < sv_stopping s \<or> sv_queue s = []"
  then show "sv_running (server_step e s) \<or> 0 < sv_stopping (server_step e s) \<or> sv_queue (server_step e s) = []"
    by (cases e) auto
qed

text \<open>
  C38: no request is lost and none is answered twice. However the threads interleave, every request that was
  offered to the queue is exactly one of: handed to the main loop, answered by \<open>Stop\<close>, refused because the
  server was not running, or still queued; the main loop sees requests in the order they were offered; and
  once every \<open>Stop\<close> has finished the queue is empty and stays empty until the server is started again.
\<close>

theorem requests_answered_once:
  "let s = fold server_step evs server_init in
   mset (enqueued evs) = mset (sv_drained s) + mset (sv_shutdown s) + mset (sv_refused s) + mset (sv_queue s) \<and>
   subseq (sv_drained s @ sv_queue s) (enqueued evs) \<and>
   (sv_running s \<or> 0 < sv_stopping s \<or> sv_queue s = [])"
proof -
  let ?s = "\<lambda>evs. fold server_step evs (server_init :: 'a control_server)"
  have "mset (enqueued evs) = mset (sv_drained (?s evs)) + mset (sv_shutdown (?s evs)) + mset (sv_refused (?s evs)) + mset (sv_queue (?s evs)) \<and>
      subseq (sv_drained (?s evs) @ sv_queue (?s evs)) (enqueued evs)"
  proof (induction evs rule: rev_induct)
    case (snoc e evs)
    have p: "subseq xs (enqueued evs @ ys)" if "subseq xs (enqueued evs)" for xs ys
      using that list_emb_prefix by blast
    show ?case
    proof (cases e)
      case (Enqueue r)
      then show ?thesis using snoc p by (auto simp: append_assoc [symmetric] simp del: append_assoc)
    next
      case StopDrain
      have "subseq (sv_drained (?s evs)) (enqueued evs)" using snoc by (meson subseq_order.trans subseq_rev_drop_many subseq_order.refl list_emb_append2)
      then show ?thesis using snoc StopDrain by auto
    qed (use snoc in auto)
  qed (simp add: server_init_def)
  moreover have "sv_running (?s evs) \<or> 0 < sv_stopping (?s evs) \<or> sv_queue (?s evs) = []"
    by (rule server.inv_run) (simp add: server_init_def)
  ultimately show ?thesis by (simp add: Let_def)
qed

section \<open>Fields are read back\<close>

lemma digits_value_dec: "digits_value 10 (dec n) = n"
proof (induction n rule: dec.induct)
  case (1 n)
  have d: "the (digit_val (char_of (48 + m))) = m" if "m < 10" for m :: nat
    using that of_char_digit [OF that] by (simp add: digit_val_def)
  show ?case
  proof (cases "n < 10")
    case True
    then show ?thesis using d [of n] by (subst dec.simps) (simp add: digits_value_def)
  next
    case False
    then have "digits_value 10 (dec (n div 10)) = n div 10" using 1 by simp
    then show ?thesis using False d [of "n mod 10"] by (subst dec.simps) (simp add: digits_value_def)
  qed
qed

lemma dec_is_digit: "c \<in> set (dec n) \<Longrightarrow> is_digit 10 c"
  using dec_digits [of n] by (auto simp: is_digit_def digit_val_def Let_def)

lemma digit_facts:
  "is_digit 10 c \<Longrightarrow> \<not> is_space c \<and> c \<noteq> CHR ''-'' \<and> c \<noteq> CHR ''+'' \<and> c \<noteq> CHR 0x22 \<and> c \<noteq> CHR ''x'' \<and> c \<noteq> CHR ''X'' \<and>
    c \<noteq> CHR '' '' \<and> c \<noteq> CHR 0x09"
  by (auto simp: is_digit_def digit_val_def is_space_def Let_def split: if_splits)

lemma strtoull_dec:
  assumes "n < 2 ^ 64" "\<not> is_digit 10 c"
  shows "strtoull 10 (dec n @ c # rest) = (of_nat n, length (dec n))"
proof -
  obtain d ds where d: "dec n = d # ds" using dec_nonempty [of n] by (cases "dec n") auto
  have f: "is_digit 10 d" using dec_is_digit [of d n] by (simp add: d)
  have "takeWhile (is_digit 10) (dec n @ c # rest) = dec n" using assms(2) dec_is_digit [of _ n] by (simp add: takeWhile_append2)
  then show ?thesis using digit_facts [OF f] assms(1) digits_value_dec [of n] by (simp add: strtoull_def d Let_def not_le)
qed

lemma key_position:
  assumes "\<not> sublist (quo k) (pre @ butlast (quo k))"
  shows "find_sub (quo k) (pre @ key k v @ rest) = Some (length pre)"
    and "find_from CHR '':'' (pre @ key k v @ rest) (length pre + length (quo k)) = Some (length pre + length (quo k))"
    and "drop (length pre + length (quo k) + 1) (pre @ key k v @ rest) = v @ rest"
proof -
  show "find_sub (quo k) (pre @ key k v @ rest) = Some (length pre)"
    using find_sub_first [OF _ assms, of "'':'' @ v @ rest"] by (simp add: key_def quo_def)
  show "find_from CHR '':'' (pre @ key k v @ rest) (length pre + length (quo k)) = Some (length pre + length (quo k))"
    using find_from_skip [of "CHR '':''" "[]" "pre @ quo k" _ "v @ rest"] by (simp add: key_def)
  show "drop (length pre + length (quo k) + 1) (pre @ key k v @ rest) = v @ rest" by (simp add: key_def)
qed

text \<open>
  A client gets its values through. A number below \<open>2 ^ 64\<close> written in decimal behind its key, and a
  text without quotes written as a string behind its key, are read back unchanged, wherever in the line the
  (first) key stands and whatever follows; a number must be followed by something that cannot continue it.
\<close>

theorem control_fields_roundtrip:
  assumes "\<not> sublist (quo k) (pre @ butlast (quo k))"
  shows "(n < 2 ^ 64 \<and> \<not> is_digit 10 c \<and> c \<noteq> CHR ''x'' \<and> c \<noteq> CHR ''X'' \<longrightarrow>
      ExtractInt (pre @ key k (dec n) @ c # rest) k = Some (of_nat n)) \<and>
    (CHR 0x22 \<notin> set t \<longrightarrow> ExtractString (pre @ key k (quo t) @ rest) k = t)"
proof (intro conjI impI)
  assume c: "n < 2 ^ 64 \<and> \<not> is_digit 10 c \<and> c \<noteq> CHR ''x'' \<and> c \<noteq> CHR ''X''"
  obtain d ds where d: "dec n = d # ds" using dec_nonempty [of n] by (cases "dec n") auto
  have f: "is_digit 10 d" using dec_is_digit [of d n] by (simp add: d)
  have "d \<noteq> CHR '' ''" "d \<noteq> CHR 0x09" using digit_facts [OF f] by blast+
  moreover have "(ds @ c # rest) ! 0 \<noteq> CHR ''x''" "(ds @ c # rest) ! 0 \<noteq> CHR ''X''"
  proof -
    have "is_digit 10 x" if "x \<in> set ds" for x using dec_is_digit [of x n] that by (simp add: d)
    then have "\<forall>x \<in> set ds. x \<noteq> CHR ''x'' \<and> x \<noteq> CHR ''X''" using digit_facts by blast
    then show "(ds @ c # rest) ! 0 \<noteq> CHR ''x''" "(ds @ c # rest) ! 0 \<noteq> CHR ''X''" using c by (cases ds; simp)+
  qed
  ultimately have t: "dropWhile (\<lambda>x. x = CHR '' '' \<or> x = CHR 0x09 \<or> x = CHR 0x22) (dec n @ c # rest) = dec n @ c # rest"
      "dec n @ c # rest \<noteq> []" "\<not> (hd (dec n @ c # rest) = CHR ''-'' \<or> hd (dec n @ c # rest) = CHR ''+'')"
      "\<not> ((dec n @ c # rest) ! 1 = CHR ''x'' \<or> (dec n @ c # rest) ! 1 = CHR ''X'')"
    using digit_facts [OF f] by (simp_all add: d)
  show "ExtractInt (pre @ key k (dec n) @ c # rest) k = Some (of_nat n)"
    unfolding ExtractInt_def Let_def key_position [OF assms] option.case t(1)
    using t(2-4) strtoull_dec [of n c rest] c dec_nonempty [of n] by simp
next
  assume t: "CHR 0x22 \<notin> set t"
  let ?p = "pre @ quo k @ '':''"
  have s: "pre @ key k (quo t) @ rest = ?p @ [] @ CHR 0x22 # t @ CHR 0x22 # rest"
      "pre @ key k (quo t) @ rest = (?p @ [CHR 0x22]) @ t @ CHR 0x22 # rest"
    by (simp_all add: key_def quo_def)
  have "find_from CHR 0x22 (pre @ key k (quo t) @ rest) (length pre + length (quo k) + 1) = Some (length pre + length (quo k) + 1)"
    unfolding s(1) by (subst find_from_skip) simp_all
  moreover have "find_from CHR 0x22 (pre @ key k (quo t) @ rest) (length pre + length (quo k) + 2) = Some (length pre + length (quo k) + 2 + length t)"
    unfolding s(2) by (rule find_from_skip [OF t]) simp
  moreover have "drop (length pre + length (quo k) + 2) (pre @ key k (quo t) @ rest) = t @ CHR 0x22 # rest" unfolding s(2) by simp
  ultimately show "ExtractString (pre @ key k (quo t) @ rest) k = t"
    using key_position(1,2) [OF assms, of "quo t" rest] by (simp add: ExtractString_def)
qed

theorem control_fields_roundtrip_witness:
  "ExtractInt (''{'' @ key ''addr'' (dec 4096) @ ''}'') ''addr'' = Some 4096 \<and>
   ExtractString (''{'' @ key ''cmd'' (quo ''peek'') @ ''}'') ''cmd'' = ''peek''"
proof -
  have n: "\<not> sublist (quo k) (''{'' @ butlast (quo k))" if "k = ''addr'' \<or> k = ''cmd''" for k
  proof -
    have "find_sub (quo ''addr'') (''{'' @ butlast (quo ''addr'')) = None" "find_sub (quo ''cmd'') (''{'' @ butlast (quo ''cmd'')) = None"
      by code_simp+
    then show ?thesis using that find_sub_None [of "quo k" "''{'' @ butlast (quo k)"] by (auto simp: quo_def)
  qed
  have b: "\<not> is_digit 10 (CHR ''}'')" by (simp add: is_digit_def digit_val_def)
  show ?thesis
    using control_fields_roundtrip [OF n [of "''addr''"], of 4096 "CHR ''}''" "[]" "[]"]
      control_fields_roundtrip [OF n [of "''cmd''"], of 0 "CHR ''}''" "''}''" "''peek''"] b by simp
qed

text \<open>
  The rejection of a sign looks at the first character behind blanks, tabs and quotes only; \<open>strtoull\<close> skips
  other white space too, so a minus sign behind a vertical tab is accepted and wraps around.
\<close>

lemma negative_behind_space:
  "ExtractInt (key ''addr'' ''-1'') ''addr'' = None"
  "ExtractInt (key ''addr'' (CHR 0x0B # ''-1'')) ''addr'' = Some (- 1)"
  by (simp_all add: ExtractInt_def key_def quo_def find_from_def strtoull_def is_space_def is_digit_def digit_val_def digits_value_def)

end
