(* ===== verification/Igl_Hook.thy ===== *)
theory Igl_Hook
  imports Atitc_Decode Byte_Reader Gpu_Types
begin

text \<open>
  \<open>tools/cpp/gpu/igl_hook.h\<close> and \<open>igl_hook.cpp\<close>: the translation of the OpenGL ES calls of a guest into calls
  of the rasterizer. Single-precision arithmetic is the argument \<open>F\<close>, a record of the operations on a type of
  floats, so that what is proved holds for every arithmetic; the rasterizer is the log of the calls it receives
  (\<open>ih_rast\<close>). A guest machine gives the argument words and the reads of guest memory; the result of a call is
  whether the slot was handled, the value written to r0 if any, and the new state.

  Address arithmetic is modulo \<open>2 ^ 32\<close> as in the source; the product of an element number and a stride, an
  \<open>int\<close> there, is taken to wrap as well.
\<close>

section \<open>Numbers and matrices\<close>

record 'f f32_ops =
  f_of_bits :: "u32 \<Rightarrow> 'f"
  f_of_int :: "int \<Rightarrow> 'f"
  f_add :: "'f \<Rightarrow> 'f \<Rightarrow> 'f"
  f_sub :: "'f \<Rightarrow> 'f \<Rightarrow> 'f"
  f_mul :: "'f \<Rightarrow> 'f \<Rightarrow> 'f"
  f_div :: "'f \<Rightarrow> 'f \<Rightarrow> 'f"
  f_neg :: "'f \<Rightarrow> 'f"
  f_less :: "'f \<Rightarrow> 'f \<Rightarrow> bool"
  f_sin :: "'f \<Rightarrow> 'f"
  f_cos :: "'f \<Rightarrow> 'f"
  f_sqrt :: "'f \<Rightarrow> 'f"
  f_pi :: 'f
  f_eps :: 'f

type_synonym 'f mat4 = "'f list"

definition f_num :: "'f f32_ops \<Rightarrow> int \<Rightarrow> 'f" where
  "f_num F k = f_of_int F k"

definition fixed_to_float :: "'f f32_ops \<Rightarrow> u32 \<Rightarrow> 'f" where
  "fixed_to_float F v = f_div F (f_num F (sint v)) (f_num F 65536)"

definition mat_identity :: "'f f32_ops \<Rightarrow> 'f mat4" where
  "mat_identity F = map (f_num F) [1,0,0,0, 0,1,0,0, 0,0,1,0, 0,0,0,1]"

definition mat_mul :: "'f f32_ops \<Rightarrow> 'f mat4 \<Rightarrow> 'f mat4 \<Rightarrow> 'f mat4" where
  "mat_mul F a b =
     map (\<lambda>(c, r). fold (\<lambda>k s. f_add F s (f_mul F (a ! (k * 4 + r)) (b ! (c * 4 + k)))) [0..<4] (f_num F 0))
       (List.product [0..<4] [0..<4])"

definition mat_frustum :: "'f f32_ops \<Rightarrow> 'f \<Rightarrow> 'f \<Rightarrow> 'f \<Rightarrow> 'f \<Rightarrow> 'f \<Rightarrow> 'f \<Rightarrow> 'f mat4" where
  "mat_frustum F l r b t n f =
     (let z = f_num F 0; two = f_num F 2 in
      [f_div F (f_mul F two n) (f_sub F r l), z, z, z,
       z, f_div F (f_mul F two n) (f_sub F t b), z, z,
       f_div F (f_add F r l) (f_sub F r l), f_div F (f_add F t b) (f_sub F t b),
       f_div F (f_neg F (f_add F f n)) (f_sub F f n), f_num F (-1),
       z, z, f_div F (f_neg F (f_mul F (f_mul F two f) n)) (f_sub F f n), z])"

definition mat_ortho :: "'f f32_ops \<Rightarrow> 'f \<Rightarrow> 'f \<Rightarrow> 'f \<Rightarrow> 'f \<Rightarrow> 'f \<Rightarrow> 'f \<Rightarrow> 'f mat4" where
  "mat_ortho F l r b t n f =
     (let z = f_num F 0 in
      [f_div F (f_num F 2) (f_sub F r l), z, z, z,
       z, f_div F (f_num F 2) (f_sub F t b), z, z,
       z, z, f_div F (f_num F (-2)) (f_sub F f n), z,
       f_div F (f_neg F (f_add F r l)) (f_sub F r l), f_div F (f_neg F (f_add F t b)) (f_sub F t b),
       f_div F (f_neg F (f_add F f n)) (f_sub F f n), f_num F 1])"

definition mat_rotate :: "'f f32_ops \<Rightarrow> 'f \<Rightarrow> 'f \<Rightarrow> 'f \<Rightarrow> 'f \<Rightarrow> 'f mat4" where
  "mat_rotate F deg ax ay az =
     (let rad = f_div F (f_mul F deg (f_pi F)) (f_num F 180); s = f_sin F rad; c = f_cos F rad;
          len = f_sqrt F (f_add F (f_add F (f_mul F ax ax) (f_mul F ay ay)) (f_mul F az az));
          (x, y, z) = (if f_less F (f_eps F) len then (f_div F ax len, f_div F ay len, f_div F az len) else (ax, ay, az));
          xx = f_mul F x x; yy = f_mul F y y; zz = f_mul F z z; xy = f_mul F x y; xz = f_mul F x z; yz = f_mul F y z;
          xs = f_mul F x s; ys = f_mul F y s; zs = f_mul F z s; d = f_sub F (f_num F 1) c; o0 = f_num F 0
      in [f_add F (f_mul F xx d) c, f_add F (f_mul F xy d) zs, f_sub F (f_mul F xz d) ys, o0,
          f_sub F (f_mul F xy d) zs, f_add F (f_mul F yy d) c, f_add F (f_mul F yz d) xs, o0,
          f_add F (f_mul F xz d) ys, f_sub F (f_mul F yz d) xs, f_add F (f_mul F zz d) c, o0,
          o0, o0, o0, f_num F 1])"

definition mat_scale :: "'f f32_ops \<Rightarrow> 'f \<Rightarrow> 'f \<Rightarrow> 'f \<Rightarrow> 'f mat4" where
  "mat_scale F x y z = (mat_identity F)[0 := x, 5 := y, 10 := z]"

definition mat_translate :: "'f f32_ops \<Rightarrow> 'f \<Rightarrow> 'f \<Rightarrow> 'f \<Rightarrow> 'f mat4" where
  "mat_translate F x y z = (mat_identity F)[12 := x, 13 := y, 14 := z]"

section \<open>The rasterizer interface\<close>

record 'f vertex =
  vx :: 'f
  vy :: 'f
  vz :: 'f
  vw :: 'f
  vr :: 'f
  vg :: 'f
  vb :: 'f
  va :: 'f
  vu :: 'f
  vv :: 'f
  vu1 :: 'f
  vv1 :: 'f

definition vertex_init :: "'f f32_ops \<Rightarrow> 'f vertex" where
  "vertex_init F = (let o0 = f_num F 0; i = f_num F 1 in
     \<lparr>vx = o0, vy = o0, vz = o0, vw = i, vr = i, vg = i, vb = i, va = i, vu = o0, vv = o0, vu1 = o0, vv1 = o0\<rparr>)"

record 'f render_state =
  rs_blend :: bool
  blend_src :: u32
  blend_dst :: u32
  depth_test :: bool
  depth_func :: u32
  depth_write :: bool
  alpha_test :: bool
  alpha_func :: u32
  alpha_ref :: 'f
  cull :: bool
  cull_face :: u32
  shade_model :: u32
  tex_enabled :: "u32 list"
  active_unit :: u32

definition render_state_init :: "'f f32_ops \<Rightarrow> 'f render_state" where
  "render_state_init F = \<lparr>rs_blend = False, blend_src = 1, blend_dst = 0, depth_test = False, depth_func = 0x0201,
     depth_write = True, alpha_test = False, alpha_func = 0x0207, alpha_ref = f_num F 0, cull = False,
     cull_face = 0x0405, shade_model = 0, tex_enabled = [0, 0], active_unit = 0\<rparr>"

datatype 'f rast_call =
    Begin_frame | End_frame
  | Set_viewport int int int int
  | Clear_color 'f 'f 'f 'f
  | Clear u32
  | Set_state "'f render_state"
  | Set_mvp "'f mat4"
  | Tex_image_2d u32 int int "u8 list"
  | Tex_parameter u32 u32 u32
  | Bind_texture u32 u32
  | Draw prim "'f vertex list"
  | Draw_indexed prim "'f vertex list" "u32 list"

section \<open>The guest machine\<close>

text \<open>
  \<open>gm_read va buf\<close> reads \<open>length buf\<close> bytes: whether it succeeded, and what the buffer then holds.
\<close>

record guest_machine =
  gm_arg :: "int \<Rightarrow> u32"
  gm_read :: "u32 \<Rightarrow> u8 list \<Rightarrow> bool \<times> u8 list"

definition gm_word :: "guest_machine \<Rightarrow> u32 \<Rightarrow> u32" where
  "gm_word gm p = rd32 (snd (gm_read gm p [0, 0, 0, 0])) 0"

definition gm_half :: "guest_machine \<Rightarrow> u32 \<Rightarrow> u16" where
  "gm_half gm p = (let bs = snd (gm_read gm p [0, 0]) in word16 (bs ! 0) (bs ! 1))"

definition gm_byte :: "guest_machine \<Rightarrow> u32 \<Rightarrow> u8" where
  "gm_byte gm p = snd (gm_read gm p [0]) ! 0"

definition type_size :: "u32 \<Rightarrow> int" where
  "type_size t = (if t = 0x1400 \<or> t = 0x1401 then 1 else if t = 0x1402 \<or> t = 0x1403 then 2 else 4)"

definition to_prim :: "u32 \<Rightarrow> prim" where
  "to_prim mode = (if mode = 0 then Points else if mode = 1 then Lines else if mode = 3 then LineStrip
     else if mode = 5 then TriStrip else if mode = 6 then TriFan else Triangles)"

definition read_component :: "'f f32_ops \<Rightarrow> guest_machine \<Rightarrow> u32 \<Rightarrow> u32 \<Rightarrow> 'f" where
  "read_component F gm p t =
     (if t = 0x1406 then f_of_bits F (gm_word gm p)
      else if t = 0x140C then fixed_to_float F (gm_word gm p)
      else if t = 0x1400 then f_num F (sint (gm_byte gm p))
      else if t = 0x1401 then f_div F (f_num F (uint (gm_byte gm p))) (f_num F 255)
      else if t = 0x1402 then f_num F (sint (gm_half gm p))
      else if t = 0x1403 then f_num F (uint (gm_half gm p))
      else f_num F 0)"

definition read_matrix :: "'f f32_ops \<Rightarrow> guest_machine \<Rightarrow> u32 \<Rightarrow> 'f mat4" where
  "read_matrix F gm p = map (\<lambda>i. read_component F gm (p + of_nat (i * 4)) 0x140C) [0..<16]"

section \<open>The hook's state\<close>

record guest_array =
  ga_enabled :: bool
  ga_va :: u32
  ga_size :: int
  ga_type :: u32
  ga_stride :: int

definition guest_array_init :: guest_array where
  "guest_array_init = \<lparr>ga_enabled = False, ga_va = 0, ga_size = 0, ga_type = 0x1406, ga_stride = 0\<rparr>"

record 'f igl_hook =
  ih_rast :: "'f rast_call list"
  ih_vtx :: guest_array
  ih_col :: guest_array
  ih_tex :: guest_array
  ih_nrm :: guest_array
  ih_state :: "'f render_state"
  ih_mvp :: "'f mat4"
  ih_modelview :: "'f mat4"
  ih_projection :: "'f mat4"
  ih_modelview_stack :: "'f mat4 list"
  ih_projection_stack :: "'f mat4 list"
  ih_modelview_depth :: nat
  ih_projection_depth :: nat
  ih_matrix_mode :: u32
  ih_bound_tex :: "u32 list"
  ih_color :: "'f vertex"

text \<open>The two stacks of four matrices start with indeterminate contents \<open>junk\<close>.\<close>

definition igl_hook_init :: "'f f32_ops \<Rightarrow> 'f mat4 \<Rightarrow> 'f igl_hook" where
  "igl_hook_init F junk = \<lparr>ih_rast = [], ih_vtx = guest_array_init, ih_col = guest_array_init,
     ih_tex = guest_array_init, ih_nrm = guest_array_init, ih_state = render_state_init F,
     ih_mvp = mat_identity F, ih_modelview = mat_identity F, ih_projection = mat_identity F,
     ih_modelview_stack = replicate 4 junk, ih_projection_stack = replicate 4 junk, ih_modelview_depth = 0,
     ih_projection_depth = 0, ih_matrix_mode = 0x1700, ih_bound_tex = [0, 0], ih_color = vertex_init F\<rparr>"

definition rast :: "'f rast_call \<Rightarrow> 'f igl_hook \<Rightarrow> 'f igl_hook" where
  "rast e h = h\<lparr>ih_rast := ih_rast h @ [e]\<rparr>"

definition cur_matrix :: "'f igl_hook \<Rightarrow> 'f mat4" where
  "cur_matrix h = (if ih_matrix_mode h = 0x1701 then ih_projection h else ih_modelview h)"

definition set_cur_matrix :: "'f mat4 \<Rightarrow> 'f igl_hook \<Rightarrow> 'f igl_hook" where
  "set_cur_matrix m h = (if ih_matrix_mode h = 0x1701 then h\<lparr>ih_projection := m\<rparr> else h\<lparr>ih_modelview := m\<rparr>)"

definition cur_depth :: "'f igl_hook \<Rightarrow> nat" where
  "cur_depth h = (if ih_matrix_mode h = 0x1701 then ih_projection_depth h else ih_modelview_depth h)"

definition cur_stack :: "'f igl_hook \<Rightarrow> 'f mat4 list" where
  "cur_stack h = (if ih_matrix_mode h = 0x1701 then ih_projection_stack h else ih_modelview_stack h)"

definition gl_push_matrix :: "'f igl_hook \<Rightarrow> 'f igl_hook" where
  "gl_push_matrix h =
     (let d = cur_depth h; st = (cur_stack h)[d := cur_matrix h] in
      if d < 4 then
        if ih_matrix_mode h = 0x1701 then h\<lparr>ih_projection_stack := st, ih_projection_depth := d + 1\<rparr>
        else h\<lparr>ih_modelview_stack := st, ih_modelview_depth := d + 1\<rparr>
      else h)"

definition gl_pop_matrix :: "'f igl_hook \<Rightarrow> 'f igl_hook" where
  "gl_pop_matrix h =
     (let d = cur_depth h in
      if d > 0 then
        set_cur_matrix (cur_stack h ! (d - 1))
          (if ih_matrix_mode h = 0x1701 then h\<lparr>ih_projection_depth := d - 1\<rparr> else h\<lparr>ih_modelview_depth := d - 1\<rparr>)
      else h)"

definition mult_cur_matrix :: "'f f32_ops \<Rightarrow> 'f mat4 \<Rightarrow> 'f igl_hook \<Rightarrow> 'f igl_hook" where
  "mult_cur_matrix F m h = set_cur_matrix (mat_mul F (cur_matrix h) m) h"

section \<open>Vertices\<close>

definition transform_vertex :: "'f f32_ops \<Rightarrow> 'f mat4 \<Rightarrow> 'f vertex \<Rightarrow> 'f vertex" where
  "transform_vertex F m v =
     (let row = (\<lambda>i. f_add F (f_add F (f_add F (f_mul F (m ! i) (vx v)) (f_mul F (m ! (4 + i)) (vy v)))
                   (f_mul F (m ! (8 + i)) (vz v))) (f_mul F (m ! (12 + i)) (f_num F 1)))
      in v\<lparr>vx := row 0, vy := row 1, vz := row 2, vw := row 3\<rparr>)"

definition ga_step :: "guest_array \<Rightarrow> int" where
  "ga_step a = (if ga_stride a \<noteq> 0 then ga_stride a else ga_size a * type_size (ga_type a))"

text \<open>Component \<open>k\<close> of element \<open>e\<close> of an array.\<close>

definition ga_comp :: "'f f32_ops \<Rightarrow> guest_machine \<Rightarrow> guest_array \<Rightarrow> int \<Rightarrow> int \<Rightarrow> 'f" where
  "ga_comp F gm a e k = read_component F gm (ga_va a + of_int (e * ga_step a) + of_int (k * type_size (ga_type a))) (ga_type a)"

text \<open>The body of the loop of \<open>assemble\<close>: element \<open>e\<close> of the enabled arrays, in clip space.\<close>

definition assemble_one :: "'f f32_ops \<Rightarrow> guest_machine \<Rightarrow> 'f igl_hook \<Rightarrow> int \<Rightarrow> 'f vertex" where
  "assemble_one F gm h e =
     (let v = (vertex_init F)\<lparr>vr := vr (ih_color h), vg := vg (ih_color h), vb := vb (ih_color h), va := va (ih_color h)\<rparr>;
          a = ih_vtx h;
          v = (if ga_enabled a then
                 let v = v\<lparr>vx := ga_comp F gm a e 0, vy := ga_comp F gm a e 1\<rparr>
                 in if ga_size a \<ge> 3 then v\<lparr>vz := ga_comp F gm a e 2\<rparr> else v
               else v);
          a = ih_col h;
          v = (if ga_enabled a then
                 let v = v\<lparr>vr := ga_comp F gm a e 0, vg := ga_comp F gm a e 1, vb := ga_comp F gm a e 2\<rparr>
                 in if ga_size a \<ge> 4 then v\<lparr>va := ga_comp F gm a e 3\<rparr> else v
               else v);
          a = ih_tex h;
          v = (if ga_enabled a then v\<lparr>vu := ga_comp F gm a e 0, vv := ga_comp F gm a e 1\<rparr> else v)
      in transform_vertex F (ih_mvp h) v)"

definition compose_mvp :: "'f f32_ops \<Rightarrow> 'f igl_hook \<Rightarrow> 'f igl_hook" where
  "compose_mvp F h = h\<lparr>ih_mvp := mat_mul F (ih_projection h) (ih_modelview h)\<rparr>"

definition assemble :: "'f f32_ops \<Rightarrow> guest_machine \<Rightarrow> int \<Rightarrow> nat \<Rightarrow> 'f igl_hook \<Rightarrow> 'f vertex list \<times> 'f igl_hook" where
  "assemble F gm first n h =
     (let h = compose_mvp F h in (map (\<lambda>i. assemble_one F gm h (first + int i)) [0..<n], h))"

text \<open>The indices of an indexed draw, or nothing when one of them cannot be read.\<close>

definition read_index :: "guest_machine \<Rightarrow> u32 \<Rightarrow> u32 \<Rightarrow> nat \<Rightarrow> u32 option" where
  "read_index gm idx_va idx_type i =
     (if idx_type = 0x1401 then
        if fst (gm_read gm (idx_va + of_nat i) [0]) then Some (ucast (gm_byte gm (idx_va + of_nat i))) else None
      else
        if fst (gm_read gm (idx_va + of_nat i * 2) [0, 0]) then Some (ucast (gm_half gm (idx_va + of_nat i * 2))) else None)"

text \<open>
  One index of the compaction: an element seen for the first time is assembled and appended; \<open>remap\<close> holds for
  every element its position, or -1.
\<close>

definition compact_step :: "'f f32_ops \<Rightarrow> guest_machine \<Rightarrow> u32 \<Rightarrow>
    int list \<times> 'f vertex list \<times> u32 list \<times> 'f igl_hook \<Rightarrow> int list \<times> 'f vertex list \<times> u32 list \<times> 'f igl_hook" where
  "compact_step F gm ix s =
     (let (remap, verts, out, h) = s;
          (remap, verts, h) =
            (if remap ! unat ix < 0 then
               let (one, h) = assemble F gm (uint ix) 1 h
               in (remap[unat ix := int (length verts)], verts @ [hd one], h)
             else (remap, verts, h))
      in (remap, verts, out @ [of_int (remap ! unat ix)], h))"

definition assemble_indexed :: "'f f32_ops \<Rightarrow> guest_machine \<Rightarrow> u32 \<Rightarrow> nat \<Rightarrow> u32 \<Rightarrow> 'f igl_hook \<Rightarrow>
    'f vertex list \<times> u32 list \<times> 'f igl_hook" where
  "assemble_indexed F gm idx_va n idx_type h =
     (case those (map (read_index gm idx_va idx_type) [0..<n]) of
        None \<Rightarrow> ([], [], h)
      | Some guest_idx \<Rightarrow>
          let domain = (if idx_type = 0x1401 then 256 else 65536);
              (remap, verts, out, h) = fold (compact_step F gm) guest_idx (replicate domain (-1), [], [], h)
          in (verts, out, h))"

section \<open>Textures\<close>

definition gl_unit :: "'f igl_hook \<Rightarrow> nat" where
  "gl_unit h = unat (min (active_unit (ih_state h)) 1)"

definition gl_tex_parameterx :: "guest_machine \<Rightarrow> 'f igl_hook \<Rightarrow> bool \<times> 'f igl_hook" where
  "gl_tex_parameterx gm h =
     (let pname = gm_arg gm 1; param = gm_arg gm 2 in
      if gm_arg gm 0 \<noteq> 0x0de1 then (False, h)
      else if (if pname = 0x2800 \<or> pname = 0x2801 then param = 0x2600 \<or> param = 0x2601
               else if pname = 0x2802 \<or> pname = 0x2803 then param = 0x2901 \<or> param = 0x812F
               else False)
      then (True, rast (Tex_parameter (of_nat (gl_unit h)) pname param) h)
      else (False, h))"

definition gl_compressed_tex_image :: "guest_machine \<Rightarrow> 'f igl_hook \<Rightarrow> bool \<times> 'f igl_hook" where
  "gl_compressed_tex_image gm h =
     (let target = gm_arg gm 0; level = gm_arg gm 1; internalformat = gm_arg gm 2;
          width = gm_arg gm 3; height = gm_arg gm 4; border = gm_arg gm 5;
          imageSize = gm_arg gm 6; data_va = gm_arg gm 7 in
      if target \<noteq> 0x0de1 \<or> level \<noteq> 0 \<or> border \<noteq> 0 then (False, h)
      else if width = 0 \<or> height = 0 \<or> width > 4096 \<or> height > 4096 \<or> data_va = 0 then (False, h)
      else if atitc_block_bytes internalformat = 0 then (False, h)
      else
        let need = atitc_image_size internalformat (sint width) (sint height) in
        if need = 0 \<or> unat imageSize \<noteq> need then (False, h)
        else
          let (ok, raw) = gm_read gm data_va (replicate (unat imageSize) 0) in
          if \<not> ok then (False, h)
          else
            let (ok, rgba) = decode_atitc internalformat (sint width) (sint height) (Some raw) [] in
            if \<not> ok then (False, h)
            else (True, rast (Tex_image_2d (ih_bound_tex h ! gl_unit h) (sint width) (sint height) rgba) h))"

text \<open>RGB565 texels to RGBA8.\<close>

definition rgba_of_565 :: "u16 \<Rightarrow> u8 list" where
  "rgba_of_565 p =
     [of_nat (unat (drop_bit 11 p AND 31) * 255 div 31), of_nat (unat (drop_bit 5 p AND 63) * 255 div 63),
      of_nat (unat (p AND 31) * 255 div 31), 255]"

definition gl_tex_image :: "guest_machine \<Rightarrow> 'f igl_hook \<Rightarrow> bool \<times> 'f igl_hook" where
  "gl_tex_image gm h =
     (let level = gm_arg gm 1; width = gm_arg gm 3; height = gm_arg gm 4;
          fmt = gm_arg gm 6; typ = gm_arg gm 7; pixels = gm_arg gm 8;
          rgba8 = (fmt = 0x1908 \<and> typ = 0x1401); rgb565 = (fmt = 0x1907 \<and> typ = 0x8363) in
      if level \<noteq> 0 \<or> width = 0 \<or> height = 0 \<or> width > 4096 \<or> height > 4096 \<or> (\<not> rgba8 \<and> \<not> rgb565) \<or> pixels = 0
      then (False, h)
      else
        let texels = unat width * unat height; bytes = texels * (if rgba8 then 4 else 2) in
        if bytes > 64 * 1024 * 1024 then (False, h)
        else
          let (ok, raw) = gm_read gm pixels (replicate bytes 0) in
          if \<not> ok then (False, h)
          else
            let rgba = (if rgba8 then raw
                        else concat (map (\<lambda>i. rgba_of_565 (word16 (raw ! (i * 2)) (raw ! (i * 2 + 1)))) [0..<texels]))
            in (True, rast (Tex_image_2d (ih_bound_tex h ! gl_unit h) (sint width) (sint height) rgba) h))"

section \<open>State\<close>

definition f_clamp :: "'f f32_ops \<Rightarrow> 'f \<Rightarrow> 'f \<Rightarrow> 'f \<Rightarrow> 'f" where
  "f_clamp F v lo hi = (if f_less F v lo then lo else if f_less F hi v then hi else v)"

definition gl_alpha_funcx :: "'f f32_ops \<Rightarrow> guest_machine \<Rightarrow> 'f igl_hook \<Rightarrow> bool \<times> 'f igl_hook" where
  "gl_alpha_funcx F gm h =
     (let func = gm_arg gm 0 in
      if func < 0x0200 \<or> func > 0x0207 then (False, h)
      else (True, h\<lparr>ih_state := (ih_state h)\<lparr>alpha_func := func,
        alpha_ref := f_clamp F (fixed_to_float F (gm_arg gm 1)) (f_num F 0) (f_num F 1)\<rparr>\<rparr>))"

definition gl_active_texture :: "guest_machine \<Rightarrow> 'f igl_hook \<Rightarrow> 'f igl_hook" where
  "gl_active_texture gm h =
     (let requested = gm_arg gm 0
      in h\<lparr>ih_state := (ih_state h)\<lparr>active_unit := (if requested \<ge> 0x84c0 then min (requested - 0x84c0) 1 else 0)\<rparr>\<rparr>)"

definition gl_enable :: "bool \<Rightarrow> guest_machine \<Rightarrow> 'f igl_hook \<Rightarrow> 'f igl_hook" where
  "gl_enable on gm h =
     (let cap = gm_arg gm 0; st = ih_state h in
      if cap = 0x0de1 then h\<lparr>ih_state := st\<lparr>tex_enabled := (tex_enabled st)[gl_unit h := (if on then 1 else 0)]\<rparr>\<rparr>
      else if cap = 0x0b71 then h\<lparr>ih_state := st\<lparr>depth_test := on\<rparr>\<rparr>
      else if cap = 0x0be2 then h\<lparr>ih_state := st\<lparr>rs_blend := on\<rparr>\<rparr>
      else if cap = 0x0bc0 then h\<lparr>ih_state := st\<lparr>alpha_test := on\<rparr>\<rparr>
      else if cap = 0x0b44 then h\<lparr>ih_state := st\<lparr>cull := on\<rparr>\<rparr>
      else h)"

definition gl_bind_texture :: "guest_machine \<Rightarrow> 'f igl_hook \<Rightarrow> 'f igl_hook" where
  "gl_bind_texture gm h =
     (let unit = gl_unit h
      in rast (Bind_texture (of_nat unit) (gm_arg gm 1)) (h\<lparr>ih_bound_tex := (ih_bound_tex h)[unit := gm_arg gm 1]\<rparr>))"

definition gl_pointer :: "guest_machine \<Rightarrow> guest_array" where
  "gl_pointer gm = \<lparr>ga_enabled = True, ga_va = gm_arg gm 3, ga_size = sint (gm_arg gm 0), ga_type = gm_arg gm 1,
     ga_stride = sint (gm_arg gm 2)\<rparr>"

definition gl_client_state :: "bool \<Rightarrow> guest_machine \<Rightarrow> 'f igl_hook \<Rightarrow> 'f igl_hook" where
  "gl_client_state on gm h =
     (let arr = gm_arg gm 0 in
      if arr = 0x8074 then h\<lparr>ih_vtx := (ih_vtx h)\<lparr>ga_enabled := on\<rparr>\<rparr>
      else if arr = 0x8076 then h\<lparr>ih_col := (ih_col h)\<lparr>ga_enabled := on\<rparr>\<rparr>
      else if arr = 0x8078 then h\<lparr>ih_tex := (ih_tex h)\<lparr>ga_enabled := on\<rparr>\<rparr>
      else if arr = 0x8075 then h\<lparr>ih_nrm := (ih_nrm h)\<lparr>ga_enabled := on\<rparr>\<rparr>
      else h)"

section \<open>Drawing\<close>

definition gl_draw_arrays :: "'f f32_ops \<Rightarrow> guest_machine \<Rightarrow> 'f igl_hook \<Rightarrow> bool \<times> u32 option \<times> 'f igl_hook" where
  "gl_draw_arrays F gm h =
     (let mode = gm_arg gm 0; first_raw = gm_arg gm 1; count_raw = gm_arg gm 2 in
      if count_raw > 1000000 \<or> first_raw > 0x7fffffff - count_raw then (False, Some 0, h)
      else
        let h = rast (Set_state (ih_state h)) (rast (Set_mvp (ih_mvp h)) h);
            (verts, h) = assemble F gm (sint first_raw) (unat count_raw) h
        in (True, None, rast (Draw (to_prim mode) verts) h))"

definition gl_draw_elements :: "'f f32_ops \<Rightarrow> guest_machine \<Rightarrow> 'f igl_hook \<Rightarrow> bool \<times> u32 option \<times> 'f igl_hook" where
  "gl_draw_elements F gm h =
     (let mode = gm_arg gm 0; count_raw = gm_arg gm 1; typ = gm_arg gm 2; idx_va = gm_arg gm 3 in
      if count_raw > 1000000 \<or> (typ \<noteq> 0x1401 \<and> typ \<noteq> 0x1403) then (False, Some 0, h)
      else
        let (verts, idx, h) = assemble_indexed F gm idx_va (unat count_raw) typ h;
            h = rast (Set_state (ih_state h)) (rast (Set_mvp (ih_mvp h)) h)
        in (True, None, rast (Draw_indexed (to_prim mode) verts idx) h))"

section \<open>Dispatch\<close>

text \<open>The slots of the interface, in the order of the vendor's header.\<close>

abbreviation (input) "glActiveTexture \<equiv> (3::nat)"
abbreviation (input) "glAlphaFuncx \<equiv> (4::nat)"
abbreviation (input) "glBindTexture \<equiv> (5::nat)"
abbreviation (input) "glBlendFunc \<equiv> (6::nat)"
abbreviation (input) "glClear \<equiv> (7::nat)"
abbreviation (input) "glClearColorx \<equiv> (8::nat)"
abbreviation (input) "glClientActiveTexture \<equiv> (11::nat)"
abbreviation (input) "glColor4x \<equiv> (12::nat)"
abbreviation (input) "glColorPointer \<equiv> (14::nat)"
abbreviation (input) "glCompressedTexImage2D \<equiv> (15::nat)"
abbreviation (input) "glCompressedTexSubImage2D \<equiv> (16::nat)"
abbreviation (input) "glCullFace \<equiv> (19::nat)"
abbreviation (input) "glDepthFunc \<equiv> (21::nat)"
abbreviation (input) "glDepthMask \<equiv> (22::nat)"
abbreviation (input) "glDisable \<equiv> (24::nat)"
abbreviation (input) "glDisableClientState \<equiv> (25::nat)"
abbreviation (input) "glDrawArrays \<equiv> (26::nat)"
abbreviation (input) "glDrawElements \<equiv> (27::nat)"
abbreviation (input) "glEnable \<equiv> (28::nat)"
abbreviation (input) "glEnableClientState \<equiv> (29::nat)"
abbreviation (input) "glFinish \<equiv> (30::nat)"
abbreviation (input) "glFlush \<equiv> (31::nat)"
abbreviation (input) "glFrustumx \<equiv> (35::nat)"
abbreviation (input) "glLoadIdentity \<equiv> (46::nat)"
abbreviation (input) "glLoadMatrixx \<equiv> (47::nat)"
abbreviation (input) "glMatrixMode \<equiv> (51::nat)"
abbreviation (input) "glMultMatrixx \<equiv> (52::nat)"
abbreviation (input) "glNormalPointer \<equiv> (55::nat)"
abbreviation (input) "glOrthox \<equiv> (56::nat)"
abbreviation (input) "glPopMatrix \<equiv> (60::nat)"
abbreviation (input) "glPushMatrix \<equiv> (61::nat)"
abbreviation (input) "glRotatex \<equiv> (63::nat)"
abbreviation (input) "glScalex \<equiv> (65::nat)"
abbreviation (input) "glTexCoordPointer \<equiv> (71::nat)"
abbreviation (input) "glTexImage2D \<equiv> (74::nat)"
abbreviation (input) "glTexParameterx \<equiv> (75::nat)"
abbreviation (input) "glTranslatex \<equiv> (77::nat)"
abbreviation (input) "glVertexPointer \<equiv> (78::nat)"
abbreviation (input) "glViewport \<equiv> (79::nat)"

definition igl_done :: "'f igl_hook \<Rightarrow> bool \<times> u32 option \<times> 'f igl_hook" where
  "igl_done h = (True, None, h)"

definition igl_quiet :: "bool \<times> 'f igl_hook \<Rightarrow> bool \<times> u32 option \<times> 'f igl_hook" where
  "igl_quiet r = (fst r, None, snd r)"

text \<open>\<open>fx n\<close> is argument \<open>n\<close> as a fixed-point number.\<close>

definition dispatch_igl :: "'f f32_ops \<Rightarrow> nat \<Rightarrow> guest_machine \<Rightarrow> 'f igl_hook \<Rightarrow> bool \<times> u32 option \<times> 'f igl_hook" where
  "dispatch_igl F slot gm h =
     (let arg = gm_arg gm; fx = (\<lambda>n. fixed_to_float F (gm_arg gm n)); st = ih_state h in
      if slot = 0 \<or> slot = 1 then (True, Some 1, h)
      else if slot = 2 then (False, None, h)
      else if slot = glViewport then igl_done (rast (Set_viewport (sint (arg 0)) (sint (arg 1)) (sint (arg 2)) (sint (arg 3))) h)
      else if slot = glClearColorx then igl_done (rast (Clear_color (fx 0) (fx 1) (fx 2) (fx 3)) h)
      else if slot = glClear then igl_done (rast (Clear (arg 0)) h)
      else if slot = glColor4x then
        igl_done (h\<lparr>ih_color := (ih_color h)\<lparr>vr := fx 0, vg := fx 1, vb := fx 2, va := fx 3\<rparr>\<rparr>)
      else if slot = glActiveTexture \<or> slot = glClientActiveTexture then igl_done (gl_active_texture gm h)
      else if slot = glDepthFunc then igl_done (h\<lparr>ih_state := st\<lparr>depth_func := arg 0\<rparr>\<rparr>)
      else if slot = glAlphaFuncx then igl_quiet (gl_alpha_funcx F gm h)
      else if slot = glCullFace then igl_done (h\<lparr>ih_state := st\<lparr>cull_face := arg 0\<rparr>\<rparr>)
      else if slot = glTexParameterx then igl_quiet (gl_tex_parameterx gm h)
      else if slot = glDepthMask then igl_done (h\<lparr>ih_state := st\<lparr>depth_write := (arg 0 \<noteq> 0)\<rparr>\<rparr>)
      else if slot = glBlendFunc then igl_done (h\<lparr>ih_state := st\<lparr>blend_src := arg 0, blend_dst := arg 1\<rparr>\<rparr>)
      else if slot = glBindTexture then igl_done (gl_bind_texture gm h)
      else if slot = glEnable \<or> slot = glDisable then igl_done (gl_enable (slot = glEnable) gm h)
      else if slot = glCompressedTexImage2D then igl_quiet (gl_compressed_tex_image gm h)
      else if slot = glTexImage2D then igl_quiet (gl_tex_image gm h)
      else if slot = glVertexPointer then igl_done (h\<lparr>ih_vtx := gl_pointer gm\<rparr>)
      else if slot = glColorPointer then igl_done (h\<lparr>ih_col := gl_pointer gm\<rparr>)
      else if slot = glTexCoordPointer then igl_done (h\<lparr>ih_tex := gl_pointer gm\<rparr>)
      else if slot = glNormalPointer then
        igl_done (h\<lparr>ih_nrm := \<lparr>ga_enabled = True, ga_va = arg 2, ga_size = 3, ga_type = arg 0, ga_stride = sint (arg 1)\<rparr>\<rparr>)
      else if slot = glEnableClientState \<or> slot = glDisableClientState then
        igl_done (gl_client_state (slot = glEnableClientState) gm h)
      else if slot = glMatrixMode then igl_done (h\<lparr>ih_matrix_mode := arg 0\<rparr>)
      else if slot = glLoadIdentity then igl_done (set_cur_matrix (mat_identity F) h)
      else if slot = glLoadMatrixx then igl_done (set_cur_matrix (read_matrix F gm (arg 0)) h)
      else if slot = glMultMatrixx then igl_done (mult_cur_matrix F (read_matrix F gm (arg 0)) h)
      else if slot = glPushMatrix then igl_done (gl_push_matrix h)
      else if slot = glPopMatrix then igl_done (gl_pop_matrix h)
      else if slot = glRotatex then igl_done (mult_cur_matrix F (mat_rotate F (fx 0) (fx 1) (fx 2) (fx 3)) h)
      else if slot = glScalex then igl_done (mult_cur_matrix F (mat_scale F (fx 0) (fx 1) (fx 2)) h)
      else if slot = glTranslatex then igl_done (mult_cur_matrix F (mat_translate F (fx 0) (fx 1) (fx 2)) h)
      else if slot = glFrustumx then
        igl_done (mult_cur_matrix F (mat_frustum F (fx 0) (fx 1) (fx 2) (fx 3) (fx 4) (fx 5)) h)
      else if slot = glOrthox then
        igl_done (mult_cur_matrix F (mat_ortho F (fx 0) (fx 1) (fx 2) (fx 3) (fx 4) (fx 5)) h)
      else if slot = glDrawArrays then gl_draw_arrays F gm h
      else if slot = glDrawElements then gl_draw_elements F gm h
      else if slot = glFlush \<or> slot = glFinish then igl_done h
      else if slot = glCompressedTexSubImage2D then igl_done h
      else (False, None, h))"

definition dispatch_iegl :: "nat \<Rightarrow> 'f igl_hook \<Rightarrow> bool \<times> u32 option \<times> 'f igl_hook" where
  "dispatch_iegl slot h =
     (if slot = 0 \<or> slot = 1 then (True, Some 1, h)
      else if slot = 2 then (False, None, h)
      else if slot = 26 then (True, Some 1, rast Begin_frame (rast End_frame h))
      else (False, None, h))"

section \<open>Instances\<close>

text \<open>Integer arithmetic, and a guest whose argument words and memory bytes are given.\<close>

definition int_ops :: "int f32_ops" where
  "int_ops = \<lparr>f_of_bits = uint, f_of_int = (\<lambda>k. k), f_add = (+), f_sub = (-), f_mul = (*), f_div = (div),
     f_neg = uminus, f_less = (<), f_sin = (\<lambda>x. x), f_cos = (\<lambda>x. x), f_sqrt = (\<lambda>x. x), f_pi = 3, f_eps = 0\<rparr>"

definition guest_of :: "u32 list \<Rightarrow> u8 list \<Rightarrow> guest_machine" where
  "guest_of args bytes = \<lparr>gm_arg = (\<lambda>n. if 0 \<le> n \<and> nat n < length args then args ! nat n else 0),
     gm_read = (\<lambda>a buf. if unat a + length buf \<le> length bytes then (True, take (length buf) (drop (unat a) bytes))
        else (False, buf))\<rparr>"

section \<open>Rejected calls\<close>

lemma handlers_reject:
  "fst (gl_tex_parameterx gm h) \<or> snd (gl_tex_parameterx gm h) = h"
  "fst (gl_alpha_funcx F gm h) \<or> snd (gl_alpha_funcx F gm h) = h"
  "fst (gl_compressed_tex_image gm h) \<or> snd (gl_compressed_tex_image gm h) = h"
  "fst (gl_tex_image gm h) \<or> snd (gl_tex_image gm h) = h"
  by (simp_all add: gl_tex_parameterx_def gl_alpha_funcx_def gl_compressed_tex_image_def gl_tex_image_def
      Let_def case_prod_beta)

lemma draws_reject:
  "fst (gl_draw_arrays F gm h) \<or> gl_draw_arrays F gm h = (False, Some 0, h)"
  "fst (gl_draw_elements F gm h) \<or> gl_draw_elements F gm h = (False, Some 0, h)"
  by (simp_all add: gl_draw_arrays_def gl_draw_elements_def Let_def case_prod_beta)

text \<open>
  C20: a graphics call that is not handled (an unknown slot, an invalid enumerant, a texture whose size, format
  or memory is not acceptable, a draw with too many elements) leaves the whole state of the hook as it was and
  makes no call of the rasterizer. It leaves r0 alone as well, except that the two draw calls set it to 0.
\<close>

theorem rejected_call_changes_nothing:
  assumes "dispatch_igl F slot gm h = (False, r, h')"
  shows "h' = h \<and> (r = None \<or> (slot \<in> {glDrawArrays, glDrawElements} \<and> r = Some 0))"
  using assms handlers_reject(1,3,4) [of gm h] handlers_reject(2) [of F gm h] draws_reject [of F gm h]
  unfolding dispatch_igl_def Let_def igl_done_def igl_quiet_def
  by (simp split: if_split_asm)

theorem rejected_call_changes_nothing_witness:
  "dispatch_igl int_ops glAlphaFuncx (guest_of [0x300, 0] []) (igl_hook_init int_ops []) =
     (False, None, igl_hook_init int_ops [])"
proof -
  let ?d = "dispatch_igl int_ops glAlphaFuncx (guest_of [0x300, 0] []) (igl_hook_init int_ops [])"
  have f: "\<not> fst ?d" by (simp add: dispatch_igl_def gl_alpha_funcx_def guest_of_def igl_quiet_def)
  then have "?d = (False, fst (snd ?d), snd (snd ?d))" by (simp add: prod_eq_iff)
  then have d: "?d = (False, fst (snd ?d), snd (snd ?d))" .
  have "fst (snd ?d) = None" using rejected_call_changes_nothing [OF d] by simp
  moreover have "snd (snd ?d) = igl_hook_init int_ops []" using rejected_call_changes_nothing [OF d] by simp
  ultimately show ?thesis using f by (simp add: prod_eq_iff)
qed

section \<open>Matrix scopes\<close>

definition stacks_ok :: "'f igl_hook \<Rightarrow> bool" where
  "stacks_ok h \<longleftrightarrow> length (ih_modelview_stack h) = 4 \<and> length (ih_projection_stack h) = 4 \<and>
     ih_modelview_depth h \<le> 4 \<and> ih_projection_depth h \<le> 4"

definition same_stacks :: "'f igl_hook \<Rightarrow> 'f igl_hook \<Rightarrow> bool" where
  "same_stacks h h' \<longleftrightarrow> ih_matrix_mode h' = ih_matrix_mode h \<and>
     ih_modelview_stack h' = ih_modelview_stack h \<and> ih_projection_stack h' = ih_projection_stack h \<and>
     ih_modelview_depth h' = ih_modelview_depth h \<and> ih_projection_depth h' = ih_projection_depth h"

lemma same_stacks_refl [simp]: "same_stacks h h"
  by (simp add: same_stacks_def)

lemma same_stacks_trans: "same_stacks a b \<Longrightarrow> same_stacks b c \<Longrightarrow> same_stacks a c"
  by (simp add: same_stacks_def)

lemma same_stacks_steps:
  "same_stacks h (rast e h)" "same_stacks h (set_cur_matrix m h)" "same_stacks h (mult_cur_matrix F m h)"
  "same_stacks h (compose_mvp F h)" "same_stacks h (gl_active_texture gm h)" "same_stacks h (gl_enable on gm h)"
  "same_stacks h (gl_bind_texture gm h)" "same_stacks h (gl_client_state on gm h)"
  "same_stacks h (snd (gl_alpha_funcx F gm h))"
  by (simp_all add: same_stacks_def rast_def set_cur_matrix_def mult_cur_matrix_def compose_mvp_def
      gl_active_texture_def gl_enable_def gl_bind_texture_def gl_client_state_def gl_alpha_funcx_def Let_def)

lemma same_stacks_textures:
  "same_stacks h (snd (gl_tex_parameterx gm h))" "same_stacks h (snd (gl_compressed_tex_image gm h))"
  "same_stacks h (snd (gl_tex_image gm h))"
  by (simp_all add: gl_tex_parameterx_def gl_compressed_tex_image_def gl_tex_image_def Let_def case_prod_beta
      same_stacks_steps)

lemma snd_assemble: "snd (assemble F gm first n h) = compose_mvp F h"
  by (simp add: assemble_def Let_def)

lemma same_stacks_compact: "same_stacks h (snd (snd (snd (compact_step F gm ix (remap, verts, idxs, h)))))"
  by (simp add: compact_step_def Let_def case_prod_beta snd_assemble same_stacks_steps)

lemma same_stacks_fold:
  "same_stacks (snd (snd (snd s))) (snd (snd (snd (fold (compact_step F gm) gs s))))"
proof (induction gs arbitrary: s)
  case (Cons g gs)
  obtain remap verts idxs h where s: "s = (remap, verts, idxs, h)" by (metis surj_pair)
  have "same_stacks (snd (snd (snd s))) (snd (snd (snd (compact_step F gm g s))))"
    using same_stacks_compact by (simp add: s)
  from same_stacks_trans [OF this Cons.IH] show ?case by simp
qed simp

lemma same_stacks_indexed: "same_stacks h (snd (snd (assemble_indexed F gm p n t h)))"
proof -
  have "same_stacks h (snd (snd (snd (fold (compact_step F gm) gs (replicate d (-1), [], [], h)))))" for gs d
    using same_stacks_fold [of "(replicate d (-1), [], [], h)" F gm gs] by simp
  then show ?thesis unfolding assemble_indexed_def Let_def case_prod_beta
    by (cases "those (map (read_index gm p t) [0..<n])") simp_all
qed

lemma same_stacks_draws:
  "same_stacks h (snd (snd (gl_draw_arrays F gm h)))" "same_stacks h (snd (snd (gl_draw_elements F gm h)))"
proof -
  have r: "same_stacks h (rast e x) = same_stacks h x" "same_stacks h (compose_mvp F x) = same_stacks h x" for e x
    by (simp_all add: same_stacks_def rast_def compose_mvp_def)
  show "same_stacks h (snd (snd (gl_draw_arrays F gm h)))" "same_stacks h (snd (snd (gl_draw_elements F gm h)))"
    by (simp_all add: gl_draw_arrays_def gl_draw_elements_def Let_def case_prod_beta snd_assemble r same_stacks_indexed)
qed

lemma dispatch_same_stacks:
  assumes "slot \<notin> {glMatrixMode, glPushMatrix, glPopMatrix}"
  shows "same_stacks h (snd (snd (dispatch_igl F slot gm h)))"
proof -
  note [simp] = same_stacks_steps same_stacks_textures same_stacks_draws
  have upd: "same_stacks h (h\<lparr>ih_state := st\<rparr>)" "same_stacks h (h\<lparr>ih_color := v\<rparr>)" "same_stacks h (h\<lparr>ih_vtx := a\<rparr>)"
    "same_stacks h (h\<lparr>ih_col := a\<rparr>)" "same_stacks h (h\<lparr>ih_tex := a\<rparr>)" "same_stacks h (h\<lparr>ih_nrm := a\<rparr>)" for st v a
    by (simp_all add: same_stacks_def)
  show ?thesis using assms by (simp add: dispatch_igl_def Let_def igl_done_def igl_quiet_def upd)
qed

text \<open>A sequence of calls, and the sequences in which pushes and pops nest, at most \<open>k\<close> deep.\<close>

type_synonym gl_request = "nat \<times> guest_machine"

definition gl_call :: "'f f32_ops \<Rightarrow> gl_request \<Rightarrow> 'f igl_hook \<Rightarrow> 'f igl_hook" where
  "gl_call F c h = snd (snd (dispatch_igl F (fst c) (snd c) h))"

definition gl_calls :: "'f f32_ops \<Rightarrow> gl_request list \<Rightarrow> 'f igl_hook \<Rightarrow> 'f igl_hook" where
  "gl_calls F cs h = fold (gl_call F) cs h"

inductive nested :: "nat \<Rightarrow> gl_request list \<Rightarrow> bool" where
  nil: "nested k []"
| plain: "fst c \<notin> {glMatrixMode, glPushMatrix, glPopMatrix} \<Longrightarrow> nested k cs \<Longrightarrow> nested k (c # cs)"
| scope: "nested k cs \<Longrightarrow> nested (Suc k) ds \<Longrightarrow> nested (Suc k) ((glPushMatrix, a) # cs @ (glPopMatrix, b) # ds)"

lemma gl_call_push: "gl_call F (glPushMatrix, a) h = gl_push_matrix h"
  and gl_call_pop: "gl_call F (glPopMatrix, a) h = gl_pop_matrix h"
  by (simp_all add: gl_call_def dispatch_igl_def igl_done_def)

text \<open>What a nested sequence keeps: the mode, the depths and the stack entries in use.\<close>

definition keeps_scopes :: "'f igl_hook \<Rightarrow> 'f igl_hook \<Rightarrow> bool" where
  "keeps_scopes h h' \<longleftrightarrow> stacks_ok h' \<and> ih_matrix_mode h' = ih_matrix_mode h \<and>
     cur_depth h' = cur_depth h \<and> take (cur_depth h) (cur_stack h') = take (cur_depth h) (cur_stack h)"

lemma keeps_scopes_same: "stacks_ok h \<Longrightarrow> same_stacks h h' \<Longrightarrow> keeps_scopes h h'"
  by (simp add: keeps_scopes_def same_stacks_def stacks_ok_def cur_depth_def cur_stack_def)

lemma keeps_scopes_trans: "keeps_scopes a b \<Longrightarrow> keeps_scopes b c \<Longrightarrow> keeps_scopes a c"
  by (simp add: keeps_scopes_def)

lemma push_ok:
  assumes "stacks_ok h" "cur_depth h < 4"
  shows "stacks_ok (gl_push_matrix h)" "ih_matrix_mode (gl_push_matrix h) = ih_matrix_mode h"
    "cur_depth (gl_push_matrix h) = Suc (cur_depth h)"
    "take (Suc (cur_depth h)) (cur_stack (gl_push_matrix h)) = take (cur_depth h) (cur_stack h) @ [cur_matrix h]"
  using assms
  by (auto simp: gl_push_matrix_def Let_def cur_depth_def cur_stack_def cur_matrix_def stacks_ok_def take_Suc_conv_app_nth)

lemma pop_ok:
  assumes "stacks_ok h" "cur_depth h = Suc d"
  shows "stacks_ok (gl_pop_matrix h)" "ih_matrix_mode (gl_pop_matrix h) = ih_matrix_mode h"
    "cur_depth (gl_pop_matrix h) = d" "cur_stack (gl_pop_matrix h) = cur_stack h"
    "cur_matrix (gl_pop_matrix h) = cur_stack h ! d"
  using assms
  by (auto simp: gl_pop_matrix_def Let_def cur_depth_def cur_stack_def cur_matrix_def set_cur_matrix_def stacks_ok_def
      split: if_splits)

lemma scope_restores:
  assumes "stacks_ok h" "cur_depth h < 4" "keeps_scopes (gl_push_matrix h) h'"
  shows "keeps_scopes h (gl_pop_matrix h')" "cur_matrix (gl_pop_matrix h') = cur_matrix h"
proof -
  note p = push_ok [OF assms(1,2)]
  have k: "stacks_ok h'" "ih_matrix_mode h' = ih_matrix_mode h" "cur_depth h' = Suc (cur_depth h)"
    "take (Suc (cur_depth h)) (cur_stack h') = take (cur_depth h) (cur_stack h) @ [cur_matrix h]"
    using assms(3) p by (simp_all add: keeps_scopes_def)
  have len: "length (take (cur_depth h) (cur_stack h)) = cur_depth h" "Suc (cur_depth h) \<le> length (cur_stack h')"
    using assms(1,2) k(1) by (auto simp: stacks_ok_def cur_stack_def cur_depth_def)
  have "cur_stack h' ! cur_depth h = take (Suc (cur_depth h)) (cur_stack h') ! cur_depth h" by simp
  also have "... = cur_matrix h" unfolding k(4) using len(1) by (simp add: nth_append)
  finally show "cur_matrix (gl_pop_matrix h') = cur_matrix h" using pop_ok(5) [OF k(1,3)] by simp
  have "take (cur_depth h) (cur_stack h') = take (cur_depth h) (take (Suc (cur_depth h)) (cur_stack h'))"
    by (simp add: min_def)
  also have "... = take (cur_depth h) (cur_stack h)" unfolding k(4) using len(1) by simp
  finally show "keeps_scopes h (gl_pop_matrix h')"
    using pop_ok [OF k(1,3)] k(2) by (simp add: keeps_scopes_def)
qed

lemma nested_keeps:
  "nested k cs \<Longrightarrow> stacks_ok h \<Longrightarrow> cur_depth h + k \<le> 4 \<Longrightarrow> keeps_scopes h (gl_calls F cs h)"
proof (induction arbitrary: h rule: nested.induct)
  case (nil k)
  then show ?case by (simp add: gl_calls_def keeps_scopes_def)
next
  case (plain c k cs)
  let ?h = "gl_call F c h"
  have k: "keeps_scopes h ?h"
    using plain.hyps(1) plain.prems(1) by (intro keeps_scopes_same) (simp_all add: gl_call_def dispatch_same_stacks)
  then have "keeps_scopes ?h (gl_calls F cs ?h)"
    using plain.prems by (intro plain.IH) (simp_all add: keeps_scopes_def)
  then show ?case using keeps_scopes_trans [OF k] by (simp add: gl_calls_def)
next
  case (scope k cs ds a b)
  let ?h = "gl_push_matrix h"
  have d: "cur_depth h < 4" using scope.prems(2) by simp
  note p = push_ok [OF scope.prems(1) d]
  let ?i = "gl_calls F cs ?h"
  have "keeps_scopes ?h ?i" using scope.prems p by (intro scope.IH(1)) simp_all
  from scope_restores(1) [OF scope.prems(1) d this]
  have k: "keeps_scopes h (gl_pop_matrix ?i)" .
  then have "keeps_scopes (gl_pop_matrix ?i) (gl_calls F ds (gl_pop_matrix ?i))"
    using scope.prems by (intro scope.IH(2)) (simp_all add: keeps_scopes_def)
  with k have "keeps_scopes h (gl_calls F ds (gl_pop_matrix ?i))" by (rule keeps_scopes_trans)
  then show ?case by (simp add: gl_calls_def gl_call_push gl_call_pop)
qed

text \<open>
  C17: between \<open>glPushMatrix\<close> and the matching \<open>glPopMatrix\<close> a program may make any calls, nested scopes
  included, as long as it does not change the matrix mode and the four stack entries suffice: the pop restores
  the current matrix exactly, whatever transformations the calls in between applied.
\<close>

theorem matrix_scope_restores:
  assumes "stacks_ok h" "nested k cs" "cur_depth h + k < 4"
  shows "cur_matrix (gl_calls F ((glPushMatrix, a) # cs @ [(glPopMatrix, b)]) h) = cur_matrix h"
proof -
  have d: "cur_depth h < 4" using assms(3) by simp
  have "keeps_scopes (gl_push_matrix h) (gl_calls F cs (gl_push_matrix h))"
    by (rule nested_keeps [OF assms(2)]) (use assms(3) push_ok [OF assms(1) d] in linarith)+
  from scope_restores(2) [OF assms(1) d this] show ?thesis by (simp add: gl_calls_def gl_call_push gl_call_pop)
qed

theorem matrix_scope_restores_witness:
  "cur_matrix (gl_calls int_ops [(glPushMatrix, guest_of [] []), (glScalex, guest_of [0x20000, 0x20000, 0x20000] []),
       (glPopMatrix, guest_of [] [])] (igl_hook_init int_ops [])) = mat_identity int_ops"
proof -
  let ?h = "igl_hook_init int_ops []" and ?c = "(glScalex, guest_of [0x20000, 0x20000, 0x20000] [])"
  have "stacks_ok ?h" "cur_depth ?h + 0 < 4" by (simp_all add: stacks_ok_def igl_hook_init_def cur_depth_def)
  moreover have "nested 0 [?c]" by (simp add: nested.plain nested.nil)
  ultimately have "cur_matrix (gl_calls int_ops ((glPushMatrix, guest_of [] []) # [?c] @ [(glPopMatrix, guest_of [] [])]) ?h) = cur_matrix ?h"
    by (intro matrix_scope_restores)
  then show ?thesis by (simp add: cur_matrix_def igl_hook_init_def)
qed

section \<open>Indexed draws\<close>

text \<open>Element \<open>e\<close> of the arrays under the composed matrix, as an unindexed draw delivers it.\<close>

definition element :: "'f f32_ops \<Rightarrow> guest_machine \<Rightarrow> 'f igl_hook \<Rightarrow> u32 \<Rightarrow> 'f vertex" where
  "element F gm h e = assemble_one F gm (compose_mvp F h) (uint e)"

lemma assemble_element: "assemble F gm (uint e) (Suc 0) h = ([element F gm h e], compose_mvp F h)"
  by (simp add: assemble_def element_def Let_def)

lemma element_compose [simp]: "element F gm (compose_mvp F h) e = element F gm h e"
  by (simp add: element_def compose_mvp_def)

text \<open>
  The compaction after some indices: the distinct elements \<open>ks\<close> in the order of their first use, \<open>remap\<close> their
  positions.
\<close>

definition compacted :: "'f f32_ops \<Rightarrow> guest_machine \<Rightarrow> 'f igl_hook \<Rightarrow> nat \<Rightarrow> u32 list \<Rightarrow> u32 list \<Rightarrow>
    int list \<times> 'f vertex list \<times> u32 list \<times> 'f igl_hook \<Rightarrow> bool" where
  "compacted F gm h0 domain gs ks s \<longleftrightarrow>
     (let (remap, verts, idxs, h) = s in
      length remap = domain \<and> distinct ks \<and> set ks = set gs \<and> verts = map (element F gm h0) ks \<and>
      (\<forall>j < length ks. remap ! unat (ks ! j) = int j) \<and>
      (\<forall>k < domain. of_nat k \<notin> set ks \<longrightarrow> remap ! k < 0) \<and>
      idxs = map (\<lambda>g. of_int (remap ! unat g)) gs \<and> (\<forall>e. element F gm h e = element F gm h0 e) \<and>
      ih_rast h = ih_rast h0)"

lemma compacted_step:
  assumes "compacted F gm h0 domain gs ks s" "unat g < domain" "domain \<le> 2 ^ 32"
  shows "\<exists>ks'. compacted F gm h0 domain (gs @ [g]) ks' (compact_step F gm g s)"
proof -
  obtain remap verts idxs h where s: "s = (remap, verts, idxs, h)" by (metis surj_pair)
  have c: "length remap = domain" "distinct ks" "set ks = set gs" "verts = map (element F gm h0) ks"
    "\<And>j. j < length ks \<Longrightarrow> remap ! unat (ks ! j) = int j"
    "\<And>k. k < domain \<Longrightarrow> of_nat k \<notin> set ks \<Longrightarrow> remap ! k < 0"
    "idxs = map (\<lambda>g. of_int (remap ! unat g)) gs" "\<And>e. element F gm h e = element F gm h0 e"
    and log: "ih_rast h = ih_rast h0" "ih_rast (compose_mvp F h) = ih_rast h0"
    using assms(1) by (auto simp: compacted_def s compose_mvp_def)
  have known: "remap ! unat g < 0 \<longleftrightarrow> g \<notin> set ks"
    using c(5,6) [of "unat g"] assms(2) c(5) by (auto simp: in_set_conv_nth)
  show ?thesis
  proof (cases "g \<in> set ks")
    case True
    then have "compact_step F gm g s = (remap, verts, idxs @ [of_int (remap ! unat g)], h)"
      using known by (simp add: compact_step_def s)
    then have "compacted F gm h0 domain (gs @ [g]) ks (compact_step F gm g s)"
      using c True log by (auto simp: compacted_def)
    then show ?thesis by blast
  next
    case False
    let ?r = "remap[unat g := int (length verts)]"
    have st: "compact_step F gm g s = (?r, verts @ [element F gm h0 g], idxs @ [of_int (int (length verts))], compose_mvp F h)"
      using False known assms(2) c(1,8) by (simp add: compact_step_def s assemble_element)
    have other: "?r ! unat e = remap ! unat e" if "e \<in> set ks" for e
      using that False by (metis nth_list_update_neq word_unat_eq_iff)
    have pos: "?r ! unat ((ks @ [g]) ! j) = int j" if "j < length (ks @ [g])" for j
    proof (cases "j < length ks")
      case True
      then show ?thesis using other [of "ks ! j"] c(5) by (simp add: nth_append)
    next
      case False
      then have "j = length ks" using that by simp
      then show ?thesis using c(1,4) assms(2) by simp
    qed
    have unknown: "?r ! k < 0" if "k < domain" "of_nat k \<notin> set (ks @ [g])" for k
    proof -
      have "unat g \<noteq> k" using that(2) by auto
      then show ?thesis using that c(6) by simp
    qed
    have "compacted F gm h0 domain (gs @ [g]) (ks @ [g]) (compact_step F gm g s)"
      unfolding compacted_def st prod.case Let_def
      using c False pos unknown other assms(2) log by (auto simp: nth_append)
    then show ?thesis by blast
  qed
qed

lemma compacted_fold:
  assumes "\<forall>g \<in> set gs. unat g < domain" "domain \<le> 2 ^ 32"
  shows "\<exists>ks. compacted F gm h domain gs ks (fold (compact_step F gm) gs (replicate domain (-1), [], [], h))"
  using assms(1)
proof (induction gs rule: rev_induct)
  case Nil
  have "compacted F gm h domain [] [] (replicate domain (-1), [], [], h)" by (simp add: compacted_def)
  then show ?case by (intro exI [of _ "[]"]) simp
next
  case (snoc g gs)
  then obtain ks where "compacted F gm h domain gs ks (fold (compact_step F gm) gs (replicate domain (-1), [], [], h))"
    by auto
  from compacted_step [OF this _ assms(2)] snoc.prems show ?case by simp
qed

lemma read_index_range:
  "read_index gm p t i = Some g \<Longrightarrow> unat g < (if t = 0x1401 then 256 else 65536)"
proof -
  have "unat (ucast b :: u32) < 256" for b :: u8
  proof -
    have "unat b < 256" using unsigned_less [of b] by simp
    then show ?thesis by (simp add: unsigned_ucast_eq take_bit_nat_eq_self)
  qed
  moreover have "unat (ucast w :: u32) < 65536" for w :: u16
  proof -
    have "unat w < 65536" using unsigned_less [of w] by simp
    then show ?thesis by (simp add: unsigned_ucast_eq take_bit_nat_eq_self)
  qed
  ultimately show "read_index gm p t i = Some g \<Longrightarrow> unat g < (if t = 0x1401 then 256 else 65536)"
    by (auto simp: read_index_def split: if_splits)
qed

lemma those_Some_iff: "those xs = Some ys \<longleftrightarrow> xs = map Some ys"
  by (induction xs arbitrary: ys) (auto split: option.splits)

text \<open>
  C15: an indexed draw hands the rasterizer the picture of the guest's index list: looking every index up in the
  vertex list gives exactly the elements the guest asked for, in its order, each as an unindexed draw under the
  same matrices would deliver it. The vertex list holds every element that is used once, and every index is
  inside it.
\<close>

theorem indexed_draw_same_elements:
  assumes "gm_arg gm 1 \<le> 1000000" "gm_arg gm 2 = 0x1401 \<or> gm_arg gm 2 = 0x1403"
    and "map (read_index gm (gm_arg gm 3) (gm_arg gm 2)) [0..<unat (gm_arg gm 1)] = map Some gs"
    and "dispatch_igl F glDrawElements gm h = (r, v, h')"
  shows "\<exists>m st verts idx. r \<and> ih_rast h' = ih_rast h @ [Set_mvp m, Set_state st, Draw_indexed (to_prim (gm_arg gm 0)) verts idx] \<and>
    map (\<lambda>i. verts ! unat i) idx = map (element F gm h) gs \<and> (\<forall>i \<in> set idx. unat i < length verts) \<and>
    length verts = card (set gs)"
proof -
  let ?t = "gm_arg gm 2" and ?domain = "if gm_arg gm 2 = 0x1401 then 256 else (65536::nat)"
  let ?s = "fold (compact_step F gm) gs (replicate ?domain (-1), [], [], h)"
  obtain remap verts idx h1 where s: "?s = (remap, verts, idx, h1)" by (metis surj_pair)
  have rng: "\<forall>g \<in> set gs. unat g < ?domain"
  proof
    fix g assume "g \<in> set gs"
    then have "Some g \<in> set (map (read_index gm (gm_arg gm 3) ?t) [0..<unat (gm_arg gm 1)])"
      unfolding assms(3) by simp
    then show "unat g < ?domain" using read_index_range [of gm _ ?t _ g] by fastforce
  qed
  obtain ks where ks: "compacted F gm h ?domain gs ks (remap, verts, idx, h1)"
    using compacted_fold [OF rng, of F gm h] s by (auto split: if_splits)
  have c: "distinct ks" "set ks = set gs" "verts = map (element F gm h) ks"
    "\<And>j. j < length ks \<Longrightarrow> remap ! unat (ks ! j) = int j" "idx = map (\<lambda>g. of_int (remap ! unat g)) gs"
    using ks by (auto simp: compacted_def)
  have "length ks \<le> 65536"
  proof -
    have "card (set ks) \<le> card {..<?domain}"
      using rng c(2) by (intro card_inj_on_le [of unat]) (auto simp: inj_on_def word_unat_eq_iff)
    then show ?thesis using distinct_card [OF c(1)] by (simp split: if_splits)
  qed
  then have at: "unat (of_int (remap ! unat g) :: u32) < length verts \<and> verts ! unat (of_int (remap ! unat g) :: u32) = element F gm h g"
    if "g \<in> set gs" for g
  proof -
    have "g \<in> set ks" using that c(2) by simp
    then obtain j where j: "j < length ks" "ks ! j = g" unfolding in_set_conv_nth by blast
    then have "unat (of_int (remap ! unat g) :: u32) = j"
      using c(4) [OF j(1)] \<open>length ks \<le> 65536\<close> by (simp add: unat_of_nat)
    then show ?thesis using j c(3) by simp
  qed
  have asm: "assemble_indexed F gm (gm_arg gm 3) (unat (gm_arg gm 1)) ?t h = (verts, idx, h1)"
    using assms(3) s by (simp add: assemble_indexed_def those_Some_iff [THEN iffD2] Let_def)
  have log: "ih_rast h1 = ih_rast h" using ks by (simp add: compacted_def)
  have "dispatch_igl F glDrawElements gm h = (True, None, rast (Draw_indexed (to_prim (gm_arg gm 0)) verts idx)
      (rast (Set_state (ih_state h1)) (rast (Set_mvp (ih_mvp h1)) h1)))"
    using assms(1,2) asm by (auto simp: dispatch_igl_def gl_draw_elements_def Let_def not_less)
  then have "r" "ih_rast h' = ih_rast h @ [Set_mvp (ih_mvp h1), Set_state (ih_state h1), Draw_indexed (to_prim (gm_arg gm 0)) verts idx]"
    using assms(4) log by (auto simp: rast_def)
  moreover have "map (\<lambda>i. verts ! unat i) idx = map (element F gm h) gs" "\<forall>i \<in> set idx. unat i < length verts"
    using at by (auto simp: c(5))
  moreover have "length verts = card (set gs)" using c(1-3) distinct_card by fastforce
  ultimately show ?thesis by blast
qed

theorem indexed_draw_same_elements_witness:
  "let gm = guest_of [4, 3, 0x1401, 0] [7, 2, 7]; h = igl_hook_init int_ops [] in
   \<exists>m st verts idx. ih_rast (snd (snd (dispatch_igl int_ops glDrawElements gm h))) =
       [Set_mvp m, Set_state st, Draw_indexed Triangles verts idx] \<and>
     map (\<lambda>i. verts ! unat i) idx = map (element int_ops gm h) [7, 2, 7] \<and> (\<forall>i \<in> set idx. unat i < length verts) \<and>
     length verts = 2"
proof -
  let ?gm = "guest_of [4, 3, 0x1401, 0] [7, 2, 7]" and ?h = "igl_hook_init int_ops []"
  obtain r v h' where d: "dispatch_igl int_ops glDrawElements ?gm ?h = (r, v, h')" by (metis surj_pair)
  have u: "[0..<unat (3::u32)] = [0, 1, 2]" by (simp add: upt_rec)
  have a: "gm_arg ?gm 0 = 4" "gm_arg ?gm 1 = 3" "gm_arg ?gm 2 = 0x1401" "gm_arg ?gm 3 = 0" by (simp_all add: guest_of_def)
  have "map (read_index ?gm (gm_arg ?gm 3) (gm_arg ?gm 2)) [0..<unat (gm_arg ?gm 1)] = map Some [7, 2, 7]"
    unfolding a u by (simp add: read_index_def guest_of_def gm_byte_def)
  then have "\<exists>m st verts idx. r \<and> ih_rast h' = ih_rast ?h @ [Set_mvp m, Set_state st, Draw_indexed (to_prim (gm_arg ?gm 0)) verts idx] \<and>
      map (\<lambda>i. verts ! unat i) idx = map (element int_ops ?gm ?h) [7, 2, 7] \<and> (\<forall>i \<in> set idx. unat i < length verts) \<and>
      length verts = card (set [7, 2, 7 :: u32])"
    by (intro indexed_draw_same_elements [OF _ _ _ d]) (simp_all add: a)
  moreover have "card (set [7, 2, 7 :: u32]) = 2"
  proof -
    have "set [7, 2, 7 :: u32] = {7, 2}" by auto
    then show ?thesis by simp
  qed
  moreover have "ih_rast ?h = []" "to_prim 4 = Triangles" by (simp_all add: igl_hook_init_def to_prim_def)
  ultimately show ?thesis unfolding Let_def d a by auto
qed

end
