(* ===== verification/Arm_Engine.thy ===== *)
theory Arm_Engine
  imports Guest_Memory
begin

text \<open>
  Registers and memory of the CPU engine together. \<open>uc_sep\<close> is the documented independence of the two: a
  register write leaves the memory alone and a memory write the registers. \<open>full_ops\<close> joins the banked
  register file of \<open>Uc_Engine\<close> and the paged memory of \<open>Guest_Memory\<close> into an engine that satisfies all three
  contracts.
\<close>

definition uc_sep :: "'u uc_ops \<Rightarrow> 'u mem_view \<Rightarrow> bool" where
  "uc_sep ops mem \<longleftrightarrow>
     (\<forall>u r v. mem (uc_reg_write ops u r v) = mem u) \<and>
     (\<forall>u a bs r. uc_reg_read ops (snd (uc_mem_write ops u a bs)) r = uc_reg_read ops u r)"

definition uc_ok :: "'u uc_ops \<Rightarrow> 'u mem_view \<Rightarrow> bool" where
  "uc_ok ops mem \<longleftrightarrow> uc_regs_ok ops \<and> uc_mem_ok ops mem \<and> uc_sep ops mem"

lemma uc_okD:
  assumes "uc_ok ops mem"
  shows "uc_regs_ok ops" "uc_mem_ok ops mem"
    and "mem (uc_reg_write ops u r v) = mem u"
    and "uc_reg_read ops (snd (uc_mem_write ops u a bs)) r = uc_reg_read ops u r"
  using assms by (simp_all add: uc_ok_def uc_sep_def)

section \<open>An engine with registers and memory\<close>

definition full_ops :: "(arm \<times> paged) uc_ops" where
  "full_ops = \<lparr>uc_reg_read = (\<lambda>u r. arm_read (fst u) r), uc_reg_write = (\<lambda>u r v. (arm_write (fst u) r v, snd u)),
     uc_mem_read = (\<lambda>u. uc_mem_read flat_ops (snd u)),
     uc_mem_write = (\<lambda>u a b. apsnd (Pair (fst u)) (uc_mem_write flat_ops (snd u) a b)),
     uc_mem_map = (\<lambda>u a s p. apsnd (Pair (fst u)) (uc_mem_map flat_ops (snd u) a s p)),
     uc_mem_map_ptr = (\<lambda>u a s p h. (UC_ERR_OTHER, u)),
     uc_mem_protect = (\<lambda>u a s p. (UC_ERR_OTHER, u)), uc_mem_unmap = (\<lambda>u a s. (UC_ERR_OTHER, u)),
     uc_mem_regions = (\<lambda>u. (UC_ERR_OK, []))\<rparr>"

definition full_byte :: "(arm \<times> paged) mem_view" where
  "full_byte u = paged_byte (snd u)"

lemma full_regs:
  "uc_reg_read full_ops u r = uc_reg_read arm_ops (fst u) r"
  "fst (uc_reg_write full_ops u r v) = uc_reg_write arm_ops (fst u) r v"
  by (simp_all add: full_ops_def arm_ops_def)

lemma full_regs_ok: "uc_regs_ok full_ops"
  using arm_regs_ok unfolding uc_regs_ok_def full_regs by blast

lemma full_mem_ok: "uc_mem_ok full_ops full_byte"
  using flat_mem_ok unfolding uc_mem_ok_def full_ops_def full_byte_def
  by (simp add: Let_def case_prod_beta)

lemma full_ok: "uc_ok full_ops full_byte"
  unfolding uc_ok_def uc_sep_def
  using full_regs_ok full_mem_ok by (simp add: full_ops_def full_byte_def)

end
