(* ===== verification/Igl_Bridge.thy ===== *)
theory Igl_Bridge
  imports Igl_Hook Arm_Engine Std_Map
begin

text \<open>
  \<open>tools/cpp/gpu/igl_guest_bridge.h\<close>: the bridge between the guest's graphics interfaces and the hook. It finds
  the method table of a live interface object, accepts it only when every non-null entry points into executable
  firmware, notes for every entry address which interface and slot it is, and when core 0 reaches such an address
  performs the call on the hook. The engine is the argument \<open>ops\<close>, the arithmetic \<open>F\<close>. The function map, an
  unordered map that is only looked up, is kept in key order.
\<close>

record 'f igl_bridge =
  br_hook :: "'f igl_hook"
  br_fn_map :: "(u32, bool \<times> nat) omap"
  br_code_ranges :: "(u32 \<times> u32) list"
  br_igl_vtable_va :: u32
  br_iegl_vtable_va :: u32
  br_guest_running :: bool

definition igl_bridge_init :: "'f igl_hook \<Rightarrow> 'f igl_bridge" where
  "igl_bridge_init h = \<lparr>br_hook = h, br_fn_map = [], br_code_ranges = [], br_igl_vtable_va = 0,
     br_iegl_vtable_va = 0, br_guest_running = False\<rparr>"

definition set_code_ranges :: "(u32 \<times> u32) list \<Rightarrow> 'f igl_bridge \<Rightarrow> 'f igl_bridge" where
  "set_code_ranges r b = b\<lparr>br_code_ranges := r\<rparr>"

definition set_guest_running :: "bool \<Rightarrow> 'f igl_bridge \<Rightarrow> 'f igl_bridge" where
  "set_guest_running on b = b\<lparr>br_guest_running := on\<rparr>"

definition bridge_bound :: "'f igl_bridge \<Rightarrow> bool" where
  "bridge_bound b \<longleftrightarrow> br_fn_map b \<noteq> []"

definition is_code_va :: "'f igl_bridge \<Rightarrow> u32 \<Rightarrow> bool" where
  "is_code_va b p = (let v = p AND NOT 1 in list_ex (\<lambda>(lo, hi). v \<ge> lo \<and> v < hi) (br_code_ranges b))"

definition vt_entry :: "'u uc_ops \<Rightarrow> 'u \<Rightarrow> u32 \<Rightarrow> nat \<Rightarrow> uc_err \<times> u32" where
  "vt_entry ops u vtable_va s =
     (let (e, bs) = uc_mem_read ops u (ucast (vtable_va + of_nat s * 4)) [0, 0, 0, 0] in (e, rd32 bs 0))"

text \<open>
  The loop of \<open>validate_vtable\<close> from slot \<open>s\<close> on, with the two counters; \<open>None\<close> is the early \<open>return 0\<close>. The
  ratio test compares the two counts as the quotient with 0.75 does.
\<close>

fun vt_count :: "'u uc_ops \<Rightarrow> 'u \<Rightarrow> 'f igl_bridge \<Rightarrow> u32 \<Rightarrow> nat list \<Rightarrow> nat \<times> nat \<Rightarrow> (nat \<times> nat) option" where
  "vt_count ops u b p [] cn = Some cn"
| "vt_count ops u b p (s # ss) (code, nonnull) =
     (let (e, fn) = vt_entry ops u p s in
      if e \<noteq> UC_ERR_OK then None
      else if fn = 0 then vt_count ops u b p ss (code, nonnull)
      else if is_code_va b fn then vt_count ops u b p ss (code + 1, nonnull + 1)
      else None)"

definition validate_vtable :: "'u uc_ops \<Rightarrow> 'u option \<Rightarrow> 'f igl_bridge \<Rightarrow> u32 \<Rightarrow> nat \<Rightarrow> nat" where
  "validate_vtable ops uc b vtable_va slots =
     (case uc of None \<Rightarrow> 0
      | Some u \<Rightarrow>
          if vtable_va = 0 \<or> br_code_ranges b = [] then 0
          else case vt_count ops u b vtable_va [0..<slots] (0, 0) of
                 None \<Rightarrow> 0
               | Some (code, nonnull) \<Rightarrow> if nonnull = 0 then 0 else if 4 * code < 3 * nonnull then 0 else code)"

definition bind_slot :: "'u uc_ops \<Rightarrow> 'u \<Rightarrow> u32 \<Rightarrow> bool \<Rightarrow> nat \<Rightarrow> 'f igl_bridge \<Rightarrow> 'f igl_bridge" where
  "bind_slot ops u vtable_va is_igl s b =
     (let (e, fn_va) = vt_entry ops u vtable_va s in
      if e \<noteq> UC_ERR_OK then b
      else if fn_va = 0 then b
      else b\<lparr>br_fn_map := om_put (fn_va AND NOT 1) (is_igl, s) (br_fn_map b)\<rparr>)"

definition bind_vtable :: "'u uc_ops \<Rightarrow> 'u option \<Rightarrow> u32 \<Rightarrow> nat \<Rightarrow> bool \<Rightarrow> 'f igl_bridge \<Rightarrow> 'f igl_bridge" where
  "bind_vtable ops uc vtable_va slots is_igl b =
     (case uc of None \<Rightarrow> b
      | Some u \<Rightarrow> if vtable_va = 0 then b else fold (bind_slot ops u vtable_va is_igl) [0..<slots] b)"

definition bind_igl_vtable :: "'u uc_ops \<Rightarrow> 'u option \<Rightarrow> u32 \<Rightarrow> 'f igl_bridge \<Rightarrow> 'f igl_bridge" where
  "bind_igl_vtable ops uc vtable_va b = bind_vtable ops uc vtable_va 80 True b"

definition bind_iegl_vtable :: "'u uc_ops \<Rightarrow> 'u option \<Rightarrow> u32 \<Rightarrow> 'f igl_bridge \<Rightarrow> 'f igl_bridge" where
  "bind_iegl_vtable ops uc vtable_va b = bind_vtable ops uc vtable_va 28 False b"

definition resolve_from_object :: "'u uc_ops \<Rightarrow> 'u option \<Rightarrow> u32 \<Rightarrow> bool \<Rightarrow> 'f igl_bridge \<Rightarrow> bool \<times> 'f igl_bridge" where
  "resolve_from_object ops uc obj_va is_igl b =
     (case uc of None \<Rightarrow> (False, b)
      | Some u \<Rightarrow>
          if obj_va = 0 then (False, b)
          else
            let (e, vtbl) = vt_entry ops u obj_va 0 in
            if e \<noteq> UC_ERR_OK \<or> vtbl = 0 then (False, b)
            else
              let slots = (if is_igl then 80 else 28) in
              if validate_vtable ops uc b vtbl slots = 0 then (False, b)
              else
                let b = bind_vtable ops uc vtbl slots is_igl b
                in (True, if is_igl then b\<lparr>br_igl_vtable_va := vtbl\<rparr> else b\<lparr>br_iegl_vtable_va := vtbl\<rparr>))"

text \<open>The guest machine over the engine's registers and memory; arguments from the fifth on are on the stack.\<close>

definition bridge_machine :: "'u uc_ops \<Rightarrow> 'u \<Rightarrow> guest_machine" where
  "bridge_machine ops u = \<lparr>gm_arg = (\<lambda>n. if n < 4 then uc_reg_read ops u (UC_R (nat n))
        else rd32 (snd (uc_mem_read ops u (ucast (uc_reg_read ops u UC_SP + of_int (n - 4) * 4)) [0, 0, 0, 0])) 0),
     gm_read = (\<lambda>p buf. let (e, bs) = uc_mem_read ops u (ucast p) buf in (e = UC_ERR_OK, bs))\<rparr>"

definition set_ret :: "'u uc_ops \<Rightarrow> u32 option \<Rightarrow> 'u \<Rightarrow> 'u" where
  "set_ret ops v u = (case v of None \<Rightarrow> u | Some w \<Rightarrow> uc_reg_write ops u (UC_R 0) w)"

definition bridge_on_code :: "'f f32_ops \<Rightarrow> 'u uc_ops \<Rightarrow> u32 \<Rightarrow> 'u \<times> 'f igl_bridge \<Rightarrow> bool \<times> 'u \<times> 'f igl_bridge" where
  "bridge_on_code F ops pc s =
     (let (u, b) = s in
      if \<not> br_guest_running b then (False, s)
      else case map_of (br_fn_map b) (pc AND NOT 1) of
             None \<Rightarrow> (False, s)
           | Some (is_igl, slot) \<Rightarrow>
               let gm = bridge_machine ops u;
                   (ok, ret, h) = (if is_igl then dispatch_igl F slot gm (br_hook b) else dispatch_iegl slot (br_hook b))
               in (ok, set_ret ops ret u, b\<lparr>br_hook := h\<rparr>))"

section \<open>Resolving a table\<close>

text \<open>A method table in memory: its words from \<open>p\<close> on, without reaching the end of the address space.\<close>

definition table_at :: "(nat \<Rightarrow> u8 option) \<Rightarrow> u32 \<Rightarrow> u32 list \<Rightarrow> bool" where
  "table_at m p ws \<longleftrightarrow> holds m (unat p) (concat (map le32_bytes ws)) \<and> unat p + 4 * length ws \<le> 2 ^ 32"

lemma vt_entry_at:
  assumes "uc_mem_ok ops mem" "table_at (mem u) p ws" "s < length ws"
  shows "vt_entry ops u p s = (UC_ERR_OK, ws ! s)"
proof -
  have addr: "unat (p + of_nat s * 4) = unat p + 4 * s"
  proof -
    have lt: "unat p + 4 * s < 2 ^ 32" using assms(2,3) by (simp add: table_at_def)
    have "unat (of_nat (4 * s) :: u32) = 4 * s" unfolding unat_of_nat by (rule mod_less) (use lt in simp)
    then have "unat (p + of_nat (4 * s)) = unat p + 4 * s"
      using unat_add_lem [of p "of_nat (4 * s)"] lt by simp
    then show ?thesis by (simp add: mult.commute)
  qed
  have h: "holds (mem u) (unat (p + of_nat s * 4)) (le32_bytes (ws ! s))"
    unfolding addr using assms(2,3) holds_word by (simp add: table_at_def)
  obtain e bs where r: "uc_mem_read ops u (ucast (p + of_nat s * 4)) [0, 0, 0, 0] = (e, bs)" by fastforce
  have "e = UC_ERR_OK" using mem_read_ok(1) [OF assms(1) r] holds_mapped [OF h] by (simp add: eval_nat_numeral)
  moreover have "rd32 bs 0 = ws ! s" using get_word [OF assms(1) h] r by simp
  ultimately show ?thesis using r by (simp add: vt_entry_def)
qed

lemma vt_count_ok:
  assumes "uc_mem_ok ops mem" "table_at (mem u) p ws"
  shows "\<forall>s \<in> set ss. s < length ws \<Longrightarrow> \<forall>s \<in> set ss. ws ! s = 0 \<or> is_code_va b (ws ! s) \<Longrightarrow>
    vt_count ops u b p ss (k, k) = Some (k + length (filter (\<lambda>s. ws ! s \<noteq> 0) ss), k + length (filter (\<lambda>s. ws ! s \<noteq> 0) ss))"
  by (induction ss arbitrary: k) (use vt_entry_at [OF assms] in \<open>auto simp: Let_def\<close>)

lemma vt_count_bad:
  assumes "uc_mem_ok ops mem" "table_at (mem u) p ws"
  shows "\<forall>s \<in> set ss. s < length ws \<Longrightarrow> \<exists>s \<in> set ss. ws ! s \<noteq> 0 \<and> \<not> is_code_va b (ws ! s) \<Longrightarrow>
    vt_count ops u b p ss cn = None"
proof (induction ss arbitrary: cn)
  case (Cons s ss)
  have e: "vt_entry ops u p s = (UC_ERR_OK, ws ! s)" using vt_entry_at [OF assms] Cons.prems(1) by simp
  show ?case
  proof (cases "ws ! s \<noteq> 0 \<and> \<not> is_code_va b (ws ! s)")
    case False
    then have "vt_count ops u b p ss cn' = None" for cn' using Cons.prems by (intro Cons.IH) auto
    then show ?thesis by (cases cn) (simp add: e)
  qed (cases cn, simp add: e)
qed simp

text \<open>
  The comments of the source ask that a share of at least 75 percent of the entries point to code. The test of
  the quotient never decides: the loop has already given up at the first entry that is neither null nor code,
  so that the two counts are equal whenever the test is reached.
\<close>

lemma ratio_never_decides: "vt_count ops u b p ss (k, k) = Some (code, nonnull) \<Longrightarrow> code = nonnull"
  by (induction ss arbitrary: k) (auto simp: Let_def split: prod.splits if_splits)

lemma vt_filter: "filter (\<lambda>s. ws ! s \<noteq> 0) [0..<length ws] = [] \<longleftrightarrow> set ws \<subseteq> {0}"
  by (auto simp: filter_empty_conv set_conv_nth)

lemma validate_vtable_iff:
  assumes "uc_mem_ok ops mem" "table_at (mem u) p ws" "p \<noteq> 0" "br_code_ranges b \<noteq> []"
  shows "validate_vtable ops (Some u) b p (length ws) \<noteq> 0 \<longleftrightarrow>
    (\<exists>w \<in> set ws. w \<noteq> 0) \<and> (\<forall>w \<in> set ws. w = 0 \<or> is_code_va b w)"
proof (cases "\<forall>w \<in> set ws. w = 0 \<or> is_code_va b w")
  case True
  let ?n = "length (filter (\<lambda>s. ws ! s \<noteq> 0) [0..<length ws])"
  have "vt_count ops u b p [0..<length ws] (0, 0) = Some (0 + ?n, 0 + ?n)"
    using True by (intro vt_count_ok [OF assms(1,2)]) simp_all
  then have "validate_vtable ops (Some u) b p (length ws) = ?n" using assms(3,4) by (simp add: validate_vtable_def)
  then show ?thesis using True vt_filter [of ws] by auto
next
  case False
  then obtain s where "s < length ws" "ws ! s \<noteq> 0" "\<not> is_code_va b (ws ! s)" by (metis in_set_conv_nth)
  then have "vt_count ops u b p [0..<length ws] (0, 0) = None"
    by (intro vt_count_bad [OF assms(1,2)]) auto
  then show ?thesis using False by (simp add: validate_vtable_def)
qed

lemma bind_slot_at:
  assumes "uc_mem_ok ops mem" "table_at (mem u) p ws" "s < length ws"
  shows "bind_slot ops u p is_igl s b =
    (if ws ! s = 0 then b else b\<lparr>br_fn_map := om_put (ws ! s AND NOT 1) (is_igl, s) (br_fn_map b)\<rparr>)"
  using vt_entry_at [OF assms] by (simp add: bind_slot_def)

text \<open>After binding the first \<open>n\<close> slots an address belongs to the last of them that points to it.\<close>

lemma bind_slots:
  assumes "uc_mem_ok ops mem" "table_at (mem u) p ws" "om_ok (br_fn_map b)"
  shows "n \<le> length ws \<Longrightarrow>
    let b' = fold (bind_slot ops u p is_igl) [0..<n] b in
    om_ok (br_fn_map b') \<and> b' = b\<lparr>br_fn_map := br_fn_map b'\<rparr> \<and>
    (\<forall>s < n. ws ! s \<noteq> 0 \<longrightarrow> (\<forall>t < n. s < t \<longrightarrow> ws ! t = 0 \<or> ws ! t AND NOT 1 \<noteq> ws ! s AND NOT 1) \<longrightarrow>
       map_of (br_fn_map b') (ws ! s AND NOT 1) = Some (is_igl, s)) \<and>
    (\<forall>a. (\<forall>s < n. ws ! s = 0 \<or> ws ! s AND NOT 1 \<noteq> a) \<longrightarrow> map_of (br_fn_map b') a = map_of (br_fn_map b) a)"
proof (induction n)
  case 0
  then show ?case using assms(3) by simp
next
  case (Suc n)
  let ?b = "fold (bind_slot ops u p is_igl) [0..<n] b"
  have IH: "om_ok (br_fn_map ?b)" "?b = b\<lparr>br_fn_map := br_fn_map ?b\<rparr>"
    "\<And>s. s < n \<Longrightarrow> ws ! s \<noteq> 0 \<Longrightarrow> \<forall>t < n. s < t \<longrightarrow> ws ! t = 0 \<or> ws ! t AND NOT 1 \<noteq> ws ! s AND NOT 1 \<Longrightarrow>
       map_of (br_fn_map ?b) (ws ! s AND NOT 1) = Some (is_igl, s)"
    "\<And>a. \<forall>s < n. ws ! s = 0 \<or> ws ! s AND NOT 1 \<noteq> a \<Longrightarrow> map_of (br_fn_map ?b) a = map_of (br_fn_map b) a"
    using Suc by (simp_all add: Let_def)
  let ?b' = "fold (bind_slot ops u p is_igl) [0..<Suc n] b"
  have b': "?b' = (if ws ! n = 0 then ?b else ?b\<lparr>br_fn_map := om_put (ws ! n AND NOT 1) (is_igl, n) (br_fn_map ?b)\<rparr>)"
    using bind_slot_at [OF assms(1,2), of n is_igl ?b] Suc.prems by simp
  have fm: "map_of (br_fn_map ?b') a = (if ws ! n \<noteq> 0 \<and> a = ws ! n AND NOT 1 then Some (is_igl, n) else map_of (br_fn_map ?b) a)" for a
    unfolding b' using IH(1) by simp
  have "om_ok (br_fn_map ?b')" unfolding b' using IH(1) by simp
  moreover obtain m where m: "?b = b\<lparr>br_fn_map := m\<rparr>" using IH(2) by blast
  then have "?b' = b\<lparr>br_fn_map := br_fn_map ?b'\<rparr>" unfolding b' m by simp
  ultimately show ?case unfolding Let_def
    by (simp only: fm less_Suc_eq) (use IH(3,4) in \<open>auto\<close>)
qed

lemma distinct_filter_nth:
  assumes "distinct (map f (filter P ws))" "s < t" "t < length ws" "P (ws ! s)" "P (ws ! t)"
  shows "f (ws ! t) \<noteq> f (ws ! s)"
proof -
  have "ws ! s \<in> set (take t ws)" using assms(2,3) by (metis in_set_conv_nth length_take min.absorb4 nth_take)
  moreover have "distinct (map f (filter P (take t ws @ ws ! t # drop (Suc t) ws)))"
    using assms(1,3) by (simp add: id_take_nth_drop [symmetric])
  ultimately show ?thesis using assms(4,5) by auto
qed

section \<open>From an interface object to the hook\<close>

text \<open>
  C18: resolving a live interface object accepts its method table exactly when the table has an entry and every
  non-null entry points into executable firmware, so that a single entry can be enough and one stray pointer
  rejects (not, as comment and roadmap say, when 75 percent of the slots are code); a rejected object leaves
  the bridge unchanged. When the
  entries are pairwise different functions, reaching the entry address of any slot (Thumb bit or not) while the
  guest runs performs exactly that slot of the interface on the hook.
\<close>

theorem resolve_binds_every_slot:
  assumes "uc_mem_ok ops mem" "table_at (mem u) obj_va [vtbl]" "table_at (mem u) vtbl ws" "obj_va \<noteq> 0" "vtbl \<noteq> 0"
    and "length ws = (if is_igl then 80 else 28)" "br_code_ranges b \<noteq> []" "om_ok (br_fn_map b)"
    and "resolve_from_object ops (Some u) obj_va is_igl b = (ok, b')"
  shows "(ok \<longleftrightarrow> (\<exists>w \<in> set ws. w \<noteq> 0) \<and> (\<forall>w \<in> set ws. w = 0 \<or> is_code_va b w)) \<and>
    (\<not> ok \<longrightarrow> b' = b) \<and>
    (ok \<and> distinct (map (\<lambda>w. w AND NOT 1) (filter (\<lambda>w. w \<noteq> 0) ws)) \<and> s < length ws \<and> ws ! s \<noteq> 0 \<and>
      br_guest_running b \<and> bit1 \<in> {0, 1} \<longrightarrow>
      bridge_on_code F ops (ws ! s OR bit1) (u1, b') =
        (let (r, ret, h) = (if is_igl then dispatch_igl F s (bridge_machine ops u1) (br_hook b)
                            else dispatch_iegl s (br_hook b))
         in (r, set_ret ops ret u1, b'\<lparr>br_hook := h\<rparr>)))"
proof (intro conjI impI)
  let ?n = "if is_igl then 80 else (28::nat)" and ?b = "fold (bind_slot ops u vtbl is_igl) [0..<length ws] b"
  have e: "vt_entry ops u obj_va 0 = (UC_ERR_OK, vtbl)" using vt_entry_at [OF assms(1,2), of 0] by simp
  have r: "resolve_from_object ops (Some u) obj_va is_igl b =
      (if validate_vtable ops (Some u) b vtbl (length ws) = 0 then (False, b)
       else (True, if is_igl then ?b\<lparr>br_igl_vtable_va := vtbl\<rparr> else ?b\<lparr>br_iegl_vtable_va := vtbl\<rparr>))"
    unfolding resolve_from_object_def using assms(4,5) by (simp add: e assms(6) bind_vtable_def)
  show ok: "ok \<longleftrightarrow> (\<exists>w \<in> set ws. w \<noteq> 0) \<and> (\<forall>w \<in> set ws. w = 0 \<or> is_code_va b w)"
    using validate_vtable_iff [OF assms(1,3,5,7)] assms(9) r by auto
  show "b' = b" if "\<not> ok" using that assms(9) r by (auto split: if_splits)
  assume "ok \<and> distinct (map (\<lambda>w. w AND NOT 1) (filter (\<lambda>w. w \<noteq> 0) ws)) \<and> s < length ws \<and> ws ! s \<noteq> 0 \<and>
      br_guest_running b \<and> bit1 \<in> {0, 1}"
  then have ok: ok and dist: "distinct (map (\<lambda>w. w AND NOT 1) (filter (\<lambda>w. w \<noteq> 0) ws))"
    and s: "s < length ws" "ws ! s \<noteq> 0" and run: "br_guest_running b" and bit1: "bit1 \<in> {0, 1}" by blast+
  have b': "b' = (if is_igl then ?b\<lparr>br_igl_vtable_va := vtbl\<rparr> else ?b\<lparr>br_iegl_vtable_va := vtbl\<rparr>)"
    using assms(9) r ok by (simp split: if_splits)
  have other: "ws ! t = 0 \<or> ws ! t AND NOT 1 \<noteq> ws ! s AND NOT 1" if "t < length ws" "s < t" for t
    using distinct_filter_nth [OF dist that(2,1)] s(2) by auto
  have fb: "map_of (br_fn_map ?b) (ws ! s AND NOT 1) = Some (is_igl, s)" "?b = b\<lparr>br_fn_map := br_fn_map ?b\<rparr>"
    using bind_slots [OF assms(1,3,8), of "length ws" is_igl] s other by (auto simp: Let_def)
  have "br_guest_running ?b" "br_hook ?b = br_hook b" by (subst fb(2), simp add: run)+
  then have f: "br_guest_running b'" "br_hook b' = br_hook b" "map_of (br_fn_map b') (ws ! s AND NOT 1) = Some (is_igl, s)"
    unfolding b' using fb(1) by auto
  have thumb: "(ws ! s OR bit1) AND NOT 1 = ws ! s AND NOT 1"
  proof -
    have "(w OR 1) AND NOT 1 = w AND NOT 1" for w :: u32
      by (rule bit_word_eqI) (auto simp: bit_and_iff bit_or_iff bit_not_iff bit_1_iff)
    then show ?thesis using bit1 by auto
  qed
  show "bridge_on_code F ops (ws ! s OR bit1) (u1, b') =
        (let (r, ret, h) = (if is_igl then dispatch_igl F s (bridge_machine ops u1) (br_hook b)
                            else dispatch_iegl s (br_hook b))
         in (r, set_ret ops ret u1, b'\<lparr>br_hook := h\<rparr>))"
    unfolding bridge_on_code_def prod.case Let_def thumb f by (simp add: f)
qed

text \<open>An interface object at 0x1000 with its table at 0x2000: slot 3 is the function at 0x8000, all others null.\<close>

definition demo_words :: "u32 list" where
  "demo_words = replicate 3 0 @ [0x8001] @ replicate 24 0"

definition demo_table :: "nat \<Rightarrow> u8" where
  "demo_table k = (if k < 0x1004 then le32_bytes 0x2000 ! (k - 0x1000)
     else if k < 0x2000 then 0 else concat (map le32_bytes demo_words) ! (k - 0x2000))"

definition demo_bridge :: "int igl_bridge" where
  "demo_bridge = (igl_bridge_init (igl_hook_init int_ops []))\<lparr>br_code_ranges := [(0x8000, 0x9000)], br_guest_running := True\<rparr>"

lemma demo_tables:
  "table_at (full_byte (arm_init, [1, 2], demo_table, 0)) 0x1000 [0x2000]"
  "table_at (full_byte (arm_init, [1, 2], demo_table, 0)) 0x2000 demo_words"
proof -
  have obj: "demo_table (0x1000 + i) = le32_bytes 0x2000 ! i" if "i < 4" for i using that by (simp add: demo_table_def)
  have vt: "demo_table (0x2000 + i) = concat (map le32_bytes demo_words) ! i" for i by (simp add: demo_table_def)
  have "(0x1000 + i) div 4096 = (1::nat)" "(0x2000 + i) div 4096 = (2::nat)" if "i < 112" for i
    using that by (intro div_nat_eqI; simp)+
  then have p: "full_byte (arm_init, [1, 2], demo_table, 0) (0x1000 + i) = Some (demo_table (0x1000 + i))"
    "full_byte (arm_init, [1, 2], demo_table, 0) (0x2000 + i) = Some (demo_table (0x2000 + i))" if "i < 112" for i
    using that by (simp_all add: full_byte_def paged_byte_def)
  have l: "length demo_words = 28" by (simp add: demo_words_def)
  show "table_at (full_byte (arm_init, [1, 2], demo_table, 0)) 0x1000 [0x2000]"
    using p(1) obj by (simp add: table_at_def holds_def)
  show "table_at (full_byte (arm_init, [1, 2], demo_table, 0)) 0x2000 demo_words"
    unfolding table_at_def holds_def length_words l using p(2) vt by simp
qed

theorem resolve_binds_every_slot_witness:
  "let (ok, b) = resolve_from_object full_ops (Some (arm_init, [1, 2], demo_table, 0)) 0x1000 False demo_bridge
   in ok \<and> fst (bridge_on_code int_ops full_ops 0x8001 ((arm_init, [1, 2], demo_table, 0), b)) = False"
proof -
  let ?u = "(arm_init, [1::nat, 2], demo_table, 0::u32)"
  obtain ok b where r: "resolve_from_object full_ops (Some ?u) 0x1000 False demo_bridge = (ok, b)" by fastforce
  have d: "br_code_ranges demo_bridge = [(0x8000, 0x9000)]" "br_fn_map demo_bridge = []" "br_guest_running demo_bridge"
    by (simp_all add: demo_bridge_def igl_bridge_init_def)
  have w: "length demo_words = (if False then 80 else 28)" "set demo_words = {0, 0x8001}" "demo_words ! 3 = 0x8001"
    "filter (\<lambda>w. w \<noteq> 0) demo_words = [0x8001]" by (auto simp: demo_words_def nth_append)
  have code: "is_code_va demo_bridge 0x8001" by (simp add: is_code_va_def d)
  have ne: "br_code_ranges demo_bridge \<noteq> []" "om_ok (br_fn_map demo_bridge)" by (simp_all add: d)
  note res = resolve_binds_every_slot [OF full_mem_ok demo_tables _ _ w(1) ne r]
  have ok: ok using res code by (simp add: w(2))
  have "bridge_on_code int_ops full_ops (demo_words ! 3 OR 0) (?u, b) =
     (let (r, ret, h) = (if False then dispatch_igl int_ops 3 (bridge_machine full_ops ?u) (br_hook demo_bridge)
                         else dispatch_iegl 3 (br_hook demo_bridge))
      in (r, set_ret full_ops ret ?u, b\<lparr>br_hook := h\<rparr>))"
    using res [of 3 0 int_ops ?u] ok w d by simp
  then show ?thesis using r ok w(3) by (simp add: dispatch_iegl_def)
qed

text \<open>
  A draw with too many elements is not handled, so the guest goes on into its own draw routine, but the first
  argument it will find in r0, the drawing mode, has been overwritten with 0.
\<close>

lemma rejected_draw_loses_r0:
  assumes "uc_regs_ok ops" "br_guest_running b" "map_of (br_fn_map b) (pc AND NOT 1) = Some (True, glDrawArrays)"
    and "uc_reg_read ops u (UC_R 2) > 1000000"
  shows "\<exists>u'. bridge_on_code F ops pc (u, b) = (False, u', b) \<and> uc_reg_read ops u' (UC_R 0) = 0"
proof -
  have "dispatch_igl F glDrawArrays (bridge_machine ops u) (br_hook b) = (False, Some 0, br_hook b)"
    using assms(4) by (simp add: dispatch_igl_def gl_draw_arrays_def bridge_machine_def)
  then have "bridge_on_code F ops pc (u, b) = (False, uc_reg_write ops u (UC_R 0) 0, b)"
    using assms(2,3) by (simp add: bridge_on_code_def set_ret_def)
  then show ?thesis using assms(1) by (simp add: uc_reg_simps)
qed

end
