(* ===== verification/Wav_Audio.thy ===== *)
theory Wav_Audio
  imports Byte_Reader
begin

text \<open>
  \<open>parse_wav\<close> of \<open>tools/cpp/zeebo_zeetris_runner.h\<close>: the reader of RIFF/WAVE files that the media interface
  of the game runner plays. Reads are in the option monad of \<open>Byte_Reader\<close>, so the outer \<open>None\<close> would be a
  read outside the file; the inner \<open>None\<close> is \<open>std::nullopt\<close>.
\<close>

section \<open>The parser\<close>

text \<open>A sample is an \<open>int16_t\<close>, kept as the word of its bits; the rate is the \<open>int\<close> the 32-bit field is cast to.\<close>

record wav_audio =
  wav_sample_rate :: int
  wav_channels :: int
  wav_samples :: "u16 list"

text \<open>The local variables of the chunk loop: the format once it was seen, and the data chunk as offset and size.\<close>

record wav_scan =
  ws_fmt :: "(u16 \<times> u16 \<times> u32 \<times> u16) option"
  ws_data :: "(nat \<times> nat) option"

definition four :: "string \<Rightarrow> u8 list" where
  "four s = map of_char s"

text \<open>
  The loop from position \<open>pos\<close>. The size of a chunk is a 32-bit number and the sums are formed in 64 bits, so
  they do not wrap for a file that fits into memory.
\<close>

function wav_chunks :: "u8 list \<Rightarrow> nat \<Rightarrow> wav_scan \<Rightarrow> wav_scan option" where
  "wav_chunks d pos w =
     (if pos + 8 \<le> length d then do {
        chunk_id \<leftarrow> bytes_at d pos 4;
        chunk_size \<leftarrow> at32 d (pos + 4);
        let off = pos + 8; n = unat chunk_size
        in if off + n > length d then Some w
           else do {
             w \<leftarrow> (if chunk_id = four ''fmt '' \<and> n \<ge> 16 then do {
                      audio_format \<leftarrow> at16 d off;
                      channels \<leftarrow> at16 d (off + 2);
                      sample_rate \<leftarrow> at32 d (off + 4);
                      bits_per_sample \<leftarrow> at16 d (off + 14);
                      Some (w\<lparr>ws_fmt := Some (audio_format, channels, sample_rate, bits_per_sample)\<rparr>)
                    }
                    else if chunk_id = four ''data'' then Some (w\<lparr>ws_data := Some (off, n)\<rparr>)
                    else Some w);
             wav_chunks d (off + n + n mod 2) w
           }
      } else Some w)"
  by pat_completeness auto
termination
  by (relation "measure (\<lambda>(d, pos, w). length d - pos)") auto

declare wav_chunks.simps [simp del]

fun samples16 :: "u8 list \<Rightarrow> u16 list" where
  "samples16 (lo # hi # bs) = (ucast lo OR push_bit 8 (ucast hi)) # samples16 bs"
| "samples16 _ = []"

text \<open>An unsigned byte becomes a signed sample; as a 16-bit word the result wraps at the width.\<close>

definition sample8 :: "u8 \<Rightarrow> u16" where
  "sample8 b = (ucast b - 128) * 256"

definition parse_wav :: "u8 list \<Rightarrow> wav_audio option option" where
  "parse_wav d =
     (if length d < 12 then Some None
      else do {
        riff \<leftarrow> bytes_at d 0 4;
        wave \<leftarrow> bytes_at d 8 4;
        if riff \<noteq> four ''RIFF'' \<or> wave \<noteq> four ''WAVE'' then Some None
        else do {
          w \<leftarrow> wav_chunks d 12 \<lparr>ws_fmt = None, ws_data = None\<rparr>;
          case (ws_fmt w, ws_data w) of
            (Some (audio_format, channels, sample_rate, bits_per_sample), Some (off, n)) \<Rightarrow>
              if audio_format \<noteq> 1 then Some None
              else if channels \<noteq> 1 \<and> channels \<noteq> 2 then Some None
              else if bits_per_sample \<noteq> 8 \<and> bits_per_sample \<noteq> 16 then Some None
              else do {
                bs \<leftarrow> bytes_at d off n;
                Some (Some \<lparr>wav_sample_rate = sint sample_rate, wav_channels = uint channels,
                  wav_samples = (if bits_per_sample = 16 then samples16 bs else map sample8 bs)\<rparr>)
              }
          | _ \<Rightarrow> Some None
        }
      })"

section \<open>One chunk at a time\<close>

text \<open>What the body of the loop notes of the chunk at \<open>pos\<close> when the chunk lies inside the file.\<close>

definition wav_note :: "u8 list \<Rightarrow> nat \<Rightarrow> wav_scan \<Rightarrow> wav_scan" where
  "wav_note d pos w =
     (let n = unat (rd32 d (pos + 4)); chunk_id = take 4 (drop pos d) in
      if chunk_id = four ''fmt '' \<and> n \<ge> 16
      then w\<lparr>ws_fmt := Some (the (at16 d (pos + 8)), the (at16 d (pos + 8 + 2)), rd32 d (pos + 8 + 4),
             the (at16 d (pos + 8 + 14)))\<rparr>
      else if chunk_id = four ''data'' then w\<lparr>ws_data := Some (pos + 8, n)\<rparr> else w)"

lemma wav_chunks_take:
  assumes "pos + 8 + unat (rd32 d (pos + 4)) \<le> length d"
  shows "wav_chunks d pos w =
    wav_chunks d (pos + 8 + unat (rd32 d (pos + 4)) + unat (rd32 d (pos + 4)) mod 2) (wav_note d pos w)"
  using assms by (subst wav_chunks.simps) (auto simp: Let_def at16_def wav_note_def not_less)

lemma wav_chunks_stop:
  assumes "\<not> pos + 8 \<le> length d \<or> \<not> pos + 8 + unat (rd32 d (pos + 4)) \<le> length d"
  shows "wav_chunks d pos w = Some w"
  using assms by (subst wav_chunks.simps) (auto simp: Let_def not_le)

section \<open>Parsing stays inside the file\<close>

definition scan_ok :: "u8 list \<Rightarrow> wav_scan \<Rightarrow> bool" where
  "scan_ok d w \<longleftrightarrow> (case ws_data w of Some (off, n) \<Rightarrow> off + n \<le> length d | None \<Rightarrow> True)"

lemma scan_ok_note:
  "scan_ok d w \<Longrightarrow> pos + 8 + unat (rd32 d (pos + 4)) \<le> length d \<Longrightarrow> scan_ok d (wav_note d pos w)"
  by (simp add: scan_ok_def wav_note_def Let_def)

lemma wav_chunks_safe: "scan_ok d w \<Longrightarrow> \<exists>w'. wav_chunks d pos w = Some w' \<and> scan_ok d w'"
proof (induction "length d - pos" arbitrary: pos w rule: less_induct)
  case less
  let ?n = "unat (rd32 d (pos + 4))"
  show ?case
  proof (cases "pos + 8 + ?n \<le> length d")
    case True
    then have "length d - (pos + 8 + ?n + ?n mod 2) < length d - pos" by linarith
    from less.hyps [OF this scan_ok_note [OF less.prems True]] wav_chunks_take [OF True]
    show ?thesis by simp
  next
    case False
    then show ?thesis using less.prems wav_chunks_stop [of pos d w] by auto
  qed
qed

lemma parse_wav_in_bounds: "parse_wav d \<noteq> None"
proof (cases "length d < 12")
  case False
  obtain w where "wav_chunks d 12 \<lparr>ws_fmt = None, ws_data = None\<rparr> = Some w" "scan_ok d w"
    using wav_chunks_safe [of d "\<lparr>ws_fmt = None, ws_data = None\<rparr>" 12] by (auto simp: scan_ok_def)
  then show ?thesis using False
    by (auto simp: parse_wav_def scan_ok_def split: option.splits prod.splits)
qed (simp add: parse_wav_def)

section \<open>The parser reads what a RIFF writer writes\<close>

text \<open>A chunk is written as its name, its size, its payload and a pad byte after an odd payload.\<close>

definition enc_chunk :: "u8 list \<times> u8 list \<Rightarrow> u8 list" where
  "enc_chunk c = (let (name, bs) = c in name @ le32_bytes (of_nat (length bs)) @ bs @ replicate (length bs mod 2) 0)"

definition riff :: "u32 \<Rightarrow> (u8 list \<times> u8 list) list \<Rightarrow> u8 list \<Rightarrow> u8 list" where
  "riff len cs junk = four ''RIFF'' @ le32_bytes len @ four ''WAVE'' @ concat (map enc_chunk cs) @ junk"

text \<open>What a list of chunks means: the last format chunk and the last data chunk count.\<close>

definition fmt_of :: "u8 list \<Rightarrow> u16 \<times> u16 \<times> u32 \<times> u16" where
  "fmt_of bs = (the (at16 bs 0), the (at16 bs 2), rd32 bs 4, the (at16 bs 14))"

fun hear :: "u8 list \<times> u8 list \<Rightarrow> (u16 \<times> u16 \<times> u32 \<times> u16) option \<times> u8 list option
    \<Rightarrow> (u16 \<times> u16 \<times> u32 \<times> u16) option \<times> u8 list option" where
  "hear (name, bs) (f, p) =
     (if name = four ''fmt '' \<and> length bs \<ge> 16 then (Some (fmt_of bs), p)
      else if name = four ''data'' then (f, Some bs) else (f, p))"

definition pcm_of :: "u8 list \<Rightarrow> u16 \<Rightarrow> u16 list" where
  "pcm_of bs bits = (if bits = 16 then samples16 bs else map sample8 bs)"

definition wav_spec :: "(u8 list \<times> u8 list) list \<Rightarrow> wav_audio option" where
  "wav_spec cs = (case fold hear cs (None, None) of
     (Some (fmt, ch, rate, bits), Some bs) \<Rightarrow>
       if fmt = 1 \<and> ch \<in> {1, 2} \<and> bits \<in> {8, 16}
       then Some \<lparr>wav_sample_rate = sint rate, wav_channels = uint ch, wav_samples = pcm_of bs bits\<rparr> else None
   | _ \<Rightarrow> None)"

definition scan_means :: "u8 list \<Rightarrow> wav_scan \<Rightarrow> (u16 \<times> u16 \<times> u32 \<times> u16) option \<times> u8 list option" where
  "scan_means d w = (ws_fmt w, map_option (\<lambda>(off, n). take n (drop off d)) (ws_data w))"

definition chunk_ok :: "u8 list \<times> u8 list \<Rightarrow> bool" where
  "chunk_ok c \<longleftrightarrow> length (fst c) = 4 \<and> length (snd c) < 2 ^ 32"

lemma at16_within:
  assumes "d = pre @ bs @ post" "k + 2 \<le> length bs"
  shows "at16 d (length pre + k) = at16 bs k" "length pre = j \<Longrightarrow> at16 d (j + k) = at16 bs k"
  using assms by (auto simp: at16_def nth_append)

lemma rd32_within:
  assumes "d = pre @ bs @ post" "k + 4 \<le> length bs" "length pre = j"
  shows "rd32 d (j + k) = rd32 bs k"
  using assms by (simp add: rd32_def nth_append)

lemma length_enc_chunk: "length (enc_chunk (name, bs)) = length name + 4 + length bs + length bs mod 2"
  by (simp add: enc_chunk_def)

lemma wav_note_enc:
  assumes d: "d = pre @ enc_chunk (name, bs) @ post" and ok: "chunk_ok (name, bs)" and p: "length pre = pos"
  shows "unat (rd32 d (pos + 4)) = length bs"
    and "scan_means d (wav_note d pos w) = hear (name, bs) (scan_means d w)"
proof -
  let ?h = "name @ le32_bytes (of_nat (length bs))" and ?z = "replicate (length bs mod 2) 0 @ post"
  have four: "length name = 4" and lt: "length bs < 2 ^ 32" using ok by (simp_all add: chunk_ok_def)
  have d1: "d = (pre @ name) @ le32_bytes (of_nat (length bs)) @ bs @ ?z"
    and d2: "d = (pre @ ?h) @ bs @ ?z" by (simp_all add: d enc_chunk_def)
  have "rd32 d (pos + 4 + 0) = of_nat (length bs)"
    using rd32_within [OF d1, of 0 "pos + 4"] four p rd32_le32_bytes [of "of_nat (length bs)" "[]"] by simp
  then show n: "unat (rd32 d (pos + 4)) = length bs" using lt by (simp add: unat_of_nat)
  have id: "take 4 (drop pos d) = name" using four p by (simp add: d enc_chunk_def)
  have l: "length (pre @ ?h) = pos + 8" using four p by simp
  have fmt: "length bs \<ge> 16 \<Longrightarrow> (the (at16 d (pos + 8)), the (at16 d (pos + 8 + 2)), rd32 d (pos + 8 + 4),
       the (at16 d (pos + 8 + 14))) = fmt_of bs"
    using at16_within(2) [OF d2 _ l, of 0] at16_within(2) [OF d2 _ l, of 2] at16_within(2) [OF d2 _ l, of 14]
      rd32_within [OF d2 _ l, of 4] by (simp add: fmt_of_def)
  have body: "take (length bs) (drop (pos + 8) d) = bs" using l by (simp add: d2)
  have "wav_note d pos w = (if name = four ''fmt '' \<and> length bs \<ge> 16 then w\<lparr>ws_fmt := Some (fmt_of bs)\<rparr>
      else if name = four ''data'' then w\<lparr>ws_data := Some (pos + 8, length bs)\<rparr> else w)"
    unfolding wav_note_def Let_def n id by (rule if_cong [OF refl _ refl]) (simp only: fmt)
  then show "scan_means d (wav_note d pos w) = hear (name, bs) (scan_means d w)"
    by (simp add: scan_means_def body)
qed

lemma wav_chunks_enc:
  assumes "\<forall>c \<in> set cs. chunk_ok c" "d = pre @ concat (map enc_chunk cs) @ junk" "length junk < 8"
  shows "\<exists>w'. wav_chunks d (length pre) w = Some w' \<and> scan_means d w' = fold hear cs (scan_means d w)"
  using assms
proof (induction cs arbitrary: pre w)
  case Nil
  then show ?case using wav_chunks_stop [of "length pre" d w] by auto
next
  case (Cons c cs)
  obtain name bs where c: "c = (name, bs)" by fastforce
  let ?pre = "pre @ enc_chunk c"
  have ok: "chunk_ok (name, bs)" using Cons.prems(1) c by simp
  have d: "d = pre @ enc_chunk (name, bs) @ concat (map enc_chunk cs) @ junk" using Cons.prems(2) c by simp
  note note1 = wav_note_enc [OF d ok refl]
  have len: "length ?pre = length pre + 8 + length bs + length bs mod 2"
    using ok by (simp add: c length_enc_chunk chunk_ok_def)
  have "length pre + 8 + length bs \<le> length d" using len by (simp add: d c)
  then have "wav_chunks d (length pre) w = wav_chunks d (length ?pre) (wav_note d (length pre) w)"
    using wav_chunks_take [of "length pre" d w] unfolding len by (simp add: note1(1))
  moreover obtain w' where "wav_chunks d (length ?pre) (wav_note d (length pre) w) = Some w'"
    "scan_means d w' = fold hear cs (scan_means d (wav_note d (length pre) w))"
    using Cons.IH [of ?pre "wav_note d (length pre) w"] Cons.prems c by auto
  ultimately show ?case using note1(2) [of w] c by auto
qed

text \<open>
  C19: for every list of chunks, written one after the other with their pad bytes, \<open>parse_wav\<close> returns the
  samples, the rate and the channel count that the last format chunk and the last data chunk describe, and
  \<open>nullopt\<close> when one of them is missing or not plain PCM: other chunks between them change nothing. Fewer than
  eight stray bytes at the end of the file are ignored, and so is the length field of the RIFF header.
\<close>

theorem parse_wav_reads_chunks:
  assumes "\<forall>c \<in> set cs. chunk_ok c" "length junk < 8"
  shows "parse_wav (riff len cs junk) = Some (wav_spec cs)"
proof -
  let ?d = "riff len cs junk" and ?pre = "four ''RIFF'' @ le32_bytes len @ four ''WAVE''"
  have l4: "length (four ''RIFF'') = 4" "length (four ''WAVE'') = 4" by (simp_all add: four_def)
  obtain w where w: "wav_chunks ?d 12 \<lparr>ws_fmt = None, ws_data = None\<rparr> = Some w"
    "scan_means ?d w = fold hear cs (None, None)"
    using wav_chunks_enc [OF assms(1) _ assms(2), of ?d ?pre "\<lparr>ws_fmt = None, ws_data = None\<rparr>"] l4
    by (auto simp: riff_def scan_means_def)
  have ok: "scan_ok ?d w"
    using wav_chunks_safe [of ?d "\<lparr>ws_fmt = None, ws_data = None\<rparr>" 12] w(1) by (auto simp: scan_ok_def)
  have hd: "take 4 ?d = four ''RIFF''" "take 4 (drop 8 ?d) = four ''WAVE''" "12 \<le> length ?d"
    using l4 by (simp_all add: riff_def)
  have spec: "wav_spec cs = (case scan_means ?d w of
     (Some (fmt, ch, rate, bits), Some bs) \<Rightarrow>
       if fmt = 1 \<and> ch \<in> {1, 2} \<and> bits \<in> {8, 16}
       then Some \<lparr>wav_sample_rate = sint rate, wav_channels = uint ch, wav_samples = pcm_of bs bits\<rparr> else None
   | _ \<Rightarrow> None)" by (simp only: wav_spec_def w(2))
  show ?thesis unfolding spec using w(1) hd ok
    by (auto simp: parse_wav_def scan_means_def scan_ok_def pcm_of_def split: option.splits)
qed

theorem parse_wav_reads_chunks_witness:
  "parse_wav (riff 0 [(four ''LIST'', [7]), (four ''fmt '', [1, 0, 2, 0, 0x40, 0x1F, 0, 0, 0, 0, 0, 0, 4, 0, 16, 0]),
       (four ''data'', [1, 2, 0xFF, 0x7F, 9])] [0, 0])
     = Some (Some \<lparr>wav_sample_rate = 8000, wav_channels = 2, wav_samples = [0x0201, 0x7FFF]\<rparr>)"
proof -
  have "wav_spec [(four ''LIST'', [7]), (four ''fmt '', [1, 0, 2, 0, 0x40, 0x1F, 0, 0, 0, 0, 0, 0, 4, 0, 16, 0]),
       (four ''data'', [1, 2, 0xFF, 0x7F, 9])]
     = Some \<lparr>wav_sample_rate = 8000, wav_channels = 2, wav_samples = [0x0201, 0x7FFF]\<rparr>"
    by (simp add: wav_spec_def four_def fmt_of_def at16_def rd32_def le32_def pcm_of_def)
  moreover have "\<forall>c \<in> set [(four ''LIST'', [7]), (four ''fmt '', [1, 0, 2, 0, 0x40, 0x1F, 0, 0, 0, 0, 0, 0, 4, 0, 16, 0]),
       (four ''data'', [1, 2, 0xFF, 0x7F, 9 :: u8])]. chunk_ok c"
    by (simp add: chunk_ok_def four_def)
  ultimately show ?thesis using parse_wav_reads_chunks [of "[(four ''LIST'', [7]),
      (four ''fmt '', [1, 0, 2, 0, 0x40, 0x1F, 0, 0, 0, 0, 0, 0, 4, 0, 16, 0]), (four ''data'', [1, 2, 0xFF, 0x7F, 9])]"
      "[0, 0]" 0] by simp
qed

end
