(* ===== verification/Zeetris_Files.thy ===== *)
theory Zeetris_Files
  imports Arm_Engine Std_Map Std_String Wav_Audio
begin

text \<open>
  \<open>tools/cpp/zeebo_zeetris_runner.h\<close>, part one: the context of the game runner and its virtual file system.
  A guest call of an interface method lands on a sentinel address; the code hook performs the method on the
  host, writes the result to r0 and continues at the caller's LR. Here are the methods of \<open>IFileMgr\<close> and
  \<open>IFile\<close>. The engine is the argument \<open>ops\<close>; the host's files are the argument \<open>fs\<close>, the contents of the file
  at a path or nothing when it cannot be opened. Console output is left out.

  A hook receives the address of the runner's own context, so the null tests on it are always passed.
\<close>

section \<open>The context\<close>

record open_file_info =
  of_name :: string
  of_data :: "u8 list"
  of_position :: u32

text \<open>
  \<open>ZeetrisContext\<close>. The graphics dispatcher's own state is \<open>zc_igl\<close>; the audio callback, when it is set, is the
  log of the buffers it was handed.
\<close>

record 'g zeetris_context =
  pModule :: u32
  pApplet :: u32
  handle_event_va :: u32
  gameloop_cb_va :: u32
  app_ctx_va :: u32
  heap_base :: u32
  heap_ptr :: u32
  is_running :: bool
  display_update_calls :: u32
  display_drawrect_calls :: u32
  display_bitblt_calls :: u32
  uptime_ms :: u32
  media_register_notify_calls :: u32
  media_set_param_calls :: u32
  media_play_calls :: u32
  media_notify_fn :: u32
  media_notify_user :: u32
  platform_buttons :: u16
  input_poll_calls :: u32
  input_block_calls :: u32
  input_store_calls :: u32
  tex_loader_calls :: u32
  hook_selftest_calls :: u32
  btn_handler_calls :: "u32 list"
  igl_calls :: u32
  igl_handled :: u32
  igl_slot_calls :: "(u32, u32) omap"
  igl_slot_handled :: "(u32, u32) omap"
  zc_igl :: 'g
  framebuffer :: "u16 list"
  data_dir :: string
  open_files :: "(u32, open_file_info) omap"
  file_open_calls :: u32
  file_read_calls :: u32
  on_audio_play :: "(u16 list \<times> int \<times> int) list option"
  current_media_pcm :: "u16 list"
  current_media_rate :: int
  current_media_channels :: int

definition zeetris_context_init :: "'g \<Rightarrow> 'g zeetris_context" where
  "zeetris_context_init g =
     \<lparr>pModule = 0, pApplet = 0, handle_event_va = 0, gameloop_cb_va = 0x1200ac5c, app_ctx_va = 0x30010000,
      heap_base = 0x30005000, heap_ptr = 0x30005000, is_running = False, display_update_calls = 0,
      display_drawrect_calls = 0, display_bitblt_calls = 0, uptime_ms = 100, media_register_notify_calls = 0,
      media_set_param_calls = 0, media_play_calls = 0, media_notify_fn = 0, media_notify_user = 0,
      platform_buttons = 0, input_poll_calls = 0, input_block_calls = 0, input_store_calls = 0,
      tex_loader_calls = 0, hook_selftest_calls = 0, btn_handler_calls = replicate 8 0, igl_calls = 0,
      igl_handled = 0, igl_slot_calls = [], igl_slot_handled = [], zc_igl = g,
      framebuffer = replicate (640 * 480) 0xFFFF,
      data_dir = ''/home/rafaelfrequiao/Downloads/mod/zeetris/data'', open_files = [],
      file_open_calls = 0, file_read_calls = 0, on_audio_play = None, current_media_pcm = [],
      current_media_rate = 0, current_media_channels = 0\<rparr>"

definition STATIC_BASE_VA :: u32 where "STATIC_BASE_VA = 0x30000000"
definition GETUPTIME_VA :: u32 where "GETUPTIME_VA = 0x30002100"
definition EXTRA_OBJ_VA :: u32 where "EXTRA_OBJ_VA = 0x60000000"
definition EXTRA_VTBL_VA :: u32 where "EXTRA_VTBL_VA = 0x60001000"
definition IGL_OBJ_VA :: u32 where "IGL_OBJ_VA = 0x60007000"
definition IGL_VTBL_VA :: u32 where "IGL_VTBL_VA = 0x60008000"
definition IGL_SENTINEL_VA :: u32 where "IGL_SENTINEL_VA = 0x50001000"
definition IGL_SLOTS :: u32 where "IGL_SLOTS = 80"
definition DISPLAY_OBJ_VA :: u32 where "DISPLAY_OBJ_VA = IGL_OBJ_VA"
definition BITMAP_OBJ_VA :: u32 where "BITMAP_OBJ_VA = 0x60004000"
definition BITMAP_VTBL_VA :: u32 where "BITMAP_VTBL_VA = 0x60005000"
definition FILEMGR_OBJ_VA :: u32 where "FILEMGR_OBJ_VA = 0x60002000"
definition FILEMGR_VTBL_VA :: u32 where "FILEMGR_VTBL_VA = 0x60003000"
definition FILE_OBJ_BASE_VA :: u32 where "FILE_OBJ_BASE_VA = 0x60006000"
definition FILE_VTBL_VA :: u32 where "FILE_VTBL_VA = 0x60009000"
definition NOTIFY_OBJ_VA :: u32 where "NOTIFY_OBJ_VA = 0x6000A000"
definition NOTIFY_VTBL_VA :: u32 where "NOTIFY_VTBL_VA = 0x6000B000"

section \<open>Guest memory and registers\<close>

definition gput :: "'u uc_ops \<Rightarrow> u32 \<Rightarrow> u8 list \<Rightarrow> 'u \<Rightarrow> 'u" where
  "gput ops a bs u = snd (uc_mem_write ops u (ucast a) bs)"

definition gget32 :: "'u uc_ops \<Rightarrow> 'u \<Rightarrow> u32 \<Rightarrow> u32" where
  "gget32 ops u a = rd32 (snd (uc_mem_read ops u (ucast a) [0, 0, 0, 0])) 0"

text \<open>The end of every hooked method: the result to r0, back to the caller.\<close>

definition hook_return :: "'u uc_ops \<Rightarrow> u32 \<Rightarrow> u32 \<Rightarrow> 'u \<Rightarrow> 'u" where
  "hook_return ops v lr u = uc_reg_write ops (uc_reg_write ops u (UC_R 0) v) UC_PC lr"

definition char_of_u8 :: "u8 \<Rightarrow> char" where
  "char_of_u8 b = char_of (unat b)"

text \<open>\<open>read_c_string\<close>: up to a NUL, an unreadable byte, or the 513th character.\<close>

fun c_chars :: "'u uc_ops \<Rightarrow> 'u \<Rightarrow> u32 \<Rightarrow> nat \<Rightarrow> string" where
  "c_chars ops u a 0 = []"
| "c_chars ops u a (Suc n) =
     (let (e, bs) = uc_mem_read ops u (ucast a) [0] in
      if e \<noteq> UC_ERR_OK \<or> hd bs = 0 then [] else char_of_u8 (hd bs) # c_chars ops u (a + 1) n)"

definition read_c_string :: "'u uc_ops \<Rightarrow> 'u \<Rightarrow> u32 \<Rightarrow> string" where
  "read_c_string ops u addr = (if addr = 0 then [] else c_chars ops u addr 513)"

section \<open>Host files\<close>

type_synonym host_fs = "string \<Rightarrow> u8 list option"

definition load_file :: "host_fs \<Rightarrow> string \<Rightarrow> u8 list" where
  "load_file fs path = (case fs path of None \<Rightarrow> [] | Some b \<Rightarrow> b)"

text \<open>
  The path a guest name stands for: a name under \<open>data/\<close> or \<open>data\\<close>, or without a separator, is looked for in
  the data directory, any other name is taken as it is.
\<close>

definition host_path_of :: "string \<Rightarrow> string \<Rightarrow> string" where
  "host_path_of dir fname =
     (if prefix ''data/'' fname \<or> prefix (''data'' @ [CHR 0x5C]) fname then dir @ ''/'' @ drop 5 fname
      else if CHR ''/'' \<notin> set fname \<and> CHR 0x5C \<notin> set fname then dir @ ''/'' @ fname
      else fname)"

section \<open>IFileMgr\<close>

definition mgr_open_file :: "'u uc_ops \<Rightarrow> host_fs \<Rightarrow> u32 \<Rightarrow> 'u \<times> 'g zeetris_context \<Rightarrow> 'u \<times> 'g zeetris_context" where
  "mgr_open_file ops fs lr s =
     (let (u, c) = s;
          fname = read_c_string ops u (uc_reg_read ops u (UC_R 1));
          c = c\<lparr>file_open_calls := file_open_calls c + 1\<rparr>;
          file_bytes = load_file fs (host_path_of (data_dir c) fname);
          (file_handle, u, c) =
            (if file_bytes \<noteq> [] then
               let handle_idx = of_nat (length (open_files c));
                   file_handle = FILE_OBJ_BASE_VA + handle_idx * 0x100;
                   u = gput ops file_handle (le32_bytes FILE_VTBL_VA) u
               in (file_handle, u, c\<lparr>open_files := om_put file_handle
                     \<lparr>of_name = fname, of_data = file_bytes, of_position = 0\<rparr> (open_files c)\<rparr>)
             else (0, u, c))
      in (hook_return ops file_handle lr u, c))"

definition mgr_test :: "'u uc_ops \<Rightarrow> host_fs \<Rightarrow> u32 \<Rightarrow> 'u \<times> 'g zeetris_context \<Rightarrow> 'u \<times> 'g zeetris_context" where
  "mgr_test ops fs lr s =
     (let (u, c) = s;
          fname = read_c_string ops u (uc_reg_read ops u (UC_R 1));
          r = (if fs (host_path_of (data_dir c) fname) \<noteq> None then 0 else 1)
      in (hook_return ops r lr u, c))"

text \<open>
  The file information the guest receives: attributes, date, size and a name of at most 63 characters in a
  field of 64 bytes.
\<close>

definition name_field :: "string \<Rightarrow> u8 list" where
  "name_field s = (let bs = take 63 (takeWhile (\<lambda>b. b \<noteq> 0) (map of_char s)) in bs @ replicate (64 - length bs) 0)"

definition put_file_info :: "'u uc_ops \<Rightarrow> u32 \<Rightarrow> u32 \<Rightarrow> string \<Rightarrow> 'u \<Rightarrow> 'u" where
  "put_file_info ops pInfo sz name u =
     gput ops (pInfo + 12) (name_field name) (gput ops (pInfo + 8) (le32_bytes sz)
       (gput ops (pInfo + 4) (le32_bytes 0) (gput ops (pInfo + 0) [0] u)))"

definition mgr_get_info :: "'u uc_ops \<Rightarrow> host_fs \<Rightarrow> u32 \<Rightarrow> 'u \<times> 'g zeetris_context \<Rightarrow> 'u \<times> 'g zeetris_context" where
  "mgr_get_info ops fs lr s =
     (let (u, c) = s;
          fname = read_c_string ops u (uc_reg_read ops u (UC_R 1));
          pInfo = uc_reg_read ops u (UC_R 2)
      in case fs (host_path_of (data_dir c) fname) of
           Some b \<Rightarrow>
             if pInfo \<noteq> 0 then (hook_return ops 0 lr (put_file_info ops pInfo (of_nat (length b)) fname u), c)
             else (hook_return ops 1 lr u, c)
         | None \<Rightarrow> (hook_return ops 1 lr u, c))"

definition mgr_free_space :: "'u uc_ops \<Rightarrow> u32 \<Rightarrow> 'u \<Rightarrow> 'u" where
  "mgr_free_space ops lr u =
     (let pdwTotal = uc_reg_read ops u (UC_R 1);
          u = (if pdwTotal \<noteq> 0 then gput ops pdwTotal (le32_bytes (1024 * 1024)) u else u)
      in hook_return ops (1024 * 1024) lr u)"

definition hook_filemgr :: "'u uc_ops \<Rightarrow> host_fs \<Rightarrow> u32 \<Rightarrow> 'u \<times> 'g zeetris_context \<Rightarrow> 'u \<times> 'g zeetris_context" where
  "hook_filemgr ops fs pc s =
     (let (u, c) = s;
          lr = uc_reg_read ops u UC_LR;
          slot = (pc - 0x50000300) div 4
      in if slot = 2 then mgr_open_file ops fs lr s
         else if slot = 7 then mgr_test ops fs lr s
         else if slot = 3 then mgr_get_info ops fs lr s
         else if slot = 8 then (mgr_free_space ops lr u, c)
         else (hook_return ops 0 lr u, c))"

section \<open>IFile\<close>

text \<open>The cursor of an open file: what a read of \<open>want\<close> bytes delivers, and where a seek leads.\<close>

definition of_read :: "u32 \<Rightarrow> open_file_info \<Rightarrow> u8 list \<times> open_file_info" where
  "of_read want f =
     (if unat (of_position f) < length (of_data f) then
        let avail = length (of_data f) - unat (of_position f);
            bytes_read = (of_nat (min (unat want) avail) :: u32)
        in (take (unat bytes_read) (drop (unat (of_position f)) (of_data f)),
            f\<lparr>of_position := of_position f + bytes_read\<rparr>)
      else ([], f))"

definition of_seek :: "u32 \<Rightarrow> u32 \<Rightarrow> open_file_info \<Rightarrow> open_file_info" where
  "of_seek seek_type dist f =
     (let n = int (length (of_data f));
          new_pos = (if seek_type = 0 then sint dist
                     else if seek_type = 1 then n + sint dist
                     else if seek_type = 2 then uint (of_position f) + sint dist
                     else uint (of_position f));
          new_pos = (if new_pos < 0 then 0 else new_pos);
          new_pos = (if new_pos > n then n else new_pos)
      in f\<lparr>of_position := of_int new_pos\<rparr>)"

definition file_read :: "'u uc_ops \<Rightarrow> u32 \<Rightarrow> u32 \<Rightarrow> 'u \<times> 'g zeetris_context \<Rightarrow> 'u \<times> 'g zeetris_context" where
  "file_read ops handle lr s =
     (let (u, c) = s;
          pDest = uc_reg_read ops u (UC_R 1);
          nWant = uc_reg_read ops u (UC_R 2);
          c = c\<lparr>file_read_calls := file_read_calls c + 1\<rparr>
      in case map_of (open_files c) handle of
           Some f \<Rightarrow>
             if pDest = 0 then (hook_return ops 0 lr u, c)
             else
               let (bs, f') = of_read nWant f;
                   u = (if unat (of_position f) < length (of_data f) then gput ops pDest bs u else u)
               in (hook_return ops (of_nat (length bs)) lr u, c\<lparr>open_files := om_put handle f' (open_files c)\<rparr>)
         | None \<Rightarrow> (hook_return ops 0 lr u, c))"

definition file_seek :: "'u uc_ops \<Rightarrow> u32 \<Rightarrow> u32 \<Rightarrow> 'u \<times> 'g zeetris_context \<Rightarrow> 'u \<times> 'g zeetris_context" where
  "file_seek ops handle lr s =
     (let (u, c) = s;
          seek_type = uc_reg_read ops u (UC_R 1);
          dist = uc_reg_read ops u (UC_R 2);
          c = (case map_of (open_files c) handle of
                 Some f \<Rightarrow> c\<lparr>open_files := om_put handle (of_seek seek_type dist f) (open_files c)\<rparr>
               | None \<Rightarrow> c)
      in (hook_return ops 0 lr u, c))"

definition file_get_info :: "'u uc_ops \<Rightarrow> u32 \<Rightarrow> u32 \<Rightarrow> 'u \<times> 'g zeetris_context \<Rightarrow> 'u \<times> 'g zeetris_context" where
  "file_get_info ops handle lr s =
     (let (u, c) = s;
          pInfo = uc_reg_read ops u (UC_R 1);
          u = (case map_of (open_files c) handle of
                 Some f \<Rightarrow> if pInfo \<noteq> 0
                   then put_file_info ops pInfo (of_nat (length (of_data f))) (of_name f) u else u
               | None \<Rightarrow> u)
      in (hook_return ops 0 lr u, c))"

definition hook_file :: "'u uc_ops \<Rightarrow> u32 \<Rightarrow> 'u \<times> 'g zeetris_context \<Rightarrow> 'u \<times> 'g zeetris_context" where
  "hook_file ops pc s =
     (let (u, c) = s;
          lr = uc_reg_read ops u UC_LR;
          slot = (pc - 0x50000600) div 4;
          handle = uc_reg_read ops u (UC_R 0)
      in if slot = 3 then file_read ops handle lr s
         else if slot = 7 then file_seek ops handle lr s
         else if slot = 6 then file_get_info ops handle lr s
         else (hook_return ops 0 lr u, c))"

section \<open>Hooks on an engine that follows its contract\<close>

lemma hook_return_ok:
  assumes "uc_ok ops mem"
  shows "uc_reg_read ops (hook_return ops v lr u) (UC_R 0) = v"
    and "uc_reg_read ops (hook_return ops v lr u) UC_PC = lr AND NOT 1"
    and "mem (hook_return ops v lr u) = mem u"
  using uc_okD [OF assms] by (simp_all add: hook_return_def uc_reg_simps)

lemma gput_ok:
  assumes "uc_ok ops mem"
  shows "uc_reg_read ops (gput ops a bs u) r = uc_reg_read ops u r"
    and "mapped (mem u) (unat a) (length bs) \<Longrightarrow> mem (gput ops a bs u) = overlay (mem u) (unat a) bs"
  using uc_okD [OF assms] uc_put_bytes [of ops mem u a bs] by (simp_all add: gput_def)

lemma unat_of_char: "unat (of_char c :: u8) = of_char c"
proof -
  have "(of_char c :: nat) < 256" using of_char_mod_256 [of c, where ?'a = nat] by (metis mod_less_divisor zero_less_numeral)
  moreover have "(of_char c :: u8) = of_nat (of_char c)" by (simp add: of_nat_of_char)
  ultimately show ?thesis by (simp add: unat_of_nat)
qed

lemma char_of_u8_of_char [simp]: "char_of_u8 (of_char c) = c"
  by (simp add: char_of_u8_def unat_of_char)

text \<open>A string in memory, ended by NUL, is read back.\<close>

definition c_str :: "string \<Rightarrow> u8 list" where
  "c_str s = map of_char s @ [0]"

lemma uc_get_byte:
  assumes "uc_mem_ok ops mem" "mem u (unat (a::u32)) = Some b"
  shows "uc_mem_read ops u (ucast a) [0] = (UC_ERR_OK, [b])"
proof -
  obtain e bs where r: "uc_mem_read ops u (ucast a) [0] = (e, bs)" by fastforce
  have "holds (mem u) (unat a) [b]" using assms(2) by (simp add: holds_def)
  then have "bs = [b]" using read_bytes [OF assms(1), of u a "[b]" "[0]"] r by simp
  moreover have "e = UC_ERR_OK" using mem_read_ok(1) [OF assms(1) r] assms(2) by (simp add: mapped_def)
  ultimately show ?thesis using r by simp
qed

lemma c_chars_str:
  assumes "uc_mem_ok ops mem"
  shows "holds (mem u) (unat a) (c_str s) \<Longrightarrow> CHR 0x00 \<notin> set s \<Longrightarrow> length s \<le> n \<Longrightarrow>
    unat a + length s < 2 ^ 32 \<Longrightarrow> c_chars ops u a n = s"
proof (induction s arbitrary: a n)
  case Nil
  then have "mem u (unat a) = Some 0" by (auto simp: holds_def c_str_def)
  then show ?case using uc_get_byte [OF assms, of u a 0] by (cases n) simp_all
next
  case (Cons x s)
  obtain m where n: "n = Suc m" using Cons.prems(3) by (cases n) simp_all
  have a1: "unat (a + 1) = unat a + 1"
    using Cons.prems(4) unat_add_lem [of a 1] by simp
  have "holds (mem u) (unat a) ([of_char x] @ c_str s)" using Cons.prems(1) by (simp add: c_str_def)
  then have h: "holds (mem u) (unat a) [of_char x]" "holds (mem u) (unat (a + 1)) (c_str s)"
    unfolding holds_append a1 by simp_all
  have "(of_char x :: u8) \<noteq> 0"
  proof
    assume "(of_char x :: u8) = 0"
    then have "x = char_of_u8 0" using char_of_u8_of_char [of x] by simp
    then show False using Cons.prems(2) by (simp add: char_of_u8_def char_of_def)
  qed
  moreover have "mem u (unat a) = Some (of_char x)" using h(1) by (simp add: holds_def)
  moreover have "c_chars ops u (a + 1) m = s" using Cons.prems n a1 by (intro Cons.IH h(2)) simp_all
  ultimately show ?case using uc_get_byte [OF assms, of u a] by (simp add: n)
qed

lemma read_c_string_str:
  assumes "uc_mem_ok ops mem" "holds (mem u) (unat a) (c_str s)" "CHR 0x00 \<notin> set s" "length s \<le> 513"
    "unat a + length s < 2 ^ 32" "a \<noteq> 0"
  shows "read_c_string ops u a = s"
  using c_chars_str [OF assms(1), of u a s 513] assms by (simp add: read_c_string_def)

section \<open>The cursor\<close>

definition cursor_ok :: "open_file_info \<Rightarrow> bool" where
  "cursor_ok f \<longleftrightarrow> unat (of_position f) \<le> length (of_data f) \<and> length (of_data f) < 2 ^ 32"

definition unread :: "open_file_info \<Rightarrow> u8 list" where
  "unread f = drop (unat (of_position f)) (of_data f)"

lemma of_read_ok:
  assumes "cursor_ok f"
  shows "fst (of_read n f) = take (unat n) (unread f)"
    and "unread (snd (of_read n f)) = drop (unat n) (unread f)"
    and "cursor_ok (snd (of_read n f))" "of_data (snd (of_read n f)) = of_data f"
    and "of_name (snd (of_read n f)) = of_name f"
proof -
  let ?p = "unat (of_position f)" and ?l = "length (of_data f)"
  have b: "?p \<le> ?l" "?l < 2 ^ 32" using assms by (simp_all add: cursor_ok_def)
  let ?k = "min (unat n) (?l - ?p)"
  have k: "unat (of_nat ?k :: u32) = ?k" using b by (simp add: unat_of_nat min_def)
  have pos: "unat (of_position f + of_nat ?k) = ?p + ?k"
  proof -
    have "?p + ?k < 2 ^ 32" using b by linarith
    then show ?thesis using unat_add_lem [of "of_position f" "of_nat ?k"] unfolding k by simp
  qed
  have r: "of_read n f = (take ?k (unread f), f\<lparr>of_position := of_position f + of_nat ?k\<rparr>)"
  proof (cases "?p < ?l")
    case True
    then show ?thesis by (simp add: of_read_def Let_def k unread_def)
  next
    case False
    then have "?k = 0" using b by simp
    then show ?thesis using False by (simp add: of_read_def)
  qed
  have len: "length (unread f) = ?l - ?p" by (simp add: unread_def)
  have tk: "take ?k (unread f) = take (unat n) (unread f)" "drop ?k (unread f) = drop (unat n) (unread f)"
    using len by (simp_all add: min_def)
  show "fst (of_read n f) = take (unat n) (unread f)" using r tk(1) by simp
  show "unread (snd (of_read n f)) = drop (unat n) (unread f)"
    unfolding tk(2) [symmetric] using r pos by (simp add: unread_def add.commute)
  show "cursor_ok (snd (of_read n f))" using r pos b by (simp add: cursor_ok_def)
  show "of_data (snd (of_read n f)) = of_data f" "of_name (snd (of_read n f)) = of_name f" using r by simp_all
qed

lemma of_seek_ok:
  assumes "cursor_ok f"
  shows "cursor_ok (of_seek w d f)" "of_data (of_seek w d f) = of_data f"
    and "int (unat (of_position (of_seek w d f))) =
      max 0 (min (int (length (of_data f)))
        ((if w = 0 then 0 else if w = 1 then int (length (of_data f)) else uint (of_position f))
         + (if w \<in> {0, 1, 2} then sint d else 0)))"
proof -
  define q where "q = max 0 (min (int (length (of_data f)))
        ((if w = 0 then 0 else if w = 1 then int (length (of_data f)) else uint (of_position f))
         + (if w \<in> {0, 1, 2} then sint d else 0)))"
  have q: "0 \<le> q" "q \<le> int (length (of_data f))" by (simp_all add: q_def)
  have "of_seek w d f = f\<lparr>of_position := of_int q\<rparr>"
    unfolding of_seek_def Let_def
    by (rule arg_cong [where f = "\<lambda>p. f\<lparr>of_position := of_int p\<rparr>"]) (auto simp: q_def max_def min_def)
  moreover have u: "unat (of_int q :: u32) = nat q"
    using q assms by (simp add: cursor_ok_def unsigned_of_int take_bit_int_eq_self flip: nat_uint_eq)
  ultimately have p: "of_position (of_seek w d f) = of_int q" and "cursor_ok (of_seek w d f)"
    and "of_data (of_seek w d f) = of_data f" using q assms by (simp_all add: cursor_ok_def)
  then show "cursor_ok (of_seek w d f)" "of_data (of_seek w d f) = of_data f"
    by simp_all
  show "int (unat (of_position (of_seek w d f))) = max 0 (min (int (length (of_data f)))
        ((if w = 0 then 0 else if w = 1 then int (length (of_data f)) else uint (of_position f))
         + (if w \<in> {0, 1, 2} then sint d else 0)))"
    unfolding q_def [symmetric] p u using q(1) by (rule nat_0_le)
qed

section \<open>Open files\<close>

text \<open>
  The handles are handed out in order, no two alike, and every cursor stays inside its file. The bounds on the
  number of open files and on the size of a host file say that the 32-bit arithmetic of handles and positions
  does not wrap.
\<close>

definition handle :: "nat \<Rightarrow> u32" where
  "handle i = FILE_OBJ_BASE_VA + of_nat i * 0x100"

definition files_ok :: "'g zeetris_context \<Rightarrow> bool" where
  "files_ok c \<longleftrightarrow> om_ok (open_files c) \<and> fst ` set (open_files c) = handle ` {..<length (open_files c)} \<and>
     (\<forall>h f. map_of (open_files c) h = Some f \<longrightarrow> cursor_ok f)"

definition small_fs :: "host_fs \<Rightarrow> bool" where
  "small_fs fs \<longleftrightarrow> (\<forall>p b. fs p = Some b \<longrightarrow> length b < 2 ^ 32)"

lemma unat_handle: "i < 0x9FFFA0 \<Longrightarrow> unat (handle i) = 0x60006000 + i * 0x100"
proof -
  assume i: "i < 0x9FFFA0"
  have "handle i = of_nat (0x60006000 + i * 0x100)" by (simp add: handle_def FILE_OBJ_BASE_VA_def)
  moreover have "unat (of_nat (0x60006000 + i * 0x100) :: u32) = 0x60006000 + i * 0x100"
    unfolding unat_of_nat by (rule mod_less) (use i in simp)
  ultimately show ?thesis by simp
qed

lemma handle_fresh:
  assumes "files_ok c" "length (open_files c) < 0x9FFFA0"
  shows "map_of (open_files c) (handle (length (open_files c))) = None"
proof -
  have "handle i \<noteq> handle (length (open_files c))" if "i < length (open_files c)" for i
    using unat_handle [of i] unat_handle [of "length (open_files c)"] that assms(2) by auto
  then have "handle (length (open_files c)) \<notin> fst ` set (open_files c)"
    using assms(1) unfolding files_ok_def by (metis imageE lessThan_iff)
  then show ?thesis by (simp add: map_of_eq_None_iff)
qed

lemma files_ok_put:
  assumes "files_ok c" "cursor_ok f" "map_of (open_files c) h \<noteq> None"
  shows "files_ok (c\<lparr>open_files := om_put h f (open_files c)\<rparr>)"
proof -
  have h: "h \<in> fst ` set (open_files c)" using assms(3) by (metis map_of_eq_None_iff)
  have ok: "om_ok (open_files c)" using assms(1) by (simp add: files_ok_def)
  have keys: "fst ` set (om_put h f (open_files c)) = fst ` set (open_files c)"
    unfolding keys_om_put [OF ok] using h by blast
  have len: "length (om_put h f (open_files c)) = length (open_files c)" using h by (simp add: length_om_put ok)
  show ?thesis using assms(1,2) ok unfolding files_ok_def by (simp add: keys len)
qed

lemma files_ok_new:
  assumes "files_ok c" "cursor_ok f" "length (open_files c) < 0x9FFFA0"
  shows "files_ok (c\<lparr>open_files := om_put (handle (length (open_files c))) f (open_files c)\<rparr>)"
proof -
  let ?h = "handle (length (open_files c))"
  have ok: "om_ok (open_files c)" using assms(1) by (simp add: files_ok_def)
  have h: "?h \<notin> fst ` set (open_files c)" using handle_fresh [OF assms(1,3)] by (metis map_of_eq_None_iff)
  then have len: "length (om_put ?h f (open_files c)) = Suc (length (open_files c))" by (simp add: length_om_put ok)
  have keys: "fst ` set (om_put ?h f (open_files c)) = insert ?h (fst ` set (open_files c))"
    by (rule keys_om_put [OF ok])
  have "fst ` set (om_put ?h f (open_files c)) = handle ` {..<length (om_put ?h f (open_files c))}"
    using assms(1) by (simp add: files_ok_def keys len lessThan_Suc)
  then show ?thesis using assms(1,2) ok by (simp add: files_ok_def)
qed

lemma files_ok_frame: "open_files c' = open_files c \<Longrightarrow> files_ok c' = files_ok c"
  by (simp add: files_ok_def)

section \<open>Opening a file\<close>

lemma open_file_steps:
  assumes "read_c_string ops u (uc_reg_read ops u (UC_R 1)) = name"
  shows "mgr_open_file ops fs lr (u, c) =
    (case fs (host_path_of (data_dir c) name) of
       Some (b # bs) \<Rightarrow>
         let h = handle (length (open_files c))
         in (hook_return ops h lr (gput ops h (le32_bytes FILE_VTBL_VA) u),
             c\<lparr>file_open_calls := file_open_calls c + 1,
               open_files := om_put h \<lparr>of_name = name, of_data = b # bs, of_position = 0\<rparr> (open_files c)\<rparr>)
     | _ \<Rightarrow> (hook_return ops 0 lr u, c\<lparr>file_open_calls := file_open_calls c + 1\<rparr>))"
proof (cases "load_file fs (host_path_of (data_dir c) name)")
  case Nil
  then have "fs (host_path_of (data_dir c) name) \<in> {None, Some []}"
    by (auto simp: load_file_def split: option.splits)
  then show ?thesis using Nil by (auto simp: mgr_open_file_def assms Let_def simp del: One_nat_def)
next
  case (Cons b bs)
  then have "fs (host_path_of (data_dir c) name) = Some (b # bs)"
    by (auto simp: load_file_def split: option.splits)
  then show ?thesis using Cons by (simp add: mgr_open_file_def assms handle_def Let_def del: One_nat_def)
qed

lemma file_read_steps:
  assumes "map_of (open_files c) h = Some f" "uc_reg_read ops u (UC_R 1) \<noteq> 0"
  shows "file_read ops h lr (u, c) =
    (let (bs, f') = of_read (uc_reg_read ops u (UC_R 2)) f
     in (hook_return ops (of_nat (length bs)) lr
           (if unat (of_position f) < length (of_data f) then gput ops (uc_reg_read ops u (UC_R 1)) bs u else u),
         c\<lparr>file_read_calls := file_read_calls c + 1, open_files := om_put h f' (open_files c)\<rparr>))"
  using assms by (simp add: file_read_def Let_def case_prod_beta)

lemma file_hooks_invariant:
  assumes "files_ok c" "small_fs fs" "length (open_files c) < 0x9FFFA0"
  shows "files_ok (snd (hook_filemgr ops fs pc (u, c)))" "files_ok (snd (hook_file ops pc (u, c)))"
proof -
  have new: "cursor_ok \<lparr>of_name = n, of_data = b, of_position = 0\<rparr>" if "fs p = Some b" for n p b
    using assms(2) that by (auto simp: cursor_ok_def small_fs_def)
  have fresh: "files_ok (snd (mgr_open_file ops fs lr (u, c)))" for lr
    using assms(1) files_ok_new [OF assms(1) new assms(3)] files_ok_frame
    by (simp add: open_file_steps [OF refl] Let_def files_ok_def split: option.splits list.splits)
  show "files_ok (snd (hook_filemgr ops fs pc (u, c)))"
    using assms(1) fresh
    by (auto simp: hook_filemgr_def Let_def mgr_test_def mgr_get_info_def split: option.splits)
  have cur: "cursor_ok f" if "map_of (open_files c) h = Some f" for h f
    using assms(1) that by (auto simp: files_ok_def)
  have rd: "files_ok (snd (file_read ops h lr (u, c)))" for h lr
  proof (cases "map_of (open_files c) h")
    case (Some f)
    have "files_ok (c\<lparr>open_files := om_put h (snd (of_read n f)) (open_files c)\<rparr>)" for n
      using of_read_ok(3) [OF cur [OF Some]] Some by (intro files_ok_put assms(1)) simp_all
    then show ?thesis using assms(1) Some
      by (auto simp: file_read_def Let_def case_prod_beta files_ok_def)
  qed (use assms(1) in \<open>auto simp: file_read_def files_ok_def\<close>)
  have sk: "files_ok (snd (file_seek ops h lr (u, c)))" for h lr
  proof (cases "map_of (open_files c) h")
    case (Some f)
    then show ?thesis using files_ok_put [OF assms(1) of_seek_ok(1) [OF cur [OF Some]], of h] Some
      by (simp add: file_seek_def Let_def)
  qed (use assms(1) in \<open>simp add: file_seek_def\<close>)
  show "files_ok (snd (hook_file ops pc (u, c)))"
    using assms(1) rd sk by (auto simp: hook_file_def Let_def file_get_info_def)
qed

section \<open>A guest that opens and reads\<close>

text \<open>
  How a game uses the two interfaces: the arguments go to r0, r1 and r2 and the sentinel of the method is
  reached; a reading loop advances its buffer by the count each call returned in r0.
\<close>

definition with_args :: "'u uc_ops \<Rightarrow> u32 \<Rightarrow> u32 \<Rightarrow> u32 \<Rightarrow> 'u \<Rightarrow> 'u" where
  "with_args ops a b c u = uc_reg_write ops (uc_reg_write ops (uc_reg_write ops u (UC_R 0) a) (UC_R 1) b) (UC_R 2) c"

definition guest_open :: "'u uc_ops \<Rightarrow> host_fs \<Rightarrow> u32 \<Rightarrow> 'u \<times> 'g zeetris_context \<Rightarrow> u32 \<times> 'u \<times> 'g zeetris_context" where
  "guest_open ops fs name_addr s =
     (let s = hook_filemgr ops fs 0x50000308 (with_args ops FILEMGR_OBJ_VA name_addr 0 (fst s), snd s)
      in (uc_reg_read ops (fst s) (UC_R 0), s))"

fun guest_read_loop :: "'u uc_ops \<Rightarrow> u32 \<Rightarrow> u32 \<Rightarrow> u32 list \<Rightarrow> 'u \<times> 'g zeetris_context \<Rightarrow> 'u \<times> 'g zeetris_context" where
  "guest_read_loop ops h dest [] s = s"
| "guest_read_loop ops h dest (n # ns) s =
     (let s = hook_file ops 0x5000060C (with_args ops h dest n (fst s), snd s)
      in guest_read_loop ops h (dest + uc_reg_read ops (fst s) (UC_R 0)) ns s)"

lemma with_args_ok:
  assumes "uc_ok ops mem"
  shows "uc_reg_read ops (with_args ops a b c u) (UC_R 0) = a" "uc_reg_read ops (with_args ops a b c u) (UC_R 1) = b"
    "uc_reg_read ops (with_args ops a b c u) (UC_R 2) = c" "mem (with_args ops a b c u) = mem u"
  using uc_okD [OF assms] by (simp_all add: with_args_def uc_reg_simps)

lemma hook_file_read: "hook_file ops 0x5000060C s = file_read ops (uc_reg_read ops (fst s) (UC_R 0)) (uc_reg_read ops (fst s) UC_LR) s"
  by (simp add: hook_file_def case_prod_beta Let_def)

lemma guest_read_once:
  assumes ok: "uc_ok ops mem" and f: "map_of (open_files c) h = Some f" and cur: "cursor_ok f" and dest: "dest \<noteq> 0"
    and room: "mapped (mem u) (unat dest) (length (unread f))"
    and step: "hook_file ops 0x5000060C (with_args ops h dest n u, c) = (u', c')"
  shows "mem u' = overlay (mem u) (unat dest) (take (unat n) (unread f))"
    and "unat (uc_reg_read ops u' (UC_R 0)) = length (take (unat n) (unread f))"
    and "c' = c\<lparr>file_read_calls := file_read_calls c + 1, open_files := om_put h (snd (of_read n f)) (open_files c)\<rparr>"
proof -
  let ?w = "with_args ops h dest n u" and ?bs = "take (unat n) (unread f)"
  obtain f' where bs: "of_read n f = (?bs, f')" using of_read_ok(1) [OF cur] by (metis prod.collapse)
  have w: "mem ?w = mem u" by (rule with_args_ok(4) [OF ok])
  have s: "u' = hook_return ops (of_nat (length ?bs)) (uc_reg_read ops ?w UC_LR)
        (if unat (of_position f) < length (of_data f) then gput ops dest ?bs ?w else ?w)"
    and c': "c' = c\<lparr>file_read_calls := file_read_calls c + 1, open_files := om_put h (snd (of_read n f)) (open_files c)\<rparr>"
    using step file_read_steps [of c h f ops ?w "uc_reg_read ops ?w UC_LR"] f dest
    by (auto simp: hook_file_read with_args_ok [OF ok] bs simp del: One_nat_def length_take)
  have "mapped (mem ?w) (unat dest) (length ?bs)" unfolding w by (rule mapped_sub [OF room]) simp_all
  then have put: "mem (gput ops dest ?bs ?w) = overlay (mem u) (unat dest) ?bs" using gput_ok(2) [OF ok, of ?w] w by simp
  have "?bs = []" if "\<not> unat (of_position f) < length (of_data f)" using that by (simp add: unread_def)
  then show "mem u' = overlay (mem u) (unat dest) ?bs"
    unfolding s hook_return_ok(3) [OF ok] using put w by auto
  have "length ?bs \<le> length (of_data f)" by (simp add: unread_def)
  then have "length ?bs < 2 ^ 32" using cur by (simp add: cursor_ok_def del: length_take)
  then show "unat (uc_reg_read ops u' (UC_R 0)) = length ?bs"
    unfolding s hook_return_ok(1) [OF ok] unat_of_nat by (intro mod_less) (simp del: length_take)
  show "c' = c\<lparr>file_read_calls := file_read_calls c + 1, open_files := om_put h (snd (of_read n f)) (open_files c)\<rparr>"
    by (rule c')
qed

lemma guest_read_loop_ok:
  assumes "uc_ok ops mem"
  shows "om_ok (open_files c) \<Longrightarrow> map_of (open_files c) h = Some f \<Longrightarrow> cursor_ok f \<Longrightarrow> dest \<noteq> 0 \<Longrightarrow>
    unat dest + length (unread f) < 2 ^ 32 \<Longrightarrow> mapped (mem u) (unat dest) (length (unread f)) \<Longrightarrow>
    mem (fst (guest_read_loop ops h dest ns (u, c))) =
      overlay (mem u) (unat dest) (take (sum_list (map unat ns)) (unread f))"
proof (induction ns arbitrary: u c f dest)
  case (Cons n ns)
  let ?bs = "take (unat n) (unread f)" and ?f = "snd (of_read n f)"
  obtain u' c' where step: "hook_file ops 0x5000060C (with_args ops h dest n u, c) = (u', c')" by fastforce
  note once = guest_read_once [OF assms Cons.prems(2,3,4,6) step]
  let ?d = "dest + uc_reg_read ops u' (UC_R 0)"
  have "unat dest + length ?bs < 2 ^ 32" by (rule le_less_trans [OF _ Cons.prems(5)]) simp
  then have d: "unat ?d = unat dest + length ?bs"
    using unat_add_lem [of dest "uc_reg_read ops u' (UC_R 0)"] once(2) by simp
  have rest: "unread ?f = drop (unat n) (unread f)" by (rule of_read_ok(2) [OF Cons.prems(3)])
  have nz: "?d \<noteq> 0" using d Cons.prems(4) by (metis add_is_0 unat_eq_zero)
  have "mapped (mem u) (unat dest + length ?bs) (length (unread ?f))"
    by (rule mapped_sub [OF Cons.prems(6)]) (simp_all add: rest)
  then have "mem (fst (guest_read_loop ops h ?d ns (u', c'))) =
      overlay (mem u') (unat ?d) (take (sum_list (map unat ns)) (unread ?f))"
    using Cons.prems of_read_ok(3) [OF Cons.prems(3)]
    by (intro Cons.IH nz) (simp_all add: once(1,3) d rest overlay_mapped)
  also have "... = overlay (mem u) (unat dest) (?bs @ take (sum_list (map unat ns)) (unread ?f))"
    unfolding once(1) d by (rule overlay_append)
  also have "?bs @ take (sum_list (map unat ns)) (unread ?f) = take (sum_list (map unat (n # ns))) (unread f)"
    unfolding rest by (simp add: take_add)
  finally show ?case using step by simp
qed simp

text \<open>
  C14: a game that opens a file by name and reads it piece by piece into a buffer gets the contents of the host
  file the name stands for: afterwards guest memory differs from before in the buffer, which holds the first
  bytes of the file, as many as were asked for in total or as there are, and in the word at the handle, which
  points to the method table of files. The host path follows the prefix rule of the data directory.
\<close>

theorem open_and_read_file:
  assumes "uc_ok ops mem" "files_ok c" "small_fs fs" "length (open_files c) < 0x9FFFA0"
    and "holds (mem u) (unat name_addr) (c_str name)" "CHR 0x00 \<notin> set name" "length name \<le> 513"
    and "unat name_addr + length name < 2 ^ 32" "name_addr \<noteq> 0"
    and "fs (host_path_of (data_dir c) name) = Some d" "d \<noteq> []"
    and "mapped (mem u) (unat (handle (length (open_files c)))) 4"
    and "mapped (mem u) (unat dest) (length d)" "unat dest + length d < 2 ^ 32" "dest \<noteq> 0"
    and "guest_open ops fs name_addr (u, c) = (h, s)"
  shows "h = handle (length (open_files c)) \<and> mem (fst (guest_read_loop ops h dest ns s)) =
      overlay (overlay (mem u) (unat h) (le32_bytes FILE_VTBL_VA)) (unat dest) (take (sum_list (map unat ns)) d)"
proof
  note ok = assms(1) and rok = hook_return_ok [OF assms(1)] and aok = with_args_ok [OF assms(1)]
  let ?w = "with_args ops FILEMGR_OBJ_VA name_addr 0 u" and ?h = "handle (length (open_files c))"
  let ?f = "\<lparr>of_name = name, of_data = d, of_position = 0\<rparr>"
  have name: "read_c_string ops ?w (uc_reg_read ops ?w (UC_R 1)) = name"
    unfolding aok using read_c_string_str [OF uc_okD(2) [OF ok], of ?w name_addr name] assms(5-9) aok(4) by simp
  obtain b bs where d: "d = b # bs" using assms(11) by (cases d) auto
  have "guest_open ops fs name_addr (u, c) = (let s = mgr_open_file ops fs (uc_reg_read ops ?w UC_LR) (?w, c)
      in (uc_reg_read ops (fst s) (UC_R 0), s))"
    by (simp add: guest_open_def hook_filemgr_def)
  also have "mgr_open_file ops fs (uc_reg_read ops ?w UC_LR) (?w, c) =
     (hook_return ops ?h (uc_reg_read ops ?w UC_LR) (gput ops ?h (le32_bytes FILE_VTBL_VA) ?w),
      c\<lparr>file_open_calls := file_open_calls c + 1, open_files := om_put ?h ?f (open_files c)\<rparr>)"
    unfolding open_file_steps [OF name] assms(10) by (simp add: d Let_def)
  finally have s: "s = (hook_return ops ?h (uc_reg_read ops ?w UC_LR) (gput ops ?h (le32_bytes FILE_VTBL_VA) ?w),
      c\<lparr>file_open_calls := file_open_calls c + 1, open_files := om_put ?h ?f (open_files c)\<rparr>)"
    and "h = uc_reg_read ops (fst s) (UC_R 0)"
    using assms(16) by (auto simp: Let_def)
  then show h: "h = ?h" using rok(1) by simp
  have m: "mem (fst s) = overlay (mem u) (unat h) (le32_bytes FILE_VTBL_VA)"
    unfolding s h using gput_ok(2) [OF ok, of ?w ?h "le32_bytes FILE_VTBL_VA"] aok(4) rok(3) assms(12) by simp
  have cur: "cursor_ok ?f" "unread ?f = d" using assms(3,10) by (auto simp: cursor_ok_def small_fs_def unread_def)
  have "om_ok (open_files (snd s))" "map_of (open_files (snd s)) h = Some ?f"
    using assms(2) by (simp_all add: s h files_ok_def)
  from guest_read_loop_ok [OF ok this cur(1) assms(15), of "fst s" ns]
  show "mem (fst (guest_read_loop ops h dest ns s)) =
      overlay (overlay (mem u) (unat h) (le32_bytes FILE_VTBL_VA)) (unat dest) (take (sum_list (map unat ns)) d)"
    using assms(13,14) by (simp add: cur(2) m overlay_mapped)
qed

text \<open>A machine with the string \<open>"a"\<close> at 0x1000, a buffer at 0x2000 and the page of the file handles.\<close>

definition demo_engine :: "arm \<times> paged" where
  "demo_engine = (arm_init, [1, 2, 0x60006], \<lambda>k. if k = 0x1000 then 0x61 else 0, 0)"

definition demo_host_fs :: host_fs where
  "demo_host_fs p = (if p = ''/d/a'' then Some [7, 8, 9] else None)"

theorem open_and_read_file_witness:
  "let s0 = (demo_engine, (zeetris_context_init ())\<lparr>data_dir := ''/d''\<rparr>);
       (h, s) = guest_open full_ops demo_host_fs 0x1000 s0
   in h = 0x60006000 \<and>
     full_byte (fst (guest_read_loop full_ops h 0x2000 [1, 5] s)) =
       overlay (overlay (full_byte demo_engine) 0x60006000 (le32_bytes FILE_VTBL_VA)) 0x2000 [7, 8, 9]"
proof -
  let ?c = "(zeetris_context_init ())\<lparr>data_dir := ''/d''\<rparr>"
  obtain h s where o: "guest_open full_ops demo_host_fs 0x1000 (demo_engine, ?c) = (h, s)" by (rule prod.exhaust)
  have e: "open_files (zeetris_context_init ()) = []" by (simp add: zeetris_context_init_def)
  have n: "length (open_files ?c) = 0" "data_dir ?c = ''/d''" "files_ok ?c"
    by (simp_all add: zeetris_context_init_def files_ok_def)
  have path: "demo_host_fs (host_path_of ''/d'' ''a'') = Some [7, 8, 9]" by (simp add: demo_host_fs_def host_path_of_def)
  have small: "small_fs demo_host_fs" by (simp add: small_fs_def demo_host_fs_def)
  have mem: "full_byte demo_engine = paged_byte ([1, 2, 0x60006], \<lambda>k. if k = 0x1000 then 0x61 else 0, 0)"
    by (simp add: full_byte_def demo_engine_def)
  have str: "holds (full_byte demo_engine) (unat (0x1000::u32)) (c_str ''a'')"
    unfolding mem by (auto simp: holds_def c_str_def paged_byte_def less_Suc_eq)
  have m: "mapped (full_byte demo_engine) (unat (0x2000::u32)) 3" "mapped (full_byte demo_engine) 0x60006000 4"
    unfolding mem pages_in_iff [symmetric] by (simp_all add: pages_in_def)
  have h0: "unat (handle 0) = 0x60006000" by (simp add: unat_handle)
  have path': "demo_host_fs (host_path_of (data_dir ?c) ''a'') = Some [7, 8, 9]" unfolding n(2) by (rule path)
  note r = open_and_read_file [OF full_ok n(3) small _ str _ _ _ _ path' _ _ _ _ _ o, where dest = "0x2000"]
  have "h = handle 0" using r [THEN conjunct1] m by (simp add: e h0 numeral_3_eq_3)
  moreover have "full_byte (fst (guest_read_loop full_ops h 0x2000 [1, 5] s)) =
       overlay (overlay (full_byte demo_engine) (unat h) (le32_bytes FILE_VTBL_VA)) 0x2000 [7, 8, 9]"
    using r [where ns = "[1, 5]", THEN conjunct2] m by (simp add: e h0 numeral_3_eq_3)
  ultimately have "h = handle 0 \<and> full_byte (fst (guest_read_loop full_ops h 0x2000 [1, 5] s)) =
       overlay (overlay (full_byte demo_engine) (unat h) (le32_bytes FILE_VTBL_VA)) 0x2000 [7, 8, 9]" by blast
  then show ?thesis using o h0 by (auto simp: handle_def FILE_OBJ_BASE_VA_def)
qed

text \<open>
  The seventeenth open file is placed on the graphics object: \<open>OpenFile\<close> writes the method table of files over
  its table pointer, and the handle the game receives is the address of the graphics object.
\<close>

lemma seventeenth_file_replaces_igl:
  assumes "uc_ok ops mem" "length (open_files c) = 16" "fs (host_path_of (data_dir c) name) = Some d" "d \<noteq> []"
    and "read_c_string ops u (uc_reg_read ops u (UC_R 1)) = name" "mapped (mem u) (unat IGL_OBJ_VA) 4"
    and "mgr_open_file ops fs lr (u, c) = (u', c')"
  shows "uc_reg_read ops u' (UC_R 0) = IGL_OBJ_VA" "holds (mem u') (unat IGL_OBJ_VA) (le32_bytes FILE_VTBL_VA)"
proof -
  obtain b bs where d: "d = b # bs" using assms(4) by (cases d) auto
  have h: "handle 16 = IGL_OBJ_VA" by (simp add: handle_def FILE_OBJ_BASE_VA_def IGL_OBJ_VA_def)
  have u': "u' = hook_return ops IGL_OBJ_VA lr (gput ops IGL_OBJ_VA (le32_bytes FILE_VTBL_VA) u)"
    using assms(7) open_file_steps [OF assms(5), of fs lr c] by (simp add: assms(2,3) d h Let_def)
  show "uc_reg_read ops u' (UC_R 0) = IGL_OBJ_VA" unfolding u' by (rule hook_return_ok(1) [OF assms(1)])
  show "holds (mem u') (unat IGL_OBJ_VA) (le32_bytes FILE_VTBL_VA)"
    using gput_ok(2) [OF assms(1), of u IGL_OBJ_VA "le32_bytes FILE_VTBL_VA"] assms(6)
    by (simp add: u' hook_return_ok(3) [OF assms(1)])
qed

end
