(* ===== verification/Zeetris_Shell.thy ===== *)
theory Zeetris_Shell
  imports Zeetris_Files Igl_Hook
begin

text \<open>
  \<open>tools/cpp/zeebo_zeetris_runner.h\<close>, part two: the code hooks of the runner. \<open>hook_code\<close> is reached on every
  sentinel address and performs the method the address stands for: \<open>IShell\<close>, \<open>IMedia\<close>, the display, the eighty
  graphics slots, the file interfaces of \<open>Zeetris_Files\<close>, notifications and bitmaps. The graphics dispatcher, when
  one is set, is the argument \<open>igl\<close>: it receives the slot and the guest machine and returns whether it handled the
  call, the value for r0 if it set one, and its new state. The other hooks are the bump allocator, the clock, the
  button poll and the counters.
\<close>

type_synonym 'g igl_dispatcher = "nat \<Rightarrow> guest_machine \<Rightarrow> 'g \<Rightarrow> bool \<times> u32 option \<times> 'g"

section \<open>Small hooks\<close>

definition hook_getuptime :: "'u uc_ops \<Rightarrow> 'u \<times> 'g zeetris_context \<Rightarrow> 'u \<times> 'g zeetris_context" where
  "hook_getuptime ops s =
     (let (u, c) = s; c = c\<lparr>uptime_ms := uptime_ms c + 16\<rparr>
      in (uc_reg_write ops u (UC_R 0) (uptime_ms c), c))"

definition hook_poll_count :: "'g zeetris_context \<Rightarrow> 'g zeetris_context" where
  "hook_poll_count c = c\<lparr>input_poll_calls := input_poll_calls c + 1\<rparr>"

definition hook_input_block :: "'g zeetris_context \<Rightarrow> 'g zeetris_context" where
  "hook_input_block c = c\<lparr>input_block_calls := input_block_calls c + 1\<rparr>"

definition btn_index :: "u32 \<Rightarrow> nat option" where
  "btn_index addr =
     (if addr = 0x1200b0e8 then Some 0 else if addr = 0x1200b0d4 then Some 1
      else if addr = 0x1200b0c0 then Some 2 else if addr = 0x1200b04c then Some 3
      else if addr = 0x1200b064 then Some 4 else if addr = 0x1200b07c then Some 5
      else if addr = 0x1200b094 then Some 6 else if addr = 0x1200b0ac then Some 7 else None)"

definition hook_btn_handler :: "u32 \<Rightarrow> 'g zeetris_context \<Rightarrow> 'g zeetris_context" where
  "hook_btn_handler addr c =
     (case btn_index addr of
        Some i \<Rightarrow> c\<lparr>btn_handler_calls := (btn_handler_calls c)[i := btn_handler_calls c ! i + 1]\<rparr>
      | None \<Rightarrow> c)"

definition hook_poll_return :: "'u uc_ops \<Rightarrow> 'u \<times> 'g zeetris_context \<Rightarrow> 'u \<times> 'g zeetris_context" where
  "hook_poll_return ops s = (let (u, c) = s in (uc_reg_write ops u (UC_R 0) (ucast (platform_buttons c)), c))"

definition hook_tex_loader :: "'g zeetris_context \<Rightarrow> 'g zeetris_context" where
  "hook_tex_loader c = c\<lparr>tex_loader_calls := tex_loader_calls c + 1\<rparr>"

definition hook_selftest :: "'g zeetris_context \<Rightarrow> 'g zeetris_context" where
  "hook_selftest c = c\<lparr>hook_selftest_calls := hook_selftest_calls c + 1\<rparr>"

definition hook_input_store :: "'g zeetris_context \<Rightarrow> 'g zeetris_context" where
  "hook_input_store c = c\<lparr>input_store_calls := input_store_calls c + 1\<rparr>"

text \<open>The bump allocator: the block starts at the heap pointer, which moves on by the size rounded up to 8.\<close>

definition bump :: "u32 \<Rightarrow> u32 \<Rightarrow> u32" where
  "bump req_sz p = p + ((req_sz + 7) AND NOT 7)"

definition hook_malloc_stub :: "'u uc_ops \<Rightarrow> 'u \<times> 'g zeetris_context \<Rightarrow> 'u \<times> 'g zeetris_context" where
  "hook_malloc_stub ops s =
     (let (u, c) = s;
          req_sz = uc_reg_read ops u (UC_R 0);
          lr = uc_reg_read ops u UC_LR;
          allocated = heap_ptr c
      in (hook_return ops allocated lr u, c\<lparr>heap_ptr := bump req_sz (heap_ptr c)\<rparr>))"

section \<open>IShell\<close>

definition CREATE_CLSID :: u32 where "CREATE_CLSID = 0x0106e415"

definition create_instance_obj :: "u32 \<Rightarrow> u32" where
  "create_instance_obj clsid =
     (if clsid = CREATE_CLSID then EXTRA_OBJ_VA
      else if clsid = 0x01001001 then DISPLAY_OBJ_VA
      else if clsid = 0x01001003 then FILEMGR_OBJ_VA
      else if clsid = 0x0106c411 then EXTRA_OBJ_VA
      else if clsid = 0x01005511 then NOTIFY_OBJ_VA
      else if clsid = 0x01014bc3 then IGL_OBJ_VA
      else if clsid = 0x01014bc4 then DISPLAY_OBJ_VA
      else 0)"

definition le16_bytes :: "u16 \<Rightarrow> u8 list" where
  "le16_bytes w = [ucast w, ucast (drop_bit 8 w)]"

definition shell_create_instance :: "'u uc_ops \<Rightarrow> u32 \<Rightarrow> 'u \<Rightarrow> 'u" where
  "shell_create_instance ops lr u =
     (let clsid = uc_reg_read ops u (UC_R 1); ppObj = uc_reg_read ops u (UC_R 2);
          obj_ptr = create_instance_obj clsid;
          u = (if obj_ptr \<noteq> 0 \<and> ppObj \<noteq> 0 then gput ops ppObj (le32_bytes obj_ptr) u else u)
      in hook_return ops 0 lr u)"

definition shell_get_device_info :: "'u uc_ops \<Rightarrow> u32 \<Rightarrow> 'u \<Rightarrow> 'u" where
  "shell_get_device_info ops lr u =
     (let pdi = uc_reg_read ops u (UC_R 1);
          u = (if pdi \<noteq> 0 then gput ops (pdi + 2) (le16_bytes 480) (gput ops (pdi + 0) (le16_bytes 640) u) else u)
      in hook_return ops 0 lr u)"

definition hook_shell :: "'u uc_ops \<Rightarrow> u32 \<Rightarrow> 'u \<Rightarrow> 'u" where
  "hook_shell ops pc u =
     (let lr = uc_reg_read ops u UC_LR; s = (pc - 0x50000000) div 4 in
      if s = 2 then shell_create_instance ops lr u
      else if s = 4 then shell_get_device_info ops lr u
      else hook_return ops 0 lr u)"

section \<open>IMedia\<close>

text \<open>A \<open>SetMediaParm\<close> with the media-data parameter: the named file is loaded and, when it is PCM, kept.\<close>

definition load_media :: "'u uc_ops \<Rightarrow> host_fs \<Rightarrow> u32 \<Rightarrow> 'u \<Rightarrow> 'g zeetris_context \<Rightarrow> 'g zeetris_context" where
  "load_media ops fs p1 u c =
     (let cls_data = gget32 ops u (p1 + 0); data_ptr = gget32 ops u (p1 + 4) in
      if cls_data = 0 \<and> data_ptr \<noteq> 0 then
        let audio_fname = read_c_string ops u data_ptr;
            audio_bytes = load_file fs (host_path_of (data_dir c) audio_fname)
        in if audio_bytes \<noteq> [] then
             case parse_wav audio_bytes of
               Some (Some w) \<Rightarrow> c\<lparr>current_media_pcm := wav_samples w, current_media_rate := wav_sample_rate w,
                 current_media_channels := wav_channels w\<rparr>
             | _ \<Rightarrow> c
           else c
      else c)"

definition media_register_notify :: "'u uc_ops \<Rightarrow> 'u \<Rightarrow> 'g zeetris_context \<Rightarrow> 'g zeetris_context" where
  "media_register_notify ops u c =
     c\<lparr>media_notify_fn := uc_reg_read ops u (UC_R 1), media_notify_user := uc_reg_read ops u (UC_R 2),
       media_register_notify_calls := media_register_notify_calls c + 1\<rparr>"

definition media_set_parm :: "'u uc_ops \<Rightarrow> host_fs \<Rightarrow> 'u \<Rightarrow> 'g zeetris_context \<Rightarrow> 'g zeetris_context" where
  "media_set_parm ops fs u c =
     (let nParamID = uc_reg_read ops u (UC_R 1); p1 = uc_reg_read ops u (UC_R 2);
          c = c\<lparr>media_set_param_calls := media_set_param_calls c + 1\<rparr>
      in if nParamID = 1 \<and> p1 \<noteq> 0 then load_media ops fs p1 u c else c)"

definition media_play :: "'g zeetris_context \<Rightarrow> 'g zeetris_context" where
  "media_play c =
     (let c = c\<lparr>media_play_calls := media_play_calls c + 1\<rparr>
      in case on_audio_play c of
           Some log \<Rightarrow>
             if current_media_pcm c \<noteq> [] then
               c\<lparr>on_audio_play := Some (log @ [(current_media_pcm c, current_media_rate c, current_media_channels c)])\<rparr>
             else c
         | None \<Rightarrow> c)"

definition hook_media :: "'u uc_ops \<Rightarrow> host_fs \<Rightarrow> u32 \<Rightarrow> 'u \<times> 'g zeetris_context \<Rightarrow> 'u \<times> 'g zeetris_context" where
  "hook_media ops fs pc s =
     (let (u, c) = s; lr = uc_reg_read ops u UC_LR; slot = (pc - 0x50000100) div 4;
          c = (if slot = 3 then media_register_notify ops u c
               else if slot = 4 then media_set_parm ops fs u c
               else if slot = 6 then media_play c
               else c)
      in (hook_return ops 0 lr u, c))"

section \<open>The display\<close>

definition gget_i16 :: "'u uc_ops \<Rightarrow> 'u \<Rightarrow> u32 \<Rightarrow> int" where
  "gget_i16 ops u a = (let bs = snd (uc_mem_read ops u (ucast a) [0, 0]) in sint (word16 (bs ! 0) (bs ! 1)))"

definition c565_of :: "u32 \<Rightarrow> u16" where
  "c565_of clrFill =
     (let r = drop_bit 16 clrFill AND 0xFF; g = drop_bit 8 clrFill AND 0xFF; b = clrFill AND 0xFF
      in ucast (push_bit 11 (drop_bit 3 r) OR push_bit 5 (drop_bit 2 g) OR drop_bit 3 b))"

text \<open>The two pixel loops, clipped to the screen.\<close>

definition fill_rect :: "int \<Rightarrow> int \<Rightarrow> int \<Rightarrow> int \<Rightarrow> u16 \<Rightarrow> u16 list \<Rightarrow> u16 list" where
  "fill_rect x0 y0 x1 y1 col fb =
     fold (\<lambda>y. fold (\<lambda>x fb. fb[y * 640 + x := col]) [nat (max x0 0)..<nat (min x1 640)])
       [nat (max y0 0)..<nat (min y1 480)] fb"

definition draw_rect :: "'u uc_ops \<Rightarrow> 'u \<Rightarrow> 'g zeetris_context \<Rightarrow> 'g zeetris_context" where
  "draw_rect ops u c =
     (let pRect = uc_reg_read ops u (UC_R 1); clrFill = uc_reg_read ops u (UC_R 3);
          (x0, y0, x1, y1) =
            (if pRect \<noteq> 0 then
               let rx = gget_i16 ops u (pRect + 0); ry = gget_i16 ops u (pRect + 2);
                   rdx = gget_i16 ops u (pRect + 4); rdy = gget_i16 ops u (pRect + 6)
               in (rx, ry, rx + rdx, ry + rdy)
             else (0, 0, 640, 480))
      in c\<lparr>framebuffer := fill_rect x0 y0 x1 y1 (c565_of clrFill) (framebuffer c)\<rparr>)"

definition hook_display :: "'u uc_ops \<Rightarrow> u32 \<Rightarrow> 'u \<times> 'g zeetris_context \<Rightarrow> 'u \<times> 'g zeetris_context" where
  "hook_display ops pc s =
     (let (u, c) = s; lr = uc_reg_read ops u UC_LR; slot = (pc - 0x50000200) div 4;
          c = (if slot = 7 then c\<lparr>display_update_calls := display_update_calls c + 1\<rparr> else c);
          c = (if slot = 5 then c\<lparr>display_drawrect_calls := display_drawrect_calls c + 1\<rparr> else c);
          c = (if slot = 6 then c\<lparr>display_bitblt_calls := display_bitblt_calls c + 1\<rparr> else c);
          c = (if slot = 5 then draw_rect ops u c else c);
          u = (if slot = 16 then
                 let ppBitmap = uc_reg_read ops u (UC_R 1)
                 in if ppBitmap \<noteq> 0 then gput ops ppBitmap (le32_bytes BITMAP_OBJ_VA) u else u
               else u)
      in (hook_return ops 0 lr u, c))"

section \<open>Graphics slots\<close>

definition make_guest_machine :: "'u uc_ops \<Rightarrow> 'u \<Rightarrow> guest_machine" where
  "make_guest_machine ops u = \<lparr>gm_arg = (\<lambda>n. if 0 \<le> n \<and> n < 4 then uc_reg_read ops u (UC_R (nat n))
        else if n \<ge> 4 then gget32 ops u (uc_reg_read ops u UC_SP + of_int (n - 4) * 4) else 0),
     gm_read = (\<lambda>p buf. let (e, bs) = uc_mem_read ops u (ucast p) buf in (e = UC_ERR_OK, bs))\<rparr>"

definition om_inc :: "u32 \<Rightarrow> (u32, u32) omap \<Rightarrow> (u32, u32) omap" where
  "om_inc k m = om_put k (om_at 0 k m + 1) m"

definition igl_call :: "'u uc_ops \<Rightarrow> 'g igl_dispatcher option \<Rightarrow> u32 \<Rightarrow> 'u \<times> 'g zeetris_context \<Rightarrow> 'u \<times> 'g zeetris_context" where
  "igl_call ops igl slot s =
     (let (u, c) = s; lr = uc_reg_read ops u UC_LR;
          c = c\<lparr>igl_calls := igl_calls c + 1, igl_slot_calls := om_inc slot (igl_slot_calls c)\<rparr>
      in case igl of
           Some d \<Rightarrow>
             let (ok, ret, g) = d (unat slot) (make_guest_machine ops u) (zc_igl c);
                 c = c\<lparr>zc_igl := g\<rparr>;
                 c = (if ok then c\<lparr>igl_handled := igl_handled c + 1, igl_slot_handled := om_inc slot (igl_slot_handled c)\<rparr> else c);
                 u = (case ret of Some v \<Rightarrow> uc_reg_write ops u (UC_R 0) v | None \<Rightarrow> u)
             in (uc_reg_write ops u UC_PC lr, c)
         | None \<Rightarrow> (hook_return ops 0 lr u, c))"

definition hook_igl :: "'u uc_ops \<Rightarrow> 'g igl_dispatcher option \<Rightarrow> u32 \<Rightarrow> 'u \<times> 'g zeetris_context \<Rightarrow> 'u \<times> 'g zeetris_context" where
  "hook_igl ops igl pc s = igl_call ops igl ((pc - IGL_SENTINEL_VA) div 4) s"

section \<open>The code hook\<close>

definition hook_plain :: "'u uc_ops \<Rightarrow> 'u \<Rightarrow> 'u" where
  "hook_plain ops u = hook_return ops 0 (uc_reg_read ops u UC_LR) u"

definition hook_code :: "'u uc_ops \<Rightarrow> host_fs \<Rightarrow> 'g igl_dispatcher option \<Rightarrow> u32 \<Rightarrow>
    'u \<times> 'g zeetris_context \<Rightarrow> 'u \<times> 'g zeetris_context" where
  "hook_code ops fs igl pc s =
     (if pc \<ge> 0x50000000 \<and> pc < 0x50000100 then (hook_shell ops pc (fst s), snd s)
      else if pc \<ge> 0x50000100 \<and> pc < 0x50000200 then hook_media ops fs pc s
      else if pc \<ge> 0x50000200 \<and> pc < 0x50000300 then hook_display ops pc s
      else if pc \<ge> IGL_SENTINEL_VA \<and> pc < IGL_SENTINEL_VA + IGL_SLOTS * 4 then hook_igl ops igl pc s
      else if pc \<ge> 0x50000300 \<and> pc < 0x50000400 then hook_filemgr ops fs pc s
      else if pc \<ge> 0x50000600 \<and> pc < 0x50000700 then hook_file ops pc s
      else if pc \<ge> 0x50000700 \<and> pc < 0x50000800 then (hook_plain ops (fst s), snd s)
      else if pc \<ge> 0x50000500 \<and> pc < 0x50000600 then (hook_plain ops (fst s), snd s)
      else s)"

section \<open>Filled rectangles\<close>

lemma length_fold_update [simp]: "length (fold (\<lambda>x fb. fb[f x := v]) xs fb) = length fb"
  by (induction xs arbitrary: fb) simp_all

lemma nth_fold_update:
  "i < length fb \<Longrightarrow> fold (\<lambda>x fb. fb[f x := v]) xs fb ! i = (if i \<in> f ` set xs then v else fb ! i)"
  by (induction xs arbitrary: fb) (auto simp: nth_list_update)

lemma nth_fill_rows:
  "i < length fb \<Longrightarrow> fold (\<lambda>y. fold (\<lambda>x fb. fb[f y x := v]) xs) ys fb ! i =
     (if \<exists>y \<in> set ys. \<exists>x \<in> set xs. i = f y x then v else fb ! i)"
  by (induction ys arbitrary: fb) (auto simp: nth_fold_update)

lemma length_fill_rows: "length (fold (\<lambda>y. fold (\<lambda>x fb. fb[f y x := v]) xs) ys fb) = length fb"
  by (induction ys arbitrary: fb) simp_all

lemma fb_index_eq: "x < 640 \<Longrightarrow> x' < 640 \<Longrightarrow> y * 640 + x = y' * 640 + x' \<longleftrightarrow> y = y' \<and> x = (x'::nat)"
proof -
  assume "x < 640" "x' < 640"
  then have "(y * 640 + x) div 640 = y" "(y' * 640 + x') div 640 = y'" by simp_all
  then show ?thesis by (metis add_left_cancel)
qed

lemma fill_rect_nth:
  assumes "length fb = 640 * 480" "x < 640" "y < 480"
  shows "fill_rect x0 y0 x1 y1 col fb ! (y * 640 + x) =
      (if x0 \<le> int x \<and> int x < x1 \<and> y0 \<le> int y \<and> int y < y1 then col else fb ! (y * 640 + x))"
proof -
  have "(\<exists>y' \<in> set [nat (max y0 0)..<nat (min y1 480)]. \<exists>x' \<in> set [nat (max x0 0)..<nat (min x1 640)].
      y * 640 + x = y' * 640 + x') \<longleftrightarrow> x0 \<le> int x \<and> int x < x1 \<and> y0 \<le> int y \<and> int y < y1" (is "?l = ?r")
  proof
    assume ?l
    then obtain y' x' where "y' \<in> set [nat (max y0 0)..<nat (min y1 480)]" "x' \<in> set [nat (max x0 0)..<nat (min x1 640)]"
      "y * 640 + x = y' * 640 + x'" by blast
    moreover from this have "y = y'" "x = x'" using fb_index_eq [of x x' y y'] assms(2) by auto
    ultimately show ?r by auto
  next
    assume ?r
    then have "y \<in> set [nat (max y0 0)..<nat (min y1 480)]" "x \<in> set [nat (max x0 0)..<nat (min x1 640)]"
      using assms(2,3) by auto
    then show ?l by blast
  qed
  moreover have "y * 640 + x < length fb" using assms by linarith
  ultimately show ?thesis unfolding fill_rect_def by (simp only: nth_fill_rows)
qed

text \<open>
  What a rectangle and a colour mean to the caller: an \<open>AEERect\<close> is four little-endian signed 16-bit numbers
  (left, top, width, height), a null pointer stands for the whole screen, and a colour 0x00RRGGBB is shown
  with the upper five, six and five bits of its components.
\<close>

definition rect_at :: "(nat \<Rightarrow> u8 option) \<Rightarrow> u32 \<Rightarrow> int \<Rightarrow> int \<Rightarrow> int \<Rightarrow> int \<Rightarrow> bool" where
  "rect_at m p x y w h \<longleftrightarrow>
     (if p = 0 then (x, y, w, h) = (0, 0, 640, 480)
      else list_all (\<lambda>k. - (2 ^ 15) \<le> k \<and> k < 2 ^ 15) [x, y, w, h] \<and> unat p + 8 \<le> 2 ^ 32 \<and>
        holds m (unat p) (concat (map (\<lambda>k. le16_bytes (of_int k)) [x, y, w, h])))"

definition rgb565 :: "nat \<Rightarrow> u16" where
  "rgb565 c = of_nat (c div 65536 mod 256 div 8 * 2048 + c div 256 mod 256 div 4 * 32 + c mod 256 div 8)"

lemma c565_rgb: "c565_of c = rgb565 (unat c)"
proof -
  have ff: "(x::u32) AND 0xFF = take_bit 8 x" for x
  proof -
    have "(0xFF::u32) = mask 8" by (simp add: mask_eq_exp_minus_1)
    then show ?thesis by (simp add: take_bit_eq_mask)
  qed
  let ?r = "drop_bit 3 (take_bit 8 (drop_bit 16 c))" and ?g = "drop_bit 2 (take_bit 8 (drop_bit 8 c))" and ?b = "drop_bit 3 (take_bit 8 c)"
    and ?n = "unat c div 65536 mod 256 div 8 * 2048 + unat c div 256 mod 256 div 4 * 32 + unat c mod 256 div 8"
  have sum: "push_bit 11 ?r OR push_bit 5 ?g OR ?b = push_bit 11 ?r + push_bit 5 ?g + ?b"
  proof -
    have "push_bit 5 ?g + ?b = push_bit 5 ?g OR ?b"
      by (rule disjunctive_add_eq_or) (auto simp: bit_eq_iff bit_and_iff bit_or_iff bit_push_bit_iff bit_drop_bit_eq bit_take_bit_iff)
    moreover have "push_bit 11 ?r + (push_bit 5 ?g OR ?b) = push_bit 11 ?r OR push_bit 5 ?g OR ?b"
      by (rule disjunctive_add_eq_or) (auto simp: bit_eq_iff bit_and_iff bit_or_iff bit_push_bit_iff bit_drop_bit_eq bit_take_bit_iff)
    ultimately show ?thesis by (simp add: add.assoc)
  qed
  have nat: "?r = of_nat (unat c div 65536 mod 256 div 8)" "?g = of_nat (unat c div 256 mod 256 div 4)" "?b = of_nat (unat c mod 256 div 8)"
    by (simp_all add: word_unat_eq_iff drop_bit_eq_div take_bit_eq_mod unat_div unat_mod unat_of_nat)
  have "c565_of c = ucast (push_bit 11 ?r + push_bit 5 ?g + ?b)"
    unfolding c565_of_def Let_def ff sum ..
  also have "push_bit 11 ?r + push_bit 5 ?g + ?b = of_nat ?n"
    unfolding nat push_bit_eq_mult by simp
  also have "ucast (of_nat ?n :: u32) = (of_nat ?n :: u16)"
  proof -
    have "?n < 2 ^ 32" by (rule order.strict_trans1 [of _ "31 * 2048 + 63 * 32 + 31"]) (intro add_mono mult_le_mono1, auto)
    moreover have "ucast (of_nat n :: u32) = (of_nat n :: u16)" if "n < 2 ^ 32" for n
      using that by (simp add: unsigned_of_nat take_bit_nat_eq_self)
    ultimately show ?thesis by blast
  qed
  finally show ?thesis by (simp only: rgb565_def)
qed

lemma gget_i16_at:
  assumes "uc_mem_ok ops mem" "holds (mem u) (unat a) (le16_bytes (of_int k))" "- (2 ^ 15) \<le> k" "k < 2 ^ 15"
  shows "gget_i16 ops u a = k"
proof -
  have "snd (uc_mem_read ops u (ucast a) [0, 0]) = le16_bytes (of_int k)"
    using read_bytes [OF assms(1,2), of "[0, 0]"] by (simp add: le16_bytes_def)
  moreover have "word16 (ucast w) (ucast (drop_bit 8 w)) = w" for w :: u16
    by (rule bit_word_eqI) (auto simp: word16_def bit_or_iff bit_push_bit_iff bit_drop_bit_eq bit_ucast_iff)
  moreover have "sint (of_int k :: u16) = k" using assms(3,4) by (simp add: signed_of_int signed_take_bit_int_eq_self)
  ultimately show ?thesis by (simp add: gget_i16_def le16_bytes_def)
qed

lemma draw_rect_fills:
  assumes "uc_mem_ok ops mem" "rect_at (mem u) (uc_reg_read ops u (UC_R 1)) x y w h"
  shows "draw_rect ops u c = c\<lparr>framebuffer := fill_rect x y (x + w) (y + h) (rgb565 (unat (uc_reg_read ops u (UC_R 3)))) (framebuffer c)\<rparr>"
proof (cases "uc_reg_read ops u (UC_R 1) = 0")
  case True
  then show ?thesis using assms(2) by (simp add: rect_at_def draw_rect_def c565_rgb)
next
  case False
  define p where "p = uc_reg_read ops u (UC_R 1)"
  let ?p = p
  have r: "unat ?p + 8 \<le> 2 ^ 32" "\<And>k. k \<in> {x, y, w, h} \<Longrightarrow> - (2 ^ 15) \<le> k \<and> k < 2 ^ 15"
    "holds (mem u) (unat ?p) (le16_bytes (of_int x) @ le16_bytes (of_int y) @ le16_bytes (of_int w) @ le16_bytes (of_int h))"
    using assms(2) False by (auto simp: rect_at_def p_def)
  have a: "unat (?p + 2) = unat ?p + 2" "unat (?p + 4) = unat ?p + 4" "unat (?p + 6) = unat ?p + 6"
    using r(1) by (simp_all add: unat_word_ariths)
  have len: "length (le16_bytes v) = 2" for v by (simp add: le16_bytes_def)
  have at: "holds (mem u) (unat ?p) (le16_bytes (of_int x))" "holds (mem u) (unat (?p + 2)) (le16_bytes (of_int y))"
      "holds (mem u) (unat (?p + 4)) (le16_bytes (of_int w))" "holds (mem u) (unat (?p + 6)) (le16_bytes (of_int h))"
    using r(3) by (simp_all add: holds_append len a add.assoc del: add_2_eq_Suc')
  have "gget_i16 ops u ?p = x" "gget_i16 ops u (?p + 2) = y" "gget_i16 ops u (?p + 4) = w" "gget_i16 ops u (?p + 6) = h"
    using at r(2) by (simp_all only: gget_i16_at [OF assms(1)] insert_iff simp_thms)
  then show ?thesis using False by (simp add: draw_rect_def c565_rgb p_def)
qed


text \<open>A red rectangle of 5 by 4 pixels at (-3, 1): two columns of it are on the screen.\<close>

definition rect_engine :: "arm \<times> paged" where
  "rect_engine = (arm_write (arm_write arm_init (UC_R 1) 0x1000) (UC_R 3) 0xFF0000,
     [1], (\<lambda>k. [0xFD, 0xFF, 1, 0, 5, 0, 4, 0] ! (k - 0x1000)), 0)"


section \<open>The heap\<close>

text \<open>A guest that allocates blocks of the given sizes, one after the other: the addresses it receives.\<close>

definition guest_malloc :: "'u uc_ops \<Rightarrow> u32 \<Rightarrow> 'u \<times> 'g zeetris_context \<Rightarrow> u32 \<times> 'u \<times> 'g zeetris_context" where
  "guest_malloc ops n s =
     (let s = hook_malloc_stub ops (uc_reg_write ops (fst s) (UC_R 0) n, snd s)
      in (uc_reg_read ops (fst s) (UC_R 0), s))"

fun guest_mallocs :: "'u uc_ops \<Rightarrow> u32 list \<Rightarrow> 'u \<times> 'g zeetris_context \<Rightarrow> u32 list" where
  "guest_mallocs ops [] s = []"
| "guest_mallocs ops (n # ns) s = (let (p, s) = guest_malloc ops n s in p # guest_mallocs ops ns s)"

definition round8 :: "nat \<Rightarrow> nat" where "round8 n = (n + 7) div 8 * 8"

lemma unat_bump:
  assumes "unat p + round8 (unat n) < 2 ^ 32"
  shows "unat (bump n p) = unat p + round8 (unat n)"
proof -
  have "(unat n + 7) div 8 < 2 ^ 29" using assms by (simp add: round8_def)
  then have "unat n + 7 < 2 ^ 32" by (simp add: div_less_iff_less_mult)
  then have n7: "unat (n + 7) = unat n + 7" using unat_add_lem [of n 7] by simp
  have "unat ((n + 7) AND NOT (mask 3)) = round8 (unat n)" unfolding unat_clear_low n7 by (simp add: round8_def)
  then have "unat ((n + 7) AND NOT 7) = round8 (unat n)" by (simp add: mask_eq_exp_minus_1)
  then show ?thesis using assms unat_add_lem [of p "(n + 7) AND NOT 7"] by (simp add: bump_def)
qed

lemma guest_malloc_ok:
  assumes "uc_ok ops mem"
  shows "\<exists>u'. guest_malloc ops n (u, c) = (heap_ptr c, u', c\<lparr>heap_ptr := bump n (heap_ptr c)\<rparr>)"
  using uc_okD(1) [OF assms] hook_return_ok(1) [OF assms]
  by (simp add: guest_malloc_def hook_malloc_stub_def uc_reg_simps)

lemma le_round8: "n \<le> round8 n"
  by (simp add: round8_def)

text \<open>
  The blocks the bump allocator hands out do not overlap: in any sequence of allocations whose sizes, rounded
  up to eight, fit between the heap pointer and the end of the address space, every block begins where the
  blocks before it, rounded up, end, so a later block lies entirely above an earlier one.
\<close>

theorem malloc_blocks_disjoint:
  assumes "uc_ok ops mem" "unat (heap_ptr c) + sum_list (map (\<lambda>n. round8 (unat n)) ns) < 2 ^ 32"
    and "i < j" "j < length ns"
  shows "unat (guest_mallocs ops ns (u, c) ! i) + unat (ns ! i) \<le> unat (guest_mallocs ops ns (u, c) ! j)"
    and "unat (guest_mallocs ops ns (u, c) ! j) + unat (ns ! j) < 2 ^ 32"
proof -
  have at: "k < length ns \<Longrightarrow> unat (heap_ptr c) + sum_list (map (\<lambda>n. round8 (unat n)) ns) < 2 ^ 32 \<Longrightarrow>
      unat (guest_mallocs ops ns (u, c) ! k) = unat (heap_ptr c) + sum_list (map (\<lambda>n. round8 (unat n)) (take k ns))" for k
  proof (induction ns arbitrary: u c k)
    case (Cons n ns)
    obtain u' where m: "guest_malloc ops n (u, c) = (heap_ptr c, u', c\<lparr>heap_ptr := bump n (heap_ptr c)\<rparr>)"
      using guest_malloc_ok [OF assms(1)] by blast
    have b: "unat (bump n (heap_ptr c)) = unat (heap_ptr c) + round8 (unat n)"
      using Cons.prems(2) by (intro unat_bump) simp
    show ?case
    proof (cases k)
      case (Suc k')
      then show ?thesis using Cons.IH [of k' "c\<lparr>heap_ptr := bump n (heap_ptr c)\<rparr>" u'] Cons.prems m b by simp
    qed (simp add: m)
  qed simp
  have split: "take j ns = take i ns @ ns ! i # drop (Suc i) (take j ns)"
    using assms(3,4) id_take_nth_drop [of i "take j ns"] by (simp add: min_def)
  show "unat (guest_mallocs ops ns (u, c) ! i) + unat (ns ! i) \<le> unat (guest_mallocs ops ns (u, c) ! j)"
    unfolding at [OF less_trans [OF assms(3,4)] assms(2)] at [OF assms(4,2)]
    using le_round8 [of "unat (ns ! i)"] by (subst split) simp
  have "sum_list (map (\<lambda>n. round8 (unat n)) ns) = sum_list (map (\<lambda>n. round8 (unat n)) (take j ns @ ns ! j # drop (Suc j) ns))"
    using id_take_nth_drop [OF assms(4)] by simp
  then show "unat (guest_mallocs ops ns (u, c) ! j) + unat (ns ! j) < 2 ^ 32"
    unfolding at [OF assms(4,2)] using assms(2) le_round8 [of "unat (ns ! j)"] by simp
qed

theorem malloc_blocks_disjoint_witness:
  "unat (guest_mallocs full_ops [5, 0x20] (demo_engine, zeetris_context_init ()) ! 0) + 5 \<le>
     unat (guest_mallocs full_ops [5, 0x20] (demo_engine, zeetris_context_init ()) ! 1)"
  using malloc_blocks_disjoint(1) [OF full_ok, where c = "zeetris_context_init ()" and ns = "[5, 0x20]" and i = 0 and j = 1 and u = demo_engine]
  by (simp add: zeetris_context_init_def round8_def)

text \<open>
  The heap is not kept apart from the application context the runner writes at 0x30010000: after 0xB000 bytes the
  next block is that context.
\<close>

lemma heap_reaches_app_context:
  assumes "uc_ok ops mem"
  shows "guest_mallocs ops [0xB000, 0x40] (u, zeetris_context_init g) ! 1 = app_ctx_va (zeetris_context_init g)"
proof -
  obtain u1 where m: "guest_malloc ops 0xB000 (u, zeetris_context_init g) = (heap_ptr (zeetris_context_init g), u1,
      (zeetris_context_init g)\<lparr>heap_ptr := bump 0xB000 (heap_ptr (zeetris_context_init g))\<rparr>)"
    using guest_malloc_ok [OF assms] by blast
  obtain u2 where "guest_malloc ops 0x40 (u1, (zeetris_context_init g)\<lparr>heap_ptr := bump 0xB000 (heap_ptr (zeetris_context_init g))\<rparr>) =
      (bump 0xB000 (heap_ptr (zeetris_context_init g)), u2, (zeetris_context_init g)\<lparr>heap_ptr := bump 0x40 (bump 0xB000 (heap_ptr (zeetris_context_init g)))\<rparr>)"
    using guest_malloc_ok [OF assms, of "0x40" u1 "(zeetris_context_init g)\<lparr>heap_ptr := bump 0xB000 (heap_ptr (zeetris_context_init g))\<rparr>"] by auto
  with m show ?thesis by (simp add: zeetris_context_init_def bump_def)
qed

end
