(* ===== verification/Zeetris_Runner.thy ===== *)
theory Zeetris_Runner
  imports Zeetris_Shell
begin

text \<open>
  \<open>tools/cpp/zeebo_zeetris_runner.h\<close>, part three: the life cycle of the game. \<open>setup_and_start\<close> maps the regions,
  writes the stubs, the interface objects and their method tables, and runs \<open>AEEMod_Load\<close>, \<open>CreateInstance\<close> and
  the start event; \<open>step_frame\<close>, \<open>dispatch_app_event\<close> and \<open>dispatch_key\<close> enter the game again. \<open>run start s\<close> stands
  for \<open>uc_emu_start\<close> from \<open>start\<close> to the return sentinel with the hooks installed: the error code and the engine
  and context afterwards. The hooks it runs with are \<open>zeetris_hooks\<close>, in the order they are registered. The
  environment variables are the Boolean arguments; hooks and steps that only print are left out.
\<close>

definition ENTRY_VA :: u32 where "ENTRY_VA = 0x12000048"
definition LOAD_VA :: u32 where "LOAD_VA = 0x12000000"
definition STK :: u32 where "STK = 0x00200000"
definition ZEETRIS_CLSID :: u32 where "ZEETRIS_CLSID = 0x12345678"
definition RETURN_SENTINEL :: u32 where "RETURN_SENTINEL = 0xF0F0F0F0"
definition MALLOC_STUB_VA :: u32 where "MALLOC_STUB_VA = 0x30002000"
definition FREE_STUB_VA :: u32 where "FREE_STUB_VA = 0x30002080"

definition key_event :: "bool \<Rightarrow> u32" where
  "key_event pressed = (if pressed then 0x0100 else 0x0101)"

definition completed_at_return_sentinel :: "'u uc_ops \<Rightarrow> 'u \<Rightarrow> uc_err \<Rightarrow> bool" where
  "completed_at_return_sentinel ops u err \<longleftrightarrow>
     err = UC_ERR_OK \<and> uc_reg_read ops u UC_PC AND NOT 1 = RETURN_SENTINEL AND NOT 1"

definition is_zeetris_mod :: "u8 list \<Rightarrow> bool" where
  "is_zeetris_mod bytes \<longleftrightarrow> length bytes \<ge> 0x20 \<and> rd32 bytes 0 = 0xEA000010"

section \<open>Hooks by address\<close>

definition hook_range :: "u32 \<Rightarrow> u32 \<Rightarrow> u32 \<Rightarrow> bool" where
  "hook_range lo hi a \<longleftrightarrow> lo \<le> a \<and> a \<le> hi"

definition zeetris_hooks :: "'u uc_ops \<Rightarrow> host_fs \<Rightarrow> 'g igl_dispatcher option \<Rightarrow> bool \<Rightarrow> u32 \<Rightarrow>
    'u \<times> 'g zeetris_context \<Rightarrow> 'u \<times> 'g zeetris_context" where
  "zeetris_hooks ops fs igl watch_input a s =
     (let s = (if a = 0x1200c3e4 then hook_poll_return ops s else s);
          s = (if a = MALLOC_STUB_VA then hook_malloc_stub ops s else s);
          s = (if a = GETUPTIME_VA then hook_getuptime ops s else s);
          s = (if hook_range 0x50000000 0x50001200 a then hook_code ops fs igl a s else s);
          s = (if hook_range 0x120056fc 0x120056ff a then apsnd hook_tex_loader s else s);
          s = (if hook_range 0x1200ac5c 0x1200ac5f a then apsnd hook_selftest s else s)
      in if watch_input then
           let s = (if hook_range 0x1200c3dc 0x1200c3e4 a then apsnd hook_poll_count s else s);
               s = (if hook_range 0x1200ad08 0x1200ad5c a then apsnd hook_input_block s else s);
               s = (if hook_range 0x1200c0a0 0x1200c1a0 a then apsnd hook_input_store s else s);
               s = (if hook_range 0x1200b040 0x1200b0f0 a then apsnd (hook_btn_handler a) s else s)
           in if hook_range 0x120056fc 0x12005a98 a then apsnd hook_tex_loader s else s
         else s)"

section \<open>Setup\<close>

definition map_regions :: "'u uc_ops \<Rightarrow> 'u \<Rightarrow> 'u" where
  "map_regions ops u =
     fold (\<lambda>(a, n) u. snd (uc_mem_map ops u a n 7))
       [(0x001F0000, 0x10000), (0x11FFF000, 0x1000), (ucast STATIC_BASE_VA, 0x100000), (0x40000000, 0x10000),
        (0x50000000, 0x10000), (0x60000000, 0x10000), (0x003C0000, 0x20000), (0x123C0000, 0x20000)] u"

definition gput_words :: "'u uc_ops \<Rightarrow> (u32 \<times> u32) list \<Rightarrow> 'u \<Rightarrow> 'u" where
  "gput_words ops ws u = fold (\<lambda>(a, w). gput ops a (le32_bytes w)) ws u"

definition patch_globals :: "'u uc_ops \<Rightarrow> bool \<Rightarrow> 'u \<Rightarrow> 'u" where
  "patch_globals ops no_global_patches u =
     (if no_global_patches then u
      else gput_words ops
        [(0x003c14c4, IGL_OBJ_VA), (0x123c14c4, IGL_OBJ_VA),
         (0x003c12e8 + 0x54, 1), (0x123c12e8 + 0x54, 1), (0x003c14e8 + 0x54, 1), (0x123c14e8 + 0x54, 1),
         (0x003c142c + 8, 1), (0x123c142c + 8, 1), (0x003c142c + 4, 1), (0x123c142c + 4, 1),
         (0x003c142c + 0x74, EXTRA_OBJ_VA), (0x123c142c + 0x74, EXTRA_OBJ_VA)] u)"

definition put_stubs :: "'u uc_ops \<Rightarrow> 'u \<Rightarrow> 'u" where
  "put_stubs ops u =
     (let u = gput_words ops [(MALLOC_STUB_VA, 0xe12fff1e), (FREE_STUB_VA, 0xe12fff1e),
               (STATIC_BASE_VA + 0x68, MALLOC_STUB_VA), (STATIC_BASE_VA + 0x6c, FREE_STUB_VA)] u;
          u = gput ops GETUPTIME_VA (le32_bytes 0xe3a00064 @ le32_bytes 0xe12fff1e) u
      in gput_words ops [(STATIC_BASE_VA + 0xb0, GETUPTIME_VA)] u)"

text \<open>A method table of \<open>n\<close> entries: entry \<open>i\<close> is the sentinel address \<open>base + 4 * i\<close>.\<close>

definition put_table :: "'u uc_ops \<Rightarrow> u32 \<Rightarrow> u32 \<Rightarrow> nat \<Rightarrow> 'u \<Rightarrow> 'u" where
  "put_table ops vt base n u = gput_words ops (map (\<lambda>i. (vt + of_nat i * 4, base + of_nat i * 4)) [0..<n]) u"

definition put_object :: "'u uc_ops \<Rightarrow> u32 \<Rightarrow> u32 \<Rightarrow> u32 \<Rightarrow> nat \<Rightarrow> 'u \<Rightarrow> 'u" where
  "put_object ops obj vt base n u = put_table ops vt base n (gput ops obj (le32_bytes vt) u)"

definition ishell_obj :: u32 where "ishell_obj = 0x40000000"

definition install_objects :: "'u uc_ops \<Rightarrow> 'u \<Rightarrow> 'u" where
  "install_objects ops u =
     (let u = put_object ops ishell_obj 0x40001000 0x50000000 64 u;
          u = put_object ops EXTRA_OBJ_VA EXTRA_VTBL_VA 0x50000100 64 u;
          u = put_object ops IGL_OBJ_VA IGL_VTBL_VA IGL_SENTINEL_VA (unat IGL_SLOTS) u;
          u = put_object ops BITMAP_OBJ_VA BITMAP_VTBL_VA 0x50000500 64 u;
          u = put_object ops FILEMGR_OBJ_VA FILEMGR_VTBL_VA 0x50000300 64 u;
          u = put_table ops FILE_VTBL_VA 0x50000600 64 u
      in put_object ops NOTIFY_OBJ_VA NOTIFY_VTBL_VA 0x50000700 64 u)"

section \<open>Life cycle\<close>

text \<open>The registers of a call into the guest; the return address is the sentinel.\<close>

definition set_frame :: "'u uc_ops \<Rightarrow> 'u \<Rightarrow> 'u" where
  "set_frame ops u = uc_reg_write ops (uc_reg_write ops u UC_SP STK) UC_LR RETURN_SENTINEL"

definition set_args :: "'u uc_ops \<Rightarrow> u32 list \<Rightarrow> 'u \<Rightarrow> 'u" where
  "set_args ops vs u = fold (\<lambda>i u. uc_reg_write ops u (UC_R i) (vs ! i)) [0..<length vs] u"

text \<open>A read into a field of the context, whose old value stays when the read fails without writing.\<close>

definition gload :: "'u uc_ops \<Rightarrow> 'u \<Rightarrow> u32 \<Rightarrow> u32 \<Rightarrow> u32" where
  "gload ops u a old = rd32 (snd (uc_mem_read ops u (ucast a) (le32_bytes old))) 0"

definition dispatch_app_event ::
    "'u uc_ops \<Rightarrow> (u32 \<Rightarrow> 'u \<times> 'g zeetris_context \<Rightarrow> uc_err \<times> 'u \<times> 'g zeetris_context) \<Rightarrow> u32 \<Rightarrow> u32 \<Rightarrow>
     'u option \<times> 'g zeetris_context \<Rightarrow> bool \<times> 'u option \<times> 'g zeetris_context" where
  "dispatch_app_event ops run evt wparam s =
     (case s of
        (Some u, c) \<Rightarrow>
          if \<not> is_running c then (False, s)
          else
            let u = set_frame ops (set_args ops [pApplet c, evt, wparam, 0] u);
                (err, u, c) = run (handle_event_va c) (u, c)
            in (completed_at_return_sentinel ops u err \<and> uc_reg_read ops u (UC_R 0) = 1, Some u, c)
      | (None, c) \<Rightarrow> (False, s))"

definition dispatch_key ::
    "'u uc_ops \<Rightarrow> (u32 \<Rightarrow> 'u \<times> 'g zeetris_context \<Rightarrow> uc_err \<times> 'u \<times> 'g zeetris_context) \<Rightarrow> u32 \<Rightarrow> bool \<Rightarrow>
     'u option \<times> 'g zeetris_context \<Rightarrow> bool \<times> 'u option \<times> 'g zeetris_context" where
  "dispatch_key ops run key_code pressed s =
     (case s of
        (Some u, c) \<Rightarrow>
          if \<not> is_running c then (False, s)
          else
            let u = set_frame ops (set_args ops [pApplet c, key_event pressed, key_code, 0] u);
                (err, u, c) = run (handle_event_va c) (u, c)
            in (completed_at_return_sentinel ops u err \<and> uc_reg_read ops u (UC_R 0) = 1, Some u, c)
      | (None, c) \<Rightarrow> (False, s))"

definition set_platform_buttons :: "u16 \<Rightarrow> 'g zeetris_context \<Rightarrow> 'g zeetris_context" where
  "set_platform_buttons m c = c\<lparr>platform_buttons := m\<rparr>"

definition step_frame ::
    "'u uc_ops \<Rightarrow> bool \<Rightarrow> (u32 \<Rightarrow> 'u \<times> 'g zeetris_context \<Rightarrow> uc_err \<times> 'u \<times> 'g zeetris_context) \<Rightarrow>
     'u option \<times> 'g zeetris_context \<Rightarrow> bool \<times> 'u option \<times> 'g zeetris_context" where
  "step_frame ops no_global_patches run s =
     (case s of
        (Some u, c) \<Rightarrow>
          if \<not> is_running c then (False, s)
          else
            let u = (if no_global_patches then u
                     else gput_words ops [(0x123c14e8 + 0x54, 1), (0x003c14e8 + 0x54, 1),
                        (0x003c14c4, DISPLAY_OBJ_VA), (0x123c14c4, DISPLAY_OBJ_VA),
                        (0x123c16c4, DISPLAY_OBJ_VA), (0x123c16c4 + 4, DISPLAY_OBJ_VA)] u);
                u = set_frame ops (set_args ops [pApplet c] u);
                (err, u, c) = run (gameloop_cb_va c) (u, c)
            in (completed_at_return_sentinel ops u err, Some u, c)
      | (None, c) \<Rightarrow> (False, s))"

text \<open>The three stages of the start. A stage that fails returns false and leaves what it did.\<close>

definition stage_load ::
    "'u uc_ops \<Rightarrow> (u32 \<Rightarrow> 'u \<times> 'g zeetris_context \<Rightarrow> uc_err \<times> 'u \<times> 'g zeetris_context) \<Rightarrow>
     'u \<times> 'g zeetris_context \<Rightarrow> bool \<times> 'u \<times> 'g zeetris_context" where
  "stage_load ops run s =
     (let (u, c) = s;
          u = set_frame ops (set_args ops [ishell_obj, ishell_obj, 0x001FFFD0] u);
          (err, u, c) = run ENTRY_VA (u, c)
      in if \<not> completed_at_return_sentinel ops u err then (False, u, c)
         else (True, u, c\<lparr>pModule := gload ops u 0x001FFFD0 (pModule c)\<rparr>))"

definition stage_create ::
    "'u uc_ops \<Rightarrow> (u32 \<Rightarrow> 'u \<times> 'g zeetris_context \<Rightarrow> uc_err \<times> 'u \<times> 'g zeetris_context) \<Rightarrow>
     'u \<times> 'g zeetris_context \<Rightarrow> bool \<times> 'u \<times> 'g zeetris_context" where
  "stage_create ops run s =
     (let (u, c) = s;
          vtbl_va = gget32 ops u (pModule c);
          create_instance_va = gget32 ops u (vtbl_va + 8);
          u = set_frame ops (set_args ops [pModule c, ishell_obj, ZEETRIS_CLSID, 0x001FFFD4] u);
          (err, u, c) = run create_instance_va (u, c)
      in if \<not> completed_at_return_sentinel ops u err then (False, u, c)
         else
           let c = c\<lparr>pApplet := gload ops u 0x001FFFD4 (pApplet c)\<rparr>
           in (True, u, c\<lparr>handle_event_va := gload ops u (pApplet c + 0x18) (handle_event_va c)\<rparr>))"

definition put_app_context :: "'u uc_ops \<Rightarrow> 'g zeetris_context \<Rightarrow> 'u \<Rightarrow> 'u" where
  "put_app_context ops c u =
     (let u = gput_words ops [(pApplet c + 0x20, app_ctx_va c), (app_ctx_va c + 12, 0x40000000),
               (app_ctx_va c + 20, DISPLAY_OBJ_VA), (pApplet c + 0x14, DISPLAY_OBJ_VA)] u;
          (e, bs) = uc_mem_read ops u 0x120095fc [0, 0, 0, 0];
          fp_target = rd32 bs 0
      in if e = UC_ERR_OK \<and> fp_target \<noteq> 0 then
           let u = gput ops (fp_target + 0x54) (le32_bytes 1) u
           in if fp_target < 0x12000000 then gput ops (0x12000000 + fp_target + 0x54) (le32_bytes 1) u else u
         else u)"

definition stage_start ::
    "'u uc_ops \<Rightarrow> (u32 \<Rightarrow> 'u \<times> 'g zeetris_context \<Rightarrow> uc_err \<times> 'u \<times> 'g zeetris_context) \<Rightarrow>
     'u \<times> 'g zeetris_context \<Rightarrow> bool \<times> 'u \<times> 'g zeetris_context" where
  "stage_start ops run s =
     (let (u, c) = s;
          u = put_app_context ops c u;
          u = set_frame ops (set_args ops [pApplet c, 1, 0, 0] u);
          (err, u, c) = run (handle_event_va c) (u, c)
      in (completed_at_return_sentinel ops u err, u, c))"

definition stage_context ::
    "'u uc_ops \<Rightarrow> (u32 \<Rightarrow> 'u \<times> 'g zeetris_context \<Rightarrow> uc_err \<times> 'u \<times> 'g zeetris_context) \<Rightarrow> bool \<Rightarrow> bool \<Rightarrow>
     'u \<times> 'g zeetris_context \<Rightarrow> 'u \<times> 'g zeetris_context" where
  "stage_context ops run synth_appctx no_appctx s =
     (let (u, c) = s in
      if \<not> synth_appctx then
        case dispatch_app_event ops run 0 0 (Some u, c\<lparr>is_running := True\<rparr>) of
          (r, Some u, c) \<Rightarrow> (u, c)
        | (r, None, c) \<Rightarrow> (u, c)
      else if \<not> no_appctx then
        (gput_words ops [(pApplet c + 0x20, 0x30010000), (0x30010000 + 12, 0x40000000), (0x30010000 + 20, DISPLAY_OBJ_VA)] u, c)
      else (u, c))"

definition setup_and_start ::
    "'u uc_ops \<Rightarrow> bool \<Rightarrow> bool \<Rightarrow> bool \<Rightarrow>
     (u32 \<Rightarrow> 'u \<times> 'g zeetris_context \<Rightarrow> uc_err \<times> 'u \<times> 'g zeetris_context) \<Rightarrow>
     'u option \<times> 'g zeetris_context \<Rightarrow> bool \<times> 'u option \<times> 'g zeetris_context" where
  "setup_and_start ops no_global_patches synth_appctx no_appctx run s =
     (case s of
        (None, c) \<Rightarrow> (False, s)
      | (Some u, c) \<Rightarrow>
          let u = map_regions ops u;
              u = gput_words ops [(LOAD_VA - 8, STATIC_BASE_VA), (LOAD_VA - 4, STATIC_BASE_VA)] u;
              u = install_objects ops (put_stubs ops (patch_globals ops no_global_patches u));
              (ok, u, c) = stage_load ops run (u, c)
          in if \<not> ok then (False, Some u, c)
             else
               let (ok, u, c) = stage_create ops run (u, c)
               in if \<not> ok then (False, Some u, c)
                  else
                    let (ok, u, c) = stage_start ops run (u, c)
                    in if \<not> ok then (False, Some u, c)
                       else
                         let (u, c) = stage_context ops run synth_appctx no_appctx (u, c)
                         in (True, Some u, c\<lparr>is_running := True\<rparr>))"

section \<open>The method tables in memory\<close>

lemma unat_add_words: "unat (a::u32) + 4 * n < 2 ^ 32 \<Longrightarrow> unat (a + of_nat n * 4) = unat a + 4 * n"
proof -
  assume lt: "unat a + 4 * n < 2 ^ 32"
  have "unat (of_nat (4 * n) :: u32) = 4 * n" unfolding unat_of_nat by (rule mod_less) (use lt in simp)
  then show ?thesis using unat_add_lem [of a "of_nat (4 * n)"] lt by (simp add: mult.commute)
qed

definition table_words :: "u32 \<Rightarrow> nat \<Rightarrow> u32 list" where
  "table_words base n = map (\<lambda>i. base + of_nat i * 4) [0..<n]"

lemma length_table_words [simp]: "length (table_words base n) = n"
  by (simp add: table_words_def)

lemma put_table_mem:
  assumes "uc_ok ops mem"
  shows "mapped (mem u) (unat vt) (4 * n) \<Longrightarrow> unat vt + 4 * n \<le> 2 ^ 32 \<Longrightarrow>
    mem (put_table ops vt base n u) = overlay (mem u) (unat vt) (concat (map le32_bytes (table_words base n)))"
proof (induction n)
  case (Suc n)
  let ?w = "concat (map le32_bytes (table_words base n))" and ?u = "put_table ops vt base n u"
  have IH: "mem ?u = overlay (mem u) (unat vt) ?w"
    using Suc.prems by (intro Suc.IH) (auto elim: mapped_sub)
  have a: "unat (vt + of_nat n * 4) = unat vt + 4 * n" using Suc.prems(2) by (intro unat_add_words) simp
  have "mapped (mem u) (unat vt + 4 * n) 4" using Suc.prems(1) by (rule mapped_sub) simp_all
  then have "mapped (mem ?u) (unat (vt + of_nat n * 4)) (length (le32_bytes (base + of_nat n * 4)))"
    unfolding IH a by (simp add: overlay_mapped)
  from gput_ok(2) [OF assms this]
  have "mem (put_table ops vt base (Suc n) u) =
      overlay (overlay (mem u) (unat vt) ?w) (unat vt + length ?w) (le32_bytes (base + of_nat n * 4))"
    unfolding IH a by (simp add: put_table_def gput_words_def)
  then show ?case unfolding overlay_append by (simp add: table_words_def)
qed (simp add: put_table_def gput_words_def table_words_def)

lemma put_object_mem:
  assumes "uc_ok ops mem" "mapped (mem u) (unat obj) 4" "mapped (mem u) (unat vt) (4 * n)" "unat vt + 4 * n \<le> 2 ^ 32"
  shows "mem (put_object ops obj vt base n u) =
    overlay (overlay (mem u) (unat obj) (le32_bytes vt)) (unat vt) (concat (map le32_bytes (table_words base n)))"
proof -
  have "mem (gput ops obj (le32_bytes vt) u) = overlay (mem u) (unat obj) (le32_bytes vt)"
    using assms(2) by (intro gput_ok(2) [OF assms(1)]) simp
  then show ?thesis using put_table_mem [OF assms(1) _ assms(4), of "gput ops obj (le32_bytes vt) u" base] assms(3)
    by (simp add: put_object_def overlay_mapped)
qed

datatype iface = If_Shell | If_Media | If_Igl | If_Bitmap | If_FileMgr | If_File | If_Notify

text \<open>The object of an interface (an open file has one per handle), its table, its sentinels and its methods.\<close>

fun if_obj :: "iface \<Rightarrow> u32 option" where
  "if_obj If_Shell = Some 0x40000000" | "if_obj If_Media = Some 0x60000000" | "if_obj If_Igl = Some 0x60007000"
| "if_obj If_Bitmap = Some 0x60004000" | "if_obj If_FileMgr = Some 0x60002000" | "if_obj If_File = None"
| "if_obj If_Notify = Some 0x6000A000"

fun if_vt :: "iface \<Rightarrow> u32" where
  "if_vt If_Shell = 0x40001000" | "if_vt If_Media = 0x60001000" | "if_vt If_Igl = 0x60008000"
| "if_vt If_Bitmap = 0x60005000" | "if_vt If_FileMgr = 0x60003000" | "if_vt If_File = 0x60009000"
| "if_vt If_Notify = 0x6000B000"

fun if_base :: "iface \<Rightarrow> u32" where
  "if_base If_Shell = 0x50000000" | "if_base If_Media = 0x50000100" | "if_base If_Igl = 0x50001000"
| "if_base If_Bitmap = 0x50000500" | "if_base If_FileMgr = 0x50000300" | "if_base If_File = 0x50000600"
| "if_base If_Notify = 0x50000700"

fun if_slots :: "iface \<Rightarrow> nat" where
  "if_slots If_Igl = 80" | "if_slots _ = 64"

text \<open>
  The methods by number: what a call of slot \<open>i\<close> of an interface does, without reference to sentinel addresses.
  Slots that are not named here return 0.
\<close>

fun slot_method :: "iface \<Rightarrow> nat \<Rightarrow> 'u uc_ops \<Rightarrow> host_fs \<Rightarrow> 'g igl_dispatcher option \<Rightarrow>
    'u \<times> 'g zeetris_context \<Rightarrow> 'u \<times> 'g zeetris_context" where
  "slot_method If_Shell i ops fs igl (u, c) =
     (let lr = uc_reg_read ops u UC_LR
      in (if i = 2 then shell_create_instance ops lr u else if i = 4 then shell_get_device_info ops lr u
          else hook_return ops 0 lr u, c))"
| "slot_method If_Media i ops fs igl (u, c) =
     (hook_return ops 0 (uc_reg_read ops u UC_LR) u,
      if i = 3 then media_register_notify ops u c else if i = 4 then media_set_parm ops fs u c
      else if i = 6 then media_play c else c)"
| "slot_method If_Igl i ops fs igl (u, c) = igl_call ops igl (of_nat i) (u, c)"
| "slot_method If_Bitmap i ops fs igl (u, c) = (hook_return ops 0 (uc_reg_read ops u UC_LR) u, c)"
| "slot_method If_FileMgr i ops fs igl (u, c) =
     (let lr = uc_reg_read ops u UC_LR
      in if i = 2 then mgr_open_file ops fs lr (u, c) else if i = 3 then mgr_get_info ops fs lr (u, c)
         else if i = 7 then mgr_test ops fs lr (u, c) else if i = 8 then (mgr_free_space ops lr u, c)
         else (hook_return ops 0 lr u, c))"
| "slot_method If_File i ops fs igl (u, c) =
     (let lr = uc_reg_read ops u UC_LR; h = uc_reg_read ops u (UC_R 0)
      in if i = 3 then file_read ops h lr (u, c) else if i = 6 then file_get_info ops h lr (u, c)
         else if i = 7 then file_seek ops h lr (u, c) else (hook_return ops 0 lr u, c))"
| "slot_method If_Notify i ops fs igl (u, c) = (hook_return ops 0 (uc_reg_read ops u UC_LR) u, c)"

lemmas zeetris_consts = EXTRA_OBJ_VA_def EXTRA_VTBL_VA_def IGL_OBJ_VA_def IGL_VTBL_VA_def IGL_SENTINEL_VA_def
  IGL_SLOTS_def BITMAP_OBJ_VA_def BITMAP_VTBL_VA_def FILEMGR_OBJ_VA_def FILEMGR_VTBL_VA_def FILE_VTBL_VA_def
  NOTIFY_OBJ_VA_def NOTIFY_VTBL_VA_def ishell_obj_def

text \<open>The two regions that hold objects and tables are mapped.\<close>

definition tables_mapped :: "(nat \<Rightarrow> u8 option) \<Rightarrow> bool" where
  "tables_mapped m \<longleftrightarrow> mapped m 0x40000000 0x10000 \<and> mapped m 0x60000000 0x10000"

lemma tables_mapped_sub:
  "tables_mapped m \<Longrightarrow> 0x60000000 \<le> a \<Longrightarrow> a + n \<le> 0x60010000 \<Longrightarrow> mapped m a n"
  "tables_mapped m \<Longrightarrow> 0x40000000 \<le> a \<Longrightarrow> a + n \<le> 0x40010000 \<Longrightarrow> mapped m a n"
  unfolding tables_mapped_def by (auto elim: mapped_sub)

lemma tables_mapped_overlay: "tables_mapped m \<Longrightarrow> tables_mapped (overlay m a bs)"
  by (simp add: tables_mapped_def overlay_mapped)

definition object_image :: "u32 \<Rightarrow> u32 \<Rightarrow> u32 \<Rightarrow> nat \<Rightarrow> (nat \<Rightarrow> u8 option) \<Rightarrow> nat \<Rightarrow> u8 option" where
  "object_image obj vt base n m =
     overlay (overlay m (unat obj) (le32_bytes vt)) (unat vt) (concat (map le32_bytes (table_words base n)))"

lemma tables_mapped_image: "tables_mapped m \<Longrightarrow> tables_mapped (object_image obj vt base n m)"
  by (simp add: object_image_def tables_mapped_overlay)

lemma put_object_image:
  assumes "uc_ok ops mem" "mem u = m" "tables_mapped m"
    and "unat obj \<ge> 0x60000000 \<and> unat obj + 4 \<le> 0x60010000 \<and> unat vt \<ge> 0x60000000 \<and> unat vt + 4 * n \<le> 0x60010000 \<or>
      unat obj \<ge> 0x40000000 \<and> unat obj + 4 \<le> 0x40010000 \<and> unat vt \<ge> 0x40000000 \<and> unat vt + 4 * n \<le> 0x40010000"
  shows "mem (put_object ops obj vt base n u) = object_image obj vt base n m"
  unfolding object_image_def assms(2) [symmetric]
  by (rule put_object_mem [OF assms(1)])
     (use assms(4) tables_mapped_sub [OF assms(3)] in \<open>auto simp: assms(2)\<close>)

lemma holds_image_frame:
  assumes "a + length cs \<le> unat obj \<or> unat obj + 4 \<le> a" "a + length cs \<le> unat vt \<or> unat vt + 4 * n \<le> a"
  shows "holds (object_image obj vt base n m) a cs = holds m a cs"
  using assms by (simp add: object_image_def holds_frame)

lemma holds_image_table: "holds (object_image obj vt base n m) (unat vt) (concat (map le32_bytes (table_words base n)))"
  by (simp add: object_image_def)

lemma holds_image_obj:
  "unat obj + 4 \<le> unat vt \<or> unat vt + 4 * n \<le> unat obj \<Longrightarrow> holds (object_image obj vt base n m) (unat obj) (le32_bytes vt)"
  by (simp add: object_image_def holds_frame)

definition tables_image :: "(nat \<Rightarrow> u8 option) \<Rightarrow> nat \<Rightarrow> u8 option" where
  "tables_image m =
     object_image 0x6000A000 0x6000B000 0x50000700 64
       (overlay (object_image 0x60002000 0x60003000 0x50000300 64 (object_image 0x60004000 0x60005000 0x50000500 64
         (object_image 0x60007000 0x60008000 0x50001000 80 (object_image 0x60000000 0x60001000 0x50000100 64
           (object_image 0x40000000 0x40001000 0x50000000 64 m)))))
         0x60009000 (concat (map le32_bytes (table_words 0x50000600 64))))"

lemma install_objects_mem:
  assumes ok: "uc_ok ops mem" and m: "tables_mapped (mem u)"
  shows "mem (install_objects ops u) = tables_image (mem u)"
proof -
  let ?p = "put_object ops" and ?i = object_image
  let ?u1 = "?p 0x40000000 0x40001000 0x50000000 64 u" and ?m1 = "?i 0x40000000 0x40001000 0x50000000 64 (mem u)"
  let ?u2 = "?p 0x60000000 0x60001000 0x50000100 64 ?u1" and ?m2 = "?i 0x60000000 0x60001000 0x50000100 64 ?m1"
  let ?u3 = "?p 0x60007000 0x60008000 0x50001000 80 ?u2" and ?m3 = "?i 0x60007000 0x60008000 0x50001000 80 ?m2"
  let ?u4 = "?p 0x60004000 0x60005000 0x50000500 64 ?u3" and ?m4 = "?i 0x60004000 0x60005000 0x50000500 64 ?m3"
  let ?u5 = "?p 0x60002000 0x60003000 0x50000300 64 ?u4" and ?m5 = "?i 0x60002000 0x60003000 0x50000300 64 ?m4"
  let ?u6 = "put_table ops 0x60009000 0x50000600 64 ?u5"
  let ?m6 = "overlay ?m5 0x60009000 (concat (map le32_bytes (table_words 0x50000600 64)))"
  have t1: "tables_mapped ?m1" by (rule tables_mapped_image [OF m])
  have t2: "tables_mapped ?m2" by (rule tables_mapped_image [OF t1])
  have t3: "tables_mapped ?m3" by (rule tables_mapped_image [OF t2])
  have t4: "tables_mapped ?m4" by (rule tables_mapped_image [OF t3])
  have t5: "tables_mapped ?m5" by (rule tables_mapped_image [OF t4])
  have t6: "tables_mapped ?m6" by (rule tables_mapped_overlay [OF t5])
  have e1: "mem ?u1 = ?m1" by (rule put_object_image [OF ok, OF refl m]) simp
  have e2: "mem ?u2 = ?m2" by (rule put_object_image [OF ok, OF e1 t1]) simp
  have e3: "mem ?u3 = ?m3" by (rule put_object_image [OF ok, OF e2 t2]) simp
  have e4: "mem ?u4 = ?m4" by (rule put_object_image [OF ok, OF e3 t3]) simp
  have e5: "mem ?u5 = ?m5" by (rule put_object_image [OF ok, OF e4 t4]) simp
  have "mapped ?m5 (unat (0x60009000::u32)) (4 * 64)" by (rule tables_mapped_sub(1) [OF t5]) simp_all
  then have e6: "mem ?u6 = ?m6"
    using put_table_mem [OF ok, of ?u5 "0x60009000" 64 "0x50000600"] unfolding e5 by simp
  have "mem (?p 0x6000A000 0x6000B000 0x50000700 64 ?u6) = ?i 0x6000A000 0x6000B000 0x50000700 64 ?m6"
    by (rule put_object_image [OF ok, OF e6 t6]) simp
  then show ?thesis by (simp add: install_objects_def Let_def zeetris_consts tables_image_def)
qed

lemma tables_image_table: "holds (tables_image m) (unat (if_vt f)) (concat (map le32_bytes (table_words (if_base f) (if_slots f))))"
  by (cases f) (simp_all add: tables_image_def holds_image_frame holds_frame
      holds_image_table [of _ "0x40001000", simplified] holds_image_table [of _ "0x60001000", simplified]
      holds_image_table [of _ "0x60008000", simplified] holds_image_table [of _ "0x60005000", simplified]
      holds_image_table [of _ "0x60003000", simplified] holds_image_table [of _ "0x6000B000", simplified])

lemma tables_image_obj: "if_obj f = Some p \<Longrightarrow> holds (tables_image m) (unat p) (le32_bytes (if_vt f))"
  by (cases f) (auto simp: tables_image_def holds_image_frame holds_frame
      holds_image_obj [of "0x40000000", simplified] holds_image_obj [of "0x60000000", simplified]
      holds_image_obj [of "0x60007000", simplified] holds_image_obj [of "0x60004000", simplified]
      holds_image_obj [of "0x60002000", simplified] holds_image_obj [of "0x6000A000", simplified])

lemma sentinel_slot:
  assumes "i < if_slots f"
  shows "unat (if_base f + of_nat i * 4) = unat (if_base f) + 4 * i"
    and "(if_base f + of_nat i * 4 - if_base f) div 4 = of_nat i"
proof -
  have i: "i < 80" using assms by (cases f) simp_all
  then show "unat (if_base f + of_nat i * 4) = unat (if_base f) + 4 * i" by (intro unat_add_words) (cases f; simp)
  have "unat (of_nat i * 4 :: u32) = 4 * i" using unat_add_words [of 0 i] i by simp
  then show "(if_base f + of_nat i * 4 - if_base f) div 4 = of_nat i" using i
    by (simp add: word_unat_eq_iff unat_div unat_of_nat)
qed

lemma slot_number: "i < 80 \<Longrightarrow> j < 80 \<Longrightarrow> (of_nat i :: u32) = of_nat j \<longleftrightarrow> i = j"
  by (simp add: word_unat_eq_iff unat_of_nat)

lemma sentinel_hook:
  assumes "i < if_slots f"
  shows "zeetris_hooks ops fs igl watch (if_base f + of_nat i * 4) s = hook_code ops fs igl (if_base f + of_nat i * 4) s"
  using assms sentinel_slot(1) [OF assms]
  by (cases f) (simp_all add: zeetris_hooks_def hook_range_def word_le_nat_alt word_less_nat_alt
      word_unat_eq_iff MALLOC_STUB_VA_def GETUPTIME_VA_def zeetris_consts Let_def)

lemma sentinel_method:
  assumes "i < if_slots f"
  shows "zeetris_hooks ops fs igl watch (if_base f + of_nat i * 4) s = slot_method f i ops fs igl s"
proof -
  obtain u c where s: "s = (u, c)" by (cases s)
  have i: "i < 80" using assms by (cases f) simp_all
  have num: "(of_nat i :: u32) = 2 \<longleftrightarrow> i = 2" "(of_nat i :: u32) = 3 \<longleftrightarrow> i = 3" "(of_nat i :: u32) = 4 \<longleftrightarrow> i = 4"
      "(of_nat i :: u32) = 6 \<longleftrightarrow> i = 6" "(of_nat i :: u32) = 7 \<longleftrightarrow> i = 7" "(of_nat i :: u32) = 8 \<longleftrightarrow> i = 8"
    using slot_number [OF i, of 2] slot_number [OF i, of 3] slot_number [OF i, of 4] slot_number [OF i, of 6]
      slot_number [OF i, of 7] slot_number [OF i, of 8] by simp_all
  have a: "unat (if_base f + of_nat i * 4) = unat (if_base f) + 4 * i" by (rule sentinel_slot(1) [OF assms])
  have n: "(if_base f + of_nat i * 4 - if_base f) div 4 = of_nat i" by (rule sentinel_slot(2) [OF assms])
  have "hook_code ops fs igl (if_base f + of_nat i * 4) s =
    (case f of If_Shell \<Rightarrow> (hook_shell ops (if_base f + of_nat i * 4) (fst s), snd s)
     | If_Media \<Rightarrow> hook_media ops fs (if_base f + of_nat i * 4) s
     | If_Igl \<Rightarrow> hook_igl ops igl (if_base f + of_nat i * 4) s
     | If_FileMgr \<Rightarrow> hook_filemgr ops fs (if_base f + of_nat i * 4) s
     | If_File \<Rightarrow> hook_file ops (if_base f + of_nat i * 4) s
     | _ \<Rightarrow> (hook_plain ops (fst s), snd s))"
    using assms a
    by (cases f) (simp_all add: hook_code_def word_le_nat_alt word_less_nat_alt zeetris_consts)
  also have "\<dots> = slot_method f i ops fs igl s"
    using n num unfolding s
    by (cases f) (simp_all add: hook_shell_def hook_media_def hook_igl_def hook_filemgr_def hook_file_def hook_plain_def
        zeetris_consts Let_def)
  finally show ?thesis using sentinel_hook [OF assms, of ops fs igl watch s] by simp
qed

text \<open>
  C16: after the setup has written the interface objects, a game that calls a method the way compiled code does
  reaches the method it means: the word at an object points to the interface's table, and when the processor
  arrives at the address found in entry \<open>i\<close> of that table, the installed hooks do exactly what the method with
  number \<open>i\<close> of that interface is to do, to registers, memory and context. This holds for all 64 slots of the
  shell, media, bitmap, file manager, file and notification interfaces and the 80 slots of the graphics
  interface.
\<close>

theorem interface_call_reaches_method:
  assumes "uc_ok ops mem" "tables_mapped (mem u)" "i < if_slots f"
  shows "(if_obj f = Some p \<longrightarrow> gget32 ops (install_objects ops u) p = if_vt f) \<and>
    zeetris_hooks ops fs igl watch (gget32 ops (install_objects ops u) (if_vt f + of_nat i * 4)) s =
      slot_method f i ops fs igl s"
proof (intro conjI impI)
  note m = install_objects_mem [OF assms(1,2)] and mok = uc_okD(2) [OF assms(1)]
  show "gget32 ops (install_objects ops u) p = if_vt f" if "if_obj f = Some p"
    using get_word [OF mok, of "install_objects ops u" p] tables_image_obj [OF that] by (simp add: m gget32_def)
  have "i < 80" using assms(3) by (cases f) simp_all
  then have a: "unat (if_vt f + of_nat i * 4) = unat (if_vt f) + 4 * i" by (intro unat_add_words) (cases f; simp)
  have "holds (tables_image (mem u)) (unat (if_vt f) + 4 * i) (le32_bytes (table_words (if_base f) (if_slots f) ! i))"
    using assms(3) by (intro holds_word tables_image_table) simp
  then have "gget32 ops (install_objects ops u) (if_vt f + of_nat i * 4) = if_base f + of_nat i * 4"
    using get_word [OF mok, of "install_objects ops u" "if_vt f + of_nat i * 4" "if_base f + of_nat i * 4"] assms(3)
    by (simp add: m a gget32_def table_words_def)
  then show "zeetris_hooks ops fs igl watch (gget32 ops (install_objects ops u) (if_vt f + of_nat i * 4)) s =
      slot_method f i ops fs igl s"
    using sentinel_method [OF assms(3)] by simp
qed

definition demo_tables_engine :: "arm \<times> paged" where
  "demo_tables_engine = (arm_init, [0x40000..<0x40010] @ [0x60000..<0x60010], \<lambda>_. 0, 0)"

lemma demo_tables_mapped: "tables_mapped (full_byte demo_tables_engine)"
proof -
  have "pages_in (snd demo_tables_engine) 0x40000000 0x10000" "pages_in (snd demo_tables_engine) 0x60000000 0x10000"
    by (simp_all add: pages_in_def demo_tables_engine_def list_all_iff)
  then show ?thesis by (simp add: tables_mapped_def full_byte_def pages_in_iff)
qed

theorem interface_call_reaches_method_witness:
  "let s = (demo_tables_engine, zeetris_context_init ()); w = install_objects full_ops demo_tables_engine in
   gget32 full_ops w 0x60007000 = 0x60008000 \<and>
   zeetris_hooks full_ops (\<lambda>_. None) None False (gget32 full_ops w (0x60008000 + of_nat 7 * 4)) s = igl_call full_ops None 7 s \<and>
   zeetris_hooks full_ops (\<lambda>_. None) None False (gget32 full_ops w (0x60001000 + of_nat 6 * 4)) s =
     (hook_return full_ops 0 (uc_reg_read full_ops (fst s) UC_LR) (fst s), media_play (snd s))"
  using interface_call_reaches_method [OF full_ok demo_tables_mapped, of 7 If_Igl "0x60007000" "\<lambda>_. None" None False
      "(demo_tables_engine, zeetris_context_init ())"]
    interface_call_reaches_method [OF full_ok demo_tables_mapped, of 6 If_Media "0x60000000" "\<lambda>_. None" None False
      "(demo_tables_engine, zeetris_context_init ())"] by (simp add: Let_def)

text \<open>No installed table leads to the display methods: the display class is given the graphics object.\<close>

lemma display_methods_unreachable:
  assumes "i < if_slots f"
  shows "\<not> (0x50000200 \<le> if_base f + of_nat i * 4 \<and> if_base f + of_nat i * 4 < 0x50000300)"
    and "create_instance_obj 0x01001001 = the (if_obj If_Igl)"
proof -
  have "i < 80" using assms by (cases f) simp_all
  then have a: "unat (if_base f + of_nat i * 4) = unat (if_base f) + 4 * i" by (intro unat_add_words) (cases f; simp)
  show "\<not> (0x50000200 \<le> if_base f + of_nat i * 4 \<and> if_base f + of_nat i * 4 < 0x50000300)"
    using assms a by (cases f) (simp_all add: word_le_nat_alt word_less_nat_alt)
  show "create_instance_obj 0x01001001 = the (if_obj If_Igl)"
    by (simp add: create_instance_obj_def CREATE_CLSID_def DISPLAY_OBJ_VA_def IGL_OBJ_VA_def)
qed

section \<open>Starting and feeding the game\<close>

lemma set_args_regs:
  assumes "uc_regs_ok ops" "length vs \<le> 8"
  shows "uc_reg_read ops (set_args ops vs u) (UC_R i) = (if i < length vs then vs ! i else uc_reg_read ops u (UC_R i))"
proof -
  have "uc_reg_read ops (fold (\<lambda>i u. uc_reg_write ops u (UC_R i) (vs ! i)) [0..<n] u) (UC_R i) =
      (if i < n then vs ! i else uc_reg_read ops u (UC_R i))" for n
    using assms(1) by (induction n) (auto simp: uc_reg_simps less_Suc_eq uc_plain_write(2))
  then show ?thesis by (simp add: set_args_def)
qed

lemma set_frame_regs:
  assumes "uc_regs_ok ops"
  shows "uc_reg_read ops (set_frame ops u) UC_LR = RETURN_SENTINEL" "uc_reg_read ops (set_frame ops u) UC_SP = STK"
    "uc_reg_read ops (set_frame ops u) (UC_R i) = uc_reg_read ops u (UC_R i)"
  using assms by (simp_all add: set_frame_def uc_reg_simps)

text \<open>
  A call into the guest: it is entered at \<open>start\<close> with the arguments in the registers, the runner's stack and the
  sentinel as return address, and comes back to the sentinel without error.
\<close>

definition guest_returned ::
    "'u uc_ops \<Rightarrow> (u32 \<Rightarrow> 'u \<times> 'g zeetris_context \<Rightarrow> uc_err \<times> 'u \<times> 'g zeetris_context) \<Rightarrow> u32 \<Rightarrow> u32 list \<Rightarrow>
     'g zeetris_context \<Rightarrow> 'u \<Rightarrow> 'g zeetris_context \<Rightarrow> bool" where
  "guest_returned ops run start args c u' c' \<longleftrightarrow>
     (\<exists>u0. (\<forall>i < length args. uc_reg_read ops u0 (UC_R i) = args ! i) \<and> uc_reg_read ops u0 UC_SP = STK \<and>
        uc_reg_read ops u0 UC_LR = RETURN_SENTINEL \<and> run start (u0, c) = (UC_ERR_OK, u', c') \<and>
        uc_reg_read ops u' UC_PC AND NOT 1 = RETURN_SENTINEL AND NOT 1)"

lemma guest_returnedI:
  assumes "uc_regs_ok ops" "length args \<le> 8" "run start (set_frame ops (set_args ops args u), c) = (e, u', c')"
    and "completed_at_return_sentinel ops u' e"
  shows "guest_returned ops run start args c u' c'"
  unfolding guest_returned_def
  using assms set_args_regs [OF assms(1,2)]
  by (intro exI [of _ "set_frame ops (set_args ops args u)"])
     (auto simp: completed_at_return_sentinel_def set_frame_regs [OF assms(1)])

lemma stages_ok:
  assumes "uc_regs_ok ops"
  shows "stage_load ops run (u, c) = (True, u', c') \<Longrightarrow>
      \<exists>c1. guest_returned ops run ENTRY_VA [ishell_obj, ishell_obj, 0x001FFFD0] c u' c1 \<and>
        c' = c1\<lparr>pModule := gload ops u' 0x001FFFD0 (pModule c1)\<rparr>"
    and "stage_create ops run (u, c) = (True, u', c') \<Longrightarrow>
      \<exists>c1. guest_returned ops run (gget32 ops u (gget32 ops u (pModule c) + 8)) [pModule c, ishell_obj, ZEETRIS_CLSID, 0x001FFFD4] c u' c1 \<and>
        c' = c1\<lparr>pApplet := gload ops u' 0x001FFFD4 (pApplet c1),
          handle_event_va := gload ops u' (gload ops u' 0x001FFFD4 (pApplet c1) + 0x18) (handle_event_va c1)\<rparr>"
    and "stage_start ops run (u, c) = (True, u', c') \<Longrightarrow>
      guest_returned ops run (handle_event_va c) [pApplet c, 1, 0, 0] c u' c'"
proof -
  let ?w = "set_frame ops (set_args ops [ishell_obj, ishell_obj, 0x001FFFD0] u)"
  obtain e u1 c1 where x: "run ENTRY_VA (?w, c) = (e, u1, c1)" by (metis surj_pair)
  show "stage_load ops run (u, c) = (True, u', c') \<Longrightarrow>
      \<exists>c1. guest_returned ops run ENTRY_VA [ishell_obj, ishell_obj, 0x001FFFD0] c u' c1 \<and>
        c' = c1\<lparr>pModule := gload ops u' 0x001FFFD0 (pModule c1)\<rparr>"
    using guest_returnedI [where run = run, OF assms _ x] x by (auto simp: stage_load_def split: if_splits)
next
  let ?va = "gget32 ops u (gget32 ops u (pModule c) + 8)" and ?args = "[pModule c, ishell_obj, ZEETRIS_CLSID, 0x001FFFD4]"
  obtain e u1 c1 where x: "run ?va (set_frame ops (set_args ops ?args u), c) = (e, u1, c1)" by (metis surj_pair)
  assume s: "stage_create ops run (u, c) = (True, u', c')"
  then have "completed_at_return_sentinel ops u1 e" "u' = u1"
    "c' = c1\<lparr>pApplet := gload ops u1 0x001FFFD4 (pApplet c1),
          handle_event_va := gload ops u1 (gload ops u1 0x001FFFD4 (pApplet c1) + 0x18) (handle_event_va c1)\<rparr>"
    using x by (auto simp: stage_create_def Let_def split: if_splits)
  then show "\<exists>c1. guest_returned ops run ?va ?args c u' c1 \<and>
        c' = c1\<lparr>pApplet := gload ops u' 0x001FFFD4 (pApplet c1),
          handle_event_va := gload ops u' (gload ops u' 0x001FFFD4 (pApplet c1) + 0x18) (handle_event_va c1)\<rparr>"
    using guest_returnedI [where run = run, OF assms _ x] by (intro exI [of _ c1]) simp
next
  let ?w = "set_frame ops (set_args ops [pApplet c, 1, 0, 0] (put_app_context ops c u))"
  obtain e u1 c1 where x: "run (handle_event_va c) (?w, c) = (e, u1, c1)" by (metis surj_pair)
  show "stage_start ops run (u, c) = (True, u', c') \<Longrightarrow>
      guest_returned ops run (handle_event_va c) [pApplet c, 1, 0, 0] c u' c'"
    using guest_returnedI [where run = run, OF assms _ x] x by (auto simp: stage_start_def)
qed

text \<open>
  C21: a successful start made its three calls in order, and each came back to the return sentinel without error:
  the module's entry point with the shell object, then the \<open>CreateInstance\<close> method of the module object that the
  entry left behind, then the handler of the applet that method created, with the start event. The module, the
  applet and its handler are the words found in guest memory after the calls, and the game is then running.
\<close>

theorem start_makes_three_calls:
  assumes "uc_regs_ok ops" "setup_and_start ops no_patch synth no_ctx run (Some u, c) = (True, uc', c')"
  shows "is_running c' \<and> (\<exists>u1 c1 u2 c2 u3 c3. let p = gload ops u1 0x001FFFD0 (pModule c1);
      q = gload ops u2 0x001FFFD4 (pApplet c2); hv = gload ops u2 (q + 0x18) (handle_event_va c2) in
      guest_returned ops run ENTRY_VA [ishell_obj, ishell_obj, 0x001FFFD0] c u1 c1 \<and>
      guest_returned ops run (gget32 ops u1 (gget32 ops u1 p + 8)) [p, ishell_obj, ZEETRIS_CLSID, 0x001FFFD4]
        (c1\<lparr>pModule := p\<rparr>) u2 c2 \<and>
      guest_returned ops run hv [q, 1, 0, 0] (c2\<lparr>pApplet := q, handle_event_va := hv\<rparr>) u3 c3)"
proof -
  obtain u0 u1 c1 u2 c2 u3 c3 where s: "stage_load ops run (u0, c) = (True, u1, c1)"
    "stage_create ops run (u1, c1) = (True, u2, c2)" "stage_start ops run (u2, c2) = (True, u3, c3)" "is_running c'"
    using assms(2) by (auto simp: setup_and_start_def Let_def split: prod.splits if_splits)
  obtain d1 where d1: "guest_returned ops run ENTRY_VA [ishell_obj, ishell_obj, 0x001FFFD0] c u1 d1"
    "c1 = d1\<lparr>pModule := gload ops u1 0x001FFFD0 (pModule d1)\<rparr>" using stages_ok(1) [OF assms(1) s(1)] by blast
  obtain d2 where d2: "guest_returned ops run (gget32 ops u1 (gget32 ops u1 (pModule c1) + 8))
      [pModule c1, ishell_obj, ZEETRIS_CLSID, 0x001FFFD4] c1 u2 d2"
    "c2 = d2\<lparr>pApplet := gload ops u2 0x001FFFD4 (pApplet d2),
        handle_event_va := gload ops u2 (gload ops u2 0x001FFFD4 (pApplet d2) + 0x18) (handle_event_va d2)\<rparr>"
    using stages_ok(2) [OF assms(1) s(2)] by blast
  have d3: "guest_returned ops run (handle_event_va c2) [pApplet c2, 1, 0, 0] c2 u3 c3" by (rule stages_ok(3) [OF assms(1) s(3)])
  show ?thesis unfolding Let_def
    by (intro conjI s(4) exI [of _ u1] exI [of _ d1] exI [of _ u2] exI [of _ d2] exI [of _ u3] exI [of _ c3])
       (use d1(1) d2(1) d3 in \<open>simp_all add: d1(2) d2(2)\<close>)
qed

text \<open>An engine that returns at once: every call ends at the sentinel.\<close>

definition return_at_once :: "u32 \<Rightarrow> (arm \<times> paged) \<times> unit zeetris_context \<Rightarrow> uc_err \<times> (arm \<times> paged) \<times> unit zeetris_context" where
  "return_at_once start s = (UC_ERR_OK, uc_reg_write full_ops (fst s) UC_PC RETURN_SENTINEL, snd s)"

lemma return_at_once_completes: "completed_at_return_sentinel full_ops (uc_reg_write full_ops u UC_PC RETURN_SENTINEL) UC_ERR_OK"
  by (simp add: completed_at_return_sentinel_def uc_reg_simps full_regs_ok)

theorem start_makes_three_calls_witness:
  "\<exists>uc' c' u1 c1. setup_and_start full_ops False False False return_at_once (Some demo_tables_engine, zeetris_context_init ()) = (True, uc', c') \<and>
     is_running c' \<and> guest_returned full_ops return_at_once ENTRY_VA [ishell_obj, ishell_obj, 0x001FFFD0] (zeetris_context_init ()) u1 c1"
proof -
  obtain ok uc' c' where s: "setup_and_start full_ops False False False return_at_once (Some demo_tables_engine, zeetris_context_init ()) = (ok, uc', c')"
    by (metis surj_pair)
  moreover have ok using s
    by (auto simp: setup_and_start_def stage_load_def stage_create_def stage_start_def return_at_once_def
        return_at_once_completes Let_def split: prod.splits if_splits)
  ultimately have s': "setup_and_start full_ops False False False return_at_once (Some demo_tables_engine, zeetris_context_init ()) = (True, uc', c')"
    by simp
  from start_makes_three_calls [OF full_regs_ok s'] show ?thesis using s' unfolding Let_def by blast
qed

text \<open>
  Before a start has succeeded, key events and frames run no guest code and change nothing. A key event of a
  running game enters the applet's handler with the applet, the press (0x100) or release (0x101) event and the
  key in r0 to r2, and is reported as consumed exactly when the handler came back to the sentinel without error
  and returned 1.
\<close>

theorem key_event_reaches_handler:
  assumes "uc_regs_ok ops" "dispatch_key ops run key pressed (Some u, c) = (r, uc', c')"
  shows "\<not> is_running c \<Longrightarrow> \<not> r \<and> uc' = Some u \<and> c' = c \<and> step_frame ops no_patch run (Some u, c) = (False, Some u, c)"
    and "is_running c \<Longrightarrow> \<exists>u0 e u1. run (handle_event_va c) (u0, c) = (e, u1, c') \<and> uc' = Some u1 \<and>
      uc_reg_read ops u0 (UC_R 0) = pApplet c \<and> uc_reg_read ops u0 (UC_R 1) = (if pressed then 0x100 else 0x101) \<and>
      uc_reg_read ops u0 (UC_R 2) = key \<and> uc_reg_read ops u0 UC_LR = RETURN_SENTINEL \<and>
      (r \<longleftrightarrow> e = UC_ERR_OK \<and> uc_reg_read ops u1 UC_PC AND NOT 1 = 0xF0F0F0F0 \<and> uc_reg_read ops u1 (UC_R 0) = 1)"
proof -
  show "\<not> is_running c \<Longrightarrow> \<not> r \<and> uc' = Some u \<and> c' = c \<and> step_frame ops no_patch run (Some u, c) = (False, Some u, c)"
    using assms(2) by (auto simp: dispatch_key_def step_frame_def)
  assume running: "is_running c"
  let ?args = "[pApplet c, key_event pressed, key, 0]"
  let ?u = "set_frame ops (set_args ops ?args u)"
  obtain e u1 c1 where x: "run (handle_event_va c) (?u, c) = (e, u1, c1)" by (metis surj_pair)
  have regs: "uc_reg_read ops ?u (UC_R 0) = pApplet c" "uc_reg_read ops ?u (UC_R 1) = key_event pressed"
    "uc_reg_read ops ?u (UC_R 2) = key"
    using set_args_regs [OF assms(1), of ?args u] by (simp_all add: set_frame_regs [OF assms(1)])
  have "RETURN_SENTINEL AND NOT 1 = 0xF0F0F0F0" by (simp add: RETURN_SENTINEL_def)
  moreover have "r \<longleftrightarrow> completed_at_return_sentinel ops u1 e \<and> uc_reg_read ops u1 (UC_R 0) = 1" "uc' = Some u1" "c' = c1"
    using assms(2) running x by (auto simp: dispatch_key_def)
  ultimately show "\<exists>u0 e u1. run (handle_event_va c) (u0, c) = (e, u1, c') \<and> uc' = Some u1 \<and>
      uc_reg_read ops u0 (UC_R 0) = pApplet c \<and> uc_reg_read ops u0 (UC_R 1) = (if pressed then 0x100 else 0x101) \<and>
      uc_reg_read ops u0 (UC_R 2) = key \<and> uc_reg_read ops u0 UC_LR = RETURN_SENTINEL \<and>
      (r \<longleftrightarrow> e = UC_ERR_OK \<and> uc_reg_read ops u1 UC_PC AND NOT 1 = 0xF0F0F0F0 \<and> uc_reg_read ops u1 (UC_R 0) = 1)"
    using x regs set_frame_regs(1) [OF assms(1)]
    by (intro exI [of _ ?u] exI [of _ e] exI [of _ u1]) (simp add: completed_at_return_sentinel_def key_event_def)
qed

theorem key_event_reaches_handler_witness:
  "\<exists>r uc' c' u0 e u1. dispatch_key full_ops return_at_once 0xE035 True
       (Some demo_tables_engine, (zeetris_context_init ())\<lparr>is_running := True\<rparr>) = (r, uc', c') \<and>
     return_at_once 0 (u0, (zeetris_context_init ())\<lparr>is_running := True\<rparr>) = (e, u1, c') \<and>
     uc_reg_read full_ops u0 (UC_R 1) = 0x100 \<and> uc_reg_read full_ops u0 (UC_R 2) = 0xE035"
proof -
  let ?c = "(zeetris_context_init ())\<lparr>is_running := True\<rparr>"
  obtain r uc' c' where d: "dispatch_key full_ops return_at_once 0xE035 True (Some demo_tables_engine, ?c) = (r, uc', c')"
    by (metis surj_pair)
  have "is_running ?c" "handle_event_va ?c = 0" by (simp_all add: zeetris_context_init_def)
  with key_event_reaches_handler(2) [OF full_regs_ok d] d show ?thesis
    by (metis (full_types))
qed

end
