(* ===== verification/Brew_Ishell.thy ===== *)
theory Brew_Ishell
  imports Zeetris_Runner
begin

text \<open>
  \<open>tools/cpp/zeebo_brew_ishell.h\<close>: the minimal shell object whose method table consists of sentinels, with the
  decoding of a sentinel back to its slot; and \<open>zeebo_cli_paths.h\<close>: the assignment of the positional arguments
  of the command line to the firmware files.
\<close>

section \<open>The shell environment\<close>

record ishell_env =
  env_obj_va :: u32
  env_vtable_va :: u32
  env_sentinel_va :: u32
  env_region_base :: u32
  env_region_size :: u32
  env_sent_base :: u32
  env_sent_size :: u32
  env_num_slots :: u32

definition ishell_env_init :: ishell_env where
  "ishell_env_init = \<lparr>env_obj_va = 0x40000000, env_vtable_va = 0x40001000, env_sentinel_va = 0x50000000,
     env_region_base = 0x40000000, env_region_size = 0x00010000, env_sent_base = 0x50000000,
     env_sent_size = 0x00010000, env_num_slots = 64\<rparr>"

text \<open>The table loop, which stops at the first write that fails.\<close>

fun install_slots :: "'u uc_ops \<Rightarrow> ishell_env \<Rightarrow> nat list \<Rightarrow> 'u \<Rightarrow> bool \<times> 'u" where
  "install_slots ops env [] u = (True, u)"
| "install_slots ops env (i # is) u =
     (let (e, u) = uc_mem_write ops u (ucast (env_vtable_va env + of_nat i * 4)) (le32_bytes (env_sentinel_va env + of_nat i * 4))
      in if e \<noteq> UC_ERR_OK then (False, u) else install_slots ops env is u)"

definition ishell_install :: "'u uc_ops \<Rightarrow> ishell_env \<Rightarrow> 'u option \<Rightarrow> u32 \<times> 'u option" where
  "ishell_install ops env uc =
     (case uc of None \<Rightarrow> (0, None)
      | Some u \<Rightarrow>
          let (e, u) = uc_mem_map ops u (ucast (env_region_base env)) (ucast (env_region_size env)) 7 in
          if e \<noteq> UC_ERR_OK then (0, Some u)
          else
            let (e, u) = uc_mem_map ops u (ucast (env_sent_base env)) (ucast (env_sent_size env)) 7 in
            if e \<noteq> UC_ERR_OK then (0, Some u)
            else
              let (e, u) = uc_mem_write ops u (ucast (env_obj_va env)) (le32_bytes (env_vtable_va env)) in
              if e \<noteq> UC_ERR_OK then (0, Some u)
              else
                let (ok, u) = install_slots ops env [0..<unat (env_num_slots env)] u
                in (if ok then env_obj_va env else 0, Some u))"

definition slot_of :: "ishell_env \<Rightarrow> u32 \<Rightarrow> int" where
  "slot_of env pc =
     (if pc < env_sentinel_va env \<or> pc \<ge> env_sentinel_va env + env_num_slots env * 4 then -1
      else sint ((pc - env_sentinel_va env) div 4))"

lemma install_slots_mem:
  assumes "uc_mem_ok ops mem"
  shows "install_slots ops env is u = (True, u') \<Longrightarrow>
    (\<And>i. i \<in> set is \<Longrightarrow> unat (env_vtable_va env + of_nat i * 4) = unat (env_vtable_va env) + 4 * i) \<Longrightarrow> distinct is \<Longrightarrow>
    (\<forall>i \<in> set is. holds (mem u') (unat (env_vtable_va env) + 4 * i) (le32_bytes (env_sentinel_va env + of_nat i * 4))) \<and>
    (\<forall>a bs. (\<forall>i \<in> set is. a + length bs \<le> unat (env_vtable_va env) + 4 * i \<or> unat (env_vtable_va env) + 4 * i + 4 \<le> a) \<longrightarrow>
       holds (mem u') a bs = holds (mem u) a bs)"
proof (induction "is" arbitrary: u)
  case (Cons i "is")
  let ?a = "env_vtable_va env + of_nat i * 4" and ?w = "le32_bytes (env_sentinel_va env + of_nat i * 4)"
  obtain e u1 where w: "uc_mem_write ops u (ucast ?a) ?w = (e, u1)" by fastforce
  have e: "e = UC_ERR_OK" "install_slots ops env is u1 = (True, u')"
    using Cons.prems(1) w by (auto split: if_splits)
  have m: "mem u1 = overlay (mem u) (unat (env_vtable_va env) + 4 * i) ?w"
    using mem_write_ok(2) [OF assms w] e(1) Cons.prems(2) [of i] by simp
  have IH: "\<forall>i \<in> set is. holds (mem u') (unat (env_vtable_va env) + 4 * i) (le32_bytes (env_sentinel_va env + of_nat i * 4))"
    "\<And>a bs. \<forall>i \<in> set is. a + length bs \<le> unat (env_vtable_va env) + 4 * i \<or> unat (env_vtable_va env) + 4 * i + 4 \<le> a \<Longrightarrow>
       holds (mem u') a bs = holds (mem u1) a bs"
    using Cons.IH [OF e(2)] Cons.prems(2,3) by auto
  have "holds (mem u') (unat (env_vtable_va env) + 4 * i) ?w"
  proof -
    have "holds (mem u') (unat (env_vtable_va env) + 4 * i) ?w = holds (mem u1) (unat (env_vtable_va env) + 4 * i) ?w"
    proof (rule IH(2), intro ballI)
      fix j assume "j \<in> set is"
      then have "j < i \<or> i < j" using Cons.prems(3) by (metis distinct.simps(2) linorder_neqE_nat)
      then show "unat (env_vtable_va env) + 4 * i + length ?w \<le> unat (env_vtable_va env) + 4 * j \<or>
          unat (env_vtable_va env) + 4 * j + 4 \<le> unat (env_vtable_va env) + 4 * i" by auto
    qed
    then show ?thesis by (simp add: m)
  qed
  moreover have "holds (mem u') a bs = holds (mem u) a bs"
    if "\<forall>j \<in> set (i # is). a + length bs \<le> unat (env_vtable_va env) + 4 * j \<or> unat (env_vtable_va env) + 4 * j + 4 \<le> a" for a bs
  proof -
    have "holds (mem u') a bs = holds (mem u1) a bs" using that by (intro IH(2)) simp
    also have "... = holds (mem u) a bs" unfolding m using that by (intro holds_frame) simp
    finally show ?thesis .
  qed
  ultimately show ?case using IH(1) by simp
qed simp

lemma ishell_installD:
  assumes "ishell_install ops env (Some u) = (p, Some u')" "p \<noteq> 0"
  shows "\<exists>u2 u3. uc_mem_write ops u2 (ucast (env_obj_va env)) (le32_bytes (env_vtable_va env)) = (UC_ERR_OK, u3) \<and>
    install_slots ops env [0..<unat (env_num_slots env)] u3 = (True, u') \<and> p = env_obj_va env"
proof -
  obtain e1 u1 where 1: "uc_mem_map ops u (ucast (env_region_base env)) (ucast (env_region_size env)) 7 = (e1, u1)" by fastforce
  obtain e2 u2 where 2: "uc_mem_map ops u1 (ucast (env_sent_base env)) (ucast (env_sent_size env)) 7 = (e2, u2)" by fastforce
  obtain e3 u3 where 3: "uc_mem_write ops u2 (ucast (env_obj_va env)) (le32_bytes (env_vtable_va env)) = (e3, u3)" by fastforce
  obtain ok u4 where 4: "install_slots ops env [0..<unat (env_num_slots env)] u3 = (ok, u4)" by fastforce
  have "ok" "u' = u4" "e3 = UC_ERR_OK" "p = env_obj_va env"
    using assms 1 2 3 4 by (simp_all add: ishell_install_def split: if_splits)
  then show ?thesis using 3 4 by (intro exI [of _ u2] exI [of _ u3]) simp
qed

text \<open>
  A successful installation gives the guest a shell object whose word points to the table, and reaching entry
  \<open>i\<close> of the table is decoded to slot \<open>i\<close>.
\<close>

lemma ishell_slots_roundtrip:
  assumes "uc_mem_ok ops mem" "ishell_install ops ishell_env_init (Some u) = (p, Some u')" "p \<noteq> 0" "i < 64"
  shows "p = 0x40000000" "holds (mem u') 0x40000000 (le32_bytes 0x40001000)"
    and "holds (mem u') (0x40001000 + 4 * i) (le32_bytes (0x50000000 + of_nat i * 4))"
    and "slot_of ishell_env_init (0x50000000 + of_nat i * 4) = int i"
proof -
  let ?env = ishell_env_init
  have vt: "unat (env_vtable_va ?env + of_nat j * 4) = unat (env_vtable_va ?env) + 4 * j" if "j < 64" for j
    using that by (intro unat_add_words) (simp add: ishell_env_init_def)
  obtain u2 u3 where s: "uc_mem_write ops u2 (ucast (env_obj_va ?env)) (le32_bytes (env_vtable_va ?env)) = (UC_ERR_OK, u3)"
    "install_slots ops ?env [0..<unat (env_num_slots ?env)] u3 = (True, u')" "p = env_obj_va ?env"
    using ishell_installD [OF assms(2,3)] by blast
  show "p = 0x40000000" using s(3) by (simp add: ishell_env_init_def)
  have n: "[0..<unat (env_num_slots ?env)] = [0..<64]" by (simp add: ishell_env_init_def)
  have "holds (mem u3) 0x40000000 (le32_bytes 0x40001000)"
    using mem_write_ok(2) [OF assms(1) s(1)] by (simp add: ishell_env_init_def)
  moreover have r: "(\<forall>i \<in> set [0..<64]. holds (mem u') (unat (env_vtable_va ?env) + 4 * i) (le32_bytes (env_sentinel_va ?env + of_nat i * 4))) \<and>
    (\<forall>a bs. (\<forall>i \<in> set [0..<64]. a + length bs \<le> unat (env_vtable_va ?env) + 4 * i \<or> unat (env_vtable_va ?env) + 4 * i + 4 \<le> a) \<longrightarrow>
       holds (mem u') a bs = holds (mem u3) a bs)"
    using install_slots_mem [OF assms(1) s(2) [unfolded n]] vt by (simp only: set_upt atLeastLessThan_iff distinct_upt) blast
  ultimately show "holds (mem u') 0x40000000 (le32_bytes 0x40001000)" by (simp add: ishell_env_init_def)
  show "holds (mem u') (0x40001000 + 4 * i) (le32_bytes (0x50000000 + of_nat i * 4))"
    using conjunct1 [OF r] assms(4) by (simp add: ishell_env_init_def)
  have a: "unat (0x50000000 + of_nat i * 4 :: u32) = 0x50000000 + 4 * i" using assms(4) by (simp add: unat_add_words)
  have "(0x50000000 + of_nat i * 4 - 0x50000000 :: u32) div 4 = of_nat i"
    using sentinel_slot(2) [of i If_Shell] assms(4) by simp
  moreover have "sint (of_nat i :: u32) = int i" 
    using assms(4) by (simp add: signed_of_nat signed_take_bit_int_eq_self)
  ultimately show "slot_of ?env (0x50000000 + of_nat i * 4) = int i"
    using assms(4) by (simp add: slot_of_def ishell_env_init_def word_less_nat_alt word_le_nat_alt a)
qed

section \<open>Positional arguments\<close>

record cli_firmware_paths =
  cli_nand :: string
  cli_apps :: string
  cli_amss :: string
  cli_surplus :: bool

definition assign_positional :: "string list \<Rightarrow> nat \<Rightarrow> cli_firmware_paths \<Rightarrow> cli_firmware_paths" where
  "assign_positional ps idx p =
     (if idx = 0 then p\<lparr>cli_nand := ps ! idx\<rparr> else if idx = 1 then p\<lparr>cli_apps := ps ! idx\<rparr>
      else if idx = 2 then p\<lparr>cli_amss := ps ! idx\<rparr> else p\<lparr>cli_surplus := True\<rparr>)"

definition resolve_cli_firmware_paths :: "string list \<Rightarrow> string \<Rightarrow> string \<Rightarrow> string \<Rightarrow> cli_firmware_paths" where
  "resolve_cli_firmware_paths ps def_nand def_apps def_amss =
     fold (assign_positional ps) [0..<length ps]
       \<lparr>cli_nand = def_nand, cli_apps = def_apps, cli_amss = def_amss, cli_surplus = False\<rparr>"

text \<open>Every slot is filled by position, whatever the strings are; a missing one keeps its default.\<close>

lemma resolve_cli_by_position:
  "resolve_cli_firmware_paths ps dn da dm =
     \<lparr>cli_nand = (if 0 < length ps then ps ! 0 else dn), cli_apps = (if 1 < length ps then ps ! 1 else da),
      cli_amss = (if 2 < length ps then ps ! 2 else dm), cli_surplus = (3 < length ps)\<rparr>"
proof -
  have "fold (assign_positional ps) [0..<n] \<lparr>cli_nand = dn, cli_apps = da, cli_amss = dm, cli_surplus = False\<rparr> =
     \<lparr>cli_nand = (if 0 < n then ps ! 0 else dn), cli_apps = (if 1 < n then ps ! 1 else da),
      cli_amss = (if 2 < n then ps ! 2 else dm), cli_surplus = (3 < n)\<rparr>" for n
    by (induction n) (auto simp: assign_positional_def less_Suc_eq)
  then show ?thesis by (simp add: resolve_cli_firmware_paths_def)
qed

end
