(* ===== verification/Zeetris_Host.thy ===== *)
theory Zeetris_Host
  imports Brew_Ishell
begin

text \<open>
  The host's side of the game runner in \<open>tools/cpp/zeebo_lle_main.cpp\<close>: loading the module, the button mask that
  key events maintain, and the source of the audio device.
\<close>

definition avk_to_platform_bit :: "u32 \<Rightarrow> u16" where
  "avk_to_platform_bit avk =
     (if avk = 0xE031 then 0x001 else if avk = 0xE032 then 0x002 else if avk = 0xE033 then 0x004
      else if avk = 0xE034 then 0x008 else if avk = 0xE022 then 0x010 else if avk = 0xE023 then 0x020
      else if avk = 0xE02E then 0x080 else if avk = 0xE026 then 0x200 else 0)"

text \<open>The lambda \<open>set_btn\<close>; the second component is the largest mask seen.\<close>

definition set_btn :: "u32 \<Rightarrow> bool \<Rightarrow> 'g zeetris_context \<times> u16 \<Rightarrow> 'g zeetris_context \<times> u16" where
  "set_btn avk pressed s =
     (let (c, peak) = s; b = avk_to_platform_bit avk in
      if b = 0 then s
      else if pressed then
        let c = c\<lparr>platform_buttons := platform_buttons c OR b\<rparr>
        in (c, if platform_buttons c > peak then platform_buttons c else peak)
      else (c\<lparr>platform_buttons := platform_buttons c AND NOT b\<rparr>, peak))"

definition load_zeetris_applet ::
    "'u uc_ops \<Rightarrow> host_fs \<Rightarrow> bool \<Rightarrow> bool \<Rightarrow> bool \<Rightarrow>
     (u32 \<Rightarrow> 'u \<times> 'g zeetris_context \<Rightarrow> uc_err \<times> 'u \<times> 'g zeetris_context) \<Rightarrow> string \<Rightarrow> 'g \<Rightarrow>
     'u option \<times> 'g zeetris_context \<times> bool \<Rightarrow> bool \<times> 'u option \<times> 'g zeetris_context \<times> bool" where
  "load_zeetris_applet ops fs no_patch synth no_ctx run mod_path g s =
     (case s of
        (None, c, armed) \<Rightarrow> (False, s)
      | (Some u, c, armed) \<Rightarrow>
          let bytes = load_file fs mod_path in
          if bytes = [] then (False, s)
          else if \<not> is_zeetris_mod bytes then (False, s)
          else
            let sz = (of_nat (length bytes) :: u32);
                aligned_size = (sz + 0xFFF) AND NOT 0xFFF;
                u = snd (uc_mem_map ops u (ucast LOAD_VA) (ucast aligned_size) 7);
                u = gput ops LOAD_VA bytes u;
                (ok, uc, c) = setup_and_start ops no_patch synth no_ctx run (Some u, zeetris_context_init g)
            in (ok, uc, c, armed \<or> ok))"

text \<open>The pull callback of the audio device: \<open>frames\<close> stereo frames from position \<open>pos\<close> of the samples.\<close>

fun audio_pull :: "u16 list \<Rightarrow> nat \<Rightarrow> nat \<Rightarrow> u16 list \<times> nat" where
  "audio_pull samples pos 0 = ([], pos)"
| "audio_pull samples pos (Suc frames) =
     (if pos < length samples then
        let l = samples ! pos; pos = pos + 1;
            (r, pos) = (if pos < length samples then (samples ! pos, pos + 1) else (l, pos));
            (out, pos) = audio_pull samples pos frames
        in (l # r # out, pos)
      else let (out, pos) = audio_pull samples pos frames in (0 # 0 # out, pos))"

section \<open>Buttons\<close>

text \<open>Whether the key of bit \<open>k\<close> is held after a sequence of key events: the last event of it counts.\<close>

fun held :: "nat \<Rightarrow> (u32 \<times> bool) list \<Rightarrow> bool \<Rightarrow> bool" where
  "held k [] h = h"
| "held k ((avk, p) # evs) h = held k evs (if bit (avk_to_platform_bit avk) k then p else h)"

definition press_all :: "(u32 \<times> bool) list \<Rightarrow> 'g zeetris_context \<times> u16 \<Rightarrow> 'g zeetris_context \<times> u16" where
  "press_all evs s = fold (\<lambda>(avk, p). set_btn avk p) evs s"

lemma set_btn_bit:
  "bit (platform_buttons (fst (set_btn avk p s))) k =
    (if bit (avk_to_platform_bit avk) k then p else bit (platform_buttons (fst s)) k)"
proof (cases "avk_to_platform_bit avk = 0")
  case True
  then show ?thesis by (simp add: set_btn_def split: prod.split)
next
  case False
  then show ?thesis by (cases s) (auto simp: set_btn_def Let_def bit_simps dest: bit_imp_le_length)
qed

lemma press_all_bit: "bit (platform_buttons (fst (press_all evs s))) k = held k evs (bit (platform_buttons (fst s)) k)"
proof (induction evs arbitrary: s)
  case (Cons e evs)
  obtain avk p where e: "e = (avk, p)" by fastforce
  have "press_all (e # evs) s = press_all evs (set_btn avk p s)" by (simp add: press_all_def e)
  then show ?case by (simp only: Cons.IH e held.simps set_btn_bit)
qed (simp add: press_all_def)

text \<open>
  C22: the game sees the keys that are held: after any sequence of key events the value its button poll returns
  in r0 has bit \<open>k\<close> set exactly when the last event of a key with that bit was a press, and no other bits.
\<close>

theorem poll_returns_held_keys:
  assumes "uc_regs_ok ops" "press_all evs (zeetris_context_init g, 0) = (c, peak)"
  shows "bit (uc_reg_read ops (fst (zeetris_hooks ops fs igl False 0x1200c3e4 (u, c))) (UC_R 0)) k \<longleftrightarrow> k < 16 \<and> held k evs False"
proof -
  have "zeetris_hooks ops fs igl False 0x1200c3e4 (u, c) = hook_poll_return ops (u, c)"
    by (simp add: zeetris_hooks_def hook_range_def MALLOC_STUB_VA_def GETUPTIME_VA_def)
  then have "uc_reg_read ops (fst (zeetris_hooks ops fs igl False 0x1200c3e4 (u, c))) (UC_R 0) = ucast (platform_buttons c)"
    using assms(1) by (simp add: hook_poll_return_def uc_reg_simps)
  moreover have "bit (platform_buttons c) k = held k evs False"
    using press_all_bit [of evs "(zeetris_context_init g, 0)" k] assms(2) by (simp add: zeetris_context_init_def)
  ultimately show ?thesis by (auto simp: bit_ucast_iff dest: bit_imp_le_length)
qed

theorem poll_returns_held_keys_witness:
  "bit (uc_reg_read full_ops (fst (zeetris_hooks full_ops (\<lambda>_. None) None False 0x1200c3e4
      (demo_engine, fst (press_all [(0xE031, True), (0xE033, True), (0xE031, False)] (zeetris_context_init (), 0))))) (UC_R 0)) 2"
proof -
  let ?e = "[(0xE031, True), (0xE033, True), (0xE031, False)] :: (u32 \<times> bool) list"
  obtain c peak where c: "press_all ?e (zeetris_context_init (), 0) = (c, peak)" by fastforce
  have "held 2 ?e False" by (simp add: avk_to_platform_bit_def)
  with poll_returns_held_keys [OF full_regs_ok c, of "\<lambda>_. None" None demo_engine 2] show ?thesis by (simp add: c)
qed

section \<open>Sound\<close>

text \<open>
  The callback ignores the number of channels: \<open>n\<close> frames consume \<open>2 * n\<close> samples, so a mono sound is heard as
  stereo at twice its speed.
\<close>

lemma audio_pull_ignores_channels:
  "pos + 2 * n \<le> length samples \<Longrightarrow> audio_pull samples pos n = (take (2 * n) (drop pos samples), pos + 2 * n)"
proof (induction n arbitrary: pos)
  case (Suc n)
  have "drop pos samples = samples ! pos # samples ! (pos + 1) # drop (pos + 2) samples"
    using Suc.prems by (simp add: Cons_nth_drop_Suc)
  moreover have "audio_pull samples (pos + 2) n = (take (2 * n) (drop (pos + 2) samples), pos + 2 + 2 * n)"
    using Suc.prems by (intro Suc.IH) simp
  ultimately show ?case using Suc.prems by simp
qed simp

end
