(* ===== verification/Spec2Isabelle.thy ===== *)
theory Spec2Isabelle
  imports Peripheral_Bus Proc_Comm Partition_Read L4_Thread Space_Switch L4_Ipc Brew_Mif Bootinfo
    Efs2_Fs Pm4_Walker Atitc_Decode Save_State Video_Mmio Brew_Timer Module_Gate Dsp_Feed
    Elf_Loader Host_Mappings Dd1a_Diag Control_Server Igl_Bridge Zeetris_Host
begin

text \<open>
  A verification development for the low-level emulator of the Zeebo console, \<open>src/tools/cpp\<close>.

  \<^bold>\<open>The program.\<close> The emulator runs the two ARM cores of the console (core 0 the applications processor
  with the OKL4 kernel and BREW, core 1 the modem) under a CPU emulation library and supplies what
  surrounds them: the interrupt controller, the timer and their bus; the flash controller and its data
  mover; the display and GPU registers; the kernel services that the emulator implements itself (threads,
  MapControl, address spaces, IPC registry); the message channels between the cores and to the audio DSP;
  the parsers for the file formats of the console; the loader and the gate that decide whether a game was
  executed; and save states. \<open>zeebo_lle_main.cpp\<close> connects these parts by hooks.

  \<^bold>\<open>Theories and sources.\<close> Each theory opens with a description of its own.
  \<^item> \<open>Zeebo_Prelude\<close>: machine words, bits, little-endian bytes. \<open>Machine_Runs\<close>: runs of a machine and the
    locale \<open>machine_inv\<close> for invariants of runs. \<open>Std_Map\<close>: \<open>std::map\<close> as an ordered association list.
    \<open>Byte_Reader\<close>: reads that are undefined outside their buffer.
  \<^item> \<open>Uc_Engine\<close>, \<open>Guest_Memory\<close>: the CPU library as a record of entry points, a parameter of every
    definition that calls it, with the documented laws of its registers (\<open>uc_regs_ok\<close>) and memory
    (\<open>uc_mem_ok\<close>) as hypotheses and a concrete engine for each law. \<open>Arm_Engine\<close>: both laws together
    (\<open>uc_ok\<close>) and an engine that has registers and memory.
  \<^item> \<open>Gpt_Timer\<close> (\<open>zeebo_gpt_timer.h\<close>), \<open>Vic_Irq\<close> (\<open>zeebo_vic_irq.h\<close>), \<open>Peripheral_Bus\<close>
    (\<open>zeebo_peripheral_bus.h\<close>): the timer as a wrapping counter with a compare value, the controller as
    bit masks refining sets of lines, and the bus that decodes guest accesses to both.
  \<^item> \<open>Proc_Comm\<close> (\<open>zeebo_proccomm.h\<close>): the command block between the cores.
  \<^item> \<open>Nand_Controller\<close>, \<open>Dmov\<close> (\<open>zeebo_devices.h\<close>), \<open>Partition_Read\<close> (\<open>zeebo_partition.cpp\<close>): flash pages
    from the dump through registers and descriptor lists into guest memory, up to a whole partition.
    \<open>Elf_Loader\<close> (\<open>zeebo_nand_relocator.cpp\<close>, \<open>zeebo_elf.cpp\<close>): the ELF image read from there and loaded.
  \<^item> \<open>Host_Mappings\<close> (\<open>zeebo_uc_exec.h\<close>, \<open>zeebo_shared_memory.h\<close>): executable ranges and memory shared by
    the two cores. \<open>Probe_Registry\<close> (\<open>zeebo_probe_registry.h\<close>): diagnostics of the control server.
    \<open>Dd1a_Diag\<close> (\<open>zeebo_dd1a_diag.h\<close>): the assisted start of one game.
    \<open>Control_Server\<close> (\<open>zeebo_control_server.h\<close>): the control protocol. \<open>Std_String\<close>: string searches.
  \<^item> \<open>L4_Thread\<close> (\<open>zeebo_l4_thread.h\<close>), \<open>L4_Ipc\<close> (\<open>zeebo_l4_ipc.h\<close>), \<open>L4_Mmu\<close>, \<open>Space_Manager\<close>,
    \<open>Space_Switch\<close> (\<open>zeebo_l4_mmu.h\<close>): the kernel services.
  \<^item> \<open>Bootinfo\<close>, \<open>Brew_Mif\<close>, \<open>Efs2_Guard\<close>, \<open>Efs2_Fs\<close>, \<open>Pm4_Walker\<close>, \<open>Atitc_Decode\<close>: the formats
    (\<open>zeebo_bootinfo.h\<close>, \<open>zeebo_brew_mif.h\<close>, \<open>zeebo_efs2_module_guard.h\<close>, \<open>zeebo_efs2_fs.h\<close>,
    \<open>gpu/pm4_adreno.h\<close>, \<open>gpu/atitc_decode.h\<close>).
  \<^item> \<open>Brew_Loader\<close> (\<open>zeebo_brew_loader.h\<close>), \<open>Module_Gate\<close> (\<open>zeebo_module_gate.h\<close>,
    \<open>zeebo_applet_dispatch.h\<close>, \<open>zeebo_zeetris_lifecycle.h\<close>, \<open>zeebo_slide_detector.h\<close>), \<open>Brew_Timer\<close>
    (\<open>zeebo_brew_timer.h\<close>): loading, dispatching and judging applets.
  \<^item> \<open>Smd_Bridge\<close> (\<open>zeebo_smd_bridge_unified.h\<close>, \<open>zeebo_smd_bridge.cpp\<close>), \<open>Qdsp5\<close> (\<open>qdsp5/\<close>,
    \<open>zeebo_audio_sink.h\<close>): the packet queue of the modem and the audio DSP's command plane. \<open>Dsp_Feed\<close>
    (\<open>qdsp5/qdsp5_capture_hook.h\<close>, \<open>qdsp5_doorbell_probe.h\<close>, and the part of \<open>c1_code_hook\<close> in
    \<open>zeebo_lle_main.cpp\<close> that feeds the dispatcher) composes the two.
  \<^item> \<open>Video_Mmio\<close> (\<open>zeebo_video_mmio.h\<close>), \<open>Save_State\<close> (\<open>zeebo_save_state.h\<close>).
  \<^item> \<open>Wav_Audio\<close>, \<open>Zeetris_Files\<close>, \<open>Zeetris_Shell\<close>, \<open>Zeetris_Runner\<close> (\<open>zeebo_zeetris_runner.h\<close>): the runner
    that gives one game its environment: sound files; the file manager; display, allocator and shell; the
    interface tables, the trap that serves their methods, the start sequence and the key and frame calls.
    \<open>Brew_Ishell\<close> (\<open>zeebo_brew_ishell.h\<close>, \<open>zeebo_cli_paths.h\<close>): the environment other applets get, and the
    paths from the command line. \<open>Zeetris_Host\<close> (parts of \<open>zeebo_lle_main.cpp\<close>): the keyboard and the poll.
  \<^item> \<open>Igl_Hook\<close> (\<open>gpu/igl_hook.h\<close>, \<open>gpu/igl_hook.cpp\<close>, \<open>gpu/igpu_rasterizer.h\<close>): the graphics calls as state
    changes and calls of a rasterizer. \<open>Igl_Bridge\<close> (\<open>gpu/igl_guest_bridge.h\<close>): the guest's method table found,
    bound and called. \<open>Gpu_Types\<close>: the kinds of primitives, shared with \<open>Pm4_Walker\<close>.

  \<^bold>\<open>Correspondence.\<close> A class is a record of its members, a method a function from the state to its result
  and the new state, an \<open>enum\<close> a datatype, \<open>uint32_t\<close> the type \<open>u32\<close> of 32-bit words. A null pointer is
  \<open>None\<close>. Console output is left out. Host files are byte lists. Floating-point volumes are a type
  parameter. The graphics calls take the operations of single precision as parameters; the runner takes the
  host's files, its environment variables and the library's run of guest code as parameters.

  \<^bold>\<open>What the lemmas show.\<close> Context switches, save states, directory scans and the BootInfo block are round
  trips; interrupt delivery follows the architecture and is not re-entrant; timers fire at a slice known in
  advance; the modem handshake reports no fabricated completion; flash data reaches guest memory
  unchanged; MapControl gives exactly the requested rights, and a space switch really changes the backing;
  the packet queue and the interrupt controller refine their abstract specifications, the answers of each
  operation included; parsers and decoders never read outside their input (their reads are partial functions)
  and return what was encoded; the loader places a module, agrees with the guard that accepted it except where
  a branch leaves the address space, and the gate confirms execution only of such a module; an ELF image is loaded byte
  for byte and its headers are read only inside the page or file that holds them; a range is reported
  executable exactly when each of its bytes is; a shared mapping exists in both cores or in none; the
  diagnostic ring keeps the latest accesses and the trap the first one; a PLAY command
  injected into the modem's queue reaches the mixer with the samples in the memory of core 0; a diagnosis
  reports what the run did and nothing else; the control server answers the lines of a stream however it is cut and loses no request;
  a game reads a host file through the file manager piece by piece and gets its contents; an interface call
  the way compiled code makes it reaches the method, and a start is reported only after its three calls came
  back; the poll returns the keys that are held; a rectangle paints its visible pixels and no others; the
  allocator's blocks do not overlap; a sound file is read chunk by chunk; an indexed draw shows what
  looking up each index shows, a rejected graphics call changes nothing, and matrix scopes restore.

  \<^bold>\<open>Loops.\<close> Loops are structural or have a termination proof. Two loops can run forever in the source and
  are partial functions into \<open>option\<close>: the fpage enumeration, which wraps when the range ends in the last
  page, and the PM4 walk, which recurses into indirect buffers; termination is proved where it holds (the walk returns
  exactly when the buffers it meets are nested to a finite depth), and divergence where it does not. The bounds 16 and 64 of the data mover, 16 of MapControl, 8 of the base
  chain and 4096 of the display list are those of the code.

  \<^bold>\<open>Not modelled.\<close> The rest of the orchestrator \<open>zeebo_lle_main.cpp\<close>, the second CPU backend, the harnesses with a
  \<open>main\<close> of their own, and the socket calls: they are set-up and logging around libraries. The rasterizers
  behind the graphics hook and the audio mixing loop compute with floating-point numbers; hooks that only
  print are left out. The sources under \<open>refs/\<close> are third-party code
  kept for reading.
\<close>

end
